(* ===== verification/Litelink_Prelude.thy ===== *)
theory Litelink_Prelude
  imports Complex_Main
begin

text \<open>
  Shared material of the development: half-open offset ranges, sums over counts that may be
  unknown, reachability of a state machine and the one invariant rule every component uses, and
  list facts about SQL tables (lists of rows in rowid order).
\<close>

subsection \<open>Types shared by the components\<close>

type_synonym offset = int
type_synonym path = string
type_synonym owner = string

named_theorems range_simps \<open>half-open offset ranges\<close>
named_theorems table_simps \<open>SQL tables as lists of rows\<close>
named_theorems unknown_simps \<open>counts that may be unknown\<close>

subsection \<open>Half-open ranges\<close>

definition overlaps :: "offset \<Rightarrow> offset \<Rightarrow> offset \<Rightarrow> offset \<Rightarrow> bool" where
  "overlaps a b c d \<longleftrightarrow> a < d \<and> c < b"

definition in_span :: "offset \<Rightarrow> offset \<Rightarrow> offset \<Rightarrow> bool" where
  "in_span a b x \<longleftrightarrow> a \<le> x \<and> x < b"

subsection \<open>Counts that may be unknown\<close>

text \<open>A count is None when some part lacks it; None absorbs every sum.\<close>

fun opt_add :: "int option \<Rightarrow> int option \<Rightarrow> int option" where
  "opt_add (Some a) (Some b) = Some (a + b)"
| "opt_add None b = None"
| "opt_add (Some a) None = None"

definition opt_max :: "'a::linorder option \<Rightarrow> 'a \<Rightarrow> 'a" where
  "opt_max o1 a = (case o1 of None \<Rightarrow> a | Some b \<Rightarrow> max b a)"

definition opt_min :: "'a::linorder option \<Rightarrow> 'a \<Rightarrow> 'a" where
  "opt_min o1 a = (case o1 of None \<Rightarrow> a | Some b \<Rightarrow> min b a)"

definition list_max :: "'a::linorder list \<Rightarrow> 'a option" where
  "list_max xs = fold (\<lambda>x m. Some (opt_max m x)) xs None"

definition list_min :: "'a::linorder list \<Rightarrow> 'a option" where
  "list_min xs = fold (\<lambda>x m. Some (opt_min m x)) xs None"

subsection \<open>Reachable states and the invariant rule\<close>

inductive reach :: "('s \<Rightarrow> bool) \<Rightarrow> ('s \<Rightarrow> 's \<Rightarrow> bool) \<Rightarrow> 's \<Rightarrow> bool"
  for init :: "'s \<Rightarrow> bool" and step :: "'s \<Rightarrow> 's \<Rightarrow> bool" where
  reach_init: "init s \<Longrightarrow> reach init step s"
| reach_step: "reach init step s \<Longrightarrow> step s t \<Longrightarrow> reach init step t"

inductive steps :: "('s \<Rightarrow> 's \<Rightarrow> bool) \<Rightarrow> 's \<Rightarrow> 's \<Rightarrow> bool"
  for step :: "'s \<Rightarrow> 's \<Rightarrow> bool" where
  steps_refl: "steps step s s"
| steps_step: "steps step s t \<Longrightarrow> step t u \<Longrightarrow> steps step s u"

lemma steps_trans: "steps step t u \<Longrightarrow> steps step s t \<Longrightarrow> steps step s u"
  by (induction rule: steps.induct) (auto intro: steps_step)

lemma steps_first: "step s t \<Longrightarrow> steps step t u \<Longrightarrow> steps step s u"
  by (rule steps_trans) (auto intro: steps.intros)

text \<open>
  The contract of a component that keeps an invariant: it holds at the start and every step keeps
  it. Each component proves the two laws for its own operations and takes the rest from here.
\<close>

locale invariant_machine =
  fixes init :: "'s \<Rightarrow> bool"
    and step :: "'s \<Rightarrow> 's \<Rightarrow> bool"
    and inv :: "'s \<Rightarrow> bool"
  assumes inv_init: "init s \<Longrightarrow> inv s"
    and inv_step: "inv s \<Longrightarrow> step s t \<Longrightarrow> inv t"
begin

lemma inv_reach: "reach init step s \<Longrightarrow> inv s"
  by (induction rule: reach.induct) (auto intro: inv_init inv_step)

lemma inv_steps: "steps step s t \<Longrightarrow> inv s \<Longrightarrow> inv t"
  by (induction rule: steps.induct) (auto intro: inv_step)

lemma reach_steps: "reach init step s \<Longrightarrow> steps step s t \<Longrightarrow> reach init step t"
  by (rotate_tac, induction rule: steps.induct) (auto intro: reach_step)

end

subsection \<open>Lemmas on ranges and unknown counts\<close>

lemma overlaps_commute: "overlaps a b c d = overlaps c d a b"
  by (auto simp: overlaps_def)

lemma overlaps_common [range_simps]:
  "a < b \<Longrightarrow> c < d \<Longrightarrow> overlaps a b c d \<longleftrightarrow> (\<exists>x. in_span a b x \<and> in_span c d x)"
  unfolding overlaps_def in_span_def by (rule iffI, rule exI [of _ "max a c"]) auto

lemma overlapsI: "in_span a b x \<Longrightarrow> in_span c d x \<Longrightarrow> overlaps a b c d"
  by (auto simp: overlaps_def in_span_def)

lemma opt_add_None2 [simp]: "opt_add a None = None"
  by (cases a) auto

lemma opt_add_eq_Some [unknown_simps]:
  "opt_add a b = Some c \<longleftrightarrow> (\<exists>x y. a = Some x \<and> b = Some y \<and> c = x + y)"
  by (cases a; cases b) auto

lemma opt_add_assoc: "opt_add (opt_add a b) c = opt_add a (opt_add b c)"
  by (cases a; cases b; cases c) auto

lemma opt_max_simps [simp]: "opt_max None a = a" "opt_max (Some b) a = max b a"
  by (simp_all add: opt_max_def)

lemma fold_max_Some: "fold (\<lambda>x m. Some (opt_max m x)) xs (Some a) = Some (fold max xs a)"
  by (induction xs arbitrary: a) (simp_all add: max.commute)

lemma list_max_Nil [simp]: "list_max [] = None"
  by (simp add: list_max_def)

lemma list_max_Cons: "list_max (x # xs) = Some (fold max xs x)"
  by (simp add: list_max_def fold_max_Some)

lemma list_max_eq_None [simp]: "list_max xs = None \<longleftrightarrow> xs = []"
  by (cases xs) (auto simp: list_max_Cons)

lemma list_max_Some: "xs \<noteq> [] \<Longrightarrow> list_max xs = Some (Max (set xs))"
  by (cases xs) (simp_all add: list_max_Cons Max.set_eq_fold del: list.set)

lemma list_max_ge: "list_max xs = Some m \<Longrightarrow> x \<in> set xs \<Longrightarrow> x \<le> m"
  by (cases "xs = []") (auto simp: list_max_Some)

lemma list_max_in: "list_max xs = Some m \<Longrightarrow> m \<in> set xs"
  by (cases "xs = []") (auto simp: list_max_Some)

lemma opt_min_simps [simp]: "opt_min None a = a" "opt_min (Some b) a = min b a"
  by (simp_all add: opt_min_def)

lemma fold_min_Some: "fold (\<lambda>x m. Some (opt_min m x)) xs (Some a) = Some (fold min xs a)"
  by (induction xs arbitrary: a) (simp_all add: min.commute)

lemma list_min_Nil [simp]: "list_min [] = None"
  by (simp add: list_min_def)

lemma list_min_Cons: "list_min (x # xs) = Some (fold min xs x)"
  by (simp add: list_min_def fold_min_Some)

lemma list_min_eq_None [simp]: "list_min xs = None \<longleftrightarrow> xs = []"
  by (cases xs) (auto simp: list_min_Cons)

lemma list_min_Some: "xs \<noteq> [] \<Longrightarrow> list_min xs = Some (Min (set xs))"
  by (cases xs) (simp_all add: list_min_Cons Min.set_eq_fold del: list.set)

lemma list_min_le: "list_min xs = Some m \<Longrightarrow> x \<in> set xs \<Longrightarrow> m \<le> x"
  by (cases "xs = []") (auto simp: list_min_Some)

lemma list_min_in: "list_min xs = Some m \<Longrightarrow> m \<in> set xs"
  by (cases "xs = []") (auto simp: list_min_Some)

subsection \<open>Lemmas on tables\<close>

lemma find_SomeD: "find P xs = Some x \<Longrightarrow> x \<in> set xs \<and> P x"
  by (induction xs) (auto split: if_splits)

lemma find_None_all: "find P xs = None \<longleftrightarrow> (\<forall>x \<in> set xs. \<not> P x)"
  by (induction xs) auto

lemma find_unique:
  assumes "x \<in> set xs" and "P x" and "\<And>y. y \<in> set xs \<Longrightarrow> P y \<Longrightarrow> y = x"
  shows "find P xs = Some x"
proof (cases "find P xs")
  case None
  with assms(1,2) show ?thesis by (simp add: find_None_all)
next
  case (Some y)
  then have "y = x" using assms(3) by (blast dest: find_SomeD)
  with Some show ?thesis by simp
qed

lemma distinct_map_eqD:
  "distinct (map f xs) \<Longrightarrow> x \<in> set xs \<Longrightarrow> y \<in> set xs \<Longrightarrow> f x = f y \<Longrightarrow> x = y"
  by (auto simp: distinct_map dest: inj_onD)

end
