(* ===== verification/Claims.thy ===== *)
theory Claims
  imports Litelink_Prelude
begin

text \<open>
  Per-operation ownership of an offset range (\<^verbatim>\<open>src/litelink/_claim.py\<close>). The \<open>claim\<close> table of
  \<^verbatim>\<open>buffer.db\<close> is a list of rows with AUTOINCREMENT ids; \<open>acquire\<close>, \<open>renew\<close>, \<open>held\<close> and \<open>release\<close>
  are functions on a claim object and the table, each one write transaction. The clock is an
  argument of every operation, so nothing is assumed about it: clocks of different processes may
  disagree or run backwards. A write transaction that raises is part of the model (\<open>ending\<close>): it
  may have been rolled back, or its commit may have landed without being acknowledged.
\<close>

subsection \<open>The table and the claim object\<close>

record claim_row =
  cr_id :: nat
  cr_owner :: owner
  cr_expires_at :: int
  cr_kind :: string
  cr_start :: offset
  cr_end :: offset
  cr_rel_path :: "path option"

record claim_table =
  claim_rows :: "claim_row list"
  claim_seq :: nat

record claim =
  cl_kind :: string
  cl_start :: offset
  cl_end :: offset
  cl_owner :: owner
  cl_rel_path :: "path option"
  cl_ttl_ms :: int
  cl_row_id :: "nat option"

text \<open>How the write transaction around an operation's body ends.\<close>

datatype ending = Committed | Rolled_back | Unacknowledged

definition DEFAULT_TTL_MS :: int where
  "DEFAULT_TTL_MS = 30000"

definition EVERYTHING :: offset where
  "EVERYTHING = 2 ^ 62"

definition empty_claims :: claim_table where
  "empty_claims = \<lparr>claim_rows = [], claim_seq = 0\<rparr>"

definition make_claim ::
  "string \<Rightarrow> offset \<Rightarrow> offset \<Rightarrow> owner \<Rightarrow> path option \<Rightarrow> int \<Rightarrow> claim" where
  "make_claim kind start finish owner rel_path ttl =
     \<lparr>cl_kind = kind, cl_start = start, cl_end = finish, cl_owner = owner,
      cl_rel_path = rel_path, cl_ttl_ms = ttl, cl_row_id = None\<rparr>"

subsection \<open>The operations\<close>

definition clashes :: "int \<Rightarrow> claim \<Rightarrow> claim_row \<Rightarrow> bool" where
  "clashes now c r \<longleftrightarrow> now < cr_expires_at r \<and> cr_owner r \<noteq> cl_owner c
     \<and> cr_start r < cl_end c \<and> cl_start c < cr_end r"

definition lapsed_overlap :: "int \<Rightarrow> claim \<Rightarrow> claim_row \<Rightarrow> bool" where
  "lapsed_overlap now c r \<longleftrightarrow> cr_expires_at r \<le> now
     \<and> cr_start r < cl_end c \<and> cl_start c < cr_end r"

definition new_row :: "int \<Rightarrow> claim \<Rightarrow> nat \<Rightarrow> claim_row" where
  "new_row now c i =
     \<lparr>cr_id = i, cr_owner = cl_owner c, cr_expires_at = now + cl_ttl_ms c, cr_kind = cl_kind c,
      cr_start = cl_start c, cr_end = cl_end c, cr_rel_path = cl_rel_path c\<rparr>"

text \<open>The body of the transaction: check, delete the lapsed overlaps, insert.\<close>

definition acquire_body :: "int \<Rightarrow> claim \<Rightarrow> claim_table \<Rightarrow> bool \<times> claim \<times> claim_table" where
  "acquire_body now c t =
     (if \<exists>r \<in> set (claim_rows t). clashes now c r then (False, c, t)
      else let kept = filter (\<lambda>r. \<not> lapsed_overlap now c r) (claim_rows t);
               i = Suc (claim_seq t)
           in (True, c\<lparr>cl_row_id := Some i\<rparr>,
               \<lparr>claim_rows = kept @ [new_row now c i], claim_seq = i\<rparr>))"

definition acquire_cleanup :: "claim \<Rightarrow> claim_table \<Rightarrow> claim_table" where
  "acquire_cleanup c t =
     t\<lparr>claim_rows := filter (\<lambda>r. \<not> (cr_owner r = cl_owner c \<and> cr_start r = cl_start c
                                     \<and> cr_end r = cl_end c)) (claim_rows t)\<rparr>"

text \<open>
  \<open>acquire\<close>: \<open>Some b\<close> is the value returned, \<open>None\<close> that it raised. After a raise the row id is
  cleared and a second transaction removes this attempt's rows; \<open>cleaned\<close> says whether that
  transaction succeeded (its database errors are suppressed).
\<close>

definition acquire ::
  "int \<Rightarrow> ending \<Rightarrow> bool \<Rightarrow> claim \<Rightarrow> claim_table \<Rightarrow> bool option \<times> claim \<times> claim_table" where
  "acquire now e cleaned c t =
     (case acquire_body now c t of (ok, c', t') \<Rightarrow>
        (case e of
           Committed \<Rightarrow> (Some ok, c', t')
         | Rolled_back \<Rightarrow>
             (None, c\<lparr>cl_row_id := None\<rparr>, if cleaned then acquire_cleanup c t else t)
         | Unacknowledged \<Rightarrow>
             (None, c\<lparr>cl_row_id := None\<rparr>, if cleaned then acquire_cleanup c t' else t')))"

definition mine :: "claim \<Rightarrow> nat \<Rightarrow> claim_row \<Rightarrow> bool" where
  "mine c i r \<longleftrightarrow> cr_id r = i \<and> cr_owner r = cl_owner c"

definition renew :: "int \<Rightarrow> claim \<Rightarrow> claim_table \<Rightarrow> bool \<times> claim_table" where
  "renew now c t =
     (case cl_row_id c of
        None \<Rightarrow> (False, t)
      | Some i \<Rightarrow>
          (length (filter (mine c i) (claim_rows t)) = 1,
           t\<lparr>claim_rows := map (\<lambda>r. if mine c i r then r\<lparr>cr_expires_at := now + cl_ttl_ms c\<rparr>
                                     else r) (claim_rows t)\<rparr>))"

definition held :: "int \<Rightarrow> claim \<Rightarrow> claim_table \<Rightarrow> bool" where
  "held now c t =
     (case cl_row_id c of
        None \<Rightarrow> False
      | Some i \<Rightarrow> (case find (\<lambda>r. cr_id r = i) (claim_rows t) of
                     None \<Rightarrow> False
                   | Some r \<Rightarrow> cr_owner r = cl_owner c \<and> now < cr_expires_at r))"

definition release :: "claim \<Rightarrow> claim_table \<Rightarrow> claim \<times> claim_table" where
  "release c t =
     (case cl_row_id c of
        None \<Rightarrow> (c, t)
      | Some i \<Rightarrow> (c\<lparr>cl_row_id := None\<rparr>,
                   t\<lparr>claim_rows := filter (\<lambda>r. \<not> mine c i r) (claim_rows t)\<rparr>))"

subsection \<open>The machine: any processes, any clocks, any interleaving of transactions\<close>

inductive claim_step :: "claim_table \<Rightarrow> claim_table \<Rightarrow> bool" where
  step_acquire: "acquire now e cleaned c t = (res, c', t') \<Longrightarrow> claim_step t t'"
| step_renew: "renew now c t = (ok, t') \<Longrightarrow> claim_step t t'"
| step_release: "release c t = (c', t') \<Longrightarrow> claim_step t t'"

definition claim_init :: "claim_table \<Rightarrow> bool" where
  "claim_init t \<longleftrightarrow> t = empty_claims"

definition row_overlaps :: "claim_row \<Rightarrow> claim_row \<Rightarrow> bool" where
  "row_overlaps r s \<longleftrightarrow> overlaps (cr_start r) (cr_end r) (cr_start s) (cr_end s)"

text \<open>Ranges of different owners never overlap, whatever any clock says; ids are never reused.\<close>

definition exclusive :: "claim_table \<Rightarrow> bool" where
  "exclusive t \<longleftrightarrow> (\<forall>r \<in> set (claim_rows t). \<forall>s \<in> set (claim_rows t).
      cr_owner r \<noteq> cr_owner s \<longrightarrow> \<not> row_overlaps r s)"

definition ids_fresh :: "claim_table \<Rightarrow> bool" where
  "ids_fresh t \<longleftrightarrow> distinct (map cr_id (claim_rows t))
     \<and> (\<forall>r \<in> set (claim_rows t). cr_id r \<le> claim_seq t)"

definition ids_grow :: "claim_table \<Rightarrow> claim_table \<Rightarrow> bool" where
  "ids_grow t t' \<longleftrightarrow> claim_seq t \<le> claim_seq t' \<and>
     (\<forall>r \<in> set (claim_rows t'). cr_id r \<in> cr_id ` set (claim_rows t) \<or> claim_seq t < cr_id r)"

definition claims_inv :: "claim_table \<Rightarrow> bool" where
  "claims_inv t \<longleftrightarrow> exclusive t \<and> ids_fresh t"

subsection \<open>The invariant\<close>

lemmas acquire_defs = acquire_def acquire_body_def acquire_cleanup_def new_row_def

lemma clashes_iff: "clashes now c r \<longleftrightarrow> now < cr_expires_at r \<and> cr_owner r \<noteq> cl_owner c
    \<and> overlaps (cr_start r) (cr_end r) (cl_start c) (cl_end c)"
  by (auto simp: clashes_def overlaps_def)

lemma row_overlaps_sym: "row_overlaps r s = row_overlaps s r"
  by (simp add: row_overlaps_def overlaps_commute)

lemma exclusive_subset:
  "exclusive t \<Longrightarrow> set (claim_rows t') \<subseteq> set (claim_rows t) \<Longrightarrow> exclusive t'"
  unfolding exclusive_def by blast

lemma exclusive_body:
  assumes "exclusive t" and "acquire_body now c t = (ok, c', t')"
  shows "exclusive t'"
proof (cases "\<exists>r \<in> set (claim_rows t). clashes now c r")
  case True
  with assms show ?thesis by (simp add: acquire_body_def)
next
  case False
  let ?kept = "filter (\<lambda>r. \<not> lapsed_overlap now c r) (claim_rows t)"
  let ?new = "new_row now c (Suc (claim_seq t))"
  have rows: "claim_rows t' = ?kept @ [?new]"
    using False assms(2) by (auto simp: acquire_body_def Let_def)
  have new: "\<not> row_overlaps r ?new" if "r \<in> set ?kept" and "cr_owner r \<noteq> cr_owner ?new" for r
    using that False by (auto simp: clashes_def lapsed_overlap_def row_overlaps_def overlaps_def new_row_def)
  show ?thesis
    unfolding exclusive_def rows
    using new assms(1) by (auto simp: row_overlaps_sym exclusive_def)
qed

lemma ids_fresh_body:
  assumes "ids_fresh t" and "acquire_body now c t = (ok, c', t')"
  shows "ids_fresh t'"
  using assms by (fastforce simp: acquire_body_def ids_fresh_def Let_def new_row_def distinct_map_filter
      split: if_splits)

lemma ids_fresh_filter: "ids_fresh t \<Longrightarrow> ids_fresh (t\<lparr>claim_rows := filter P (claim_rows t)\<rparr>)"
  by (auto simp: ids_fresh_def distinct_map_filter)

lemma claims_inv_filter:
  "claims_inv t \<Longrightarrow> claims_inv (t\<lparr>claim_rows := filter P (claim_rows t)\<rparr>)"
  unfolding claims_inv_def by (auto intro: ids_fresh_filter elim!: exclusive_subset)

lemma claims_inv_cleanup: "claims_inv t \<Longrightarrow> claims_inv (acquire_cleanup c t)"
  unfolding acquire_cleanup_def by (rule claims_inv_filter)

lemma claims_inv_body:
  "claims_inv t \<Longrightarrow> acquire_body now c t = (ok, c', t') \<Longrightarrow> claims_inv t'"
  unfolding claims_inv_def by (blast intro: exclusive_body ids_fresh_body)

lemma claims_inv_acquire:
  "claims_inv t \<Longrightarrow> acquire now e cleaned c t = (res, c', t') \<Longrightarrow> claims_inv t'"
  by (auto simp: acquire_def split: prod.splits ending.splits if_splits
      intro: claims_inv_cleanup claims_inv_body)

lemma claims_inv_release: "claims_inv t \<Longrightarrow> release c t = (c', t') \<Longrightarrow> claims_inv t'"
  by (auto simp: release_def split: option.splits intro: claims_inv_filter)

lemma claims_inv_renew:
  assumes inv: "claims_inv t" and "renew now c t = (ok, t')"
  shows "claims_inv t'"
proof (cases "cl_row_id c")
  case None
  with assms show ?thesis by (simp add: renew_def)
next
  case (Some i)
  let ?f = "\<lambda>r. if mine c i r then r\<lparr>cr_expires_at := now + cl_ttl_ms c\<rparr> else r"
  have rows: "claim_rows t' = map ?f (claim_rows t)" "claim_seq t' = claim_seq t"
    using Some assms(2) by (auto simp: renew_def)
  have img: "set (map ?f (claim_rows t)) = ?f ` set (claim_rows t)" by (rule set_map)
  have same: "cr_id (?f r) = cr_id r" "cr_owner (?f r) = cr_owner r"
    "row_overlaps (?f r) (?f s) = row_overlaps r s" for r s
    by (auto simp: row_overlaps_def)
  have "map cr_id (map ?f (claim_rows t)) = map cr_id (claim_rows t)"
    by (simp add: same)
  with inv show ?thesis
    unfolding claims_inv_def exclusive_def ids_fresh_def rows img
    by (simp only: ball_simps same) blast
qed

lemma claim_step_inv: "claims_inv s \<Longrightarrow> claim_step s t \<Longrightarrow> claims_inv t"
  by (erule claim_step.cases) (auto intro: claims_inv_acquire claims_inv_renew claims_inv_release)

interpretation claims: invariant_machine claim_init claim_step claims_inv
proof unfold_locales
  show "claims_inv s" if "claim_init s" for s
    using that by (simp add: claim_init_def empty_claims_def claims_inv_def exclusive_def ids_fresh_def)
  show "claims_inv t" if "claims_inv s" and "claim_step s t" for s t
    using that by (rule claim_step_inv)
qed

subsection \<open>Lemmas the properties rest on\<close>

lemma acquire_True:
  "acquire now e cleaned c t = (Some True, c', t') \<longleftrightarrow>
     e = Committed \<and> acquire_body now c t = (True, c', t')"
  by (auto simp: acquire_def split: prod.splits ending.splits)

lemma acquire_body_False: "acquire_body now c t = (False, c', t') \<Longrightarrow> c' = c \<and> t' = t"
  by (auto simp: acquire_body_def Let_def split: if_splits)

lemma acquire_body_True:
  "acquire_body now c t = (True, c', t') \<longleftrightarrow>
     (\<forall>r \<in> set (claim_rows t). \<not> clashes now c r) \<and>
     c' = c\<lparr>cl_row_id := Some (Suc (claim_seq t))\<rparr> \<and>
     t' = \<lparr>claim_rows = filter (\<lambda>r. \<not> lapsed_overlap now c r) (claim_rows t)
                        @ [new_row now c (Suc (claim_seq t))],
           claim_seq = Suc (claim_seq t)\<rparr>"
  by (auto simp: acquire_body_def Let_def)

lemma ids_grow_refl: "ids_grow t t"
  by (simp add: ids_grow_def)

lemma ids_grow_filter:
  "ids_grow t t' \<Longrightarrow> ids_grow t (t'\<lparr>claim_rows := filter P (claim_rows t')\<rparr>)"
  by (simp add: ids_grow_def)

lemma ids_grow_body: "acquire_body now c t = (ok, c', t') \<Longrightarrow> ids_grow t t'"
  by (auto simp: ids_grow_def acquire_body_def new_row_def Let_def split: if_splits)

lemma ids_grow_acquire: "acquire now e cleaned c t = (res, c', t') \<Longrightarrow> ids_grow t t'"
  by (auto simp: acquire_def acquire_cleanup_def split: prod.splits ending.splits if_splits
      intro!: ids_grow_filter ids_grow_refl intro: ids_grow_body)

lemma ids_grow_renew: "renew now c t = (ok, t') \<Longrightarrow> ids_grow t t'"
  by (auto simp: renew_def ids_grow_def split: option.splits if_splits)

lemma ids_grow_release: "release c t = (c', t') \<Longrightarrow> ids_grow t t'"
  by (auto simp: release_def split: option.splits intro: ids_grow_filter ids_grow_refl)

lemma claim_step_ids: "claim_step t t' \<Longrightarrow> ids_grow t t'"
  by (erule claim_step.cases) (auto intro: ids_grow_acquire ids_grow_renew ids_grow_release)

lemma absent_id_stays_absent:
  assumes "steps claim_step t t'" and "i \<notin> cr_id ` set (claim_rows t)" and "i \<le> claim_seq t"
  shows "i \<notin> cr_id ` set (claim_rows t') \<and> i \<le> claim_seq t'"
  using assms
proof (induction rule: steps.induct)
  case (steps_step s t u)
  then have "i \<notin> cr_id ` set (claim_rows t)" "i \<le> claim_seq t" by auto
  with claim_step_ids [OF steps_step.hyps(2)] show ?case by (fastforce simp: ids_grow_def)
qed auto

lemma renew_absent: "i \<notin> cr_id ` set (claim_rows t) \<Longrightarrow> cl_row_id c = Some i \<Longrightarrow> \<not> fst (renew now c t)"
proof -
  assume "i \<notin> cr_id ` set (claim_rows t)" and c: "cl_row_id c = Some i"
  then have "filter (mine c i) (claim_rows t) = []" by (auto simp: mine_def filter_empty_conv)
  with c show ?thesis by (simp add: renew_def)
qed

lemma find_id:
  assumes "ids_fresh t" and "r \<in> set (claim_rows t)" and "cr_id r = i"
  shows "find (\<lambda>r. cr_id r = i) (claim_rows t) = Some r"
  using assms by (intro find_unique) (auto simp: ids_fresh_def intro: distinct_map_eqD)

subsection \<open>Properties\<close>

text \<open>C28. in every reachable state of the claim table, whatever the clocks, the interleaving and
  the failed transactions, the ranges of two rows with different owners are disjoint.\<close>

theorem claims_never_overlap:
  assumes "reach claim_init claim_step t"
    and "r \<in> set (claim_rows t)" and "s \<in> set (claim_rows t)" and "cr_owner r \<noteq> cr_owner s"
  shows "\<not> overlaps (cr_start r) (cr_end r) (cr_start s) (cr_end s)"
  using claims.inv_reach [OF assms(1)] assms(2-)
  by (auto simp: claims_inv_def exclusive_def row_overlaps_def)

text \<open>an \<open>acquire\<close> that returns True leaves the caller holding its range until the ttl runs
  out, with no row of another owner overlapping it.\<close>

theorem acquire_grants_the_range:
  assumes "claims_inv t" and "acquire now e cleaned c t = (Some True, c', t')" and "0 < cl_ttl_ms c"
  shows "held now c' t' \<and> (\<forall>s \<in> set (claim_rows t'). cr_owner s \<noteq> cl_owner c \<longrightarrow>
           \<not> overlaps (cr_start s) (cr_end s) (cl_start c) (cl_end c))"
proof -
  let ?new = "new_row now c (Suc (claim_seq t))"
  have body: "acquire_body now c t = (True, c', t')" using assms(2) by (simp add: acquire_True)
  then have c': "c' = c\<lparr>cl_row_id := Some (Suc (claim_seq t))\<rparr>" and new: "?new \<in> set (claim_rows t')"
    by (auto simp: acquire_body_True)
  have inv: "claims_inv t'" using assms(1) body by (rule claims_inv_body)
  then have "find (\<lambda>r. cr_id r = Suc (claim_seq t)) (claim_rows t') = Some ?new"
    using new by (intro find_id) (auto simp: claims_inv_def new_row_def)
  then have "held now c' t'" using assms(3) by (simp add: held_def c' new_row_def)
  moreover have "\<not> row_overlaps s ?new" if "s \<in> set (claim_rows t')" "cr_owner s \<noteq> cl_owner c" for s
    using inv new that by (fastforce simp: claims_inv_def exclusive_def new_row_def)
  ultimately show ?thesis by (auto simp: row_overlaps_def new_row_def)
qed

text \<open>a committed \<open>acquire\<close> returns False exactly when a live row of another owner overlaps
  the range, and then nothing has changed; so once every overlapping row has expired, as after a
  crash of their holders, the range can be taken.\<close>

theorem acquire_refused_iff:
  "fst (acquire now Committed cleaned c t) = Some False \<longleftrightarrow>
     (\<exists>r \<in> set (claim_rows t). now < cr_expires_at r \<and> cr_owner r \<noteq> cl_owner c \<and>
        overlaps (cr_start r) (cr_end r) (cl_start c) (cl_end c)) \<and>
     acquire now Committed cleaned c t = (Some False, c, t)"
  by (auto simp: acquire_def acquire_body_def clashes_iff Let_def split: if_splits)

text \<open>C29. once another owner has taken an overlapping range, the old holder's row is gone for
  good: no later renewal of it succeeds, at any time and after any further steps.\<close>

theorem lost_claim_never_renews:
  assumes reach: "reach claim_init claim_step t"
    and mine: "cl_row_id c = Some i" "i \<le> claim_seq t"
      "\<And>r. r \<in> set (claim_rows t) \<Longrightarrow> cr_id r = i \<Longrightarrow>
         cr_owner r = cl_owner c \<and> cr_start r = cl_start c \<and> cr_end r = cl_end c"
    and taken: "acquire now e cleaned d t = (Some True, d', t')" "cl_owner d \<noteq> cl_owner c"
      "overlaps (cl_start c) (cl_end c) (cl_start d) (cl_end d)"
    and later: "steps claim_step t' t''"
  shows "\<not> fst (renew now' c t'')"
proof -
  have body: "acquire_body now d t = (True, d', t')" using taken(1) by (simp add: acquire_True)
  have seq: "i \<le> claim_seq t'" using body mine(2) by (auto simp: acquire_body_True)
  have "i \<notin> cr_id ` set (claim_rows t')"
  proof
    assume "i \<in> cr_id ` set (claim_rows t')"
    then obtain r where r: "r \<in> set (claim_rows t')" "cr_id r = i" by auto
    then have old: "r \<in> set (claim_rows t)" "\<not> lapsed_overlap now d r" "\<not> clashes now d r"
      using body mine(2) by (auto simp: acquire_body_True new_row_def)
    have "cr_owner r = cl_owner c" "cr_start r = cl_start c" "cr_end r = cl_end c"
      using mine(3) [OF old(1) r(2)] by auto
    with old taken(2,3) show False
      by (auto simp: lapsed_overlap_def clashes_def overlaps_def)
  qed
  then have "i \<notin> cr_id ` set (claim_rows t'')"
    using absent_id_stays_absent [OF later _ seq] by blast
  then show ?thesis by (rule renew_absent) (rule mine(1))
qed

text \<open>a renewal that returns True found its row still in the table, extends it by the ttl from
  now even if it had expired, and no row of another owner overlaps the claimed range.\<close>

theorem renew_true_is_exclusive:
  assumes "claims_inv t" and "renew now c t = (True, t')" and "0 < cl_ttl_ms c"
    and "\<And>r. r \<in> set (claim_rows t) \<Longrightarrow> Some (cr_id r) = cl_row_id c \<Longrightarrow>
           cr_start r = cl_start c \<and> cr_end r = cl_end c"
  shows "held now c t' \<and> (\<forall>s \<in> set (claim_rows t'). cr_owner s \<noteq> cl_owner c \<longrightarrow>
           \<not> overlaps (cr_start s) (cr_end s) (cl_start c) (cl_end c))"
proof -
  obtain i where i: "cl_row_id c = Some i" using assms(2) by (auto simp: renew_def split: option.splits)
  then have "filter (mine c i) (claim_rows t) \<noteq> []" using assms(2) by (auto simp: renew_def)
  then obtain r where r: "r \<in> set (claim_rows t)" "mine c i r" by (auto simp: filter_empty_conv)
  let ?r = "r\<lparr>cr_expires_at := now + cl_ttl_ms c\<rparr>"
  have r': "?r \<in> set (claim_rows t')" using assms(2) i r by (force simp: renew_def)
  have inv: "claims_inv t'" using assms(1,2) by (rule claims_inv_renew)
  have "find (\<lambda>r. cr_id r = i) (claim_rows t') = Some ?r"
    using inv r r' by (intro find_id) (auto simp: claims_inv_def mine_def)
  then have "held now c t'" using i r(2) assms(3) by (simp add: held_def mine_def)
  moreover have "\<not> row_overlaps s ?r" if "s \<in> set (claim_rows t')" "cr_owner s \<noteq> cl_owner c" for s
    using inv r' that r(2) by (auto simp: claims_inv_def exclusive_def mine_def)
  moreover have "cr_start r = cl_start c" "cr_end r = cl_end c"
    using assms(4) [OF r(1)] r(2) i by (auto simp: mine_def)
  ultimately show ?thesis by (auto simp: row_overlaps_def)
qed

text \<open>C30. an \<open>acquire\<close> that raised and whose cleanup ran leaves no row of this attempt behind, even
  if its commit had landed, and forgets its row id; rows of other owners that were live and
  overlapping are untouched.\<close>

theorem failed_acquire_leaves_no_orphan:
  assumes "acquire now e True c t = (None, c', t')"
  shows "cl_row_id c' = None \<and>
    (\<forall>r \<in> set (claim_rows t'). \<not> (cr_owner r = cl_owner c \<and> cr_start r = cl_start c \<and>
        cr_end r = cl_end c)) \<and>
    (\<forall>r \<in> set (claim_rows t). cr_owner r \<noteq> cl_owner c \<longrightarrow> now < cr_expires_at r \<longrightarrow>
        r \<in> set (claim_rows t'))"
  using assms by (auto simp: acquire_def acquire_body_def acquire_cleanup_def Let_def lapsed_overlap_def
      split: ending.splits if_splits)

subsection \<open>Two owners at work\<close>

definition example_claim :: "owner \<Rightarrow> offset \<Rightarrow> offset \<Rightarrow> claim" where
  "example_claim own a b = make_claim ''compact'' a b own None DEFAULT_TTL_MS"

definition example_table :: "claim_table" where
  "example_table =
     \<lparr>claim_rows = [new_row 0 (example_claim ''a'' 0 10) 1], claim_seq = 1\<rparr>"

lemmas claim_example_simps = example_claim_def example_table_def make_claim_def DEFAULT_TTL_MS_def
  acquire_def acquire_body_def acquire_cleanup_def clashes_def lapsed_overlap_def new_row_def
  empty_claims_def overlaps_def

lemma example_reach: "reach claim_init claim_step example_table"
proof (rule reach_step)
  show "reach claim_init claim_step empty_claims"
    by (rule reach_init) (simp add: claim_init_def)
  show "claim_step empty_claims example_table"
    by (rule step_acquire [of 0 Committed True "example_claim ''a'' 0 10" empty_claims "Some True"
          "example_claim ''a'' 0 10\<lparr>cl_row_id := Some 1\<rparr>"])
      (simp add: claim_example_simps)
qed

lemma example_inv: "claims_inv example_table"
  using claims.inv_reach [OF example_reach] .

definition example_table2 :: "claim_table" where
  "example_table2 =
     \<lparr>claim_rows = [new_row 0 (example_claim ''a'' 0 10) 1, new_row 0 (example_claim ''b'' 10 20) 2],
      claim_seq = 2\<rparr>"

lemma example_reach2: "reach claim_init claim_step example_table2"
proof (rule reach_step [OF example_reach])
  show "claim_step example_table example_table2"
    by (rule step_acquire [of 0 Committed True "example_claim ''b'' 10 20" example_table "Some True"
          "example_claim ''b'' 10 20\<lparr>cl_row_id := Some 2\<rparr>"])
      (simp add: claim_example_simps example_table2_def)
qed

theorem claims_never_overlap_witness: "\<not> overlaps 0 10 10 20"
  using claims_never_overlap [OF example_reach2, of "new_row 0 (example_claim ''a'' 0 10) 1"
      "new_row 0 (example_claim ''b'' 10 20) 2"]
  by (simp add: example_table2_def example_claim_def make_claim_def new_row_def)

theorem acquire_grants_the_range_witness:
  "held 0 (example_claim ''b'' 10 20\<lparr>cl_row_id := Some 2\<rparr>) example_table2"
  using acquire_grants_the_range [OF example_inv, of 0 Committed True "example_claim ''b'' 10 20"
      "example_claim ''b'' 10 20\<lparr>cl_row_id := Some 2\<rparr>" example_table2]
  by (simp add: claim_example_simps example_table2_def)

theorem acquire_refused_iff_witness:
  "fst (acquire 0 Committed True (example_claim ''b'' 5 15) example_table) = Some False"
  using acquire_refused_iff [of 0 True "example_claim ''b'' 5 15" example_table]
  by (simp add: claim_example_simps)

theorem lost_claim_never_renews_witness:
  "\<not> fst (renew 50000 (example_claim ''a'' 0 10\<lparr>cl_row_id := Some 1\<rparr>)
     \<lparr>claim_rows = [new_row 40000 (example_claim ''b'' 5 15) 2], claim_seq = 2\<rparr>)"
  by (rule lost_claim_never_renews [OF example_reach _ _ _ _ _ _ steps_refl,
        of "example_claim ''a'' 0 10\<lparr>cl_row_id := Some 1\<rparr>" 1 40000 Committed True
        "example_claim ''b'' 5 15" "example_claim ''b'' 5 15\<lparr>cl_row_id := Some 2\<rparr>"])
    (simp_all add: claim_example_simps)

theorem renew_true_is_exclusive_witness:
  "held 20000 (example_claim ''a'' 0 10\<lparr>cl_row_id := Some 1\<rparr>)
     \<lparr>claim_rows = [new_row 20000 (example_claim ''a'' 0 10) 1], claim_seq = 1\<rparr>"
  using renew_true_is_exclusive [OF example_inv, of 20000
      "example_claim ''a'' 0 10\<lparr>cl_row_id := Some 1\<rparr>"
      "\<lparr>claim_rows = [new_row 20000 (example_claim ''a'' 0 10) 1], claim_seq = 1\<rparr>"]
  by (simp add: claim_example_simps renew_def mine_def)

theorem failed_acquire_leaves_no_orphan_witness:
  "cl_row_id (fst (snd (acquire 0 Unacknowledged True (example_claim ''b'' 10 20) example_table))) = None"
  using failed_acquire_leaves_no_orphan [of 0 Unacknowledged "example_claim ''b'' 10 20" example_table
      "example_claim ''b'' 10 20" example_table]
  by (simp add: claim_example_simps)

end
