(* ===== verification/Py_Values.thy ===== *)
theory Py_Values
  imports Litelink_Prelude
begin

text \<open>
  The Python values the modelled code computes with, and JSON documents.

  A finite float is the rational it denotes (every finite double is one), so comparing an int, a
  Decimal and a float is comparing rationals, which is what Python does: the comparison is exact
  and never rounds. Infinities are the two ends of \<open>ext\<close>, and NaN is outside the order. A \<open>str\<close>
  is the list of its UTF-8 bytes. \<open>PList\<close> is a list or a tuple, which the modelled code never
  tells apart. JSON is modelled as the tree \<^verbatim>\<open>json.loads\<close> returns and \<^verbatim>\<open>json.dumps\<close> prints.
\<close>

subsection \<open>Numbers with infinities\<close>

datatype ext = NegInf | Fin rat | PosInf

instantiation ext :: linorder
begin

fun less_eq_ext :: "ext \<Rightarrow> ext \<Rightarrow> bool" where
  "less_eq_ext NegInf y = True"
| "less_eq_ext x PosInf = True"
| "less_eq_ext (Fin a) (Fin b) = (a \<le> b)"
| "less_eq_ext (Fin a) NegInf = False"
| "less_eq_ext PosInf y = False"

definition less_ext :: "ext \<Rightarrow> ext \<Rightarrow> bool" where
  "less_ext x y = (x \<le> y \<and> \<not> y \<le> x)"

instance
proof
  fix x y z :: ext
  show "x < y \<longleftrightarrow> x \<le> y \<and> \<not> y \<le> x" by (rule less_ext_def)
  show "x \<le> x" by (cases x) auto
  show "x \<le> y \<Longrightarrow> y \<le> z \<Longrightarrow> x \<le> z" by (cases x; cases y; cases z) auto
  show "x \<le> y \<Longrightarrow> y \<le> x \<Longrightarrow> x = y" by (cases x; cases y) auto
  show "x \<le> y \<or> y \<le> x" by (cases x; cases y) auto
qed

end

datatype pyfloat = NaN | FVal ext

definition isfinite :: "pyfloat \<Rightarrow> bool" where
  "isfinite f = (case f of FVal (Fin _) \<Rightarrow> True | _ \<Rightarrow> False)"

subsection \<open>Values\<close>

datatype pyval =
    PNone
  | PBool bool
  | PInt int
  | PFloat pyfloat
  | PDec rat
  | PStr string
  | PBytes "nat list"
  | PList "pyval list"
  | PDict "(pyval \<times> pyval) list"

datatype json =
    JNull
  | JBool bool
  | JInt int
  | JFloat pyfloat
  | JStr string
  | JArr "json list"
  | JObj "(string \<times> json) list"

text \<open>The number a value compares as; a bool is an int to Python.\<close>

fun num_of :: "pyval \<Rightarrow> ext option" where
  "num_of (PBool b) = Some (Fin (if b then 1 else 0))"
| "num_of (PInt i) = Some (Fin (of_int i))"
| "num_of (PFloat (FVal x)) = Some x"
| "num_of (PDec r) = Some (Fin r)"
| "num_of _ = None"

definition is_nan :: "pyval \<Rightarrow> bool" where
  "is_nan v \<longleftrightarrow> v = PFloat NaN"

text \<open>Comparing two numbers; None is the \<open>TypeError\<close> of values Python does not order.\<close>

fun numeric :: "pyval \<Rightarrow> bool" where
  "numeric (PBool b) = True"
| "numeric (PInt i) = True"
| "numeric (PFloat f) = True"
| "numeric (PDec r) = True"
| "numeric _ = False"

definition py_le :: "pyval \<Rightarrow> pyval \<Rightarrow> bool option" where
  "py_le a b =
     (if numeric a \<and> numeric b
      then Some (case (num_of a, num_of b) of (Some x, Some y) \<Rightarrow> x \<le> y | _ \<Rightarrow> False)
      else None)"

definition py_lt :: "pyval \<Rightarrow> pyval \<Rightarrow> bool option" where
  "py_lt a b =
     (if numeric a \<and> numeric b
      then Some (case (num_of a, num_of b) of (Some x, Some y) \<Rightarrow> x < y | _ \<Rightarrow> False)
      else None)"

text \<open>Python's \<open>a and b\<close> over comparisons, the second evaluated only when the first holds.\<close>

definition py_and :: "bool option \<Rightarrow> bool option \<Rightarrow> bool option" where
  "py_and a b = (case a of None \<Rightarrow> None | Some False \<Rightarrow> Some False | Some True \<Rightarrow> b)"

text \<open>\<open>min\<close> and \<open>max\<close> of two values, the first kept on a tie; an incomparable pair raises.\<close>

definition py_min :: "pyval \<Rightarrow> pyval \<Rightarrow> pyval" where
  "py_min a b = (if py_lt b a = Some True then b else a)"

definition py_max :: "pyval \<Rightarrow> pyval \<Rightarrow> pyval" where
  "py_max a b = (if py_lt a b = Some True then b else a)"

subsection \<open>Strings\<close>

definition starts_with :: "string \<Rightarrow> string \<Rightarrow> bool" where
  "starts_with s p \<longleftrightarrow> take (length p) s = p"

definition remove_prefix :: "string \<Rightarrow> string \<Rightarrow> string" where
  "remove_prefix s p = (if starts_with s p then drop (length p) s else s)"

text \<open>\<open>rstrip\<close> and \<open>lstrip\<close> of one character.\<close>

definition lstrip :: "char \<Rightarrow> string \<Rightarrow> string" where
  "lstrip c s = dropWhile (\<lambda>x. x = c) s"

definition rstrip :: "char \<Rightarrow> string \<Rightarrow> string" where
  "rstrip c s = rev (dropWhile (\<lambda>x. x = c) (rev s))"

text \<open>\<open>str.lower\<close>, on the ASCII names the modelled code lowers.\<close>

definition lower_char :: "char \<Rightarrow> char" where
  "lower_char c = (let n = of_char c :: nat in if 65 \<le> n \<and> n \<le> 90 then char_of (n + 32) else c)"

definition lower :: "string \<Rightarrow> string" where
  "lower s = map lower_char s"

subsection \<open>Lemmas\<close>

lemma num_of_Some_numeric: "num_of v = Some x \<Longrightarrow> numeric v"
  by (cases v rule: num_of.cases) auto

lemma numeric_num_of: "numeric v \<Longrightarrow> v \<noteq> PFloat NaN \<Longrightarrow> \<exists>x. num_of v = Some x"
  by (cases v rule: num_of.cases) auto

lemma py_le_num: "num_of a = Some x \<Longrightarrow> num_of b = Some y \<Longrightarrow> py_le a b = Some (x \<le> y)"
  by (simp add: py_le_def num_of_Some_numeric)

lemma py_lt_num: "num_of a = Some x \<Longrightarrow> num_of b = Some y \<Longrightarrow> py_lt a b = Some (x < y)"
  by (simp add: py_lt_def num_of_Some_numeric)

lemma py_le_TypeError: "\<not> numeric b \<Longrightarrow> py_le a b = None" "\<not> numeric a \<Longrightarrow> py_le a b = None"
  by (simp_all add: py_le_def)

lemma py_lt_TypeError: "\<not> numeric b \<Longrightarrow> py_lt a b = None" "\<not> numeric a \<Longrightarrow> py_lt a b = None"
  by (simp_all add: py_lt_def)

lemma py_and_simps [simp]:
  "py_and None b = None" "py_and (Some False) b = Some False" "py_and (Some True) b = b"
  by (simp_all add: py_and_def)

lemma num_of_min:
  "num_of a = Some x \<Longrightarrow> num_of b = Some y \<Longrightarrow> num_of (py_min a b) = Some (min x y)"
  by (auto simp: py_min_def py_lt_num min_def)

lemma num_of_max:
  "num_of a = Some x \<Longrightarrow> num_of b = Some y \<Longrightarrow> num_of (py_max a b) = Some (max x y)"
  by (auto simp: py_max_def py_lt_num max_def)

lemma starts_with_append [simp]: "starts_with (p @ s) p"
  by (simp add: starts_with_def)

lemma starts_with_iff: "starts_with s p \<longleftrightarrow> (\<exists>r. s = p @ r)"
  by (metis append_eq_conv_conj append_take_drop_id starts_with_def)

end
