(* ===== verification/Lease_Store.thy ===== *)
theory Lease_Store
  imports Py_Values
begin

text \<open>
  Conditional storage of the lease record (\<^verbatim>\<open>src/litelink/_lease_store.py\<close>). \<open>Store\<close> is the
  protocol both stores offer the lease: a read that returns the record with its version, and a
  write that lands only where the version is still the expected one. \<open>FileStore\<close> keeps the record
  in one file under a lock, with the SHA-256 of its bytes as the version; the hash is an argument.
  \<open>S3Store\<close> asks the object store to arbitrate; the server (\<open>get_object\<close>, \<open>put_object\<close>) is an
  argument, and what its documentation promises is the predicate \<open>s3_documented\<close>.
\<close>

subsection \<open>The protocol\<close>

text \<open>The record as bytes: the JSON value they parse to, None where they do not parse.\<close>

type_synonym data = "json option"

datatype 'v written = Wrote 'v | Conflict | Unsupported | Raised string

locale conditional_store =
  fixes load :: "'s \<Rightarrow> (data \<times> 'v) option"
    and store :: "data \<Rightarrow> 'v option \<Rightarrow> 's \<Rightarrow> 'v written \<times> 's"
  assumes write_matching: "map_option snd (load s) = expected \<Longrightarrow>
            \<exists>v. fst (store d expected s) = Wrote v \<and> load (snd (store d expected s)) = Some (d, v)"
    and write_stale: "map_option snd (load s) \<noteq> expected \<Longrightarrow> store d expected s = (Conflict, s)"
begin

lemma wrote_iff: "(\<exists>v. fst (store d e s) = Wrote v) \<longleftrightarrow> map_option snd (load s) = e"
  using write_matching [of s e d] write_stale [of s e d] by force

lemma wrote_was_expected: "store d e s = (Wrote v, s') \<Longrightarrow> map_option snd (load s) = e"
  using wrote_iff [of d e s] by auto

lemma wrote_then_read: "store d e s = (Wrote v, s') \<Longrightarrow> load s' = Some (d, v)"
  using wrote_was_expected [of d e s v s'] write_matching [of s e d] by auto

lemma write_outcomes: "store d e s = (r, s') \<Longrightarrow> (\<exists>v. r = Wrote v) \<or> (r = Conflict \<and> s' = s)"
  using write_matching [of s e d] write_stale [of s e d] by (cases "map_option snd (load s) = e") auto

text \<open>A second writer that expects what the first one replaced is refused.\<close>

lemma second_writer_refused:
  assumes "store d e s = (Wrote v, s')" and "e \<noteq> Some v"
  shows "store d' e s' = (Conflict, s')"
  using wrote_then_read [OF assms(1)] assms(2) write_stale [of s' e d'] by auto

end

subsection \<open>A file under a lock\<close>

text \<open>The file's bytes, or None where there is no file.\<close>

type_synonym file_store = "data option"

definition file_read :: "(data \<Rightarrow> 'v) \<Rightarrow> file_store \<Rightarrow> (data \<times> 'v) option" where
  "file_read sha s = (case s of None \<Rightarrow> None | Some d \<Rightarrow> Some (d, sha d))"

definition file_write ::
  "(data \<Rightarrow> 'v) \<Rightarrow> data \<Rightarrow> 'v option \<Rightarrow> file_store \<Rightarrow> 'v written \<times> file_store" where
  "file_write sha d expected s =
     (let current = file_read sha s in
      if (case current of None \<Rightarrow> None | Some (_, v) \<Rightarrow> Some v) \<noteq> expected then (Conflict, s)
      else (Wrote (sha d), Some d))"

subsection \<open>An object store\<close>

datatype condition = If_none_match | If_match string

datatype s3_response = S3_etag string | S3_error string

datatype s3_object = S3_body data string | S3_missing string

record 's s3_server =
  get_object :: "'s \<Rightarrow> string \<Rightarrow> s3_object"
  put_object :: "'s \<Rightarrow> string \<Rightarrow> data \<Rightarrow> condition \<Rightarrow> s3_response \<times> 's"
  delete_object :: "'s \<Rightarrow> string \<Rightarrow> 's"

datatype 'a s3_read = Found 'a | Not_found | Read_raised string

definition s3_read :: "'s s3_server \<Rightarrow> string \<Rightarrow> 's \<Rightarrow> (data \<times> string) s3_read" where
  "s3_read server key s =
     (case get_object server s key of
        S3_body d etag \<Rightarrow> Found (d, etag)
      | S3_missing code \<Rightarrow> if code = ''NoSuchKey'' then Not_found else Read_raised code)"

definition s3_write ::
  "'s s3_server \<Rightarrow> string \<Rightarrow> data \<Rightarrow> string option \<Rightarrow> 's \<Rightarrow> string written \<times> 's" where
  "s3_write server key d expected s =
     (let condition = (case expected of None \<Rightarrow> If_none_match | Some e \<Rightarrow> If_match e) in
      case put_object server s key d condition of
        (S3_etag e, s') \<Rightarrow> (Wrote e, s')
      | (S3_error code, s') \<Rightarrow>
          (if code \<in> {''PreconditionFailed'', ''ConditionalRequestConflict''} then Conflict
           else if code \<in> {''NotImplemented'', ''InvalidRequest'', ''InvalidArgument''} then Unsupported
           else Raised code, s'))"

text \<open>
  \<open>verify\<close>: a probe object is created, two writes that must be refused are tried, one that must
  land is tried, and the probe is removed if it was created. \<open>Verified\<close> is a return without an
  exception.
\<close>

datatype verdict = Verified | Verify_unsupported | Verify_raised string

definition verify_put ::
  "'s s3_server \<Rightarrow> string \<Rightarrow> string option \<Rightarrow> 's \<Rightarrow> (verdict option) \<times> 's" where
  "verify_put server probe expected s =
     (case s3_write server probe (Some (JStr ''must-not-be-written'')) expected s of
        (Conflict, s') \<Rightarrow> (None, s')
      | (Wrote _, s') \<Rightarrow> (Some Verify_unsupported, s')
      | (Unsupported, s') \<Rightarrow> (Some Verify_unsupported, s')
      | (Raised c, s') \<Rightarrow> (Some (Verify_raised c), s'))"

definition WRONG_ETAG :: string where
  "WRONG_ETAG = [CHR 34] @ ''litelink-deliberately-wrong-etag'' @ [CHR 34]"

definition verify :: "'s s3_server \<Rightarrow> string \<Rightarrow> 's \<Rightarrow> verdict \<times> 's" where
  "verify server probe s =
     (case s3_write server probe (Some (JStr ''initial'')) None s of
        (Conflict, s') \<Rightarrow> (Verify_unsupported, s')
      | (Unsupported, s') \<Rightarrow> (Verify_unsupported, s')
      | (Raised c, s') \<Rightarrow> (Verify_raised c, s')
      | (Wrote version, s1) \<Rightarrow>
          (case verify_put server probe None s1 of
             (Some v, s2) \<Rightarrow> (v, delete_object server s2 probe)
           | (None, s2) \<Rightarrow>
               (case verify_put server probe (Some WRONG_ETAG) s2 of
                  (Some v, s3) \<Rightarrow> (v, delete_object server s3 probe)
                | (None, s3) \<Rightarrow>
                    (case s3_write server probe (Some (JStr ''replacement'')) (Some version) s3 of
                       (Wrote _, s4) \<Rightarrow> (Verified, delete_object server s4 probe)
                     | (Conflict, s4) \<Rightarrow> (Verify_unsupported, delete_object server s4 probe)
                     | (Unsupported, s4) \<Rightarrow> (Verify_unsupported, delete_object server s4 probe)
                     | (Raised c, s4) \<Rightarrow> (Verify_raised c, delete_object server s4 probe)))))"

text \<open>
  What the object store documents: a conditional PUT lands exactly when the condition holds of the
  key, and answers \<open>PreconditionFailed\<close> otherwise; a GET returns what the last PUT left.
\<close>

definition s3_documented :: "'s s3_server \<Rightarrow> string \<Rightarrow> bool" where
  "s3_documented server key \<longleftrightarrow>
     (\<forall>s. (\<exists>d e. get_object server s key = S3_body d e)
          \<or> get_object server s key = S3_missing ''NoSuchKey'') \<and>
     (\<forall>s d c. let holds = (case (c, get_object server s key) of
                   (If_none_match, S3_missing _) \<Rightarrow> True
                 | (If_match e, S3_body _ e') \<Rightarrow> e = e'
                 | _ \<Rightarrow> False)
              in if holds
                 then \<exists>e s'. put_object server s key d c = (S3_etag e, s')
                             \<and> get_object server s' key = S3_body d e
                 else put_object server s key d c = (S3_error ''PreconditionFailed'', s))"

fun found_option :: "'a s3_read \<Rightarrow> 'a option" where
  "found_option (Found x) = Some x"
| "found_option Not_found = None"
| "found_option (Read_raised _) = None"

subsection \<open>Both stores keep the protocol\<close>

interpretation files: conditional_store "file_read sha" "file_write sha" for sha :: "data \<Rightarrow> 'v"
  by unfold_locales (auto simp: file_read_def file_write_def Let_def split: option.splits)

lemma s3_conditional_store:
  assumes "s3_documented server key"
  shows "conditional_store (\<lambda>s. found_option (s3_read server key s)) (s3_write server key)"
proof
  fix s d and e :: "string option"
  have got: "(\<exists>d e. get_object server s key = S3_body d e) \<or> get_object server s key = S3_missing ''NoSuchKey''"
    using assms unfolding s3_documented_def by blast
  have put: "let holds = (case (c, get_object server s key) of
                   (If_none_match, S3_missing _) \<Rightarrow> True
                 | (If_match e, S3_body _ e') \<Rightarrow> e = e'
                 | _ \<Rightarrow> False)
              in if holds
                 then \<exists>e s'. put_object server s key d c = (S3_etag e, s')
                             \<and> get_object server s' key = S3_body d e
                 else put_object server s key d c = (S3_error ''PreconditionFailed'', s)" for c
    using assms unfolding s3_documented_def by blast
  show "\<exists>v. fst (s3_write server key d e s) = Wrote v \<and>
      found_option (s3_read server key (snd (s3_write server key d e s))) = Some (d, v)"
    if "map_option snd (found_option (s3_read server key s)) = e"
    using that got put [of "case e of None \<Rightarrow> If_none_match | Some e \<Rightarrow> If_match e"]
    by (auto simp: s3_read_def s3_write_def)
  show "s3_write server key d e s = (Conflict, s)"
    if "map_option snd (found_option (s3_read server key s)) \<noteq> e"
    using that got put [of "case e of None \<Rightarrow> If_none_match | Some e \<Rightarrow> If_match e"]
    by (auto simp: s3_read_def s3_write_def split: option.splits)
qed

subsection \<open>What a probe's outcomes say about the server\<close>

definition request_condition :: "string option \<Rightarrow> condition" where
  "request_condition e = (case e of None \<Rightarrow> If_none_match | Some v \<Rightarrow> If_match v)"

lemma s3_write_Wrote:
  "s3_write server key d e s = (Wrote v, s') \<longleftrightarrow>
     put_object server s key d (request_condition e) = (S3_etag v, s')"
  by (auto simp: s3_write_def Let_def request_condition_def split: prod.splits s3_response.splits if_splits)

lemma s3_write_Conflict:
  "s3_write server key d e s = (Conflict, s') \<longleftrightarrow>
     (\<exists>code \<in> {''PreconditionFailed'', ''ConditionalRequestConflict''}.
        put_object server s key d (request_condition e) = (S3_error code, s'))"
  by (auto simp: s3_write_def Let_def request_condition_def split: prod.splits s3_response.splits if_splits)

lemma verify_put_None:
  "verify_put server probe e s = (None, s') \<longleftrightarrow>
     s3_write server probe (Some (JStr ''must-not-be-written'')) e s = (Conflict, s')"
  by (auto simp: verify_put_def split: prod.splits written.splits)

lemma verify_Verified:
  assumes "verify server probe s = (Verified, s')"
  obtains v s1 s2 s3 w s4 where
    "s3_write server probe (Some (JStr ''initial'')) None s = (Wrote v, s1)"
    "verify_put server probe None s1 = (None, s2)"
    "verify_put server probe (Some WRONG_ETAG) s2 = (None, s3)"
    "s3_write server probe (Some (JStr ''replacement'')) (Some v) s3 = (Wrote w, s4)"
    "s' = delete_object server s4 probe"
proof -
  obtain r1 s1 where w1: "s3_write server probe (Some (JStr ''initial'')) None s = (r1, s1)" by fastforce
  obtain o2 s2 where w2: "verify_put server probe None s1 = (o2, s2)" by fastforce
  obtain o3 s3 where w3: "verify_put server probe (Some WRONG_ETAG) s2 = (o3, s3)" by fastforce
  have put: "verify_put server probe e st \<noteq> (Some Verified, st')" for e st st'
    by (auto simp: verify_put_def split: prod.splits written.splits)
  obtain v where v: "r1 = Wrote v"
    using assms w1 by (cases r1) (auto simp: verify_def)
  obtain r4 s4 where w4: "s3_write server probe (Some (JStr ''replacement'')) (Some v) s3 = (r4, s4)" by fastforce
  note w1' = w1 [unfolded v]
  have o2: "o2 = None"
  proof (cases o2)
    case (Some x)
    have "verify server probe s = (x, delete_object server s2 probe)"
      by (simp only: verify_def w1' w2 Some prod.case written.case option.case)
    with assms have "x = Verified" by simp
    with put w2 Some show ?thesis by simp
  qed simp
  note w2' = w2 [unfolded o2]
  have o3: "o3 = None"
  proof (cases o3)
    case (Some x)
    have "verify server probe s = (x, delete_object server s3 probe)"
      by (simp only: verify_def w1' w2' w3 Some prod.case written.case option.case)
    with assms have "x = Verified" by simp
    with put w3 Some show ?thesis by simp
  qed simp
  note w3' = w3 [unfolded o3]
  have r4: "verify server probe s = (case (r4, s4) of
        (Wrote _, s4) \<Rightarrow> (Verified, delete_object server s4 probe)
      | (Conflict, s4) \<Rightarrow> (Verify_unsupported, delete_object server s4 probe)
      | (Unsupported, s4) \<Rightarrow> (Verify_unsupported, delete_object server s4 probe)
      | (Raised c, s4) \<Rightarrow> (Verify_raised c, delete_object server s4 probe))"
    by (simp only: verify_def w1' w2' w3' w4 prod.case written.case option.case)
  obtain w where w: "r4 = Wrote w" and s': "s' = delete_object server s4 probe"
    using assms [unfolded r4] by (cases r4) auto
  show ?thesis by (rule that [OF w1' w2' w3' w4 [unfolded w] s'])
qed

subsection \<open>Properties\<close>

text \<open>\<open>verify\<close> returns only for a server that created the probe, refused to create it again,
  refused a replacement that named a wrong version, and accepted one that named the right version;
  and it removes the probe.\<close>

theorem verified_server_arbitrates:
  assumes "verify server probe s = (Verified, s')"
  shows "\<exists>d1 d2 d3 e1 e2 s1 s2 s3 s4 code2 code3.
    put_object server s probe d1 If_none_match = (S3_etag e1, s1) \<and>
    put_object server s1 probe d2 If_none_match = (S3_error code2, s2) \<and>
    put_object server s2 probe d2 (If_match WRONG_ETAG) = (S3_error code3, s3) \<and>
    put_object server s3 probe d3 (If_match e1) = (S3_etag e2, s4) \<and>
    {code2, code3} \<subseteq> {''PreconditionFailed'', ''ConditionalRequestConflict''} \<and>
    s' = delete_object server s4 probe"
proof -
  obtain v s1 s2 s3 w s4 where
    "s3_write server probe (Some (JStr ''initial'')) None s = (Wrote v, s1)"
    "verify_put server probe None s1 = (None, s2)"
    "verify_put server probe (Some WRONG_ETAG) s2 = (None, s3)"
    "s3_write server probe (Some (JStr ''replacement'')) (Some v) s3 = (Wrote w, s4)"
    and "s' = delete_object server s4 probe"
    using assms by (rule verify_Verified)
  note ws = this [unfolded verify_put_None s3_write_Wrote s3_write_Conflict request_condition_def
      option.case]
  obtain code2 where code2: "code2 \<in> {''PreconditionFailed'', ''ConditionalRequestConflict''}"
    and w2: "put_object server s1 probe (Some (JStr ''must-not-be-written'')) If_none_match = (S3_error code2, s2)"
    using ws(2) by blast
  obtain code3 where code3: "code3 \<in> {''PreconditionFailed'', ''ConditionalRequestConflict''}"
    and w3: "put_object server s2 probe (Some (JStr ''must-not-be-written'')) (If_match WRONG_ETAG) = (S3_error code3, s3)"
    using ws(3) by blast
  have "{code2, code3} \<subseteq> {''PreconditionFailed'', ''ConditionalRequestConflict''}"
    using code2 code3 by simp
  with ws(1) w2 w3 ws(4,5) show ?thesis by (intro exI conjI)
qed

text \<open>\<open>verify\<close> accepts a server that behaves as documented, whatever unrelated state it has,
  as long as the probe's name is new and its ETag is not the deliberately wrong one.\<close>

theorem documented_server_verifies:
  assumes "s3_documented server probe" and "get_object server s probe = S3_missing ''NoSuchKey''"
    and "\<And>d e s'. put_object server s probe d If_none_match = (S3_etag e, s') \<Longrightarrow> e \<noteq> WRONG_ETAG"
  shows "fst (verify server probe s) = Verified"
proof -
  have store: "conditional_store (\<lambda>s. found_option (s3_read server probe s)) (s3_write server probe)"
    using assms(1) by (rule s3_conditional_store)
  let ?load = "\<lambda>s. found_option (s3_read server probe s)"
  note matching = conditional_store.write_matching [OF store]
    and stale = conditional_store.write_stale [OF store]
  have "?load s = None" using assms(2) by (simp add: s3_read_def)
  then obtain v s1 where w1: "s3_write server probe (Some (JStr ''initial'')) None s = (Wrote v, s1)"
    and r1: "?load s1 = Some (Some (JStr ''initial''), v)"
    using matching [of s None "Some (JStr ''initial'')"] by (metis map_option_is_None prod.collapse)
  then have "v \<noteq> WRONG_ETAG"
    using assms(3) by (simp add: s3_write_Wrote request_condition_def)
  then have w2: "s3_write server probe d None s1 = (Conflict, s1)"
    and w3: "s3_write server probe d (Some WRONG_ETAG) s1 = (Conflict, s1)" for d
    using stale [of s1 None d] stale [of s1 "Some WRONG_ETAG" d] r1 by auto
  obtain v' s4 where w4: "s3_write server probe (Some (JStr ''replacement'')) (Some v) s1 = (Wrote v', s4)"
    using matching [of s1 "Some v" "Some (JStr ''replacement'')"] r1 by (metis option.simps(9) prod.collapse snd_conv)
  show ?thesis by (simp add: verify_def verify_put_def w1 w2 w3 w4)
qed

subsection \<open>A server that does what is documented\<close>

text \<open>A bucket of one key: its object and a counter the ETags are made from.\<close>

definition counter_etag :: "nat \<Rightarrow> string" where
  "counter_etag n = replicate n (CHR ''e'')"

definition bucket_server :: "((data \<times> string) option \<times> nat) s3_server" where
  "bucket_server =
     \<lparr>get_object = (\<lambda>s key. case fst s of None \<Rightarrow> S3_missing ''NoSuchKey'' | Some (d, e) \<Rightarrow> S3_body d e),
      put_object = (\<lambda>s key d c.
        if (case (c, fst s) of (If_none_match, None) \<Rightarrow> True | (If_match e, Some (_, e')) \<Rightarrow> e = e'
            | _ \<Rightarrow> False)
        then (S3_etag (counter_etag (snd s)), (Some (d, counter_etag (snd s)), Suc (snd s)))
        else (S3_error ''PreconditionFailed'', s)),
      delete_object = (\<lambda>s key. (None, snd s))\<rparr>"

lemma bucket_server_documented: "s3_documented bucket_server key"
  by (auto simp: s3_documented_def bucket_server_def split: option.splits condition.splits prod.splits)

theorem verified_server_arbitrates_witness:
  "\<exists>s' e1 s1. verify bucket_server ''probe'' (None, 0) = (Verified, s') \<and>
     put_object bucket_server (None, 0) ''probe'' (Some (JStr ''initial'')) If_none_match = (S3_etag e1, s1)"
proof -
  have "verify bucket_server ''probe'' (None, 0) = (Verified, (None, 2))"
    by (simp add: verify_def verify_put_def s3_write_def bucket_server_def counter_etag_def
        WRONG_ETAG_def numeral_2_eq_2)
  with verified_server_arbitrates [OF this] show ?thesis
    by (simp add: bucket_server_def)
qed

theorem documented_server_verifies_witness:
  "fst (verify bucket_server ''probe'' (None, 0)) = Verified"
  by (rule documented_server_verifies [OF bucket_server_documented])
    (auto simp: bucket_server_def counter_etag_def WRONG_ETAG_def)

end
