(* ===== verification/Lease.thy ===== *)
theory Lease
  imports Lease_Store
begin

text \<open>
  The optional writer lease (\<^verbatim>\<open>src/litelink/_lease.py\<close>) over a conditional store. \<open>acquire\<close>, \<open>renew\<close>
  and \<open>release\<close> are split at the points where another process can act: the read and the clock check
  come first, the conditional write later. Each part is a definition; the sequential methods are
  their composition, and the step relation interleaves the parts of any number of handles.
\<close>

subsection \<open>Records\<close>

record held =
  h_owner :: string
  h_token :: string
  h_expires_at :: rat

datatype lease_error = Leased held | LeaseLost string | LeaseRuntimeError string
  | LeaseValueError string | StoreError string

text \<open>\<open>json.dumps(asdict(held))\<close>, and the checks of \<open>_decode\<close>.\<close>

definition encode_held :: "held \<Rightarrow> data" where
  "encode_held h = Some (JObj [(''owner'', JStr (h_owner h)), (''token'', JStr (h_token h)),
                               (''expires_at'', JFloat (FVal (Fin (h_expires_at h))))])"

fun json_number :: "json \<Rightarrow> pyfloat option" where
  "json_number (JInt i) = Some (FVal (Fin (of_int i)))"
| "json_number (JFloat f) = Some f"
| "json_number _ = None"

fun json_string :: "json \<Rightarrow> string option" where
  "json_string (JStr s) = Some s"
| "json_string _ = None"

definition decode_held :: "data \<Rightarrow> lease_error + held option" where
  "decode_held d =
     (case d of
        Some (JObj kvs) \<Rightarrow>
          (if set (map fst kvs) \<noteq> {''owner'', ''token'', ''expires_at''}
           then Inl (LeaseValueError ''invalid lease record'')
           else (case (Option.bind (map_of kvs ''owner'') json_string,
                       Option.bind (map_of kvs ''token'') json_string,
                       Option.bind (map_of kvs ''expires_at'') json_number) of
                   (Some own, Some token, Some (FVal (Fin ex))) \<Rightarrow>
                     (if token = [] \<or> (own = [] \<and> ex \<noteq> 0)
                      then Inl (LeaseValueError ''invalid lease record'')
                      else if own = [] then Inr None
                      else Inr (Some \<lparr>h_owner = own, h_token = token, h_expires_at = ex\<rparr>))
                 | _ \<Rightarrow> Inl (LeaseValueError ''invalid lease record'')))
      | _ \<Rightarrow> Inl (LeaseValueError ''invalid lease record''))"

subsection \<open>One handle\<close>

record 'v lease =
  l_owner :: string
  l_ttl_s :: rat
  l_skew_s :: rat
  l_held :: "held option"
  l_version :: "'v option"

definition make_lease :: "string \<Rightarrow> rat \<Rightarrow> rat \<Rightarrow> 'v lease" where
  "make_lease own ttl skew =
     \<lparr>l_owner = own, l_ttl_s = ttl, l_skew_s = skew, l_held = None, l_version = None\<rparr>"

definition forget :: "'v lease \<Rightarrow> 'v lease" where
  "forget l = l\<lparr>l_held := None, l_version := None\<rparr>"

definition lease_state :: "('s \<Rightarrow> (data \<times> 'v) option) \<Rightarrow> 's \<Rightarrow> lease_error + held option" where
  "lease_state load s = (case load s of None \<Rightarrow> Inr None | Some (d, _) \<Rightarrow> decode_held d)"

text \<open>The record \<open>_write\<close> builds, at the clock \<open>now\<close>, with a fresh token.\<close>

definition written_held :: "'v lease \<Rightarrow> rat \<Rightarrow> string \<Rightarrow> bool \<Rightarrow> held" where
  "written_held l now token released =
     \<lparr>h_owner = (if released then [] else l_owner l), h_token = token,
      h_expires_at = (if released then 0 else now + l_ttl_s l)\<rparr>"

definition lease_write ::
  "(data \<Rightarrow> 'v option \<Rightarrow> 's \<Rightarrow> 'v written \<times> 's) \<Rightarrow> 'v lease \<Rightarrow> 'v option \<Rightarrow> rat \<Rightarrow> string \<Rightarrow> bool
     \<Rightarrow> 's \<Rightarrow> ('v written \<times> held) \<times> 'v lease \<times> 's" where
  "lease_write store l expected now token released s =
     (let h = written_held l now token released in
      case store (encode_held h) expected s of
        (Wrote v, s') \<Rightarrow> ((Wrote v, h), l\<lparr>l_version := Some v, l_held := Some h\<rparr>, s')
      | (r, s') \<Rightarrow> ((r, h), l, s'))"

text \<open>One turn of the loop of \<open>acquire\<close>: the read and the check; Inr is the version to expect.\<close>

definition acquire_check ::
  "('s \<Rightarrow> (data \<times> 'v) option) \<Rightarrow> 'v lease \<Rightarrow> rat \<Rightarrow> 's \<Rightarrow> lease_error + 'v option" where
  "acquire_check load l now s =
     (case load s of
        None \<Rightarrow> Inr None
      | Some (d, v) \<Rightarrow>
          (case decode_held d of
             Inl e \<Rightarrow> Inl e
           | Inr None \<Rightarrow> Inr (Some v)
           | Inr (Some h) \<Rightarrow> if now < h_expires_at h + l_skew_s l then Inl (Leased h)
                            else Inr (Some v)))"

text \<open>
  \<open>acquire\<close>. Each of the four turns reads the clock and the store, then writes; \<open>turn_before\<close> and
  \<open>turn_between\<close> are what other processes do to the store before the read and between the read and
  the write.
\<close>

record 's turn =
  turn_before :: "'s \<Rightarrow> 's"
  turn_check_now :: rat
  turn_between :: "'s \<Rightarrow> 's"
  turn_write_now :: rat
  turn_token :: string

fun acquire_loop ::
  "('s \<Rightarrow> (data \<times> 'v) option) \<Rightarrow> (data \<Rightarrow> 'v option \<Rightarrow> 's \<Rightarrow> 'v written \<times> 's) \<Rightarrow> 'v lease
     \<Rightarrow> 's turn list \<Rightarrow> 's \<Rightarrow> (lease_error + held) \<times> 'v lease \<times> 's" where
  "acquire_loop load store l [] s =
     (Inl (LeaseLost ''lease changed repeatedly during acquisition; retry''), l, s)"
| "acquire_loop load store l (t # ts) s =
     (let s1 = turn_before t s in
      case acquire_check load l (turn_check_now t) s1 of
        Inl e \<Rightarrow> (Inl e, l, s1)
      | Inr expected \<Rightarrow>
          (case lease_write store l expected (turn_write_now t) (turn_token t) False
                  (turn_between t s1) of
             ((Wrote v, h), l', s2) \<Rightarrow> (Inr h, l', s2)
           | ((Conflict, h), l', s2) \<Rightarrow> acquire_loop load store l' ts s2
           | ((Unsupported, h), l', s2) \<Rightarrow> (Inl (StoreError ''unsupported''), l', s2)
           | ((Raised c, h), l', s2) \<Rightarrow> (Inl (StoreError c), l', s2)))"

definition ATTEMPTS :: nat where
  "ATTEMPTS = 4"

definition lease_acquire ::
  "('s \<Rightarrow> (data \<times> 'v) option) \<Rightarrow> (data \<Rightarrow> 'v option \<Rightarrow> 's \<Rightarrow> 'v written \<times> 's) \<Rightarrow> 'v lease
     \<Rightarrow> 's turn list \<Rightarrow> 's \<Rightarrow> (lease_error + held) \<times> 'v lease \<times> 's" where
  "lease_acquire load store l turns s =
     (if l_held l \<noteq> None
      then (Inl (LeaseRuntimeError ''already acquired; renew or release this handle''), l, s)
      else acquire_loop load store l (take ATTEMPTS turns) s)"

text \<open>\<open>_require_held\<close>: True is a return, False that it forgot the lease and raised.\<close>

definition require_held :: "'v lease \<Rightarrow> rat \<Rightarrow> bool \<times> 'v lease" where
  "require_held l now =
     (case l_held l of
        None \<Rightarrow> (False, forget l)
      | Some h \<Rightarrow> if h_expires_at h - l_skew_s l \<le> now then (False, forget l) else (True, l))"

definition renew_put ::
  "(data \<Rightarrow> 'v option \<Rightarrow> 's \<Rightarrow> 'v written \<times> 's) \<Rightarrow> 'v lease \<Rightarrow> rat \<Rightarrow> string \<Rightarrow> 's
     \<Rightarrow> (lease_error + held) \<times> 'v lease \<times> 's" where
  "renew_put store l now token s =
     (case lease_write store l (l_version l) now token False s of
        ((Wrote v, h), l', s') \<Rightarrow> (Inr h, l', s')
      | ((Conflict, h), l', s') \<Rightarrow> (Inl (LeaseLost ''lease changed before renewal''), forget l', s')
      | ((Unsupported, h), l', s') \<Rightarrow> (Inl (StoreError ''unsupported''), l', s')
      | ((Raised c, h), l', s') \<Rightarrow> (Inl (StoreError c), l', s'))"

definition lease_renew ::
  "(data \<Rightarrow> 'v option \<Rightarrow> 's \<Rightarrow> 'v written \<times> 's) \<Rightarrow> 'v lease \<Rightarrow> rat \<Rightarrow> rat \<Rightarrow> string \<Rightarrow> 's
     \<Rightarrow> (lease_error + held) \<times> 'v lease \<times> 's" where
  "lease_renew store l check_now write_now token s =
     (case require_held l check_now of
        (False, l') \<Rightarrow> (Inl (LeaseLost ''lease not held or expired''), l', s)
      | (True, l') \<Rightarrow> renew_put store l' write_now token s)"

definition release_put ::
  "(data \<Rightarrow> 'v option \<Rightarrow> 's \<Rightarrow> 'v written \<times> 's) \<Rightarrow> 'v lease \<Rightarrow> rat \<Rightarrow> string \<Rightarrow> 's
     \<Rightarrow> (lease_error + unit) \<times> 'v lease \<times> 's" where
  "release_put store l now token s =
     (case lease_write store l (l_version l) now token True s of
        ((Wrote v, h), l', s') \<Rightarrow> (Inr (), forget l', s')
      | ((Conflict, h), l', s') \<Rightarrow> (Inl (LeaseLost ''lease changed before release''), forget l', s')
      | ((Unsupported, h), l', s') \<Rightarrow> (Inl (StoreError ''unsupported''), forget l', s')
      | ((Raised c, h), l', s') \<Rightarrow> (Inl (StoreError c), forget l', s'))"

definition lease_release ::
  "(data \<Rightarrow> 'v option \<Rightarrow> 's \<Rightarrow> 'v written \<times> 's) \<Rightarrow> 'v lease \<Rightarrow> rat \<Rightarrow> rat \<Rightarrow> string \<Rightarrow> 's
     \<Rightarrow> (lease_error + unit) \<times> 'v lease \<times> 's" where
  "lease_release store l check_now write_now token s =
     (case require_held l check_now of
        (False, l') \<Rightarrow> (Inl (LeaseLost ''lease not held or expired''), l', s)
      | (True, l') \<Rightarrow> release_put store l' write_now token s)"

subsection \<open>The constructor's checks\<close>

definition lease_arguments_ok :: "string \<Rightarrow> pyfloat \<Rightarrow> pyfloat \<Rightarrow> bool" where
  "lease_arguments_ok own ttl skew \<longleftrightarrow> own \<noteq> [] \<and>
     (case (ttl, skew) of
        (FVal (Fin t), FVal (Fin k)) \<Rightarrow> 0 \<le> k \<and> k < t
      | _ \<Rightarrow> False)"

subsection \<open>What any conditional store gives the lease\<close>

text \<open>The store after turns whose writes were all refused: only others have changed it.\<close>

definition others_only :: "'s turn list \<Rightarrow> 's \<Rightarrow> 's" where
  "others_only ts s = fold (\<lambda>t x. turn_between t (turn_before t x)) ts s"

lemma others_only_simps [simp]: "others_only [] s = s"
  "others_only (t # ts) s = others_only ts (turn_between t (turn_before t s))"
  by (simp_all add: others_only_def)

text \<open>The record read at a turn's check leaves the range free: none, a tombstone, or expired.\<close>

definition free_at :: "('s \<Rightarrow> (data \<times> 'v) option) \<Rightarrow> 'v lease \<Rightarrow> rat \<Rightarrow> 's \<Rightarrow> bool" where
  "free_at load l now s \<longleftrightarrow>
     (case load s of
        None \<Rightarrow> True
      | Some (d, v) \<Rightarrow> (case decode_held d of
          Inl _ \<Rightarrow> False
        | Inr None \<Rightarrow> True
        | Inr (Some h) \<Rightarrow> h_expires_at h + l_skew_s l \<le> now))"

lemma acquire_check_free:
  "acquire_check load l now s = Inr e \<Longrightarrow> free_at load l now s \<and> e = map_option snd (load s)"
  by (auto simp: acquire_check_def free_at_def split: option.splits sum.splits if_splits)

lemma acquire_check_live:
  "load s = Some (d, v) \<Longrightarrow> decode_held d = Inr (Some h) \<Longrightarrow> now < h_expires_at h + l_skew_s l \<Longrightarrow>
     acquire_check load l now s = Inl (Leased h)"
  by (simp add: acquire_check_def)

lemma lease_write_eq:
  "store (encode_held (written_held l now token rel)) e s = (r, s1) \<Longrightarrow>
     lease_write store l e now token rel s =
       ((r, written_held l now token rel),
        (case r of Wrote v \<Rightarrow> l\<lparr>l_version := Some v, l_held := Some (written_held l now token rel)\<rparr>
                 | _ \<Rightarrow> l), s1)"
  by (cases r) (simp_all add: lease_write_def Let_def)

context conditional_store
begin

lemma lease_write_won:
  assumes "lease_write store l e now token rel s = ((Wrote v, h), l', s')"
  shows "load s' = Some (encode_held h, v)" and "map_option snd (load s) = e"
    and "l_version l' = Some v" and "l_held l' = Some h"
proof -
  let ?h = "written_held l now token rel"
  obtain r s1 where w: "store (encode_held ?h) e s = (r, s1)" by fastforce
  have eqs: "r = Wrote v" "h = ?h" "s1 = s'" "l' = l\<lparr>l_version := Some v, l_held := Some ?h\<rparr>"
    using assms [unfolded lease_write_eq [of store l now token rel e s, OF w]] by auto
  show "load s' = Some (encode_held h, v)" "map_option snd (load s) = e"
    using wrote_then_read wrote_was_expected w eqs by blast+
  show "l_version l' = Some v" "l_held l' = Some h" by (simp_all add: eqs)
qed

lemma lease_write_stale:
  "map_option snd (load s) \<noteq> e \<Longrightarrow>
     lease_write store l e now token rel s = ((Conflict, written_held l now token rel), l, s)"
  by (simp add: lease_write_def Let_def write_stale)

lemma lease_write_lost:
  "lease_write store l e now token rel s = ((Conflict, h), l', s') \<Longrightarrow> l' = l"
  by (auto simp: lease_write_def Let_def split: written.splits prod.splits)

lemma lease_write_conflict:
  assumes "lease_write store l e now token rel s = ((Conflict, h), l', s')"
  shows "s' = s"
proof -
  obtain r s1 where w: "store (encode_held (written_held l now token rel)) e s = (r, s1)" by fastforce
  with assms lease_write_eq [of store l now token rel e s, OF w] have "r = Conflict" "s1 = s'" by simp_all
  with write_outcomes [OF w] show ?thesis by auto
qed

lemma acquire_loop_won:
  assumes "acquire_loop load store l turns s = (Inr h, l', s')"
  shows "\<exists>n t st. n < length turns \<and> t = turns ! n \<and> st = turn_before t (others_only (take n turns) s) \<and>
    free_at load l (turn_check_now t) st \<and> map_option snd (load (turn_between t st)) = map_option snd (load st) \<and>
    h = written_held l (turn_write_now t) (turn_token t) False \<and>
    (\<exists>v. load s' = Some (encode_held h, v) \<and> l_version l' = Some v \<and> l_held l' = Some h)"
  using assms
proof (induction turns arbitrary: s)
  case (Cons t ts)
  let ?s1 = "turn_before t s"
  obtain e where e: "acquire_check load l (turn_check_now t) ?s1 = Inr e"
    using Cons.prems by (cases "acquire_check load l (turn_check_now t) ?s1") (auto simp: Let_def)
  obtain r g l1 s2 where w: "lease_write store l e (turn_write_now t) (turn_token t) False
      (turn_between t ?s1) = ((r, g), l1, s2)" by (metis prod.exhaust_sel)
  show ?case
  proof (cases r)
    case (Wrote v)
    then have "h = g" "l' = l1" "s' = s2" using Cons.prems e w by (auto simp: Let_def)
    moreover have "g = written_held l (turn_write_now t) (turn_token t) False"
      using w by (auto simp: lease_write_def Let_def split: written.splits prod.splits)
    ultimately show ?thesis using lease_write_won [OF w [unfolded Wrote]] acquire_check_free [OF e]
      by (intro exI [of _ 0] exI [of _ t] exI [of _ ?s1]) auto
  next
    case Conflict
    then have "l1 = l" "s2 = turn_between t ?s1" using lease_write_lost lease_write_conflict w by blast+
    then have "acquire_loop load store l ts (turn_between t ?s1) = (Inr h, l', s')"
      using Cons.prems e w Conflict by (auto simp: Let_def)
    from Cons.IH [OF this] obtain n t' st where n: "n < length ts" "t' = ts ! n"
      "st = turn_before t' (others_only (take n ts) (turn_between t ?s1))"
      "free_at load l (turn_check_now t') st" "map_option snd (load (turn_between t' st)) = map_option snd (load st)"
      "h = written_held l (turn_write_now t') (turn_token t') False"
      "\<exists>v. load s' = Some (encode_held h, v) \<and> l_version l' = Some v \<and> l_held l' = Some h" by blast
    then show ?thesis by (intro exI [of _ "Suc n"] exI [of _ t'] exI [of _ st]) simp
  qed (use Cons.prems e w in \<open>auto simp: Let_def\<close>)
qed simp

lemma renew_stale:
  assumes "l_held l = Some h" and "check_now < h_expires_at h - l_skew_s l"
    and "map_option snd (load s) \<noteq> l_version l"
  shows "lease_renew store l check_now write_now token s =
           (Inl (LeaseLost ''lease changed before renewal''), forget l, s)"
  using assms by (simp add: lease_renew_def require_held_def renew_put_def lease_write_stale)

lemma release_stale:
  assumes "l_held l = Some h" and "check_now < h_expires_at h - l_skew_s l"
    and "map_option snd (load s) \<noteq> l_version l"
  shows "lease_release store l check_now write_now token s =
           (Inl (LeaseLost ''lease changed before release''), forget l, s)"
  using assms by (simp add: lease_release_def require_held_def release_put_def lease_write_stale)

end

subsection \<open>Properties\<close>

text \<open>C32. An \<open>acquire\<close> over the file store that returns wrote its own record, in one of its at most four
  turns, and the record that turn read, in the store as only others had changed it till then, left the range
  free by the clock of the check: there was none, a tombstone, or one whose deadline plus this handle's
  skew had passed; and its version was still the same when the write came.\<close>

theorem acquire_replaces_only_a_free_record:
  assumes "lease_acquire (file_read sha) (file_write sha) l turns s = (Inr h, l', s')"
  shows "\<exists>n t st. n < min 4 (length turns) \<and> t = turns ! n \<and> st = turn_before t (others_only (take n turns) s) \<and>
    free_at (file_read sha) l (turn_check_now t) st \<and> map_option sha (turn_between t st) = map_option sha st \<and>
    h = written_held l (turn_write_now t) (turn_token t) False \<and> s' = Some (encode_held h) \<and> l_held l' = Some h"
proof -
  have loop: "acquire_loop (file_read sha) (file_write sha) l (take 4 turns) s = (Inr h, l', s')"
    using assms by (auto simp: lease_acquire_def ATTEMPTS_def split: if_splits)
  have ver: "map_option snd (file_read sha x) = map_option sha x" for x :: file_store
    by (auto simp: file_read_def split: option.splits)
  from files.acquire_loop_won [OF loop, unfolded ver] obtain n t st where n: "n < length (take 4 turns)" "t = take 4 turns ! n"
    "st = turn_before t (others_only (take n (take 4 turns)) s)" "free_at (file_read sha) l (turn_check_now t) st"
    "map_option sha (turn_between t st) = map_option sha st" "h = written_held l (turn_write_now t) (turn_token t) False"
    "\<exists>v. file_read sha s' = Some (encode_held h, v) \<and> l_version l' = Some v \<and> l_held l' = Some h" by blast
  moreover have "s' = Some (encode_held h)" "l_held l' = Some h" using n(7) by (auto simp: file_read_def split: option.splits)
  moreover have "n < 4" "n < length turns" using n(1) by simp_all
  ultimately show ?thesis by (intro exI [of _ n] exI [of _ t] exI [of _ st]) (simp add: min_absorb1)
qed

text \<open>C33. a handle whose record has been replaced can neither renew nor release: both raise
  \<open>LeaseLost\<close>, leave the new owner's record as it is, and forget the lease.\<close>

theorem stale_handle_changes_nothing:
  assumes "l_held l = Some h" and "check_now < h_expires_at h - l_skew_s l"
    and "map_option sha s \<noteq> l_version l"
  shows "lease_renew (file_write sha) l check_now write_now token s =
           (Inl (LeaseLost ''lease changed before renewal''), forget l, s) \<and>
         lease_release (file_write sha) l check_now write_now token s =
           (Inl (LeaseLost ''lease changed before release''), forget l, s)"
proof -
  have "map_option snd (file_read sha s) \<noteq> l_version l"
    using assms(3) by (auto simp: file_read_def split: option.splits)
  with files.renew_stale [OF assms(1,2)] files.release_stale [OF assms(1,2)] show ?thesis
    by blast
qed

text \<open>the record a handle writes decodes to what it wrote, and a tombstone to no holder.\<close>

theorem lease_record_roundtrip:
  assumes "token \<noteq> []" and "l_owner l \<noteq> []"
  shows "decode_held (encode_held (written_held l now token False)) =
           Inr (Some (written_held l now token False)) \<and>
         decode_held (encode_held (written_held l now token True)) = Inr None"
  using assms by (auto simp: decode_held_def encode_held_def written_held_def)

subsection \<open>One handle at work\<close>

definition example_lease :: "data lease" where
  "example_lease = make_lease ''a'' 30 5"

definition example_turn :: "file_store turn" where
  "example_turn = \<lparr>turn_before = (\<lambda>s. s), turn_check_now = 100, turn_between = (\<lambda>s. s),
                   turn_write_now = 101, turn_token = ''t1''\<rparr>"

definition example_held :: held where
  "example_held = \<lparr>h_owner = ''a'', h_token = ''t1'', h_expires_at = 131\<rparr>"

lemmas lease_example_simps = example_lease_def example_turn_def example_held_def make_lease_def
  lease_acquire_def ATTEMPTS_def acquire_check_def file_read_def file_write_def lease_write_def
  written_held_def

theorem acquire_replaces_only_a_free_record_witness:
  "free_at (file_read (\<lambda>d. d)) example_lease 100 None \<and> l_held (example_lease\<lparr>l_held := Some example_held\<rparr>) = Some example_held"
proof -
  have "lease_acquire (file_read (\<lambda>d. d)) (file_write (\<lambda>d. d)) example_lease [example_turn] None =
      (Inr example_held, example_lease\<lparr>l_version := Some (encode_held example_held),
         l_held := Some example_held\<rparr>, Some (encode_held example_held))"
    by (simp add: lease_example_simps Let_def)
  from acquire_replaces_only_a_free_record [OF this] show ?thesis by (auto simp: example_turn_def)
qed

theorem stale_handle_changes_nothing_witness:
  "lease_renew (file_write (\<lambda>d. d)) (example_lease\<lparr>l_held := Some example_held\<rparr>) 110 111 ''t2''
     (Some None) = (Inl (LeaseLost ''lease changed before renewal''),
       forget (example_lease\<lparr>l_held := Some example_held\<rparr>), Some None)"
  using stale_handle_changes_nothing [of "example_lease\<lparr>l_held := Some example_held\<rparr>" example_held 110
      "\<lambda>d. d" "Some None" 111 "''t2''"]
  by (simp add: example_lease_def example_held_def make_lease_def)

theorem lease_record_roundtrip_witness:
  "decode_held (encode_held (written_held example_lease 100 ''t1'' False)) =
     Inr (Some \<lparr>h_owner = ''a'', h_token = ''t1'', h_expires_at = 130\<rparr>)"
  using lease_record_roundtrip [of "''t1''" example_lease 100]
  by (simp add: example_lease_def make_lease_def written_held_def)

end
