(* ===== verification/Lease_System.thy ===== *)
theory Lease_System
  imports Lease
begin

text \<open>
  Any number of lease handles over one \<open>FileStore\<close>, in any interleaving of their reads and
  conditional writes. \<open>delta\<close> bounds how far a handle's clock reading may be from the true time, and
  \<open>skew_s\<close> of every handle is at least that. \<open>sha\<close> is the hash whose value is the record's version,
  taken to be collision free where a property says so; a token is a UUID nobody used before.
\<close>

subsection \<open>The system\<close>

datatype 'v lease_pc = Idle | Acquiring "'v option" | Renewing | Releasing

record 'v lease_sys =
  ls_store :: file_store
  ls_clock :: rat
  ls_handle :: "nat \<Rightarrow> 'v lease"
  ls_pc :: "nat \<Rightarrow> 'v lease_pc"
  ls_tokens :: "string set"

definition reading :: "rat \<Rightarrow> 'v lease_sys \<Rightarrow> rat \<Rightarrow> bool" where
  "reading delta s now \<longleftrightarrow> ls_clock s - delta \<le> now \<and> now \<le> ls_clock s + delta"

definition set_handle :: "nat \<Rightarrow> 'v lease \<Rightarrow> 'v lease_pc \<Rightarrow> 'v lease_sys \<Rightarrow> 'v lease_sys" where
  "set_handle i l pc s = s\<lparr>ls_handle := (ls_handle s)(i := l), ls_pc := (ls_pc s)(i := pc)\<rparr>"

inductive lease_step :: "(data \<Rightarrow> 'v) \<Rightarrow> rat \<Rightarrow> 'v lease_sys \<Rightarrow> 'v lease_sys \<Rightarrow> bool"
  for sha :: "data \<Rightarrow> 'v" and delta :: rat where
  tick: "ls_clock s \<le> t \<Longrightarrow> lease_step sha delta s (s\<lparr>ls_clock := t\<rparr>)"
| check: "ls_pc s i = Idle \<Longrightarrow> l_held (ls_handle s i) = None \<Longrightarrow> reading delta s now \<Longrightarrow>
    acquire_check (file_read sha) (ls_handle s i) now (ls_store s) = Inr e \<Longrightarrow>
    lease_step sha delta s (set_handle i (ls_handle s i) (Acquiring e) s)"
| put: "ls_pc s i = Acquiring e \<Longrightarrow> reading delta s now \<Longrightarrow> token \<notin> ls_tokens s \<Longrightarrow> token \<noteq> [] \<Longrightarrow>
    lease_write (file_write sha) (ls_handle s i) e now token False (ls_store s) = (r, l', d') \<Longrightarrow>
    lease_step sha delta s
      (set_handle i l' Idle (s\<lparr>ls_store := d', ls_tokens := insert token (ls_tokens s)\<rparr>))"
| require: "ls_pc s i = Idle \<Longrightarrow> reading delta s now \<Longrightarrow> pc \<in> {Renewing, Releasing} \<Longrightarrow>
    require_held (ls_handle s i) now = (ok, l') \<Longrightarrow>
    lease_step sha delta s (set_handle i l' (if ok then pc else Idle) s)"
| renewing: "ls_pc s i = Renewing \<Longrightarrow> reading delta s now \<Longrightarrow> token \<notin> ls_tokens s \<Longrightarrow> token \<noteq> [] \<Longrightarrow>
    renew_put (file_write sha) (ls_handle s i) now token (ls_store s) = (r', l', d') \<Longrightarrow>
    lease_step sha delta s
      (set_handle i l' Idle (s\<lparr>ls_store := d', ls_tokens := insert token (ls_tokens s)\<rparr>))"
| releasing: "ls_pc s i = Releasing \<Longrightarrow> reading delta s now \<Longrightarrow> token \<notin> ls_tokens s \<Longrightarrow> token \<noteq> [] \<Longrightarrow>
    release_put (file_write sha) (ls_handle s i) now token (ls_store s) = (r'', l', d') \<Longrightarrow>
    lease_step sha delta s
      (set_handle i l' Idle (s\<lparr>ls_store := d', ls_tokens := insert token (ls_tokens s)\<rparr>))"

definition lease_init :: "rat \<Rightarrow> 'v lease_sys \<Rightarrow> bool" where
  "lease_init delta s \<longleftrightarrow>
     (\<forall>i. l_held (ls_handle s i) = None \<and> l_version (ls_handle s i) = None \<and> ls_pc s i = Idle
          \<and> delta \<le> l_skew_s (ls_handle s i) \<and> l_owner (ls_handle s i) \<noteq> [])"

text \<open>
  A record is spent when it is a tombstone or its deadline has passed. What a handle holds is
  either the record in the store or spent, and a record a handle is about to replace is spent.
\<close>

definition spent :: "rat \<Rightarrow> data \<Rightarrow> bool" where
  "spent clock d \<longleftrightarrow> (case decode_held d of
     Inl _ \<Rightarrow> False | Inr None \<Rightarrow> True | Inr (Some h) \<Rightarrow> h_expires_at h \<le> clock)"

definition held_ok ::
  "(data \<Rightarrow> 'v) \<Rightarrow> rat \<Rightarrow> file_store \<Rightarrow> string set \<Rightarrow> 'v lease \<Rightarrow> bool" where
  "held_ok sha clock st tokens l \<longleftrightarrow>
     (case l_held l of
        None \<Rightarrow> l_version l = None
      | Some h \<Rightarrow> l_version l = Some (sha (encode_held h))
                  \<and> h_token h \<in> tokens \<and> h_token h \<noteq> [] \<and> h_owner h \<noteq> []
                  \<and> (st = Some (encode_held h) \<or> h_expires_at h \<le> clock))"

definition pc_ok :: "(data \<Rightarrow> 'v) \<Rightarrow> rat \<Rightarrow> 'v lease_pc \<Rightarrow> bool" where
  "pc_ok sha clock pc \<longleftrightarrow> (\<forall>v. pc = Acquiring (Some v) \<longrightarrow> (\<exists>d. v = sha d \<and> spent clock d))"

definition tokens_apart :: "(nat \<Rightarrow> 'v lease) \<Rightarrow> bool" where
  "tokens_apart f \<longleftrightarrow> (\<forall>i j h k. i \<noteq> j \<longrightarrow> l_held (f i) = Some h \<longrightarrow>
      l_held (f j) = Some k \<longrightarrow> h_token h \<noteq> h_token k)"

definition lease_inv :: "(data \<Rightarrow> 'v) \<Rightarrow> rat \<Rightarrow> 'v lease_sys \<Rightarrow> bool" where
  "lease_inv sha delta s \<longleftrightarrow>
     (\<forall>i. held_ok sha (ls_clock s) (ls_store s) (ls_tokens s) (ls_handle s i))
     \<and> (\<forall>i. pc_ok sha (ls_clock s) (ls_pc s i))
     \<and> tokens_apart (ls_handle s)
     \<and> (\<forall>i. delta \<le> l_skew_s (ls_handle s i) \<and> l_owner (ls_handle s i) \<noteq> [])"

subsection \<open>Records survive their encoding\<close>

lemma decode_encode_held:
  assumes "h_token h \<noteq> []" and "h_owner h \<noteq> []"
  shows "decode_held (encode_held h) = Inr (Some h)"
  using assms by (auto simp: decode_held_def encode_held_def)

lemma decode_encode_tombstone:
  "t \<noteq> [] \<Longrightarrow> decode_held (encode_held \<lparr>h_owner = [], h_token = t, h_expires_at = 0\<rparr>) = Inr None"
  by (auto simp: decode_held_def encode_held_def)

lemma encode_held_inj: "encode_held h = encode_held k \<Longrightarrow> h = k"
  by (cases h; cases k) (simp add: encode_held_def)

lemma spent_later: "spent c d \<Longrightarrow> c \<le> c' \<Longrightarrow> spent c' d"
  by (auto simp: spent_def split: option.splits sum.splits)

lemma spent_encode:
  "spent c (encode_held h) \<Longrightarrow> h_token h \<noteq> [] \<Longrightarrow> h_owner h \<noteq> [] \<Longrightarrow> h_expires_at h \<le> c"
  by (auto simp: spent_def decode_encode_held)

lemma check_spent:
  assumes "acquire_check (file_read sha) l now st = Inr (Some v)"
    and "now \<le> c + delta" and "delta \<le> l_skew_s l"
  shows "\<exists>d. v = sha d \<and> spent c d"
proof -
  obtain d where "v = sha d" and "case decode_held d of Inl _ \<Rightarrow> False | Inr None \<Rightarrow> True
      | Inr (Some h) \<Rightarrow> h_expires_at h + l_skew_s l \<le> now"
    using assms(1) by (auto simp: acquire_check_def file_read_def split: option.splits sum.splits if_splits)
  with assms(2,3) have "spent c d" by (auto simp: spent_def split: option.splits sum.splits)
  with \<open>v = sha d\<close> show ?thesis by blast
qed

lemma file_write_cases:
  "file_write sha d e st = (r, st') \<Longrightarrow>
     (r = Conflict \<and> st' = st) \<or> (r = Wrote (sha d) \<and> st' = Some d \<and> e = map_option sha st)"
  by (auto simp: file_write_def file_read_def Let_def split: option.splits if_splits)

subsection \<open>Every step keeps the invariant\<close>

lemma set_handle_simps [simp]:
  "ls_handle (set_handle i l pc s) = (ls_handle s)(i := l)"
  "ls_pc (set_handle i l pc s) = (ls_pc s)(i := pc)"
  "ls_store (set_handle i l pc s) = ls_store s"
  "ls_clock (set_handle i l pc s) = ls_clock s"
  "ls_tokens (set_handle i l pc s) = ls_tokens s"
  by (simp_all add: set_handle_def)

lemma forget_simps [simp]:
  "l_held (forget l) = None" "l_version (forget l) = None" "l_skew_s (forget l) = l_skew_s l"
  "l_owner (forget l) = l_owner l"
  by (simp_all add: forget_def)

lemma lease_invI:
  assumes "\<And>i. held_ok sha (ls_clock s) (ls_store s) (ls_tokens s) (ls_handle s i)"
    and "\<And>i. pc_ok sha (ls_clock s) (ls_pc s i)" and "tokens_apart (ls_handle s)"
    and "\<And>i. delta \<le> l_skew_s (ls_handle s i)" and "\<And>i. l_owner (ls_handle s i) \<noteq> []"
  shows "lease_inv sha delta s"
  using assms by (simp add: lease_inv_def)

lemma lease_invD:
  assumes "lease_inv sha delta s"
  shows "held_ok sha (ls_clock s) (ls_store s) (ls_tokens s) (ls_handle s i)"
    and "pc_ok sha (ls_clock s) (ls_pc s i)" and "tokens_apart (ls_handle s)"
    and "delta \<le> l_skew_s (ls_handle s i)" and "l_owner (ls_handle s i) \<noteq> []"
  using assms by (simp_all add: lease_inv_def)

lemma pc_ok_simps [simp]:
  "pc_ok sha c Idle" "pc_ok sha c Renewing" "pc_ok sha c Releasing" "pc_ok sha c (Acquiring None)"
  "pc_ok sha c (Acquiring (Some v)) \<longleftrightarrow> (\<exists>d. v = sha d \<and> spent c d)"
  by (simp_all add: pc_ok_def)

lemma held_ok_None [simp]: "l_held l = None \<Longrightarrow> held_ok sha c st tk l \<longleftrightarrow> l_version l = None"
  by (simp add: held_ok_def)

lemma held_ok_forget [simp]: "held_ok sha c st tk (forget l)"
  by simp

lemma held_ok_later: "held_ok sha c st tk l \<Longrightarrow> c \<le> c' \<Longrightarrow> held_ok sha c' st tk l"
  by (auto simp: held_ok_def split: option.splits)

lemma pc_ok_later: "pc_ok sha c pc \<Longrightarrow> c \<le> c' \<Longrightarrow> pc_ok sha c' pc"
  unfolding pc_ok_def by (blast intro: spent_later)

lemma held_ok_tokens: "held_ok sha c st tk l \<Longrightarrow> held_ok sha c st (insert t tk) l"
  by (auto simp: held_ok_def split: option.splits)

lemma held_ok_replaced:
  "held_ok sha c st tk l \<Longrightarrow>
     (\<And>k. l_held l = Some k \<Longrightarrow> st = Some (encode_held k) \<Longrightarrow> h_expires_at k \<le> c) \<Longrightarrow>
     held_ok sha c st' tk l"
  by (auto simp: held_ok_def split: option.splits)

lemma tokens_apart_update:
  assumes "tokens_apart f" and "\<And>j k h. j \<noteq> i \<Longrightarrow> l_held (f j) = Some k \<Longrightarrow> l_held l = Some h \<Longrightarrow>
             h_token h \<noteq> h_token k"
  shows "tokens_apart (f(i := l))"
  using assms unfolding tokens_apart_def by (metis fun_upd_apply)

lemma tokens_apart_forget:
  "tokens_apart f \<Longrightarrow> l_held l = None \<Longrightarrow> tokens_apart (f(i := l))"
  by (rule tokens_apart_update) auto

lemma tokens_apart_same:
  "tokens_apart f \<Longrightarrow> l_held l = l_held (f i) \<Longrightarrow> tokens_apart (f(i := l))"
  unfolding tokens_apart_def by (metis fun_upd_apply)

lemma tick_inv:
  assumes "lease_inv sha delta s" and "ls_clock s \<le> t"
  shows "lease_inv sha delta (s\<lparr>ls_clock := t\<rparr>)"
  using assms by (auto simp: lease_inv_def intro: held_ok_later pc_ok_later)

text \<open>What a conditional write by handle \<open>i\<close> does to the invariant, whatever it was for.\<close>

lemma lease_write_cases:
  assumes "lease_write (file_write sha) l e now token released st = ((r, h), l', d')"
  obtains "d' = st" "l' = l"
  | "d' = Some (encode_held h)" "e = map_option sha st" "h = written_held l now token released"
    "l' = l\<lparr>l_version := Some (sha (encode_held h)), l_held := Some h\<rparr>"
proof -
  let ?h = "written_held l now token released"
  obtain r0 d0 where w: "file_write sha (encode_held ?h) e st = (r0, d0)" by fastforce
  from file_write_cases [OF w] show ?thesis
  proof
    assume "r0 = Conflict \<and> d0 = st"
    then have "d' = st" "l' = l" using assms w by (auto simp: lease_write_def Let_def)
    then show ?thesis by (rule that(1))
  next
    assume "r0 = Wrote (sha (encode_held ?h)) \<and> d0 = Some (encode_held ?h) \<and> e = map_option sha st"
    then have e: "e = map_option sha st"
      and wrote: "file_write sha (encode_held ?h) e st = (Wrote (sha (encode_held ?h)), Some (encode_held ?h))"
      using w by simp_all
    have "lease_write (file_write sha) l e now token released st = ((Wrote (sha (encode_held ?h)), ?h),
        l\<lparr>l_version := Some (sha (encode_held ?h)), l_held := Some ?h\<rparr>, Some (encode_held ?h))"
      unfolding lease_write_def Let_def wrote by simp
    then have "((r, h), l', d') = ((Wrote (sha (encode_held ?h)), ?h),
        l\<lparr>l_version := Some (sha (encode_held ?h)), l_held := Some ?h\<rparr>, Some (encode_held ?h))"
      using assms by (rule trans [OF sym, rotated])
    then show ?thesis using e by (intro that(2)) auto
  qed
qed

lemma write_inv:
  assumes inv: "lease_inv sha delta s"
    and wr: "lease_write (file_write sha) (ls_handle s i) e now token released (ls_store s) = ((r, h), l', d')"
    and fresh: "token \<notin> ls_tokens s" "token \<noteq> []"
    and safe: "\<And>j k. j \<noteq> i \<Longrightarrow> l_held (ls_handle s j) = Some k \<Longrightarrow> e = Some (sha (encode_held k)) \<Longrightarrow>
                 h_expires_at k \<le> ls_clock s"
    and after: "l'' = forget l' \<or> l'' = l' \<and> \<not> released"
  shows "lease_inv sha delta
           (set_handle i l'' Idle (s\<lparr>ls_store := d', ls_tokens := insert token (ls_tokens s)\<rparr>))"
  using wr
proof (cases rule: lease_write_cases)
  case 1
  have "held_ok sha (ls_clock s) (ls_store s) (insert token (ls_tokens s)) (ls_handle s j)" for j
    using lease_invD(1) [OF inv] by (rule held_ok_tokens)
  then show ?thesis
    using 1 after lease_invD [OF inv]
    by (intro lease_invI) (auto intro: tokens_apart_forget tokens_apart_same)
next
  case 2
  have others: "held_ok sha (ls_clock s) d' (insert token (ls_tokens s)) (ls_handle s j)" if "j \<noteq> i" for j
    by (rule held_ok_replaced, rule held_ok_tokens, rule lease_invD(1) [OF inv])
       (use safe [OF that] 2 in auto)
  have mine: "held_ok sha (ls_clock s) d' (insert token (ls_tokens s)) l''"
    using after 2 fresh(2) lease_invD(5) [OF inv, of i] by (auto simp: held_ok_def written_held_def)
  have token: "h_token k \<noteq> token" if "l_held (ls_handle s j) = Some k" for j k
    using lease_invD(1) [OF inv, of j] that fresh(1) by (auto simp: held_ok_def)
  have "tokens_apart ((ls_handle s)(i := l''))"
    using lease_invD(3) [OF inv]
    by (rule tokens_apart_update) (use token after 2 in \<open>fastforce simp: written_held_def\<close>)
  then show ?thesis
    using others mine after 2 lease_invD [OF inv] by (intro lease_invI) auto
qed

lemma put_safe:
  assumes inv: "lease_inv sha delta s" and inj: "inj sha" and pc: "ls_pc s i = Acquiring e"
    and held: "l_held (ls_handle s j) = Some k" and e: "e = Some (sha (encode_held k))"
  shows "h_expires_at k \<le> ls_clock s"
proof -
  obtain d where "sha (encode_held k) = sha d" "spent (ls_clock s) d"
    using lease_invD(2) [OF inv, of i] pc e by auto
  then have "spent (ls_clock s) (encode_held k)" using injD [OF inj] by metis
  then show ?thesis
    by (rule spent_encode) (use lease_invD(1) [OF inv, of j] held in \<open>auto simp: held_ok_def\<close>)
qed

lemma own_version_safe:
  assumes inv: "lease_inv sha delta s" and inj: "inj sha" and "j \<noteq> i"
    and held: "l_held (ls_handle s j) = Some k"
    and v: "l_version (ls_handle s i) = Some (sha (encode_held k))"
  shows "h_expires_at k \<le> ls_clock s"
proof -
  obtain h where h: "l_held (ls_handle s i) = Some h" "sha (encode_held h) = sha (encode_held k)"
    using lease_invD(1) [OF inv, of i] v by (auto simp: held_ok_def split: option.splits)
  then have "h = k" using injD [OF inj] encode_held_inj by metis
  with h(1) held \<open>j \<noteq> i\<close> lease_invD(3) [OF inv] show ?thesis
    unfolding tokens_apart_def by blast
qed

lemma require_inv:
  assumes inv: "lease_inv sha delta s" and "require_held (ls_handle s i) now = (ok, l')"
    and pc: "pc \<in> {Renewing, Releasing}"
  shows "lease_inv sha delta (set_handle i l' (if ok then pc else Idle) s)"
proof -
  have "l' = ls_handle s i \<or> l' = forget (ls_handle s i)"
    using assms(2) by (auto simp: require_held_def split: option.splits if_splits)
  then show ?thesis
    using pc lease_invD [OF inv]
    by (intro lease_invI) (auto intro: tokens_apart_forget tokens_apart_same)
qed

lemma check_inv:
  assumes inv: "lease_inv sha delta s" and "reading delta s now"
    and "acquire_check (file_read sha) (ls_handle s i) now (ls_store s) = Inr e"
  shows "lease_inv sha delta (set_handle i (ls_handle s i) (Acquiring e) s)"
proof -
  have now: "now \<le> ls_clock s + delta" using assms(2) by (simp add: reading_def)
  have "pc_ok sha (ls_clock s) (Acquiring e)"
    using check_spent [OF _ now lease_invD(4) [OF inv]] assms(3) by (cases e) auto
  then show ?thesis
    using lease_invD [OF inv] by (intro lease_invI) (auto intro: tokens_apart_same)
qed

lemma lease_step_inv:
  assumes "lease_inv sha delta s" and "lease_step sha delta s t" and "inj sha"
  shows "lease_inv sha delta t"
  using assms(2)
proof cases
  case (tick u)
  with assms(1) show ?thesis by (simp add: tick_inv)
next
  case (check i now e)
  with assms(1) show ?thesis by (simp add: check_inv)
next
  case (put i e now token r l' d')
  obtain r1 h where r: "r = (r1, h)" by (cases r)
  show ?thesis
    unfolding put(1)
    by (rule write_inv [OF assms(1) put(6) [unfolded r] put(4,5)])
       (use put_safe [OF assms(1,3) put(2)] in auto)
next
  case (require i now pc ok l')
  show ?thesis
    unfolding require(1) by (rule require_inv [OF assms(1) require(5) require(4)])
next
  case (renewing i now token r' l'' d')
  obtain r h l' where w: "lease_write (file_write sha) (ls_handle s i) (l_version (ls_handle s i))
      now token False (ls_store s) = ((r, h), l', d')" and l'': "l'' = l' \<or> l'' = forget l'"
    using renewing(6) by (auto simp: renew_put_def split: prod.splits written.splits)
  show ?thesis
    unfolding renewing(1)
    by (rule write_inv [OF assms(1) w renewing(4,5)])
       (use own_version_safe [OF assms(1,3)] l'' in auto)
next
  case (releasing i now token r'' l'' d')
  obtain r h l' where w: "lease_write (file_write sha) (ls_handle s i) (l_version (ls_handle s i))
      now token True (ls_store s) = ((r, h), l', d')" and l'': "l'' = forget l'"
    using releasing(6) by (auto simp: release_put_def split: prod.splits written.splits)
  show ?thesis
    unfolding releasing(1)
    by (rule write_inv [OF assms(1) w releasing(4,5)])
       (use own_version_safe [OF assms(1,3)] l'' in auto)
qed

lemma lease_init_inv: "lease_init delta s \<Longrightarrow> lease_inv sha delta s"
  by (auto simp: lease_init_def lease_inv_def tokens_apart_def)

text \<open>The hash is collision free as soon as it is the record itself, the model's exact version.\<close>

interpretation lease_by_content:
  invariant_machine "lease_init delta" "lease_step (\<lambda>d. d) delta" "lease_inv (\<lambda>d. d) delta" for delta
  by unfold_locales (auto intro: lease_init_inv lease_step_inv)

lemma lease_machine:
  "inj sha \<Longrightarrow> invariant_machine (lease_init delta) (lease_step sha delta) (lease_inv sha delta)"
  by unfold_locales (auto intro: lease_init_inv lease_step_inv)

subsection \<open>Properties\<close>

text \<open>C31. with clocks no further from the true time than every handle's skew, no two handles ever
  both believe they hold the lease, in any interleaving of their checks and conditional writes.\<close>

theorem lease_mutual_exclusion:
  assumes "reach (lease_init delta) (lease_step sha delta) s" and "inj sha" and "i \<noteq> j"
    and "reading delta s now" and "reading delta s now'"
  shows "\<not> (fst (require_held (ls_handle s i) now) \<and> fst (require_held (ls_handle s j) now'))"
proof
  assume both: "fst (require_held (ls_handle s i) now) \<and> fst (require_held (ls_handle s j) now')"
  have inv: "lease_inv sha delta s"
    using invariant_machine.inv_reach [OF lease_machine [OF assms(2)] assms(1)] .
  obtain h k where h: "l_held (ls_handle s i) = Some h" "now < h_expires_at h - l_skew_s (ls_handle s i)"
    and k: "l_held (ls_handle s j) = Some k" "now' < h_expires_at k - l_skew_s (ls_handle s j)"
    using both by (auto simp: require_held_def split: option.splits if_splits)
  have "h_token h \<noteq> h_token k"
    using lease_invD(3) [OF inv] h(1) k(1) assms(3) unfolding tokens_apart_def by blast
  then have "encode_held h \<noteq> encode_held k" using encode_held_inj by blast
  then have "h_expires_at h \<le> ls_clock s \<or> h_expires_at k \<le> ls_clock s"
    using lease_invD(1) [OF inv, of i] lease_invD(1) [OF inv, of j] h(1) k(1)
    by (auto simp: held_ok_def)
  then show False
    using h(2) k(2) assms(4,5) lease_invD(4) [OF inv, of i] lease_invD(4) [OF inv, of j]
    by (auto simp: reading_def)
qed

definition example_sys :: "data lease_sys" where
  "example_sys = \<lparr>ls_store = None, ls_clock = 100, ls_handle = (\<lambda>_. example_lease),
                  ls_pc = (\<lambda>_. Idle), ls_tokens = {}\<rparr>"

theorem lease_mutual_exclusion_witness:
  "\<exists>s :: data lease_sys. fst (require_held (ls_handle s 0) 100) \<and> \<not> fst (require_held (ls_handle s 1) 100)"
proof -
  let ?l = "example_lease\<lparr>l_version := Some (encode_held \<lparr>h_owner = ''a'', h_token = ''t1'', h_expires_at = 130\<rparr>),
              l_held := Some \<lparr>h_owner = ''a'', h_token = ''t1'', h_expires_at = 130\<rparr>\<rparr>"
  let ?s1 = "set_handle 0 (ls_handle example_sys 0) (Acquiring None) example_sys"
  let ?s2 = "set_handle 0 ?l Idle (?s1\<lparr>ls_store := Some (encode_held \<lparr>h_owner = ''a'', h_token = ''t1'', h_expires_at = 130\<rparr>),
               ls_tokens := insert ''t1'' (ls_tokens ?s1)\<rparr>)"
  have "reach (lease_init 5) (lease_step (\<lambda>d. d) 5) example_sys"
    by (rule reach_init) (simp add: lease_init_def example_sys_def example_lease_def make_lease_def)
  moreover have "lease_step (\<lambda>d. d) 5 example_sys ?s1"
    by (rule check [where now = 100]) (simp_all add: example_sys_def example_lease_def make_lease_def
        reading_def acquire_check_def file_read_def)
  moreover have "lease_step (\<lambda>d. d) 5 ?s1 ?s2"
    by (rule put [where e = None and now = 100 and r = "(Wrote (encode_held \<lparr>h_owner = ''a'', h_token = ''t1'', h_expires_at = 130\<rparr>),
          \<lparr>h_owner = ''a'', h_token = ''t1'', h_expires_at = 130\<rparr>)"])
      (simp_all add: example_sys_def example_lease_def make_lease_def reading_def lease_write_def
        written_held_def file_write_def file_read_def Let_def)
  ultimately have s2: "reach (lease_init 5) (lease_step (\<lambda>d. d) 5) ?s2"
    by (blast intro: reach_step)
  have "fst (require_held (ls_handle ?s2 0) 100)"
    by (simp add: require_held_def example_sys_def example_lease_def make_lease_def)
  moreover have "\<not> (fst (require_held (ls_handle ?s2 0) 100) \<and> fst (require_held (ls_handle ?s2 1) 100))"
    by (rule lease_mutual_exclusion [OF s2]) (simp_all add: inj_def reading_def example_sys_def)
  ultimately show ?thesis by blast
qed

end
