(* ===== verification/Arrow.thy ===== *)
theory Arrow
  imports Py_Values
begin

text \<open>
  The Arrow types a schema may name, and how a log carries each (\<^verbatim>\<open>column_type\<close> and
  \<^verbatim>\<open>validate_schema\<close> of \<^verbatim>\<open>src/litelink/_types.py\<close>). \<open>pa_type\<close> has a constructor for every type the
  source's predicates tell apart; the types it treats alike (lists that are not \<open>list\<close>, temporal
  types) are one constructor each.
\<close>

datatype pa_type =
    Pa_bool
  | Pa_int nat
  | Pa_uint nat
  | Pa_float nat
  | Pa_string
  | Pa_large_string
  | Pa_binary
  | Pa_large_binary
  | Pa_fixed_binary nat
  | Pa_struct "(string \<times> bool \<times> pa_type) list"
  | Pa_map pa_type bool pa_type
  | Pa_list bool pa_type
  | Pa_other_list
  | Pa_union
  | Pa_temporal
  | Pa_decimal
  | Pa_null

text \<open>A field is its name, whether it is nullable, and its type; a map and a list carry whether
  their items are nullable.\<close>

type_synonym pa_field = "string \<times> bool \<times> pa_type"
type_synonym pa_schema = "pa_field list"

definition pa_floating :: "pa_type \<Rightarrow> bool" where
  "pa_floating t = (case t of Pa_float _ \<Rightarrow> True | _ \<Rightarrow> False)"

definition pa_integer :: "pa_type \<Rightarrow> bool" where
  "pa_integer t = (case t of Pa_int _ \<Rightarrow> True | Pa_uint _ \<Rightarrow> True | _ \<Rightarrow> False)"

definition PRUNABLE :: "pa_type list" where
  "PRUNABLE = [Pa_int 32, Pa_int 64, Pa_float 32, Pa_float 64, Pa_bool]"

end
