(* ===== verification/Statistics.thy ===== *)
theory Statistics
  imports Py_Values "HOL-Library.Multiset"
begin

text \<open>
  Per-column statistics rolled up from the manifests (\<^verbatim>\<open>src/litelink/_statistics.py\<close>): the fold of
  data files into columns (\<open>rollup\<close>), the merge of disjoint parts (\<open>merge_parts\<close>, the source's
  \<open>_merge\<close>), which published files lie beyond the staging range, and the whole log. Missing
  information is None throughout. A data file carries its bounds as bytes; decoding them
  (pyiceberg's \<open>from_bytes\<close>) is an argument \<open>fb\<close>.

  A row is the function from its columns' names to their values, the offset column among them. What
  a column's statistics promise about rows is \<open>describes\<close>: every bound that is given bounds the
  non-null values, every count that is given is exact.
\<close>

subsection \<open>Iceberg's side: types, fields, data files\<close>

datatype icetype = IntegerType | LongType | FloatType | DoubleType | BooleanType
  | StringType | BinaryType | FixedType nat | StructType | MapType | ListType

definition bounded_type :: "icetype \<Rightarrow> bool" where
  "bounded_type t \<longleftrightarrow> t \<in> {IntegerType, LongType, FloatType, DoubleType, BooleanType}"

definition floating_type :: "icetype \<Rightarrow> bool" where
  "floating_type t \<longleftrightarrow> t \<in> {FloatType, DoubleType}"

definition primitive_type :: "icetype \<Rightarrow> bool" where
  "primitive_type t \<longleftrightarrow> t \<notin> {StructType, MapType, ListType}"

record nested_field =
  nf_name :: string
  nf_id :: nat
  nf_type :: icetype

type_synonym ice_schema = "nested_field list"

record 'b data_file =
  df_path :: path
  df_record_count :: int
  df_null_value_counts :: "nat \<rightharpoonup> int"
  df_value_counts :: "nat \<rightharpoonup> int"
  df_lower_bounds :: "nat \<rightharpoonup> 'b"
  df_upper_bounds :: "nat \<rightharpoonup> 'b"

definition OFFSET :: string where
  "OFFSET = ''litelink_offset''"

subsection \<open>Statistics\<close>

record column_statistics =
  cs_min :: "pyval option"
  cs_max :: "pyval option"
  cs_null_count :: "int option"
  cs_value_count :: "int option"
  cs_nan_count :: "int option"

record tier_statistics =
  ts_tier :: "string option"
  ts_record_count :: "int option"
  ts_file_count :: int
  ts_columns :: "(string \<times> column_statistics) list"

definition NOTHING :: column_statistics where
  "NOTHING = \<lparr>cs_min = None, cs_max = None, cs_null_count = None, cs_value_count = None,
              cs_nan_count = None\<rparr>"

definition widen_low :: "pyval option \<Rightarrow> pyval \<Rightarrow> pyval option" where
  "widen_low low v = Some (case low of None \<Rightarrow> v | Some l \<Rightarrow> py_min l v)"

definition widen_high :: "pyval option \<Rightarrow> pyval \<Rightarrow> pyval option" where
  "widen_high high v = Some (case high of None \<Rightarrow> v | Some h \<Rightarrow> py_max h v)"

subsection \<open>The fold over data files\<close>

record column_fold =
  fo_field_id :: nat
  fo_field_type :: icetype
  fo_low :: "pyval option"
  fo_high :: "pyval option"
  fo_unknown :: bool
  fo_nulls :: "int option"
  fo_values :: "int option"
  fo_nans :: "int option"

definition column_start :: "nat \<Rightarrow> icetype \<Rightarrow> column_fold" where
  "column_start i t =
     \<lparr>fo_field_id = i, fo_field_type = t, fo_low = None, fo_high = None,
      fo_unknown = (\<not> bounded_type t), fo_nulls = Some 0, fo_values = Some 0,
      fo_nans = (if floating_type t then Some 0 else None)\<rparr>"

definition column_add :: "(icetype \<Rightarrow> 'b \<Rightarrow> pyval) \<Rightarrow> 'b data_file \<Rightarrow> column_fold \<Rightarrow> column_fold" where
  "column_add fb f c =
     (let i = fo_field_id c;
          nulls = df_null_value_counts f i;
          counted = c\<lparr>fo_nulls := opt_add (fo_nulls c) nulls,
                      fo_values := opt_add (fo_values c) (df_value_counts f i)\<rparr>
      in if fo_unknown c \<or> df_record_count f = 0 then counted
         else (case (df_lower_bounds f i, df_upper_bounds f i) of
                 (Some low, Some high) \<Rightarrow>
                   counted\<lparr>fo_low := widen_low (fo_low c) (fb (fo_field_type c) low),
                           fo_high := widen_high (fo_high c) (fb (fo_field_type c) high)\<rparr>
               | _ \<Rightarrow> if nulls = None \<or> nulls \<noteq> Some (df_record_count f)
                      then counted\<lparr>fo_unknown := True\<rparr> else counted))"

definition column_result :: "column_fold \<Rightarrow> column_statistics" where
  "column_result c =
     \<lparr>cs_min = (if fo_unknown c then None else fo_low c),
      cs_max = (if fo_unknown c then None else fo_high c),
      cs_null_count = fo_nulls c, cs_value_count = fo_values c, cs_nan_count = fo_nans c\<rparr>"

definition rollup ::
  "(icetype \<Rightarrow> 'b \<Rightarrow> pyval) \<Rightarrow> string option \<Rightarrow> ice_schema \<Rightarrow> 'b data_file list \<Rightarrow> tier_statistics" where
  "rollup fb tier schema files =
     \<lparr>ts_tier = tier, ts_record_count = Some (sum_list (map df_record_count files)),
      ts_file_count = int (length files),
      ts_columns = map (\<lambda>fld. (nf_name fld,
        if primitive_type (nf_type fld)
        then column_result (fold (column_add fb) files (column_start (nf_id fld) (nf_type fld)))
        else NOTHING)) schema\<rparr>"

subsection \<open>Merging disjoint parts\<close>

record merge_fold =
  me_low :: "pyval option"
  me_high :: "pyval option"
  me_unknown :: bool
  me_nulls :: "int option"
  me_values :: "int option"
  me_nans :: "int option"

definition merge_start :: merge_fold where
  "merge_start = \<lparr>me_low = None, me_high = None, me_unknown = False, me_nulls = Some 0,
                  me_values = Some 0, me_nans = Some 0\<rparr>"

definition merge_step :: "string \<Rightarrow> tier_statistics \<Rightarrow> merge_fold \<Rightarrow> merge_fold" where
  "merge_step name part m =
     (if ts_record_count part = Some 0 then m
      else let column = (case map_of (ts_columns part) name of None \<Rightarrow> NOTHING | Some c \<Rightarrow> c);
               counted = m\<lparr>me_nulls := opt_add (me_nulls m) (cs_null_count column),
                           me_values := opt_add (me_values m) (cs_value_count column),
                           me_nans := opt_add (me_nans m) (cs_nan_count column)\<rparr>
           in (case cs_min column of
                 None \<Rightarrow> if cs_null_count column = None \<or> cs_null_count column \<noteq> ts_record_count part
                         then counted\<lparr>me_unknown := True\<rparr> else counted
               | Some low \<Rightarrow>
                   counted\<lparr>me_low := widen_low (me_low m) low,
                           me_high := (case cs_max column of
                                         None \<Rightarrow> me_high m
                                       | Some high \<Rightarrow> widen_high (me_high m) high)\<rparr>))"

definition merge_result :: "merge_fold \<Rightarrow> column_statistics" where
  "merge_result m =
     \<lparr>cs_min = (if me_unknown m then None else me_low m),
      cs_max = (if me_unknown m then None else me_high m),
      cs_null_count = me_nulls m, cs_value_count = me_values m, cs_nan_count = me_nans m\<rparr>"

definition merge_parts :: "string list \<Rightarrow> tier_statistics list \<Rightarrow> tier_statistics" where
  "merge_parts names parts =
     \<lparr>ts_tier = None,
      ts_record_count = (if \<exists>p \<in> set parts. ts_record_count p = None then None
                         else Some (sum_list (map (\<lambda>p. case ts_record_count p of
                                                       None \<Rightarrow> 0 | Some n \<Rightarrow> n) parts))),
      ts_file_count = sum_list (map ts_file_count parts),
      ts_columns = map (\<lambda>name. (name, merge_result (fold (merge_step name) parts merge_start))) names\<rparr>"

definition uncounted :: "tier_statistics \<Rightarrow> tier_statistics" where
  "uncounted st =
     st\<lparr>ts_record_count := None,
        ts_columns := map (\<lambda>(name, c). (name, \<lparr>cs_min = cs_min c, cs_max = cs_max c,
          cs_null_count = None, cs_value_count = None, cs_nan_count = None\<rparr>)) (ts_columns st)\<rparr>"

subsection \<open>Spans and the whole log\<close>

text \<open>\<open>file_span\<close> raises where a file has no offset bounds: None.\<close>

definition file_span ::
  "(icetype \<Rightarrow> 'b \<Rightarrow> pyval) \<Rightarrow> ice_schema \<Rightarrow> 'b data_file \<Rightarrow> (offset \<times> offset) option" where
  "file_span fb schema f =
     (case find (\<lambda>fld. nf_name fld = OFFSET) schema of
        None \<Rightarrow> None
      | Some fld \<Rightarrow>
          (case (df_lower_bounds f (nf_id fld), df_upper_bounds f (nf_id fld)) of
             (Some lo, Some hi) \<Rightarrow>
               (case (fb (nf_type fld) lo, fb (nf_type fld) hi) of
                  (PInt a, PInt b) \<Rightarrow> Some (a, b + 1)
                | _ \<Rightarrow> None)
           | _ \<Rightarrow> None))"

definition staging_span :: "(offset \<times> offset) list \<Rightarrow> (offset \<times> offset) option" where
  "staging_span covered =
     (case (list_min (map fst covered), list_max (map snd covered)) of
        (Some a, Some b) \<Rightarrow> Some (a, b)
      | _ \<Rightarrow> None)"

fun below_staging ::
  "(offset \<times> offset) option \<Rightarrow> ('f \<times> (offset \<times> offset)) list \<Rightarrow> ('f \<times> (offset \<times> offset)) list \<times> bool" where
  "below_staging sp [] = ([], False)"
| "below_staging sp ((f, (a, b)) # fs) =
     (let (beyond, straddles) = below_staging sp fs in
      case sp of
        None \<Rightarrow> ((f, (a, b)) # beyond, straddles)
      | Some (s, e) \<Rightarrow>
          if b \<le> s \<or> e \<le> a then ((f, (a, b)) # beyond, straddles)
          else if a < s \<or> e < b then ((f, (a, b)) # beyond, True)
          else (beyond, straddles))"

type_synonym row = "string \<Rightarrow> pyval"

text \<open>The offset of a row; the column is an int64 that is never null.\<close>

definition row_offset :: "row \<Rightarrow> offset" where
  "row_offset r = (case r OFFSET of PInt i \<Rightarrow> i | _ \<Rightarrow> 0)"

definition rows_at_or_after :: "row list \<Rightarrow> offset \<Rightarrow> row list" where
  "rows_at_or_after buffered start =
     drop (length (filter (\<lambda>r. row_offset r < start) buffered)) buffered"

text \<open>Exact statistics of rows: \<open>from_rows\<close> over the columns of the buffer's own schema.\<close>

definition non_null :: "pyval list \<Rightarrow> pyval list" where
  "non_null vs = filter (\<lambda>v. v \<noteq> PNone) vs"

definition extreme :: "(pyval \<Rightarrow> pyval \<Rightarrow> pyval) \<Rightarrow> pyval list \<Rightarrow> pyval option" where
  "extreme pick vs = (case non_null vs of [] \<Rightarrow> None | v # rest \<Rightarrow> Some (fold (\<lambda>x m. pick m x) rest v))"

definition column_from_rows :: "icetype \<Rightarrow> pyval list \<Rightarrow> column_statistics" where
  "column_from_rows t vs =
     \<lparr>cs_min = (if bounded_type t then extreme py_min vs else None),
      cs_max = (if bounded_type t then extreme py_max vs else None),
      cs_null_count = Some (int (length (filter (\<lambda>v. v = PNone) vs))),
      cs_value_count = Some (int (length vs)),
      cs_nan_count = (if floating_type t then Some 0 else None)\<rparr>"

definition from_rows :: "(string \<times> icetype) list \<Rightarrow> row list \<Rightarrow> tier_statistics" where
  "from_rows kinds rows =
     \<lparr>ts_tier = None, ts_record_count = Some (int (length rows)), ts_file_count = 0,
      ts_columns = map (\<lambda>(name, t). (name, column_from_rows t (map (\<lambda>r. r name) rows))) kinds\<rparr>"

definition spanned ::
  "(icetype \<Rightarrow> 'b \<Rightarrow> pyval) \<Rightarrow> ice_schema \<Rightarrow> 'b data_file list
     \<Rightarrow> ('b data_file \<times> (offset \<times> offset)) list option" where
  "spanned fb schema files =
     those (map (\<lambda>f. map_option (Pair f) (file_span fb schema f)) files)"

definition whole_log ::
  "(icetype \<Rightarrow> 'b \<Rightarrow> pyval) \<Rightarrow> string list \<Rightarrow> ice_schema \<times> 'b data_file list
     \<Rightarrow> (ice_schema \<times> 'b data_file list) option \<Rightarrow> (string \<times> icetype) list \<Rightarrow> row list
     \<Rightarrow> tier_statistics option" where
  "whole_log fb names local published kinds buffered =
     (case local of (local_schema, local_files) \<Rightarrow>
      case spanned fb local_schema local_files of
        None \<Rightarrow> None
      | Some located \<Rightarrow>
          let sp = staging_span (map snd located);
              ceiling = (case sp of None \<Rightarrow> 0 | Some (_, e) \<Rightarrow> e);
              first = rollup fb None local_schema local_files
          in (case published of
                None \<Rightarrow>
                  Some (merge_parts names [first, from_rows kinds (rows_at_or_after buffered ceiling)])
              | Some (published_schema, published_files) \<Rightarrow>
                  (case spanned fb published_schema published_files of
                     None \<Rightarrow> None
                   | Some placed \<Rightarrow>
                       let (beyond, straddles) = below_staging sp placed;
                           peak = fold max (map (snd \<circ> snd) beyond) ceiling;
                           merged = merge_parts names
                             [first, rollup fb None published_schema (map fst beyond),
                              from_rows kinds (rows_at_or_after buffered peak)]
                       in Some (if straddles then uncounted merged else merged))))"

subsection \<open>What statistics promise\<close>

definition lower_bound :: "pyval \<Rightarrow> pyval list \<Rightarrow> bool" where
  "lower_bound m vs \<longleftrightarrow> (\<exists>x. num_of m = Some x \<and>
     (\<forall>v \<in> set vs. v \<noteq> PNone \<longrightarrow> (\<exists>y. num_of v = Some y \<and> x \<le> y)))"

definition upper_bound :: "pyval \<Rightarrow> pyval list \<Rightarrow> bool" where
  "upper_bound m vs \<longleftrightarrow> (\<exists>x. num_of m = Some x \<and>
     (\<forall>v \<in> set vs. v \<noteq> PNone \<longrightarrow> (\<exists>y. num_of v = Some y \<and> y \<le> x)))"

definition nulls_in :: "pyval list \<Rightarrow> int" where
  "nulls_in vs = int (length (filter (\<lambda>v. v = PNone) vs))"

definition nans_in :: "pyval list \<Rightarrow> int" where
  "nans_in vs = int (length (filter is_nan vs))"

definition describes :: "column_statistics \<Rightarrow> pyval list \<Rightarrow> bool" where
  "describes c vs \<longleftrightarrow>
     (\<forall>m. cs_min c = Some m \<longrightarrow> lower_bound m vs) \<and>
     (\<forall>m. cs_max c = Some m \<longrightarrow> upper_bound m vs) \<and>
     (cs_min c = None \<longleftrightarrow> cs_max c = None) \<and>
     (\<forall>n. cs_null_count c = Some n \<longrightarrow> n = nulls_in vs) \<and>
     (\<forall>n. cs_value_count c = Some n \<longrightarrow> n = int (length vs)) \<and>
     (\<forall>n. cs_nan_count c = Some n \<longrightarrow> n = nans_in vs)"

text \<open>A data file tells the truth about one column's values; a tier about a column of its rows.\<close>

definition file_describes ::
  "(icetype \<Rightarrow> 'b \<Rightarrow> pyval) \<Rightarrow> nat \<Rightarrow> icetype \<Rightarrow> 'b data_file \<Rightarrow> pyval list \<Rightarrow> bool" where
  "file_describes fb i t f vs \<longleftrightarrow>
     df_record_count f = int (length vs) \<and>
     (\<forall>n. df_null_value_counts f i = Some n \<longrightarrow> n = nulls_in vs) \<and>
     (\<forall>n. df_value_counts f i = Some n \<longrightarrow> n = int (length vs)) \<and>
     (bounded_type t \<longrightarrow>
        (\<forall>b. df_lower_bounds f i = Some b \<longrightarrow> lower_bound (fb t b) vs) \<and>
        (\<forall>b. df_upper_bounds f i = Some b \<longrightarrow> upper_bound (fb t b) vs))"

definition tier_describes :: "string \<Rightarrow> tier_statistics \<Rightarrow> row list \<Rightarrow> bool" where
  "tier_describes name st rows \<longleftrightarrow>
     (\<forall>n. ts_record_count st = Some n \<longrightarrow> n = int (length rows)) \<and>
     (\<forall>c. map_of (ts_columns st) name = Some c \<longrightarrow> describes c (map (\<lambda>r. r name) rows))"

subsection \<open>Folding truthful parts\<close>

text \<open>
  The contract both folds share: a summary that holds of no values at all, and a step that keeps it
  true when a part that tells the truth about its values is added.
\<close>

locale summary =
  fixes start :: "'s"
    and add :: "'p \<Rightarrow> 's \<Rightarrow> 's"
    and holds :: "'s \<Rightarrow> pyval list \<Rightarrow> bool"
    and tells :: "'p \<Rightarrow> pyval list \<Rightarrow> bool"
  assumes holds_start: "holds start []"
    and holds_add: "holds s ws \<Longrightarrow> tells p vs \<Longrightarrow> holds (add p s) (ws @ vs)"
begin

lemma holds_fold_from:
  "list_all2 tells ps vss \<Longrightarrow> holds s ws \<Longrightarrow> holds (fold add ps s) (ws @ concat vss)"
proof (induction ps arbitrary: s ws vss)
  case (Cons p ps)
  then obtain vs rest where vss: "vss = vs # rest" "tells p vs" "list_all2 tells ps rest"
    by (auto simp: list_all2_Cons1)
  from Cons.IH [OF vss(3) holds_add [OF Cons.prems(2) vss(2)]] show ?case
    by (simp add: vss(1))
qed simp

lemma holds_fold: "list_all2 tells ps vss \<Longrightarrow> holds (fold add ps start) (concat vss)"
  using holds_fold_from [OF _ holds_start] by simp

end

lemma lower_bound_append [simp]: "lower_bound m (vs @ ws) \<longleftrightarrow> lower_bound m vs \<and> lower_bound m ws"
  by (auto simp: lower_bound_def)

lemma upper_bound_append [simp]: "upper_bound m (vs @ ws) \<longleftrightarrow> upper_bound m vs \<and> upper_bound m ws"
  by (auto simp: upper_bound_def)

lemma lower_bound_le:
  assumes "lower_bound l vs" and "num_of l = Some x" and "num_of m = Some z" and "z \<le> x"
  shows "lower_bound m vs"
  using assms by (auto simp: lower_bound_def intro: order_trans)

lemma upper_bound_le:
  assumes "upper_bound l vs" and "num_of l = Some x" and "num_of m = Some z" and "x \<le> z"
  shows "upper_bound m vs"
  using assms by (auto simp: upper_bound_def intro: order_trans)

lemma lower_bound_num: "lower_bound l vs \<Longrightarrow> \<exists>x. num_of l = Some x"
  by (auto simp: lower_bound_def)

lemma upper_bound_num: "upper_bound l vs \<Longrightarrow> \<exists>x. num_of l = Some x"
  by (auto simp: upper_bound_def)

lemma lower_bound_min:
  assumes l: "lower_bound l vs" and m: "lower_bound m ws"
  shows "lower_bound (py_min l m) (vs @ ws)"
proof -
  from l m obtain x y where n: "num_of l = Some x" "num_of m = Some y"
    by (blast dest: lower_bound_num)
  note low = num_of_min [OF n]
  show ?thesis
    using lower_bound_le [OF l n(1) low] lower_bound_le [OF m n(2) low] by simp
qed

lemma upper_bound_max:
  assumes l: "upper_bound l vs" and m: "upper_bound m ws"
  shows "upper_bound (py_max l m) (vs @ ws)"
proof -
  from l m obtain x y where n: "num_of l = Some x" "num_of m = Some y"
    by (blast dest: upper_bound_num)
  note high = num_of_max [OF n]
  show ?thesis
    using upper_bound_le [OF l n(1) high] upper_bound_le [OF m n(2) high] by simp
qed

lemma counts_append [simp]:
  "nulls_in (vs @ ws) = nulls_in vs + nulls_in ws" "nans_in (vs @ ws) = nans_in vs + nans_in ws"
  by (simp_all add: nulls_in_def nans_in_def)

lemma counts_Nil [simp]: "nulls_in [] = 0" "nans_in [] = 0"
  by (simp_all add: nulls_in_def nans_in_def)

lemma nulls_in_all: "nulls_in vs = int (length vs) \<Longrightarrow> \<forall>v \<in> set vs. v = PNone"
  unfolding nulls_in_def of_nat_eq_iff
  by (rule ballI, rule ccontr) (auto dest: length_filter_less)

text \<open>The bounds of a fold: none yet over values that are all null, or a bound on each side.\<close>

definition bounds_hold :: "pyval option \<Rightarrow> pyval option \<Rightarrow> pyval list \<Rightarrow> bool" where
  "bounds_hold low high ws \<longleftrightarrow>
     (case (low, high) of
        (None, None) \<Rightarrow> \<forall>v \<in> set ws. v = PNone
      | (Some l, Some h) \<Rightarrow> lower_bound l ws \<and> upper_bound h ws
      | _ \<Rightarrow> False)"

definition count_is :: "int option \<Rightarrow> int \<Rightarrow> bool" where
  "count_is c n \<longleftrightarrow> (\<forall>k. c = Some k \<longrightarrow> k = n)"

lemma count_is_add: "count_is a m \<Longrightarrow> count_is b n \<Longrightarrow> count_is (opt_add a b) (m + n)"
  by (auto simp: count_is_def unknown_simps)

lemma count_is_Some [simp]: "count_is (Some k) n \<longleftrightarrow> k = n" "count_is None n"
  by (auto simp: count_is_def)

lemma bounds_hold_nulls:
  assumes "bounds_hold low high ws" and "\<forall>v \<in> set vs. v = PNone"
  shows "bounds_hold low high (ws @ vs)"
  using assms by (auto simp: bounds_hold_def lower_bound_def upper_bound_def split: option.splits)

lemma bound_over_nulls:
  "lower_bound l vs \<Longrightarrow> \<forall>v \<in> set ws. v = PNone \<Longrightarrow> lower_bound l ws"
  "upper_bound l vs \<Longrightarrow> \<forall>v \<in> set ws. v = PNone \<Longrightarrow> upper_bound l ws"
  by (auto simp: lower_bound_def upper_bound_def)

lemma bounds_hold_widen:
  assumes "bounds_hold low high ws" and "lower_bound l vs" and "upper_bound h vs"
  shows "bounds_hold (widen_low low l) (widen_high high h) (ws @ vs)"
  using assms
  by (auto simp: bounds_hold_def widen_low_def widen_high_def bound_over_nulls lower_bound_min
      upper_bound_max simp del: lower_bound_append upper_bound_append split: option.splits)
    (auto intro: bound_over_nulls)

lemma describes_iff:
  "describes c vs \<longleftrightarrow>
     (\<forall>m. cs_min c = Some m \<longrightarrow> lower_bound m vs) \<and> (\<forall>m. cs_max c = Some m \<longrightarrow> upper_bound m vs) \<and>
     (cs_min c = None \<longleftrightarrow> cs_max c = None) \<and> count_is (cs_null_count c) (nulls_in vs) \<and>
     count_is (cs_value_count c) (int (length vs)) \<and> count_is (cs_nan_count c) (nans_in vs)"
  by (simp add: describes_def count_is_def)

subsection \<open>The fold over files tells the truth\<close>

definition column_holds :: "nat \<Rightarrow> icetype \<Rightarrow> column_fold \<Rightarrow> pyval list \<Rightarrow> bool" where
  "column_holds i t c ws \<longleftrightarrow>
     fo_field_id c = i \<and> fo_field_type c = t \<and>
     count_is (fo_nulls c) (nulls_in ws) \<and> count_is (fo_values c) (int (length ws)) \<and>
     count_is (fo_nans c) (nans_in ws) \<and>
     (\<not> fo_unknown c \<longrightarrow> bounded_type t \<and> bounds_hold (fo_low c) (fo_high c) ws)"

definition file_tells ::
  "(icetype \<Rightarrow> 'b \<Rightarrow> pyval) \<Rightarrow> nat \<Rightarrow> icetype \<Rightarrow> 'b data_file \<Rightarrow> pyval list \<Rightarrow> bool" where
  "file_tells fb i t f vs \<longleftrightarrow> file_describes fb i t f vs \<and> nans_in vs = 0"

lemma column_holds_start: "column_holds i t (column_start i t) []"
  by (simp add: column_holds_def column_start_def bounds_hold_def)

lemma column_counts:
  "fo_nulls (column_add fb f c) = opt_add (fo_nulls c) (df_null_value_counts f (fo_field_id c))"
  "fo_values (column_add fb f c) = opt_add (fo_values c) (df_value_counts f (fo_field_id c))"
  "fo_nans (column_add fb f c) = fo_nans c"
  "fo_field_id (column_add fb f c) = fo_field_id c"
  "fo_field_type (column_add fb f c) = fo_field_type c"
  by (simp_all add: column_add_def Let_def split: option.splits)

lemma column_bounds:
  assumes h: "fo_unknown c \<or> bounded_type (fo_field_type c) \<and> bounds_hold (fo_low c) (fo_high c) ws"
    and d: "file_describes fb (fo_field_id c) (fo_field_type c) f vs"
    and u: "\<not> fo_unknown (column_add fb f c)"
  shows "bounds_hold (fo_low (column_add fb f c)) (fo_high (column_add fb f c)) (ws @ vs)"
proof -
  let ?i = "fo_field_id c"
  have known: "\<not> fo_unknown c"
    using u by (auto simp: column_add_def Let_def split: option.splits if_splits)
  with h have b: "bounded_type (fo_field_type c)" "bounds_hold (fo_low c) (fo_high c) ws" by auto
  show ?thesis
  proof (cases "df_record_count f = 0")
    case True
    with d have "vs = []" by (simp add: file_describes_def)
    with True b show ?thesis by (simp add: column_add_def Let_def)
  next
    case rows: False
    show ?thesis
    proof (cases "df_lower_bounds f ?i = None \<or> df_upper_bounds f ?i = None")
      case False
      then obtain lo hi where "df_lower_bounds f ?i = Some lo" "df_upper_bounds f ?i = Some hi"
        by auto
      with rows known d b show ?thesis
        by (simp add: column_add_def Let_def file_describes_def bounds_hold_widen)
    next
      case True
      then have nulls: "df_null_value_counts f ?i = Some (df_record_count f)"
        using u rows known
        by (auto simp: column_add_def Let_def split: option.splits if_splits)
      with d have "nulls_in vs = int (length vs)" by (simp add: file_describes_def)
      then have "\<forall>v \<in> set vs. v = PNone" by (rule nulls_in_all)
      with True nulls rows known b(2) show ?thesis
        by (auto simp: column_add_def Let_def bounds_hold_nulls split: option.splits)
    qed
  qed
qed

lemma column_unknown_stays: "fo_unknown c \<Longrightarrow> fo_unknown (column_add fb f c)"
  by (simp add: column_add_def Let_def)

lemma column_holds_add:
  assumes c: "column_holds i t c ws" and f: "file_tells fb i t f vs"
  shows "column_holds i t (column_add fb f c) (ws @ vs)"
proof -
  from c have eqs: "fo_field_id c = i" "fo_field_type c = t" by (simp_all add: column_holds_def)
  from f have d: "file_describes fb i t f vs" and nan: "nans_in vs = 0" by (simp_all add: file_tells_def)
  then have "count_is (df_null_value_counts f i) (nulls_in vs)"
    "count_is (df_value_counts f i) (int (length vs))"
    by (simp_all add: file_describes_def count_is_def)
  moreover have "\<not> fo_unknown (column_add fb f c) \<longrightarrow> bounded_type t \<and>
      bounds_hold (fo_low (column_add fb f c)) (fo_high (column_add fb f c)) (ws @ vs)"
    using column_bounds [of c ws fb f vs] column_unknown_stays [of c fb f] c d
    by (auto simp: column_holds_def)
  ultimately show ?thesis
    using c nan by (auto simp: column_holds_def column_counts eqs intro: count_is_add)
qed

interpretation files_fold: summary "column_start i t" "column_add fb" "column_holds i t" "file_tells fb i t"
  for i t fb
  by unfold_locales (simp_all add: column_holds_start column_holds_add)

lemma column_result_describes: "column_holds i t c ws \<Longrightarrow> describes (column_result c) ws"
  by (auto simp: column_holds_def describes_iff column_result_def bounds_hold_def split: option.splits
      if_splits)

lemma NOTHING_describes: "describes NOTHING vs"
  by (simp add: describes_iff NOTHING_def)

lemma map_of_map_Pair: "map_of (map (\<lambda>n. (n, g n)) names) n = (if n \<in> set names then Some (g n) else None)"
  by (induction names) auto

subsection \<open>The merge of parts tells the truth\<close>

definition merge_holds :: "merge_fold \<Rightarrow> pyval list \<Rightarrow> bool" where
  "merge_holds m ws \<longleftrightarrow>
     count_is (me_nulls m) (nulls_in ws) \<and> count_is (me_values m) (int (length ws)) \<and>
     count_is (me_nans m) (nans_in ws) \<and>
     (\<not> me_unknown m \<longrightarrow> bounds_hold (me_low m) (me_high m) ws)"

definition part_tells :: "string \<Rightarrow> tier_statistics \<Rightarrow> pyval list \<Rightarrow> bool" where
  "part_tells name part vs \<longleftrightarrow>
     count_is (ts_record_count part) (int (length vs)) \<and>
     describes (case map_of (ts_columns part) name of None \<Rightarrow> NOTHING | Some c \<Rightarrow> c) vs"

lemma merge_holds_start: "merge_holds merge_start []"
  by (simp add: merge_holds_def merge_start_def bounds_hold_def)

lemma merge_holds_step:
  assumes m: "merge_holds m ws" and p: "part_tells name part vs"
  shows "merge_holds (merge_step name part m) (ws @ vs)"
proof (cases "ts_record_count part = Some 0")
  case True
  with p have "vs = []" by (simp add: part_tells_def)
  with True m show ?thesis by (simp add: merge_step_def)
next
  case rows: False
  define c where "c = (case map_of (ts_columns part) name of None \<Rightarrow> NOTHING | Some c \<Rightarrow> c)"
  from p have d: "describes c vs" by (simp add: part_tells_def c_def)
  show ?thesis
  proof (cases "cs_min c")
    case None
    show ?thesis
    proof (cases "cs_null_count c = None \<or> cs_null_count c \<noteq> ts_record_count part")
      case True
      with None rows m d show ?thesis
        by (auto simp: merge_step_def Let_def c_def [symmetric] merge_holds_def describes_iff
            intro: count_is_add)
    next
      case False
      then obtain n where "cs_null_count c = Some n" "ts_record_count part = Some n"
        by (cases "cs_null_count c") auto
      with p d have "nulls_in vs = int (length vs)"
        by (simp add: part_tells_def describes_iff)
      then have "\<forall>v \<in> set vs. v = PNone" by (rule nulls_in_all)
      with False None rows m d show ?thesis
        by (auto simp: merge_step_def Let_def c_def [symmetric] merge_holds_def describes_iff
            intro: count_is_add bounds_hold_nulls)
    qed
  next
    case (Some low)
    with d obtain high where high: "cs_max c = Some high" by (auto simp: describes_iff)
    with Some d have "lower_bound low vs" "upper_bound high vs" by (simp_all add: describes_iff)
    with Some high rows m d show ?thesis
      by (auto simp: merge_step_def Let_def c_def [symmetric] merge_holds_def describes_iff
          intro: count_is_add bounds_hold_widen)
  qed
qed

interpretation parts_fold: summary merge_start "merge_step name" merge_holds "part_tells name" for name
  by unfold_locales (simp_all add: merge_holds_start merge_holds_step)

lemma merge_result_describes: "merge_holds m ws \<Longrightarrow> describes (merge_result m) ws"
  by (auto simp: merge_holds_def describes_iff merge_result_def bounds_hold_def split: option.splits
      if_splits)

subsection \<open>The tiers and the whole log\<close>

lemma list_all2_mono_map:
  "list_all2 P xs ys \<Longrightarrow> (\<And>x y. P x y \<Longrightarrow> Q x (g y)) \<Longrightarrow> list_all2 Q xs (map g ys)"
  by (induction rule: list_all2_induct) auto

text \<open>A data file tells the truth about rows: every column of the schema is described, no NaN.\<close>

definition holds_rows :: "(icetype \<Rightarrow> 'b \<Rightarrow> pyval) \<Rightarrow> ice_schema \<Rightarrow> 'b data_file \<Rightarrow> row list \<Rightarrow> bool" where
  "holds_rows fb schema f rows \<longleftrightarrow>
     df_record_count f = int (length rows) \<and>
     (\<forall>fld \<in> set schema. file_tells fb (nf_id fld) (nf_type fld) f (map (\<lambda>r. r (nf_name fld)) rows))"

lemma map_of_schema:
  "map_of (map (\<lambda>fld. (nf_name fld, g fld)) schema) name = Some c \<Longrightarrow>
   \<exists>fld \<in> set schema. nf_name fld = name \<and> c = g fld"
  by (induction schema) (auto split: if_splits)

lemma record_counts:
  "list_all2 (holds_rows fb schema) files rowss \<Longrightarrow>
   sum_list (map df_record_count files) = int (length (concat rowss))"
  by (induction rule: list_all2_induct) (auto simp: holds_rows_def)

lemma rollup_describes:
  assumes "list_all2 (holds_rows fb schema) files rowss"
  shows "tier_describes name (rollup fb tier schema files) (concat rowss)"
proof -
  have "describes c (map (\<lambda>r. r name) (concat rowss))"
    if "map_of (ts_columns (rollup fb tier schema files)) name = Some c" for c
  proof -
    from that obtain fld where fld: "fld \<in> set schema" "nf_name fld = name"
      and c: "c = (if primitive_type (nf_type fld)
        then column_result (fold (column_add fb) files (column_start (nf_id fld) (nf_type fld)))
        else NOTHING)"
      by (auto simp: rollup_def dest: map_of_schema)
    have "list_all2 (file_tells fb (nf_id fld) (nf_type fld)) files
            (map (map (\<lambda>r. r name)) rowss)"
      by (rule list_all2_mono_map [OF assms]) (use fld in \<open>auto simp: holds_rows_def\<close>)
    from column_result_describes [OF files_fold.holds_fold [OF this]] c show ?thesis
      by (simp add: NOTHING_describes map_concat)
  qed
  with record_counts [OF assms] show ?thesis
    by (simp add: tier_describes_def rollup_def)
qed

lemma tier_describes_part:
  "tier_describes name part rows \<Longrightarrow> part_tells name part (map (\<lambda>r. r name) rows)"
  by (auto simp: tier_describes_def part_tells_def count_is_def NOTHING_describes split: option.splits)

lemma merged_counts:
  assumes "list_all2 (\<lambda>p rows. count_is (ts_record_count p) (int (length rows))) parts rowss"
    and "\<not> (\<exists>p \<in> set parts. ts_record_count p = None)"
  shows "sum_list (map (\<lambda>p. case ts_record_count p of None \<Rightarrow> 0 | Some n \<Rightarrow> n) parts)
           = int (length (concat rowss))"
  using assms by (induction rule: list_all2_induct) auto

lemma merge_describes:
  assumes "list_all2 (tier_describes name) parts rowss"
  shows "tier_describes name (merge_parts names parts) (concat rowss)"
proof -
  have parts: "list_all2 (part_tells name) parts (map (map (\<lambda>r. r name)) rowss)"
    by (rule list_all2_mono_map [OF assms]) (rule tier_describes_part)
  have counts: "list_all2 (\<lambda>p rows. count_is (ts_record_count p) (int (length rows))) parts rowss"
    by (rule list_all2_mono [OF assms]) (simp add: tier_describes_def count_is_def)
  have "describes c (map (\<lambda>r. r name) (concat rowss))"
    if "map_of (ts_columns (merge_parts names parts)) name = Some c" for c
    using merge_result_describes [OF parts_fold.holds_fold [OF parts]] that
    by (simp add: merge_parts_def map_of_map_Pair map_concat split: if_splits)
  then show ?thesis
    using merged_counts [OF counts] by (simp add: tier_describes_def merge_parts_def)
qed

lemma extreme_low:
  assumes "\<forall>v \<in> set vs. v = PNone \<or> (\<exists>x. num_of v = Some x)" and "extreme py_min vs = Some m"
  shows "lower_bound m vs"
proof -
  have fold: "lower_bound l ws \<Longrightarrow> \<forall>v \<in> set us. \<exists>x. num_of v = Some x \<Longrightarrow>
      lower_bound (fold (\<lambda>x m. py_min m x) us l) (ws @ us)" for us l ws
  proof (induction us arbitrary: l ws)
    case (Cons u us)
    then have "lower_bound u [u]" by (auto simp: lower_bound_def)
    from Cons.IH [OF lower_bound_min [OF Cons.prems(1) this]] Cons.prems(2) show ?case by simp
  qed simp
  from assms(2) obtain v rest where nn: "non_null vs = v # rest"
      and m: "m = fold (\<lambda>x m. py_min m x) rest v"
    by (auto simp: extreme_def split: list.splits)
  have nums: "\<forall>u \<in> set (non_null vs). \<exists>x. num_of u = Some x"
    using assms(1) by (auto simp: non_null_def)
  with nn have v: "lower_bound v [v]" by (auto simp: lower_bound_def)
  have "lower_bound m (non_null vs)"
    using fold [OF v, of rest] nums by (simp add: nn m)
  then show ?thesis by (auto simp: lower_bound_def non_null_def)
qed

lemma extreme_high:
  assumes "\<forall>v \<in> set vs. v = PNone \<or> (\<exists>x. num_of v = Some x)" and "extreme py_max vs = Some m"
  shows "upper_bound m vs"
proof -
  have fold: "upper_bound l ws \<Longrightarrow> \<forall>v \<in> set us. \<exists>x. num_of v = Some x \<Longrightarrow>
      upper_bound (fold (\<lambda>x m. py_max m x) us l) (ws @ us)" for us l ws
  proof (induction us arbitrary: l ws)
    case (Cons u us)
    then have "upper_bound u [u]" by (auto simp: upper_bound_def)
    from Cons.IH [OF upper_bound_max [OF Cons.prems(1) this]] Cons.prems(2) show ?case by simp
  qed simp
  from assms(2) obtain v rest where nn: "non_null vs = v # rest"
      and m: "m = fold (\<lambda>x m. py_max m x) rest v"
    by (auto simp: extreme_def split: list.splits)
  have nums: "\<forall>u \<in> set (non_null vs). \<exists>x. num_of u = Some x"
    using assms(1) by (auto simp: non_null_def)
  with nn have v: "upper_bound v [v]" by (auto simp: upper_bound_def)
  have "upper_bound m (non_null vs)"
    using fold [OF v, of rest] nums by (simp add: nn m)
  then show ?thesis by (auto simp: upper_bound_def non_null_def)
qed

text \<open>What every write path admits into a column of type \<open>t\<close>: NULL or a number where the type is
  bounded, and never a NaN.\<close>

definition column_value :: "icetype \<Rightarrow> pyval \<Rightarrow> bool" where
  "column_value t v \<longleftrightarrow> \<not> is_nan v \<and> (bounded_type t \<longrightarrow> v = PNone \<or> (\<exists>x. num_of v = Some x))"

lemma no_nans: "\<forall>v \<in> set vs. \<not> is_nan v \<Longrightarrow> nans_in vs = 0"
  by (simp add: nans_in_def)

lemma column_from_rows_describes:
  assumes "\<forall>v \<in> set vs. column_value t v"
  shows "describes (column_from_rows t vs) vs"
proof -
  have low: "bounded_type t \<Longrightarrow> extreme py_min vs = Some m \<Longrightarrow> lower_bound m vs" for m
    by (rule extreme_low) (use assms in \<open>auto simp: column_value_def\<close>)
  have high: "bounded_type t \<Longrightarrow> extreme py_max vs = Some m \<Longrightarrow> upper_bound m vs" for m
    by (rule extreme_high) (use assms in \<open>auto simp: column_value_def\<close>)
  have "nans_in vs = 0" by (rule no_nans) (use assms in \<open>simp add: column_value_def\<close>)
  moreover have "extreme py_min vs = None \<longleftrightarrow> extreme py_max vs = None"
    by (simp add: extreme_def split: list.splits)
  ultimately show ?thesis
    using low high by (auto simp: describes_iff column_from_rows_def nulls_in_def split: if_splits)
qed

lemma from_rows_describes:
  assumes "\<forall>r \<in> set rows. \<forall>(name, t) \<in> set kinds. column_value t (r name)"
  shows "tier_describes name (from_rows kinds rows) rows"
proof -
  have "describes c (map (\<lambda>r. r name) rows)"
    if "map_of (ts_columns (from_rows kinds rows)) name = Some c" for c
  proof -
    from map_of_SomeD [OF that] obtain t where t: "(name, t) \<in> set kinds"
      and c: "c = column_from_rows t (map (\<lambda>r. r name) rows)"
      by (auto simp: from_rows_def)
    show ?thesis unfolding c by (rule column_from_rows_describes) (use assms t in auto)
  qed
  then show ?thesis by (simp add: tier_describes_def from_rows_def)
qed

subsection \<open>Each row from one place\<close>

text \<open>
  A log \<open>L\<close> held in tiers: its rows in offset order; files of a tier that hold exactly the rows of
  their spans and do not overlap; a staging tier that holds every row of its span; a buffer that is
  the end of the log; and every row below the end of a file held by some file.
\<close>

definition rows_of :: "row list \<Rightarrow> offset \<times> offset \<Rightarrow> row list" where
  "rows_of L sp = filter (\<lambda>r. in_span (fst sp) (snd sp) (row_offset r)) L"

definition tier_of ::
  "(icetype \<Rightarrow> 'b \<Rightarrow> pyval) \<Rightarrow> ice_schema \<Rightarrow> row list \<Rightarrow> ('b data_file \<times> (offset \<times> offset)) list \<Rightarrow> bool" where
  "tier_of fb schema L located \<longleftrightarrow>
     (\<forall>(f, sp) \<in> set located. holds_rows fb schema f (rows_of L sp)) \<and>
     sorted_wrt (\<lambda>(_, a, b) (_, c, d). b \<le> c \<or> d \<le> a) located"

definition filed :: "('b data_file \<times> (offset \<times> offset)) list \<Rightarrow> row \<Rightarrow> bool" where
  "filed located r \<longleftrightarrow> (\<exists>(f, a, b) \<in> set located. in_span a b (row_offset r))"

definition log_in_tiers ::
  "row list \<Rightarrow> ('b data_file \<times> (offset \<times> offset)) list \<Rightarrow> ('b data_file \<times> (offset \<times> offset)) list
     \<Rightarrow> row list \<Rightarrow> bool" where
  "log_in_tiers L located placed buffered \<longleftrightarrow>
     sorted_wrt (<) (map row_offset L) \<and> (\<forall>r \<in> set L. 0 \<le> row_offset r) \<and>
     (\<exists>start. buffered = filter (\<lambda>r. start \<le> row_offset r) L) \<and>
     (\<forall>r \<in> set L. (case staging_span (map snd located) of None \<Rightarrow> False
                   | Some (s, e) \<Rightarrow> in_span s e (row_offset r)) \<longrightarrow> filed located r) \<and>
     (\<forall>r \<in> set L. filed located r \<or> filed placed r \<or> r \<in> set buffered) \<and>
     (\<forall>r \<in> set L. \<forall>(f, a, b) \<in> set located \<union> set placed. row_offset r < b \<longrightarrow>
        filed located r \<or> filed placed r)"

definition beyond_span :: "(offset \<times> offset) option \<Rightarrow> offset \<times> offset \<Rightarrow> bool" where
  "beyond_span sp ab \<longleftrightarrow>
     (case sp of None \<Rightarrow> True | Some se \<Rightarrow> snd ab \<le> fst se \<or> snd se \<le> fst ab)"

definition straddling :: "(offset \<times> offset) option \<Rightarrow> offset \<times> offset \<Rightarrow> bool" where
  "straddling sp ab \<longleftrightarrow> \<not> beyond_span sp ab \<and>
     (case sp of None \<Rightarrow> False | Some se \<Rightarrow> fst ab < fst se \<or> snd se < snd ab)"

lemma below_staging_spec:
  "below_staging sp fs = (filter (\<lambda>x. beyond_span sp (snd x) \<or> straddling sp (snd x)) fs,
     \<exists>x \<in> set fs. straddling sp (snd x))"
proof (induction sp fs rule: below_staging.induct)
  case (2 sp f a b fs)
  from "2.IH" show ?case
    by (cases sp) (simp_all add: beyond_span_def straddling_def split_beta)
qed simp

lemma rows_at_or_after_filter:
  assumes "sorted_wrt (<) (map row_offset buffered)"
  shows "rows_at_or_after buffered start = filter (\<lambda>r. start \<le> row_offset r) buffered"
  using assms
proof (induction buffered)
  case (Cons r rs)
  show ?case
  proof (cases "row_offset r < start")
    case True
    with Cons show ?thesis by (simp add: rows_at_or_after_def)
  next
    case False
    with Cons.prems have "filter (\<lambda>r. row_offset r < start) rs = []"
      by (auto simp: filter_empty_conv)
    moreover from False Cons.prems have "filter (\<lambda>r. start \<le> row_offset r) rs = rs"
      by (auto simp: filter_id_conv)
    ultimately show ?thesis using False by (simp add: rows_at_or_after_def)
  qed
qed (simp add: rows_at_or_after_def)

lemma rows_of_iff [simp]:
  "r \<in> set (rows_of L (a, b)) \<longleftrightarrow> r \<in> set L \<and> in_span a b (row_offset r)"
  by (auto simp: rows_of_def)

lemma tier_rows:
  assumes "tier_of fb schema L located"
  shows "list_all2 (holds_rows fb schema) (map fst located) (map (rows_of L \<circ> snd) located)"
  using assms by (auto simp: tier_of_def list_all2_conv_all_nth all_set_conv_all_nth split_beta)

lemma tier_of_filter: "tier_of fb schema L located \<Longrightarrow> tier_of fb schema L (filter P located)"
  by (auto simp: tier_of_def sorted_wrt_filter)

lemma set_tier: "set (concat (map (rows_of L \<circ> snd) located)) = {r \<in> set L. filed located r}"
  by (force simp: filed_def split_beta rows_of_def)

lemma distinct_tier:
  assumes "tier_of fb schema L located" and "distinct L"
  shows "distinct (concat (map (rows_of L \<circ> snd) located))"
proof -
  have "sorted_wrt (\<lambda>(_, a, b) (_, c, d). b \<le> c \<or> d \<le> a) located \<Longrightarrow> ?thesis"
  proof (induction located)
    case (Cons x xs)
    obtain f a b where x: "x = (f, a, b)" by (cases x)
    have "distinct (rows_of L (a, b))" using assms(2) by (simp add: rows_of_def)
    moreover have "set (rows_of L (a, b)) \<inter> set (concat (map (rows_of L \<circ> snd) xs)) = {}"
      unfolding set_tier using Cons.prems by (fastforce simp: x filed_def in_span_def)
    ultimately show ?case using Cons by (simp add: x)
  qed simp
  with assms(1) show ?thesis by (simp add: tier_of_def)
qed

text \<open>What is true of rows in one order is true of them in another; a bound over more rows is one.\<close>

lemma describes_mset:
  assumes "mset rows = mset rows'" and "tier_describes name st rows"
  shows "tier_describes name st rows'"
proof -
  let ?vs = "map (\<lambda>r. r name) rows" and ?ws = "map (\<lambda>r. r name) rows'"
  from assms(1) have m: "mset ?vs = mset ?ws" by simp
  then have "nulls_in ?vs = nulls_in ?ws" "nans_in ?vs = nans_in ?ws"
    unfolding nulls_in_def nans_in_def size_mset [symmetric] mset_filter by simp_all
  moreover have "set ?vs = set ?ws" "length ?vs = length ?ws"
    using mset_eq_setD [OF m] mset_eq_length [OF m] by auto
  ultimately have "describes c ?vs = describes c ?ws" for c
    unfolding describes_def lower_bound_def upper_bound_def by simp
  with assms show ?thesis by (auto simp: tier_describes_def dest: mset_eq_length)
qed

lemma bound_subset:
  "set ws \<subseteq> set vs \<Longrightarrow> lower_bound m vs \<Longrightarrow> lower_bound m ws"
  "set ws \<subseteq> set vs \<Longrightarrow> upper_bound m vs \<Longrightarrow> upper_bound m ws"
  by (auto simp: lower_bound_def upper_bound_def)

lemma describes_bounds_only:
  assumes "describes c vs" and "set ws \<subseteq> set vs"
  shows "describes \<lparr>cs_min = cs_min c, cs_max = cs_max c, cs_null_count = None,
                   cs_value_count = None, cs_nan_count = None\<rparr> ws"
  using assms(1) by (simp add: describes_iff bound_subset [OF assms(2)])

lemma uncounted_describes:
  assumes st: "tier_describes name st rows" and sub: "set rows' \<subseteq> set rows"
  shows "tier_describes name (uncounted st) rows'"
proof -
  have cols: "map_of (ts_columns (uncounted st)) name = map_option (\<lambda>c. \<lparr>cs_min = cs_min c,
      cs_max = cs_max c, cs_null_count = None, cs_value_count = None, cs_nan_count = None\<rparr>)
      (map_of (ts_columns st) name)"
    by (simp add: uncounted_def map_of_map)
  have sub': "set (map (\<lambda>r. r name) rows') \<subseteq> set (map (\<lambda>r. r name) rows)" using sub by auto
  have "describes c' (map (\<lambda>r. r name) rows')"
    if c': "map_of (ts_columns (uncounted st)) name = Some c'" for c'
  proof -
    from c' obtain c where c: "map_of (ts_columns st) name = Some c"
      "c' = \<lparr>cs_min = cs_min c, cs_max = cs_max c, cs_null_count = None, cs_value_count = None,
             cs_nan_count = None\<rparr>"
      unfolding cols by auto
    from st c(1) have "describes c (map (\<lambda>r. r name) rows)" by (simp add: tier_describes_def)
    from describes_bounds_only [OF this sub'] show ?thesis by (simp add: c(2))
  qed
  then show ?thesis by (simp add: tier_describes_def uncounted_def)
qed

subsection \<open>The three parts of a whole log\<close>

lemma fold_max_ge:
  fixes c :: "'a::linorder"
  shows "c \<le> fold max xs c" "x \<in> set xs \<Longrightarrow> x \<le> fold max xs c"
proof -
  have "fold max xs c = Max (set (c # xs))" by (simp add: Max.set_eq_fold del: list.set)
  then show "c \<le> fold max xs c" "x \<in> set xs \<Longrightarrow> x \<le> fold max xs c" by auto
qed

lemma fold_max_in: "fold max xs (c::'a::linorder) \<in> set (c # xs)"
proof -
  have "fold max xs c = Max (set (c # xs))" by (simp add: Max.set_eq_fold del: list.set)
  then show ?thesis by (metis List.finite_set Max_in empty_not_insert list.simps(15))
qed

lemma staging_span_None: "staging_span cov = None \<longleftrightarrow> cov = []"
  by (cases cov) (auto simp: staging_span_def list_min_Cons list_max_Cons)

lemma staging_span_Some:
  assumes "staging_span cov = Some (s, e)" and "(a, b) \<in> set cov"
  shows "s \<le> a" "b \<le> e"
  using assms list_min_le [of "map fst cov" s a] list_max_ge [of "map snd cov" e b]
  by (force simp: staging_span_def split: option.splits)+

lemma staging_span_top: "staging_span cov = Some (s, e) \<Longrightarrow> \<exists>a. (a, e) \<in> set cov"
  using list_max_in [of "map snd cov" e] by (force simp: staging_span_def split: option.splits)

text \<open>Where a row of the log is counted, with \<open>peak\<close> the end of every file counted.\<close>

definition counted_rows ::
  "row list \<Rightarrow> ('b data_file \<times> (offset \<times> offset)) list \<Rightarrow> ('b data_file \<times> (offset \<times> offset)) list
     \<Rightarrow> row list \<Rightarrow> offset \<Rightarrow> row list" where
  "counted_rows L located beyond buffered peak =
     concat (map (rows_of L \<circ> snd) located) @ concat (map (rows_of L \<circ> snd) beyond) @
     filter (\<lambda>r. peak \<le> row_offset r) buffered"

definition ceiling_of :: "(offset \<times> offset) option \<Rightarrow> offset" where
  "ceiling_of sp = (case sp of None \<Rightarrow> 0 | Some (_, e) \<Rightarrow> e)"

definition top_of :: "(offset \<times> offset) option \<Rightarrow> ('f \<times> (offset \<times> offset)) list \<Rightarrow> offset" where
  "top_of sp beyond = fold max (map (snd \<circ> snd) beyond) (ceiling_of sp)"

lemma top_above_counted:
  "x \<in> set beyond \<Longrightarrow> snd (snd x) \<le> top_of sp beyond"
  "sp = Some (s, e) \<Longrightarrow> e \<le> top_of sp beyond"
  using fold_max_ge(2) [of "snd (snd x)" "map (snd \<circ> snd) beyond" "ceiling_of sp"]
    fold_max_ge(1) [of "ceiling_of sp" "map (snd \<circ> snd) beyond"]
  by (simp_all add: top_of_def) (simp add: ceiling_of_def)

lemma top_in: "top_of sp beyond = ceiling_of sp \<or> (\<exists>x \<in> set beyond. top_of sp beyond = snd (snd x))"
  using fold_max_in [of "map (snd \<circ> snd) beyond" "ceiling_of sp"] by (auto simp: top_of_def)

text \<open>The published files a whole log counts, and where every file counted ends.\<close>

definition counted_beyond ::
  "('b data_file \<times> (offset \<times> offset)) list \<Rightarrow> ('b data_file \<times> (offset \<times> offset)) list
     \<Rightarrow> ('b data_file \<times> (offset \<times> offset)) list" where
  "counted_beyond located placed = fst (below_staging (staging_span (map snd located)) placed)"

definition peak_of ::
  "('b data_file \<times> (offset \<times> offset)) list \<Rightarrow> ('b data_file \<times> (offset \<times> offset)) list \<Rightarrow> offset" where
  "peak_of located placed =
     top_of (staging_span (map snd located)) (counted_beyond located placed)"

lemma in_counted_beyond:
  "x \<in> set (counted_beyond located placed) \<longleftrightarrow> x \<in> set placed \<and>
     (beyond_span (staging_span (map snd located)) (snd x) \<or>
      straddling (staging_span (map snd located)) (snd x))"
  by (auto simp: counted_beyond_def below_staging_spec)

lemma filedI: "(f, a, b) \<in> set located \<Longrightarrow> in_span a b (row_offset r) \<Longrightarrow> filed located r"
  by (auto simp: filed_def)

lemma placed_counted:
  assumes "log_in_tiers L located placed buffered" and "r \<in> set L" and "filed placed r"
  shows "filed located r \<or> filed (counted_beyond located placed) r"
proof -
  let ?sp = "staging_span (map snd located)"
  from assms(3) obtain f a b where x: "(f, a, b) \<in> set placed" "in_span a b (row_offset r)"
    by (auto simp: filed_def)
  show ?thesis
  proof (cases "beyond_span ?sp (a, b) \<or> straddling ?sp (a, b)")
    case True
    with x(1) have "(f, a, b) \<in> set (counted_beyond located placed)" by (simp add: in_counted_beyond)
    then show ?thesis using x(2) by (blast intro: filedI)
  next
    case False
    then obtain s e where sp: "?sp = Some (s, e)" "s \<le> a" "b \<le> e"
      by (cases ?sp) (auto simp: beyond_span_def straddling_def)
    with x(2) have "in_span s e (row_offset r)" by (auto simp: in_span_def)
    with assms(1,2) sp(1) show ?thesis by (simp add: log_in_tiers_def)
  qed
qed

lemma below_peak_filed:
  assumes log: "log_in_tiers L located placed buffered" and r: "r \<in> set L"
    and below: "row_offset r < peak_of located placed"
  shows "filed located r \<or> filed placed r"
proof -
  let ?sp = "staging_span (map snd located)"
  have step: "(f, a, b) \<in> set located \<union> set placed \<Longrightarrow> row_offset r < b \<Longrightarrow>
      filed located r \<or> filed placed r" for f a b
    using log r unfolding log_in_tiers_def by blast
  from top_in [of ?sp "counted_beyond located placed"]
  show ?thesis
  proof
    assume c: "top_of ?sp (counted_beyond located placed) = ceiling_of ?sp"
    show ?thesis
    proof (cases ?sp)
      case None
      with c below log r show ?thesis
        by (auto simp: peak_of_def ceiling_of_def log_in_tiers_def)
    next
      case (Some se)
      then obtain s e where se: "?sp = Some (s, e)" by (cases se) auto
      from staging_span_top [OF se] obtain f a where "(f, a, e) \<in> set located" by auto
      with step [of f a e] c below se show ?thesis
        by (simp add: peak_of_def ceiling_of_def)
    qed
  next
    assume "\<exists>x \<in> set (counted_beyond located placed).
      top_of ?sp (counted_beyond located placed) = snd (snd x)"
    then obtain f a b where "(f, a, b) \<in> set placed" "peak_of located placed = b"
      by (auto simp: in_counted_beyond peak_of_def)
    with step [of f a b] below show ?thesis by simp
  qed
qed

lemma counted_complete:
  assumes "log_in_tiers L located placed buffered"
  shows "set L \<subseteq> set (counted_rows L located (counted_beyond located placed) buffered
                           (peak_of located placed))"
proof
  fix r assume r: "r \<in> set L"
  from assms r have "filed located r \<or> filed placed r \<or> r \<in> set buffered"
    by (simp add: log_in_tiers_def)
  with below_peak_filed [OF assms r] placed_counted [OF assms r]
  have "filed located r \<or> filed (counted_beyond located placed) r \<or>
      (r \<in> set buffered \<and> peak_of located placed \<le> row_offset r)"
    by linarith
  with r show "r \<in> set (counted_rows L located (counted_beyond located placed) buffered
                           (peak_of located placed))"
    unfolding counted_rows_def set_append set_tier by auto
qed

lemma counted_sound:
  assumes "log_in_tiers L located placed buffered"
  shows "set (counted_rows L located beyond buffered peak) \<subseteq> set L"
  using assms unfolding counted_rows_def set_append set_tier log_in_tiers_def by auto

lemma filed_below_peak:
  assumes "filed located r \<or> filed (counted_beyond located placed) r"
  shows "row_offset r < peak_of located placed"
  using assms
proof
  assume "filed located r"
  then obtain f a b where x: "(f, a, b) \<in> set located" "row_offset r < b"
    by (auto simp: filed_def in_span_def)
  then have "staging_span (map snd located) \<noteq> None" by (auto simp: staging_span_None)
  then obtain s e where sp: "staging_span (map snd located) = Some (s, e)" by auto
  have "(a, b) \<in> set (map snd located)" using x(1) by force
  with sp have "b \<le> e" by (rule staging_span_Some)
  with x(2) top_above_counted(2) [OF sp, of "counted_beyond located placed"] show ?thesis
    by (simp add: peak_of_def)
next
  assume "filed (counted_beyond located placed) r"
  then obtain f a b where x: "(f, a, b) \<in> set (counted_beyond located placed)" "row_offset r < b"
    by (auto simp: filed_def in_span_def)
  with top_above_counted(1) [OF x(1), of "staging_span (map snd located)"] show ?thesis
    by (simp add: peak_of_def)
qed

lemma beyond_not_located:
  assumes "\<not> (\<exists>x \<in> set placed. straddling (staging_span (map snd located)) (snd x))"
    and "filed (counted_beyond located placed) r"
  shows "\<not> filed located r"
proof
  assume "filed located r"
  then obtain f a b where x: "(f, a, b) \<in> set located" "in_span a b (row_offset r)"
    by (auto simp: filed_def)
  then have "staging_span (map snd located) \<noteq> None" by (auto simp: staging_span_None)
  then obtain s e where sp: "staging_span (map snd located) = Some (s, e)" by auto
  have "(a, b) \<in> set (map snd located)" using x(1) by force
  from staging_span_Some [OF sp this] x(2) have "in_span s e (row_offset r)"
    by (auto simp: in_span_def)
  moreover from assms(2) obtain g c d where y: "(g, c, d) \<in> set (counted_beyond located placed)"
      "in_span c d (row_offset r)"
    by (auto simp: filed_def)
  with assms(1) sp have "beyond_span (Some (s, e)) (c, d)"
    unfolding in_counted_beyond by force
  ultimately show False using y(2) by (auto simp: beyond_span_def in_span_def)
qed

lemma counted_distinct:
  assumes log: "log_in_tiers L located placed buffered"
    and one: "\<not> (\<exists>x \<in> set placed. straddling (staging_span (map snd located)) (snd x))"
    and tiers: "tier_of fb ls L located" "placed = [] \<or> tier_of fb ps L placed"
  shows "distinct (counted_rows L located (counted_beyond located placed) buffered
                     (peak_of located placed))"
proof -
  let ?beyond = "counted_beyond located placed" and ?peak = "peak_of located placed"
  have L: "distinct L" using log by (auto simp: log_in_tiers_def strict_sorted_iff distinct_map)
  then have "distinct buffered" using log by (auto simp: log_in_tiers_def)
  moreover have "distinct (concat (map (rows_of L \<circ> snd) located))"
    by (rule distinct_tier [OF tiers(1) L])
  moreover have "distinct (concat (map (rows_of L \<circ> snd) ?beyond))"
    using tiers(2) distinct_tier [OF tier_of_filter L]
    by (fastforce simp: counted_beyond_def below_staging_spec)
  ultimately show ?thesis
    using beyond_not_located [OF one] filed_below_peak [where located = located and placed = placed]
    unfolding counted_rows_def distinct_append set_append set_tier by fastforce
qed

lemma spanned_fst: "spanned fb schema files = Some located \<Longrightarrow> map fst located = files"
proof (induction files arbitrary: located)
  case (Cons f fs)
  then show ?case by (auto simp: spanned_def split: option.splits)
qed (simp add: spanned_def)

lemma counted_tail:
  assumes "log_in_tiers L located placed buffered"
  shows "rows_at_or_after buffered peak = filter (\<lambda>r. peak \<le> row_offset r) buffered"
proof (rule rows_at_or_after_filter)
  from assms obtain start where "sorted_wrt (<) (map row_offset L)"
    and b: "buffered = filter (\<lambda>r. start \<le> row_offset r) L"
    by (auto simp: log_in_tiers_def)
  then show "sorted_wrt (<) (map row_offset buffered)"
    by (simp add: b sorted_wrt_map sorted_wrt_filter)
qed

lemma rollup_located:
  "tier_of fb schema L located \<Longrightarrow> tier_describes name (rollup fb tier schema (map fst located))
     (concat (map (rows_of L \<circ> snd) located))"
  by (rule rollup_describes [OF tier_rows])

text \<open>The merge of the three parts describes the rows counted; \<open>published\<close> may be absent.\<close>

definition parts_of ::
  "(icetype \<Rightarrow> 'b \<Rightarrow> pyval) \<Rightarrow> ice_schema \<Rightarrow> ('b data_file \<times> (offset \<times> offset)) list
     \<Rightarrow> (ice_schema \<times> 'b data_file list) option \<Rightarrow> ('b data_file \<times> (offset \<times> offset)) list
     \<Rightarrow> (string \<times> icetype) list \<Rightarrow> row list \<Rightarrow> tier_statistics list" where
  "parts_of fb ls located published placed kinds buffered =
     rollup fb None ls (map fst located) #
     (case published of None \<Rightarrow> []
      | Some (ps, _) \<Rightarrow> [rollup fb None ps (map fst (counted_beyond located placed))]) @
     [from_rows kinds (rows_at_or_after buffered (peak_of located placed))]"

definition placed_as ::
  "(icetype \<Rightarrow> 'b \<Rightarrow> pyval) \<Rightarrow> row list \<Rightarrow> (ice_schema \<times> 'b data_file list) option
     \<Rightarrow> ('b data_file \<times> (offset \<times> offset)) list \<Rightarrow> bool" where
  "placed_as fb L published placed \<longleftrightarrow>
     (case published of None \<Rightarrow> placed = []
      | Some (ps, pf) \<Rightarrow> spanned fb ps pf = Some placed \<and> tier_of fb ps L placed)"

lemma whole_log_parts:
  assumes l: "spanned fb ls lf = Some located" and p: "placed_as fb L published placed"
  shows "whole_log fb names (ls, lf) published kinds buffered =
     Some (let merged = merge_parts names (parts_of fb ls located published placed kinds buffered)
           in if \<exists>x \<in> set placed. straddling (staging_span (map snd located)) (snd x)
              then uncounted merged else merged)"
proof (cases published)
  case None
  with p l spanned_fst [OF l] show ?thesis
    by (simp add: whole_log_def placed_as_def parts_of_def peak_of_def top_of_def counted_beyond_def
        ceiling_of_def Let_def)
next
  case (Some a)
  obtain ps pf where a: "a = (ps, pf)" by (cases a)
  with p Some l spanned_fst [OF l] show ?thesis
    by (simp add: whole_log_def placed_as_def parts_of_def peak_of_def top_of_def counted_beyond_def
        below_staging_spec ceiling_of_def Let_def comp_def)
qed

lemma parts_describe:
  assumes log: "log_in_tiers L located placed buffered" and p: "placed_as fb L published placed"
    and l: "tier_of fb ls L located"
    and kinds: "\<forall>r \<in> set L. \<forall>(name, t) \<in> set kinds. column_value t (r name)"
  shows "tier_describes name
     (merge_parts names (parts_of fb ls located published placed kinds buffered))
     (counted_rows L located (counted_beyond located placed) buffered (peak_of located placed))"
proof -
  let ?tail = "filter (\<lambda>r. peak_of located placed \<le> row_offset r) buffered"
  have "set ?tail \<subseteq> set L" using log by (auto simp: log_in_tiers_def)
  then have tail: "tier_describes name (from_rows kinds ?tail) ?tail"
    by (intro from_rows_describes) (use kinds in blast)
  note first = rollup_located [OF l, of name None]
  show ?thesis
  proof (cases published)
    case None
    with p have "list_all2 (tier_describes name)
        (parts_of fb ls located published placed kinds buffered)
        [concat (map (rows_of L \<circ> snd) located), ?tail]"
      using first tail by (simp add: parts_of_def counted_tail [OF log])
    from merge_describes [OF this, of names] None p show ?thesis
      by (simp add: counted_rows_def placed_as_def counted_beyond_def)
  next
    case (Some a)
    obtain ps pf where a: "a = (ps, pf)" by (cases a)
    with p Some have "tier_of fb ps L (counted_beyond located placed)"
      by (simp add: placed_as_def counted_beyond_def below_staging_spec tier_of_filter)
    from rollup_located [OF this, of name None] Some a
    have "list_all2 (tier_describes name)
        (parts_of fb ls located published placed kinds buffered)
        [concat (map (rows_of L \<circ> snd) located),
         concat (map (rows_of L \<circ> snd) (counted_beyond located placed)), ?tail]"
      using first tail by (simp add: parts_of_def counted_tail [OF log])
    from merge_describes [OF this, of names] show ?thesis
      by (simp add: counted_rows_def)
  qed
qed

lemma parts_record_count:
  assumes "log_in_tiers L located placed buffered" and "placed_as fb L published placed"
    and "tier_of fb ls L located"
    and "\<forall>r \<in> set L. \<forall>(name, t) \<in> set kinds. column_value t (r name)"
  shows "ts_record_count (merge_parts names (parts_of fb ls located published placed kinds buffered))
     = Some (int (length (counted_rows L located (counted_beyond located placed) buffered
                            (peak_of located placed))))"
proof -
  let ?m = "merge_parts names (parts_of fb ls located published placed kinds buffered)"
  have "ts_record_count ?m \<noteq> None"
    by (auto simp: merge_parts_def parts_of_def rollup_def from_rows_def split: option.splits)
  then obtain n where n: "ts_record_count ?m = Some n" by auto
  with parts_describe [OF assms, of name names for name] show ?thesis
    by (auto simp: tier_describes_def)
qed

subsection \<open>Properties\<close>

text \<open>C34. Statistics rolled up from data files tell the truth about the rows those files hold:
  when every file's own metrics are true of its rows, every bound reported bounds every non-null
  value, every count reported is exact, and the record count is known; missing metrics come out
  as None, never as a narrower bound or a smaller count.\<close>

theorem rollup_tells_the_truth:
  assumes "list_all2 (holds_rows fb schema) files rowss"
  shows "ts_record_count (rollup fb tier schema files) = Some (int (length (concat rowss))) \<and>
         (\<forall>fld \<in> set schema. tier_describes (nf_name fld) (rollup fb tier schema files) (concat rowss))"
  using rollup_describes [OF assms] record_counts [OF assms] by (simp add: rollup_def)

text \<open>C35. The statistics of a whole log take each row from one place. With staging files, published
  files and a buffer that overlap as the log's tiers do, the result describes the log's rows
  exactly as often as they occur: its record count is the number of rows, unless a published file
  straddles the staging range, and then every count is None and the bounds still hold.\<close>

theorem whole_log_counts_each_row_once:
  assumes "spanned fb ls lf = Some located" and "tier_of fb ls L located"
    and "placed_as fb L published placed" and "log_in_tiers L located placed buffered"
    and "\<forall>r \<in> set L. \<forall>(name, t) \<in> set kinds. column_value t (r name)"
  shows "\<exists>st. whole_log fb names (ls, lf) published kinds buffered = Some st \<and>
     tier_describes name st L \<and>
     ts_record_count st =
       (if \<exists>x \<in> set placed. straddling (staging_span (map snd located)) (snd x) then None
        else Some (int (length L)))"
proof -
  let ?R = "counted_rows L located (counted_beyond located placed) buffered (peak_of located placed)"
  let ?m = "merge_parts names (parts_of fb ls located published placed kinds buffered)"
  note d = parts_describe [OF assms(4,3,2,5), of name names]
  note w = whole_log_parts [OF assms(1,3), of names kinds buffered]
  show ?thesis
  proof (cases "\<exists>x \<in> set placed. straddling (staging_span (map snd located)) (snd x)")
    case True
    with w have "whole_log fb names (ls, lf) published kinds buffered = Some (uncounted ?m)"
      by simp
    with uncounted_describes [OF d counted_complete [OF assms(4)]] True show ?thesis
      by (simp add: uncounted_def)
  next
    case False
    have "placed = [] \<or> (\<exists>ps. tier_of fb ps L placed)"
      using assms(3) by (auto simp: placed_as_def split: option.splits)
    then have "distinct ?R"
      using counted_distinct [OF assms(4) False assms(2)] by blast
    moreover have "distinct L"
      using assms(4) by (auto simp: log_in_tiers_def strict_sorted_iff distinct_map)
    moreover have "set ?R = set L"
      using counted_complete [OF assms(4)] counted_sound [OF assms(4)] by blast
    ultimately have same: "mset ?R = mset L" by (simp add: set_eq_iff_mset_eq_distinct)
    from w False have "whole_log fb names (ls, lf) published kinds buffered = Some ?m" by simp
    with describes_mset [OF same d] parts_record_count [OF assms(4,3,2,5), of names] False
      mset_eq_length [OF same]
    show ?thesis by simp
  qed
qed

subsection \<open>A log in three tiers\<close>

text \<open>One file holding the offsets of a span, over a schema of the offset column alone.\<close>

definition offset_schema :: ice_schema where
  "offset_schema = [\<lparr>nf_name = OFFSET, nf_id = 1, nf_type = LongType\<rparr>]"

definition offset_row :: "offset \<Rightarrow> row" where
  "offset_row i = (\<lambda>_. PInt i)"

definition offset_file :: "offset \<Rightarrow> offset \<Rightarrow> pyval data_file" where
  "offset_file a b =
     \<lparr>df_path = ''data/0.parquet'', df_record_count = b - a, df_null_value_counts = [1 \<mapsto> 0],
      df_value_counts = [1 \<mapsto> b - a], df_lower_bounds = [1 \<mapsto> PInt a],
      df_upper_bounds = [1 \<mapsto> PInt (b - 1)]\<rparr>"

lemmas tier_example_simps = offset_schema_def offset_row_def offset_file_def holds_rows_def
  file_tells_def file_describes_def bounded_type_def lower_bound_def upper_bound_def nulls_in_def
  nans_in_def is_nan_def row_offset_def rows_of_def in_span_def

theorem rollup_tells_the_truth_witness:
  "ts_record_count (rollup (\<lambda>t b. b) None offset_schema [offset_file 0 1, offset_file 1 3])
     = Some (int (length [offset_row 0, offset_row 1, offset_row 2]))"
  using rollup_tells_the_truth [of "\<lambda>t b. b" offset_schema "[offset_file 0 1, offset_file 1 3]"
      "[[offset_row 0], [offset_row 1, offset_row 2]]" None]
  by (simp add: tier_example_simps)

theorem whole_log_counts_each_row_once_witness:
  "\<exists>st. whole_log (\<lambda>t b. b) [OFFSET] (offset_schema, [offset_file 1 2])
     (Some (offset_schema, [offset_file 0 1, offset_file 1 2])) [(OFFSET, LongType)]
     [offset_row 1, offset_row 2] = Some st \<and>
     tier_describes OFFSET st [offset_row 0, offset_row 1, offset_row 2] \<and>
     ts_record_count st = Some 3"
proof -
  have log: "log_in_tiers [offset_row 0, offset_row 1, offset_row 2] [(offset_file 1 2, 1, 2)]
      [(offset_file 0 1, 0, 1), (offset_file 1 2, 1, 2)] [offset_row 1, offset_row 2]"
    unfolding log_in_tiers_def
    by (auto simp: filed_def in_span_def row_offset_def offset_row_def staging_span_def
        list_min_Cons list_max_Cons intro!: exI [of _ "1 :: int"])
  show ?thesis
    using whole_log_counts_each_row_once [OF _ _ _ log, of "\<lambda>t b. b" offset_schema
        "[offset_file 1 2]" "Some (offset_schema, [offset_file 0 1, offset_file 1 2])"
        "[(OFFSET, LongType)]" "[OFFSET]" OFFSET]
    by (simp add: spanned_def file_span_def tier_of_def placed_as_def tier_example_simps
        column_value_def staging_span_def list_min_Cons list_max_Cons straddling_def beyond_span_def)
qed

end
