(* ===== verification/Manifest.thy ===== *)
theory Manifest
  imports Arrow Statistics
begin

text \<open>
  Statistics manifests and pruning on them (\<^verbatim>\<open>src/litelink/manifest.py\<close>): building a manifest from
  entries, replacing and dropping a unit's row, and the units that might hold a row matching every
  term. The manifest table is a record of its struct columns and its rows; a NULL struct is None.
  A term's value is a Python value, and a comparison Python refuses is None (the \<open>TypeError\<close> the
  source catches).
\<close>

subsection \<open>Manifests\<close>

record entry =
  en_name :: string
  en_start :: int
  en_end :: "int option"
  en_schema :: pa_schema
  en_statistics :: tier_statistics

text \<open>A row of the manifest; its struct columns are a map from the column's name.\<close>

record manifest_row =
  mr_unit :: string
  mr_start :: int
  mr_end :: "int option"
  mr_record_count :: "int option"
  mr_stats :: "string \<rightharpoonup> column_statistics"

record manifest =
  mf_kinds :: "(string \<times> pa_type) list"
  mf_rows :: "manifest_row list"

definition OPERATORS :: "string list" where
  "OPERATORS = [''=='', ''<'', ''<='', ''>'', ''>='', ''in'']"

type_synonym prune_term = "string \<times> string \<times> pyval"

text \<open>\<open>dict.setdefault\<close> over the fields of every schema: the first occurrence fixes the type.\<close>

definition add_column :: "pa_field \<Rightarrow> (string \<times> pa_type) list \<Rightarrow> (string \<times> pa_type) list" where
  "add_column fld found =
     (case fld of (name, _, t) \<Rightarrow>
        if t \<in> set PRUNABLE \<and> name \<noteq> OFFSET \<and> map_of found name = None
        then found @ [(name, t)] else found)"

definition columns :: "pa_schema list \<Rightarrow> (string \<times> pa_type) list" where
  "columns schemas = fold add_column (concat schemas) []"

text \<open>The struct of one column: its \<open>nan_count\<close> exists for floating kinds only.\<close>

definition struct_value :: "pa_type \<Rightarrow> column_statistics \<Rightarrow> column_statistics" where
  "struct_value kind c =
     c\<lparr>cs_nan_count := (if pa_floating kind then cs_nan_count c else None)\<rparr>"

definition build_row :: "(string \<times> pa_type) list \<Rightarrow> entry \<Rightarrow> manifest_row" where
  "build_row kinds e =
     \<lparr>mr_unit = en_name e, mr_start = en_start e, mr_end = en_end e,
      mr_record_count = ts_record_count (en_statistics e),
      mr_stats = (\<lambda>name. case map_of kinds name of None \<Rightarrow> None
         | Some kind \<Rightarrow> map_option (struct_value kind) (map_of (ts_columns (en_statistics e)) name))\<rparr>"

definition build :: "entry list \<Rightarrow> manifest" where
  "build entries =
     (let kinds = columns (map en_schema entries)
      in \<lparr>mf_kinds = kinds, mf_rows = map (build_row kinds) entries\<rparr>)"

definition without :: "manifest \<Rightarrow> string \<Rightarrow> manifest" where
  "without m name = m\<lparr>mf_rows := filter (\<lambda>r. mr_unit r \<noteq> name) (mf_rows m)\<rparr>"

text \<open>\<open>concat_tables\<close> with promotion: the second table's new columns follow the first's, a column
  one side lacks is NULL in its rows, and a column whose types differ raises (None).\<close>

definition concat_manifests :: "manifest \<Rightarrow> manifest \<Rightarrow> manifest option" where
  "concat_manifests a b =
     (if \<exists>(name, kind) \<in> set (mf_kinds b). map_of (mf_kinds a) name \<notin> {None, Some kind} then None
      else Some \<lparr>mf_kinds = mf_kinds a @ filter (\<lambda>(name, _). map_of (mf_kinds a) name = None) (mf_kinds b),
                 mf_rows = mf_rows a @ mf_rows b\<rparr>)"

definition extend_manifest :: "manifest option \<Rightarrow> entry \<Rightarrow> manifest option" where
  "extend_manifest previous e =
     (case previous of
        None \<Rightarrow> Some (build [e])
      | Some m \<Rightarrow> concat_manifests (without m (en_name e)) (build [e]))"

subsection \<open>Pruning\<close>

text \<open>Whether some value in \<open>[low, high]\<close> satisfies the operator; None is a \<open>TypeError\<close>.\<close>

definition compare_term :: "string \<Rightarrow> pyval \<Rightarrow> pyval \<Rightarrow> pyval \<Rightarrow> bool option" where
  "compare_term operator low high v =
     (if v = PNone \<or> is_nan v then Some True
      else if operator = ''=='' \<or> operator = ''in'' then py_and (py_le low v) (py_le v high)
      else if operator = ''<'' then py_lt low v
      else if operator = ''<='' then py_le low v
      else if operator = ''>'' then py_lt v high
      else py_le v high)"

text \<open>\<open>any\<close> over the values, stopping at the first that may match; a \<open>TypeError\<close> is caught and
  cannot decide.\<close>

fun any_compare :: "string \<Rightarrow> pyval \<Rightarrow> pyval \<Rightarrow> pyval list \<Rightarrow> bool" where
  "any_compare operator low high [] = False"
| "any_compare operator low high (v # vs) =
     (case compare_term operator low high v of
        None \<Rightarrow> True
      | Some b \<Rightarrow> if b then True else any_compare operator low high vs)"

definition values_of :: "string \<Rightarrow> pyval \<Rightarrow> pyval list option" where
  "values_of operator v =
     (if operator = ''in'' then (case v of PList vs \<Rightarrow> Some vs | _ \<Rightarrow> None) else Some [v])"

definition may_match :: "manifest_row \<Rightarrow> prune_term \<Rightarrow> (string \<times> pa_type) list \<Rightarrow> bool" where
  "may_match row t kinds =
     (case t of (column, operator, v) \<Rightarrow>
      case (map_of kinds column, mr_stats row column) of
        (Some kind, Some stats) \<Rightarrow>
          if operator \<notin> set OPERATORS then True
          else (case (cs_min stats, cs_max stats) of
                  (Some low, Some high) \<Rightarrow>
                    if pa_floating kind \<and> (case cs_nan_count stats of None \<Rightarrow> True | Some n \<Rightarrow> 0 < n)
                    then True
                    else (case values_of operator v of
                            None \<Rightarrow> True
                          | Some vs \<Rightarrow> any_compare operator low high vs)
                | _ \<Rightarrow> True)
      | _ \<Rightarrow> True)"

definition offset_may_match :: "manifest_row \<Rightarrow> prune_term \<Rightarrow> bool" where
  "offset_may_match row t =
     (case t of (_, operator, v) \<Rightarrow>
      if operator \<notin> set OPERATORS then True
      else let judge = (\<lambda>high. case values_of operator v of
                          None \<Rightarrow> True
                        | Some vs \<Rightarrow> any_compare operator (PInt (mr_start row)) high vs)
           in (case mr_end row of
                 None \<Rightarrow> judge (PFloat (FVal PosInf))
               | Some e \<Rightarrow> if e \<le> mr_start row then False else judge (PInt (e - 1))))"

definition term_may_match :: "(string \<times> pa_type) list \<Rightarrow> manifest_row \<Rightarrow> prune_term \<Rightarrow> bool" where
  "term_may_match kinds row t =
     (if fst t = OFFSET then offset_may_match row t else may_match row t kinds)"

text \<open>\<open>{row[key]: row for row in rows}\<close>: the last row of a unit counts.\<close>

definition row_of :: "manifest \<Rightarrow> string \<Rightarrow> manifest_row option" where
  "row_of m name = find (\<lambda>r. mr_unit r = name) (rev (mf_rows m))"

definition prune :: "manifest option \<Rightarrow> string list \<Rightarrow> prune_term list \<Rightarrow> string list" where
  "prune m names terms =
     (case m of
        None \<Rightarrow> names
      | Some mf \<Rightarrow> filter (\<lambda>name. case row_of mf name of
            None \<Rightarrow> True
          | Some row \<Rightarrow> mr_record_count row \<noteq> Some 0
                       \<and> (\<forall>t \<in> set terms. term_may_match (mf_kinds mf) row t)) names)"

subsection \<open>What a term selects\<close>

text \<open>
  The rows a term's predicate returns, as DuckDB evaluates it: NULL matches nothing, numbers compare
  as numbers, \<open>in\<close> is equality with some element. Everything else (NaN, strings, a cast) is left to
  an arbitrary \<open>duck\<close>, so what is proved holds whatever DuckDB does there.
\<close>

definition compares :: "string \<Rightarrow> ext \<Rightarrow> ext \<Rightarrow> bool" where
  "compares operator x v =
     (if operator = ''=='' then x = v else if operator = ''<'' then x < v
      else if operator = ''<='' then x \<le> v else if operator = ''>'' then v < x else v \<le> x)"

definition selects_one :: "(string \<Rightarrow> pyval \<Rightarrow> pyval \<Rightarrow> bool) \<Rightarrow> string \<Rightarrow> pyval \<Rightarrow> pyval \<Rightarrow> bool" where
  "selects_one duck operator v x =
     (case (num_of v, num_of x) of
        (Some a, Some b) \<Rightarrow> compares operator b a
      | _ \<Rightarrow> duck operator v x)"

definition selects :: "(string \<Rightarrow> pyval \<Rightarrow> pyval \<Rightarrow> bool) \<Rightarrow> prune_term \<Rightarrow> row \<Rightarrow> bool" where
  "selects duck t r =
     (case t of (column, operator, v) \<Rightarrow>
        r column \<noteq> PNone \<and>
        (if operator \<notin> set OPERATORS then duck operator v (r column)
         else if operator = ''in''
         then (case v of PList vs \<Rightarrow> \<exists>w \<in> set vs. selects_one duck ''=='' w (r column)
               | _ \<Rightarrow> duck operator v (r column))
         else selects_one duck operator v (r column)))"

text \<open>What a manifest says of its units' rows. The bounds may leave NaN out, as Parquet's do.\<close>

definition stats_true :: "pa_type \<Rightarrow> column_statistics \<Rightarrow> pyval list \<Rightarrow> bool" where
  "stats_true kind c vs \<longleftrightarrow>
     (\<forall>m. cs_min c = Some m \<longrightarrow> lower_bound m (filter (\<lambda>v. \<not> is_nan v) vs)) \<and>
     (\<forall>m. cs_max c = Some m \<longrightarrow> upper_bound m (filter (\<lambda>v. \<not> is_nan v) vs)) \<and>
     (pa_floating kind \<longrightarrow> (\<forall>n. cs_nan_count c = Some n \<longrightarrow> n = nans_in vs)) \<and>
     (\<not> pa_floating kind \<longrightarrow> nans_in vs = 0)"

definition row_true :: "(string \<times> pa_type) list \<Rightarrow> manifest_row \<Rightarrow> row list \<Rightarrow> bool" where
  "row_true kinds m rows \<longleftrightarrow>
     (\<forall>n. mr_record_count m = Some n \<longrightarrow> n = int (length rows)) \<and>
     (\<forall>r \<in> set rows. \<exists>i. r OFFSET = PInt i \<and> mr_start m \<le> i \<and> (\<forall>e. mr_end m = Some e \<longrightarrow> i < e)) \<and>
     (\<forall>column kind c. map_of kinds column = Some kind \<longrightarrow> mr_stats m column = Some c \<longrightarrow>
        stats_true kind c (map (\<lambda>r. r column) rows)) \<and>
     (\<forall>column. map_of kinds column = None \<longrightarrow> mr_stats m column = None)"

definition manifest_true :: "manifest \<Rightarrow> (string \<Rightarrow> row list) \<Rightarrow> bool" where
  "manifest_true m contents \<longleftrightarrow>
     (\<forall>r \<in> set (mf_rows m). row_true (mf_kinds m) r (contents (mr_unit r)))"

subsection \<open>A term that may not match selects nothing\<close>

lemma any_compareI:
  "v \<in> set vs \<Longrightarrow> compare_term operator low high v \<noteq> Some False \<Longrightarrow> any_compare operator low high vs"
  by (induction vs) (auto split: option.splits)

lemma compare_term_sound:
  assumes "num_of low = Some l" and "num_of high = Some h" and "num_of x = Some b" and "l \<le> b" and "b \<le> h"
    and "operator \<in> set OPERATORS" and "operator \<noteq> ''in''" and "selects_one duck operator v x"
  shows "compare_term operator low high v \<noteq> Some False"
proof (cases "v = PNone \<or> is_nan v")
  case True
  then show ?thesis by (simp add: compare_term_def)
next
  case False
  show ?thesis
  proof (cases "num_of v")
    case None
    with False have "\<not> numeric v" using numeric_num_of [of v] by (auto simp: is_nan_def)
    with False show ?thesis by (simp add: compare_term_def py_le_TypeError py_lt_TypeError)
  next
    case (Some a)
    with assms(3,8) have "compares operator b a" by (simp add: selects_one_def)
    with assms(4-7) show ?thesis
      by (auto simp: compare_term_def py_le_num [OF assms(1) Some] py_lt_num [OF assms(1) Some]
          py_le_num [OF Some assms(2)] py_lt_num [OF Some assms(2)] OPERATORS_def compares_def
          split: if_splits)
  qed
qed

lemma compare_in: "compare_term ''in'' low high v = compare_term ''=='' low high v"
  by (simp add: compare_term_def)

text \<open>The judgement both kinds of term share: bounds \<open>l\<close>, \<open>h\<close> around the row's value \<open>b\<close>.\<close>

lemma values_sound:
  assumes b: "num_of low = Some l" "num_of high = Some h" "num_of (r column) = Some b" "l \<le> b" "b \<le> h"
    and op: "operator \<in> set OPERATORS" and s: "selects duck (column, operator, v) r"
    and vs: "values_of operator v = Some vs"
  shows "any_compare operator low high vs"
proof (cases "operator = ''in''")
  case True
  with vs have v: "v = PList vs" by (auto simp: values_of_def split: pyval.splits)
  with True s op obtain w where w: "w \<in> set vs" "selects_one duck ''=='' w (r column)"
    by (auto simp: selects_def)
  have "''=='' \<in> set OPERATORS" by (simp add: OPERATORS_def)
  from compare_term_sound [OF b this _ w(2)] have "compare_term operator low high w \<noteq> Some False"
    by (simp add: True compare_in)
  with w(1) show ?thesis by (rule any_compareI)
next
  case False
  with vs have "vs = [v]" by (simp add: values_of_def)
  moreover from s op False have "selects_one duck operator v (r column)"
    by (simp add: selects_def)
  from compare_term_sound [OF b op False this] have "compare_term operator low high v \<noteq> Some False" .
  ultimately show ?thesis using any_compareI [of v vs] by simp
qed

lemma lower_boundD:
  "lower_bound m vs \<Longrightarrow> v \<in> set vs \<Longrightarrow> v \<noteq> PNone \<Longrightarrow>
   \<exists>l b. num_of m = Some l \<and> num_of v = Some b \<and> l \<le> b"
  by (force simp: lower_bound_def)

lemma upper_boundD:
  "upper_bound m vs \<Longrightarrow> v \<in> set vs \<Longrightarrow> v \<noteq> PNone \<Longrightarrow>
   \<exists>h b. num_of m = Some h \<and> num_of v = Some b \<and> b \<le> h"
  by (force simp: upper_bound_def)

lemma nans_in_0: "nans_in vs \<le> 0 \<Longrightarrow> v \<in> set vs \<Longrightarrow> \<not> is_nan v"
  by (auto simp: nans_in_def filter_empty_conv)

lemma may_match_sound:
  assumes true: "row_true kinds m rows" and r: "r \<in> set rows"
    and s: "selects duck (column, operator, v) r"
  shows "may_match m (column, operator, v) kinds"
proof (rule ccontr)
  assume no: "\<not> ?thesis"
  then obtain kind c where kind: "map_of kinds column = Some kind" "mr_stats m column = Some c"
    by (auto simp: may_match_def split: option.splits)
  from no obtain low high vs where bounds: "cs_min c = Some low" "cs_max c = Some high"
    and op: "operator \<in> set OPERATORS" and vs: "values_of operator v = Some vs"
    and nan: "pa_floating kind \<longrightarrow> (\<exists>n. cs_nan_count c = Some n \<and> n \<le> 0)"
    and excl: "\<not> any_compare operator low high vs"
    by (auto simp: may_match_def kind split: option.splits if_splits)
  let ?vs = "map (\<lambda>r. r column) rows"
  have st: "stats_true kind c ?vs" using true kind by (simp add: row_true_def)
  have "nans_in ?vs \<le> 0" using st nan by (cases "pa_floating kind") (auto simp: stats_true_def)
  moreover have x: "r column \<in> set ?vs" "r column \<noteq> PNone" using r s by (auto simp: selects_def)
  ultimately have "r column \<in> set (filter (\<lambda>v. \<not> is_nan v) ?vs)"
    using nans_in_0 [of ?vs "r column"] by simp
  note x' = this
  from st bounds have bs: "lower_bound low (filter (\<lambda>v. \<not> is_nan v) ?vs)"
    "upper_bound high (filter (\<lambda>v. \<not> is_nan v) ?vs)"
    by (simp_all add: stats_true_def)
  from lower_boundD [OF bs(1) x' x(2)] obtain l b
    where l: "num_of low = Some l" "num_of (r column) = Some b" "l \<le> b" by blast
  from upper_boundD [OF bs(2) x' x(2)] l(2) obtain h
    where h: "num_of high = Some h" "b \<le> h" by auto
  from values_sound [OF l(1) h(1) l(2,3) h(2) op s vs] excl show False by simp
qed

lemma offset_may_match_sound:
  assumes true: "row_true kinds m rows" and r: "r \<in> set rows"
    and s: "selects duck (OFFSET, operator, v) r"
  shows "offset_may_match m (OFFSET, operator, v)"
proof (rule ccontr)
  assume no: "\<not> ?thesis"
  obtain i where i: "r OFFSET = PInt i" "mr_start m \<le> i" "\<And>e. mr_end m = Some e \<Longrightarrow> i < e"
    using true r by (auto simp: row_true_def)
  define high where "high = (case mr_end m of None \<Rightarrow> PFloat (FVal PosInf) | Some e \<Rightarrow> PInt (e - 1))"
  have "\<not> (\<exists>e. mr_end m = Some e \<and> e \<le> mr_start m)" using i(2,3) by force
  with no obtain vs where op: "operator \<in> set OPERATORS" and vs: "values_of operator v = Some vs"
    and excl: "\<not> any_compare operator (PInt (mr_start m)) high vs"
    by (auto simp: offset_may_match_def high_def Let_def split: option.splits if_splits)
  have "\<exists>h. num_of high = Some h \<and> Fin (of_int i) \<le> h"
  proof (cases "mr_end m")
    case (Some e)
    with i(3) have "i \<le> e - 1" by force
    then have "(of_int i :: rat) \<le> of_int (e - 1)" by (simp only: of_int_le_iff)
    with Some show ?thesis by (simp add: high_def)
  qed (simp add: high_def)
  then obtain h where h: "num_of high = Some h" "Fin (of_int i) \<le> h" by blast
  have low: "num_of (PInt (mr_start m)) = Some (Fin (of_int (mr_start m)))"
    "Fin (of_int (mr_start m)) \<le> Fin (of_int i)"
    using i(2) by simp_all
  have "num_of (r OFFSET) = Some (Fin (of_int i))" by (simp add: i(1))
  from values_sound [OF low(1) h(1) this low(2) h(2) op s vs] excl show False by simp
qed

lemma row_of_in: "row_of m name = Some r \<Longrightarrow> r \<in> set (mf_rows m) \<and> mr_unit r = name"
  unfolding row_of_def by (drule find_SomeD) simp

lemma prune_sound:
  assumes mf: "manifest_true mf contents" and n: "name \<in> set names" and r: "r \<in> set (contents name)"
    and s: "\<And>t. t \<in> set terms \<Longrightarrow> selects duck t r"
  shows "name \<in> set (prune (Some mf) names terms)"
proof -
  have "mr_record_count row \<noteq> Some 0 \<and> (\<forall>t \<in> set terms. term_may_match (mf_kinds mf) row t)"
    if row: "row_of mf name = Some row" for row
  proof -
    from row_of_in [OF row] mf have true: "row_true (mf_kinds mf) row (contents name)"
      by (auto simp: manifest_true_def)
    then have "mr_record_count row \<noteq> Some 0" using r by (auto simp: row_true_def)
    moreover have "term_may_match (mf_kinds mf) row t" if t: "t \<in> set terms" for t
    proof (cases t)
      case (fields column operator v)
      with s [OF t] show ?thesis
        using may_match_sound [OF true r, of duck column operator v]
          offset_may_match_sound [OF true r, of duck operator v]
        by (cases "column = OFFSET") (simp_all add: term_may_match_def)
    qed
    ultimately show ?thesis by blast
  qed
  with n show ?thesis by (auto simp: prune_def split: option.splits)
qed

text \<open>Pruning is sound: a unit the reader names that holds a row matching every term is never
  left out, whatever the manifest leaves unknown (statistics, bounds, NaN counts, whole units),
  whatever types the terms' values have, and whatever DuckDB does with values that are not
  numbers; and what is kept is a sublist of the reader's own names.\<close>

theorem prune_keeps_every_match:
  assumes "case m of None \<Rightarrow> True | Some mf \<Rightarrow> manifest_true mf contents"
    and "name \<in> set names" and "r \<in> set (contents name)"
    and "\<And>t. t \<in> set terms \<Longrightarrow> selects duck t r"
  shows "name \<in> set (prune m names terms) \<and> set (prune m names terms) \<subseteq> set names"
  using assms prune_sound [of _ contents name names r terms duck]
  by (cases m) (auto simp: prune_def)

subsection \<open>Building and extending keep the manifest true\<close>

text \<open>An entry that tells the truth about its unit: its range, its counts, its columns, and no NaN.\<close>

definition entry_true :: "entry \<Rightarrow> row list \<Rightarrow> bool" where
  "entry_true e rows \<longleftrightarrow>
     (\<forall>r \<in> set rows. \<exists>i. r OFFSET = PInt i \<and> en_start e \<le> i \<and> (\<forall>f. en_end e = Some f \<longrightarrow> i < f)) \<and>
     (\<forall>name. tier_describes name (en_statistics e) rows) \<and>
     (\<forall>r \<in> set rows. \<forall>name. \<not> is_nan (r name))"

lemma describes_stats_true:
  assumes "describes c vs" and "\<forall>v \<in> set vs. \<not> is_nan v"
  shows "stats_true kind (struct_value kind c) vs"
proof -
  from assms(2) have "filter (\<lambda>v. \<not> is_nan v) vs = vs" by simp
  with assms show ?thesis
    by (auto simp: stats_true_def struct_value_def describes_iff no_nans)
qed

lemma build_row_true:
  assumes "entry_true e rows"
  shows "row_true kinds (build_row kinds e) rows"
proof -
  have "stats_true kind c (map (\<lambda>r. r column) rows)"
    if "map_of kinds column = Some kind" "mr_stats (build_row kinds e) column = Some c" for column kind c
  proof -
    from that obtain c' where c': "map_of (ts_columns (en_statistics e)) column = Some c'"
      "c = struct_value kind c'"
      by (auto simp: build_row_def)
    with assms have "describes c' (map (\<lambda>r. r column) rows)"
      by (auto simp: entry_true_def tier_describes_def)
    then show ?thesis unfolding c'(2)
      by (rule describes_stats_true) (use assms in \<open>auto simp: entry_true_def\<close>)
  qed
  moreover have "mr_stats (build_row kinds e) column = None" if "map_of kinds column = None" for column
    using that by (simp add: build_row_def)
  moreover have "n = int (length rows)" if "mr_record_count (build_row kinds e) = Some n" for n
    using that assms by (auto simp: build_row_def entry_true_def tier_describes_def)
  ultimately show ?thesis
    using assms by (simp add: row_true_def entry_true_def build_row_def)
qed

lemma build_true:
  "\<forall>e \<in> set entries. entry_true e (contents (en_name e)) \<Longrightarrow> manifest_true (build entries) contents"
  by (auto simp: manifest_true_def build_def Let_def build_row_true)
    (auto simp: build_row_def intro: build_row_true [unfolded build_row_def])

lemma without_true: "manifest_true m contents \<Longrightarrow> manifest_true (without m name) contents"
  by (auto simp: manifest_true_def without_def)

text \<open>More columns leave a row true, as long as it has no statistics for them and no type changes.\<close>

lemma row_true_widen:
  assumes "row_true kinds m rows"
    and "\<And>c k. map_of kinds c = Some k \<Longrightarrow> map_of kinds' c = Some k"
  shows "row_true kinds' m rows"
proof -
  have "stats_true kind c (map (\<lambda>r. r column) rows)"
    if "map_of kinds' column = Some kind" "mr_stats m column = Some c" for column kind c
  proof -
    from that(2) assms(1) obtain k where "map_of kinds column = Some k"
      by (cases "map_of kinds column") (auto simp: row_true_def)
    with assms(2) [OF this] that assms(1) show ?thesis by (auto simp: row_true_def)
  qed
  moreover have "mr_stats m column = None" if "map_of kinds' column = None" for column
    using that assms by (cases "map_of kinds column") (auto simp: row_true_def)
  ultimately show ?thesis using assms(1) by (simp add: row_true_def)
qed

lemma map_of_filter_fst:
  "map_of (filter (\<lambda>(k, _). P k) xs) k = (if P k then map_of xs k else None)"
  by (induction xs) auto

lemma concat_kinds:
  assumes "concat_manifests a b = Some m"
  shows "map_of (mf_kinds a) c = Some k \<Longrightarrow> map_of (mf_kinds m) c = Some k"
    and "map_of (mf_kinds b) c = Some k \<Longrightarrow> map_of (mf_kinds m) c = Some k"
proof -
  from assms have m: "mf_kinds m = mf_kinds a @ filter (\<lambda>(n, _). map_of (mf_kinds a) n = None) (mf_kinds b)"
    and agree: "\<forall>(n, kind) \<in> set (mf_kinds b). map_of (mf_kinds a) n \<in> {None, Some kind}"
    by (auto simp: concat_manifests_def split: if_splits)
  show "map_of (mf_kinds m) c = Some k" if "map_of (mf_kinds a) c = Some k"
    using that by (simp add: m map_add_def)
  show "map_of (mf_kinds m) c = Some k" if b: "map_of (mf_kinds b) c = Some k"
    using agree map_of_SomeD [OF b] b by (auto simp: m map_add_def map_of_filter_fst split: option.splits)
qed

lemma concat_true:
  assumes "concat_manifests a b = Some m" and "manifest_true a contents" and "manifest_true b contents"
  shows "manifest_true m contents"
proof -
  have rows: "mf_rows m = mf_rows a @ mf_rows b"
    using assms(1) by (auto simp: concat_manifests_def split: if_splits)
  show ?thesis
    using assms(2,3) row_true_widen concat_kinds [OF assms(1)]
    unfolding manifest_true_def rows set_append by blast
qed

lemma row_of_append_new:
  "\<forall>r \<in> set rows. mr_unit r \<noteq> mr_unit new \<Longrightarrow> mf_rows m = rows @ [new] \<Longrightarrow>
   row_of m (mr_unit new) = Some new"
  by (simp add: row_of_def)

text \<open>Extending a manifest replaces: afterwards the unit has exactly one row, built from the new
  entry, every other unit's rows are what they were, and a manifest that told the truth about every
  unit still does, so a retried write cannot leave two rows that disagree.\<close>

theorem extend_replaces_one_unit:
  assumes "extend_manifest (Some m) e = Some m'"
  shows "filter (\<lambda>r. mr_unit r = en_name e) (mf_rows m') = [build_row (columns [en_schema e]) e] \<and>
    row_of m' (en_name e) = Some (build_row (columns [en_schema e]) e) \<and>
    filter (\<lambda>r. mr_unit r \<noteq> en_name e) (mf_rows m') = filter (\<lambda>r. mr_unit r \<noteq> en_name e) (mf_rows m) \<and>
    (manifest_true m contents \<longrightarrow> entry_true e (contents (en_name e)) \<longrightarrow> manifest_true m' contents)"
proof -
  let ?new = "build_row (columns [en_schema e]) e"
  from assms have c: "concat_manifests (without m (en_name e)) (build [e]) = Some m'"
    by (simp add: extend_manifest_def)
  then have rows: "mf_rows m' = filter (\<lambda>r. mr_unit r \<noteq> en_name e) (mf_rows m) @ [?new]"
    by (auto simp: concat_manifests_def without_def build_def Let_def split: if_splits)
  have unit: "mr_unit ?new = en_name e" by (simp add: build_row_def)
  have "manifest_true m' contents" if "manifest_true m contents" "entry_true e (contents (en_name e))"
    by (rule concat_true [OF c without_true [OF that(1)] build_true]) (simp add: that(2))
  moreover have "row_of m' (en_name e) = Some ?new"
    using row_of_append_new [OF _ rows] unit by simp
  ultimately show ?thesis by (simp add: rows unit)
qed

text \<open>A manifest built from entries that tell the truth prunes soundly, and it never keeps a
  unit known to hold no rows, whatever the terms, nor drops a unit it has no row for.\<close>

theorem built_manifest_prunes_soundly:
  assumes "\<forall>e \<in> set entries. entry_true e (contents (en_name e))"
  shows "(\<forall>name \<in> set names. \<forall>r \<in> set (contents name). (\<forall>t \<in> set terms. selects duck t r) \<longrightarrow>
            name \<in> set (prune (Some (build entries)) names terms)) \<and>
         (\<forall>name \<in> set names. name \<notin> en_name ` set entries \<longrightarrow>
            name \<in> set (prune (Some (build entries)) names terms)) \<and>
         (\<forall>name row. row_of (build entries) name = Some row \<longrightarrow> mr_record_count row = Some 0 \<longrightarrow>
            name \<notin> set (prune (Some (build entries)) names terms))"
proof (intro conjI ballI allI impI)
  fix name r assume n: "name \<in> set names" "r \<in> set (contents name)" "\<forall>t \<in> set terms. selects duck t r"
  show "name \<in> set (prune (Some (build entries)) names terms)"
    using prune_sound [OF build_true [OF assms] n(1,2)] n(3) by blast
next
  fix name assume n: "name \<in> set names" "name \<notin> en_name ` set entries"
  have "row_of (build entries) name = None"
    using n(2) by (auto simp: row_of_def find_None_iff build_def Let_def build_row_def)
  with n(1) show "name \<in> set (prune (Some (build entries)) names terms)" by (simp add: prune_def)
next
  fix name row assume "row_of (build entries) name = Some row" "mr_record_count row = Some 0"
  then show "name \<notin> set (prune (Some (build entries)) names terms)" by (simp add: prune_def)
qed

subsection \<open>A manifest of one tier\<close>

definition example_rows :: "row list" where
  "example_rows = [offset_row 0, offset_row 1]"

definition example_entry :: "int \<Rightarrow> entry" where
  "example_entry e =
     \<lparr>en_name = ''staging'', en_start = 0, en_end = Some e,
      en_schema = [(OFFSET, False, Pa_int 64), (''x'', True, Pa_int 64)],
      en_statistics = from_rows [(''x'', LongType)] example_rows\<rparr>"

lemma example_entry_true: "entry_true (example_entry 2) example_rows"
  unfolding entry_true_def example_entry_def
  by (auto intro!: from_rows_describes simp: example_rows_def offset_row_def column_value_def is_nan_def)

lemma example_manifest_true:
  "manifest_true (build [example_entry 2]) (\<lambda>_. example_rows)"
  by (rule build_true) (simp add: example_entry_true)

theorem prune_keeps_every_match_witness:
  "''staging'' \<in> set (prune (Some (build [example_entry 2])) [''staging''] [(''x'', ''=='', PInt 1)])"
  using prune_keeps_every_match [where m = "Some (build [example_entry 2])"
      and contents = "\<lambda>_. example_rows" and name = "''staging''" and names = "[''staging'']"
      and r = "offset_row 1" and terms = "[(''x'', ''=='', PInt 1)]" and duck = "\<lambda>_ _ _. False"]
    example_manifest_true
  by (simp add: example_rows_def selects_def selects_one_def compares_def offset_row_def OPERATORS_def)

theorem extend_replaces_one_unit_witness:
  "\<exists>m'. extend_manifest (Some (build [example_entry 1])) (example_entry 2) = Some m' \<and>
     row_of m' ''staging'' = Some (build_row [(''x'', Pa_int 64)] (example_entry 2))"
proof -
  have kinds: "columns [en_schema (example_entry n)] = [(''x'', Pa_int 64)]" for n
    by (simp add: columns_def example_entry_def add_column_def PRUNABLE_def OFFSET_def)
  have "extend_manifest (Some (build [example_entry 1])) (example_entry 2) \<noteq> None"
    by (simp add: extend_manifest_def concat_manifests_def without_def build_def Let_def kinds)
  then obtain m' where "extend_manifest (Some (build [example_entry 1])) (example_entry 2) = Some m'"
    by auto
  with extend_replaces_one_unit [OF this] show ?thesis by (simp add: kinds) (simp add: example_entry_def)
qed

theorem built_manifest_prunes_soundly_witness:
  "''published'' \<in> set (prune (Some (build [example_entry 2])) [''staging'', ''published'']
     [(''x'', ''>'', PInt 5)])"
  using built_manifest_prunes_soundly [where entries = "[example_entry 2]"
      and contents = "\<lambda>_. example_rows" and names = "[''staging'', ''published'']"
      and terms = "[(''x'', ''>'', PInt 5)]" and duck = "\<lambda>_ _ _. False"]
  by (simp add: example_entry_true) (simp add: example_entry_def)

end
