(* ===== verification/Text.thy ===== *)
theory Text
  imports Py_Values
begin

text \<open>
  Integers as text, and the string operations paths are taken apart with. \<^verbatim>\<open>meta\<close> stores text, so
  a watermark goes through \<open>str\<close> and comes back through \<open>int\<close> (\<open>text_int\<close>, None where Python
  raises) or through SQLite's \<open>CAST\<close> (\<open>cast_int\<close>, which reads the longest numeric prefix and gives
  0 for none); both read back what was written.
\<close>

definition digit :: "nat \<Rightarrow> char" where
  "digit n = char_of (48 + n)"

definition is_digit :: "char \<Rightarrow> bool" where
  "is_digit c \<longleftrightarrow> (let n = of_char c :: nat in 48 \<le> n \<and> n \<le> 57)"

definition digit_value :: "char \<Rightarrow> nat" where
  "digit_value c = of_char c - 48"

fun nat_text :: "nat \<Rightarrow> string" where
  "nat_text n = (if n < 10 then [digit n] else nat_text (n div 10) @ [digit (n mod 10)])"

declare nat_text.simps [simp del]

definition int_text :: "int \<Rightarrow> string" where
  "int_text i = (if i < 0 then CHR ''-'' # nat_text (nat (- i)) else nat_text (nat i))"

definition digits_value :: "string \<Rightarrow> nat" where
  "digits_value s = foldl (\<lambda>n c. 10 * n + digit_value c) 0 s"

text \<open>\<open>str.isdigit\<close> and \<open>int(s)\<close>, on the ASCII text litelink writes.\<close>

definition all_digits :: "string \<Rightarrow> bool" where
  "all_digits s \<longleftrightarrow> s \<noteq> [] \<and> list_all is_digit s"

definition text_int :: "string \<Rightarrow> int option" where
  "text_int s =
     (case s of
        [] \<Rightarrow> None
      | c # cs \<Rightarrow>
          if c = CHR ''-'' then (if all_digits cs then Some (- int (digits_value cs)) else None)
          else if all_digits s then Some (int (digits_value s)) else None)"

definition cast_int :: "string \<Rightarrow> int" where
  "cast_int s =
     (case s of
        [] \<Rightarrow> 0
      | c # cs \<Rightarrow> if c = CHR ''-'' then - int (digits_value (takeWhile is_digit cs))
                 else int (digits_value (takeWhile is_digit s)))"

text \<open>\<open>s.rsplit(c, 1)[-1]\<close>, \<open>s.split(c, 1)[0]\<close>, and \<open>p in s\<close>.\<close>

definition after_last :: "char \<Rightarrow> string \<Rightarrow> string" where
  "after_last c s = rev (takeWhile (\<lambda>x. x \<noteq> c) (rev s))"

definition before_first :: "char \<Rightarrow> string \<Rightarrow> string" where
  "before_first c s = takeWhile (\<lambda>x. x \<noteq> c) s"

fun contains :: "string \<Rightarrow> string \<Rightarrow> bool" where
  "contains p [] = (p = [])"
| "contains p (c # s) = (starts_with (c # s) p \<or> contains p s)"

subsection \<open>Reading back what was written\<close>

lemma digit_char: "n < 10 \<Longrightarrow> of_char (digit n) = (48 + n :: nat)"
  by (simp add: digit_def)

lemma digit_simps [simp]: "n < 10 \<Longrightarrow> is_digit (digit n)" "n < 10 \<Longrightarrow> digit_value (digit n) = n"
  by (simp_all add: is_digit_def digit_value_def digit_char Let_def)

lemma digits_value_append: "digits_value (s @ [c]) = 10 * digits_value s + digit_value c"
  by (simp add: digits_value_def)

lemma nat_text_digits: "all_digits (nat_text n)"
proof (induction n rule: nat_text.induct)
  case (1 n)
  then show ?case by (subst nat_text.simps) (auto simp: all_digits_def)
qed

lemma nat_text_value: "digits_value (nat_text n) = n"
proof (induction n rule: nat_text.induct)
  case (1 n)
  show ?case
  proof (cases "n < 10")
    case True
    then show ?thesis by (subst nat_text.simps) (simp add: digits_value_def)
  next
    case False
    with 1 show ?thesis by (subst nat_text.simps) (simp add: digits_value_append)
  qed
qed

lemma nat_text_not_minus: "nat_text n = c # cs \<Longrightarrow> c \<noteq> CHR ''-''"
  using nat_text_digits [of n] by (auto simp: all_digits_def is_digit_def)

lemma nat_text_Cons: "\<exists>c cs. nat_text n = c # cs"
  using nat_text_digits [of n] by (cases "nat_text n") (auto simp: all_digits_def)

lemma text_int_nat: "text_int (nat_text n) = Some (int n)"
proof -
  obtain c cs where c: "nat_text n = c # cs" using nat_text_Cons by blast
  then have "text_int (nat_text n) = (if all_digits (nat_text n) then Some (int (digits_value (nat_text n))) else None)"
    using nat_text_not_minus [OF c] by (simp add: text_int_def)
  then show ?thesis by (simp add: nat_text_digits nat_text_value)
qed

lemma text_int_roundtrip [simp]: "text_int (int_text i) = Some i"
proof (cases "i < 0")
  case True
  then have "text_int (int_text i) = Some (- int (digits_value (nat_text (nat (- i)))))"
    using nat_text_digits by (simp add: int_text_def text_int_def)
  with True show ?thesis by (simp add: nat_text_value)
next
  case False
  then show ?thesis by (simp add: int_text_def text_int_nat)
qed

lemma takeWhile_digits: "all_digits s \<Longrightarrow> takeWhile is_digit s = s"
  by (auto simp: all_digits_def list_all_iff takeWhile_eq_all_conv)

lemma cast_int_roundtrip [simp]: "cast_int (int_text i) = i"
proof (cases "i < 0")
  case True
  then show ?thesis
    by (simp add: int_text_def cast_int_def takeWhile_digits nat_text_digits nat_text_value)
next
  case False
  obtain c cs where c: "nat_text (nat i) = c # cs" using nat_text_Cons by blast
  have "cast_int (nat_text (nat i)) = int (digits_value (takeWhile is_digit (nat_text (nat i))))"
    using nat_text_not_minus [OF c] by (simp add: cast_int_def c)
  with False show ?thesis
    by (simp add: int_text_def takeWhile_digits nat_text_digits nat_text_value)
qed

lemma int_text_inj: "int_text i = int_text j \<Longrightarrow> i = j"
  by (metis option.inject text_int_roundtrip)

end
