(* ===== verification/Buffer_Db.thy ===== *)
theory Buffer_Db
  imports Text Claims
begin

text \<open>
  The tables of \<^verbatim>\<open>buffer.db\<close> as one state, and its \<^verbatim>\<open>meta\<close> table (\<^verbatim>\<open>src/litelink/_buffer.py\<close>,
  \<^verbatim>\<open>SqliteBackend.create\<close> of \<^verbatim>\<open>src/litelink/_sqlite.py\<close>). Every operation of the later theories is
  one write transaction: a function of the whole state, so an operation that raises leaves it
  unchanged. A table is the list of its rows in rowid order; a keyed table is a map. What a
  buffered row holds is a type parameter, and a stored JSON text is the JSON value it holds.
\<close>

subsection \<open>The tables\<close>

record extent =
  ex_id :: nat
  ex_start :: "offset option"
  ex_end :: "offset option"
  ex_bytes :: int
  ex_path :: "path option"
  ex_named :: "int option"

record intent =
  in_start :: offset
  in_end :: offset
  in_bytes :: int

record 'r db =
  db_rows :: "(offset \<times> 'r) list"
  db_seq :: "int option"
  db_extents :: "extent list"
  db_extent_seq :: nat
  db_intents :: "(path \<times> intent) list"
  db_sealing :: "(offset \<times> offset \<times> path) list"
  db_compacting :: "(offset \<times> offset \<times> path) list"
  db_pending :: "(path \<times> int) list"
  db_swaps :: "path set"
  db_meta :: "string \<rightharpoonup> string"
  db_tier_offsets :: "string \<rightharpoonup> offset \<times> offset"
  db_tier_stats :: "string \<rightharpoonup> json \<times> string option"
  db_claims :: claim_table

definition empty_db :: "'r db" where
  "empty_db =
     \<lparr>db_rows = [], db_seq = None, db_extents = [], db_extent_seq = 0, db_intents = [],
      db_sealing = [], db_compacting = [], db_pending = [], db_swaps = {},
      db_meta = Map.empty, db_tier_offsets = Map.empty, db_tier_stats = Map.empty,
      db_claims = empty_claims\<rparr>"

subsection \<open>meta\<close>

definition PUBLISHED_KEY :: string where "PUBLISHED_KEY = ''published''"

definition PUBLISHED_THROUGH_KEY :: string where
  "PUBLISHED_THROUGH_KEY = ''published_through''"

definition PUBLISHED_FROM_KEY :: string where "PUBLISHED_FROM_KEY = ''published_from''"

definition TIER_GENERATION :: string where "TIER_GENERATION = ''tier_generation''"

text \<open>The names a log written before #98 stored, by the name each now has.\<close>

definition LEGACY_META :: "string \<rightharpoonup> string" where
  "LEGACY_META = [''published'' \<mapsto> ''archive'', ''published_through'' \<mapsto> ''archive_through'']"

definition LEGACY_TIERS :: "string \<rightharpoonup> string" where
  "LEGACY_TIERS = [''staging'' \<mapsto> ''local'', ''published'' \<mapsto> ''archive'']"

text \<open>The current name of a legacy tier row.\<close>

definition CURRENT_TIER :: "string \<rightharpoonup> string" where
  "CURRENT_TIER = [''local'' \<mapsto> ''staging'', ''archive'' \<mapsto> ''published'']"

type_synonym meta = "string \<rightharpoonup> string"

definition meta_value :: "string \<Rightarrow> meta \<Rightarrow> string option" where
  "meta_value key m =
     (case m key of
        Some v \<Rightarrow> Some v
      | None \<Rightarrow> (case LEGACY_META key of None \<Rightarrow> None | Some old \<Rightarrow> m old))"

fun write_meta :: "(string \<times> string) list \<Rightarrow> meta \<Rightarrow> meta" where
  "write_meta pairs m =
     fold (\<lambda>(k, v) m. case LEGACY_META k of None \<Rightarrow> m | Some old \<Rightarrow> m(old := None)) pairs
       (fold (\<lambda>(k, v) m. m(k \<mapsto> v)) pairs m)"

definition get_meta :: "string \<Rightarrow> 'r db \<Rightarrow> string option" where
  "get_meta key d = meta_value key (db_meta d)"

definition set_meta_all :: "(string \<times> string) list \<Rightarrow> 'r db \<Rightarrow> 'r db" where
  "set_meta_all pairs d = d\<lparr>db_meta := write_meta pairs (db_meta d)\<rparr>"

definition set_meta :: "string \<Rightarrow> string \<Rightarrow> 'r db \<Rightarrow> 'r db" where
  "set_meta key v d = d\<lparr>db_meta := write_meta [(key, v)] (db_meta d)\<rparr>"

text \<open>\<open>x or None\<close>: an empty string is as good as none.\<close>

definition or_none :: "string option \<Rightarrow> string option" where
  "or_none v = (if v = Some [] then None else v)"

definition set_meta_moved ::
  "string \<Rightarrow> string \<Rightarrow> (string \<times> string) list \<Rightarrow> 'r db \<Rightarrow> bool \<times> 'r db" where
  "set_meta_moved key v resets d =
     (let current = or_none (meta_value key (db_meta d));
          moved = (current \<noteq> or_none (Some v))
      in (moved, d\<lparr>db_meta := write_meta ((key, v) # (if moved then resets else [])) (db_meta d)\<rparr>))"

text \<open>\<open>int(x or 0)\<close> of a stored watermark; None where \<open>int\<close> raises.\<close>

definition stored_int :: "string option \<Rightarrow> int option" where
  "stored_int v = (case or_none v of None \<Rightarrow> Some 0 | Some s \<Rightarrow> text_int s)"

text \<open>\<open>raise_meta\<close>: the values written are the dict built before any is, so each is raised against
  what was stored when the transaction began.\<close>

definition raise_meta :: "(string \<times> int) list \<Rightarrow> 'r db \<Rightarrow> 'r db option" where
  "raise_meta vs d =
     map_option (\<lambda>pairs. d\<lparr>db_meta := write_meta pairs (db_meta d)\<rparr>)
       (those (map (\<lambda>(name, v). map_option (\<lambda>cur. (name, int_text (max v cur)))
                     (stored_int (meta_value name (db_meta d)))) vs))"

text \<open>\<open>adopt_current_names\<close>, its \<open>meta\<close> half.\<close>

definition adopt_meta_name :: "string \<times> string \<Rightarrow> meta \<Rightarrow> meta" where
  "adopt_meta_name names m =
     (case names of (new, old) \<Rightarrow>
      case m old of
        None \<Rightarrow> m
      | Some v \<Rightarrow> (if m new = None then m(new \<mapsto> v) else m)(old := None))"

definition adopt_meta :: "meta \<Rightarrow> meta" where
  "adopt_meta m =
     fold adopt_meta_name
       [(''published'', ''archive''), (''published_through'', ''archive_through'')] m"

subsection \<open>Lemmas on meta\<close>

text \<open>The keys litelink reads and writes: none of them is a legacy name.\<close>

definition current_key :: "string \<Rightarrow> bool" where
  "current_key k \<longleftrightarrow> k \<noteq> ''archive'' \<and> k \<noteq> ''archive_through''"

lemma LEGACY_META_if:
  "LEGACY_META k = (if k = ''published_through'' then Some ''archive_through''
                    else if k = ''published'' then Some ''archive'' else None)"
  by (simp add: LEGACY_META_def)

lemma LEGACY_META_not_current: "LEGACY_META k = Some old \<Longrightarrow> \<not> current_key old"
  by (auto simp: LEGACY_META_if current_key_def split: if_splits)

lemma LEGACY_META_inj: "LEGACY_META k = Some old \<Longrightarrow> LEGACY_META j = Some old \<Longrightarrow> j = k"
  by (auto simp: LEGACY_META_if split: if_splits)

lemma write_meta_one:
  "write_meta [(k, v)] m = (case LEGACY_META k of None \<Rightarrow> m(k \<mapsto> v) | Some old \<Rightarrow> (m(k \<mapsto> v))(old := None))"
  by simp

lemma meta_value_agree:
  assumes "m' j = m j" and "\<And>old. LEGACY_META j = Some old \<Longrightarrow> m' old = m old"
  shows "meta_value j m' = meta_value j m"
  using assms by (simp add: meta_value_def split: option.splits)

lemma meta_value_write_one:
  assumes k: "current_key k" and j: "current_key j"
  shows "meta_value j (write_meta [(k, v)] m) = (if j = k then Some v else meta_value j m)"
proof (cases "j = k")
  case True
  have "LEGACY_META k \<noteq> Some k" using LEGACY_META_not_current k by blast
  then have "write_meta [(k, v)] m k = Some v"
    unfolding write_meta_one by (cases "LEGACY_META k") simp_all
  with True show ?thesis by (simp add: meta_value_def)
next
  case False
  have "meta_value j (write_meta [(k, v)] m) = meta_value j m"
  proof (rule meta_value_agree)
    have "LEGACY_META k \<noteq> Some j" using LEGACY_META_not_current j by blast
    with False show "write_meta [(k, v)] m j = m j"
      unfolding write_meta_one by (cases "LEGACY_META k") simp_all
    fix old assume old: "LEGACY_META j = Some old"
    then have "old \<noteq> k" using k LEGACY_META_not_current by blast
    moreover have "LEGACY_META k \<noteq> Some old" using LEGACY_META_inj [OF old] False by auto
    ultimately show "write_meta [(k, v)] m old = m old"
      unfolding write_meta_one by (cases "LEGACY_META k") simp_all
  qed
  with False show ?thesis by simp
qed

text \<open>Moving one name changes no value any reader sees.\<close>

lemma adopt_one_value:
  assumes new: "LEGACY_META new = Some old" and k: "current_key k"
  shows "meta_value k (adopt_meta_name (new, old) m) = meta_value k m"
proof (cases "m old")
  case None
  then show ?thesis by (simp add: adopt_meta_name_def)
next
  case (Some v)
  let ?m = "adopt_meta_name (new, old) m"
  have old: "old \<noteq> k" using LEGACY_META_not_current [OF new] k by blast
  have cur: "current_key new"
    using new by (auto simp: LEGACY_META_if current_key_def split: if_splits)
  then have legacy: "old \<noteq> new" using LEGACY_META_not_current [OF new] by blast
  show ?thesis
  proof (cases "k = new")
    case True
    have "?m new = (if m new = None then Some v else m new)"
      using Some legacy by (simp add: adopt_meta_name_def)
    with True Some new show ?thesis by (simp add: meta_value_def split: option.splits)
  next
    case False
    show ?thesis
    proof (rule meta_value_agree)
      show "?m k = m k" using Some False old by (simp add: adopt_meta_name_def)
      fix o1 assume o1: "LEGACY_META k = Some o1"
      then have "o1 \<noteq> old" using LEGACY_META_inj [OF new] False by blast
      moreover have "o1 \<noteq> new" using LEGACY_META_not_current [OF o1] cur by blast
      ultimately show "?m o1 = m o1" using Some by (simp add: adopt_meta_name_def)
    qed
  qed
qed

lemma adopt_meta_value: "current_key k \<Longrightarrow> meta_value k (adopt_meta m) = meta_value k m"
  by (simp add: adopt_meta_def adopt_one_value LEGACY_META_if)

lemma adopt_one_gone: "adopt_meta_name (new, old) m old = None"
  by (simp add: adopt_meta_name_def split: option.splits)

lemma adopt_one_other: "k \<noteq> new \<Longrightarrow> k \<noteq> old \<Longrightarrow> adopt_meta_name (new, old) m k = m k"
  by (simp add: adopt_meta_name_def split: option.splits)

lemma adopt_meta_legacy: "adopt_meta m ''archive'' = None" "adopt_meta m ''archive_through'' = None"
  by (simp_all add: adopt_meta_def adopt_one_gone adopt_one_other)

end
