(* ===== verification/Tier_Rows.thy ===== *)
theory Tier_Rows
  imports Buffer_Db
begin

text \<open>
  The stored tier rows of \<^verbatim>\<open>buffer.db\<close> and the generation every change bumps
  (\<^verbatim>\<open>src/litelink/_buffer.py\<close>: \<open>tiers\<close> to \<open>retired\<close>). A tier's row is its offset range in
  \<^verbatim>\<open>tier_offsets\<close> joined with its statistics in \<^verbatim>\<open>tier_statistics\<close>; a row under a legacy name
  stands in only where no current one exists. The buffer's own row closes the log.
\<close>

type_synonym tier_row = "(offset \<times> offset) \<times> json \<times> string option"

subsection \<open>Reading\<close>

definition joined_row :: "'r db \<Rightarrow> string \<Rightarrow> tier_row option" where
  "joined_row d tier =
     (case (db_tier_offsets d tier, db_tier_stats d tier) of
        (Some sp, Some (stats, version)) \<Rightarrow> Some (sp, stats, version)
      | _ \<Rightarrow> None)"

text \<open>\<open>_tier_row\<close>: the tier's row, or its pre-#98 one.\<close>

definition tier_row :: "'r db \<Rightarrow> string \<Rightarrow> tier_row option" where
  "tier_row d tier =
     (case joined_row d tier of
        Some r \<Rightarrow> Some r
      | None \<Rightarrow> (case LEGACY_TIERS tier of None \<Rightarrow> None | Some old \<Rightarrow> joined_row d old))"

text \<open>\<open>tiers\<close>: the generation, and every tier row by its current name.\<close>

definition tiers :: "'r db \<Rightarrow> string option \<times> (string \<rightharpoonup> tier_row)" where
  "tiers d =
     (db_meta d TIER_GENERATION,
      (\<lambda>tier. if CURRENT_TIER tier \<noteq> None then None
              else (case joined_row d tier of
                      Some r \<Rightarrow> Some r
                    | None \<Rightarrow> (case LEGACY_TIERS tier of None \<Rightarrow> None | Some old \<Rightarrow> joined_row d old))))"

subsection \<open>Writing\<close>

text \<open>\<open>_bump_tiers\<close>: '1', or the stored generation plus one.\<close>

definition bump_tiers :: "'r db \<Rightarrow> 'r db" where
  "bump_tiers d =
     d\<lparr>db_meta := (db_meta d)(TIER_GENERATION \<mapsto>
         (case db_meta d TIER_GENERATION of None \<Rightarrow> ''1'' | Some v \<Rightarrow> int_text (cast_int v + 1)))\<rparr>"

definition drop_legacy_tier :: "string \<Rightarrow> 'r db \<Rightarrow> 'r db" where
  "drop_legacy_tier tier d =
     (case LEGACY_TIERS tier of
        None \<Rightarrow> d
      | Some old \<Rightarrow> d\<lparr>db_tier_offsets := (db_tier_offsets d)(old := None),
                     db_tier_stats := (db_tier_stats d)(old := None)\<rparr>)"

text \<open>The two upserts: the statistics one leaves the version of a row that is there.\<close>

definition put_tier :: "string \<Rightarrow> offset \<times> offset \<Rightarrow> json \<Rightarrow> 'r db \<Rightarrow> 'r db" where
  "put_tier tier sp stats d =
     d\<lparr>db_tier_offsets := (db_tier_offsets d)(tier \<mapsto> sp),
       db_tier_stats := (db_tier_stats d)(tier \<mapsto>
          (stats, case db_tier_stats d tier of None \<Rightarrow> None | Some (_, v) \<Rightarrow> v))\<rparr>"

definition remove_tier :: "string \<Rightarrow> 'r db \<Rightarrow> 'r db" where
  "remove_tier tier d =
     d\<lparr>db_tier_offsets := (db_tier_offsets d)(tier := None),
       db_tier_stats := (db_tier_stats d)(tier := None)\<rparr>"

text \<open>\<open>update_tier\<close>: \<open>change\<close> is the caller's function of the stored range and statistics. Its outer
  None is an exception, which rolls the transaction back; its inner None removes the row.\<close>

definition update_tier ::
  "string \<Rightarrow> ((offset \<times> offset) option \<Rightarrow> json option \<Rightarrow> ((offset \<times> offset) \<times> json) option option)
     \<Rightarrow> 'r db \<Rightarrow> 'r db option" where
  "update_tier tier change d =
     (let stored = tier_row d tier in
      case change (map_option fst stored) (map_option (fst \<circ> snd) stored) of
        None \<Rightarrow> None
      | Some updated \<Rightarrow>
          (let d1 = drop_legacy_tier tier d
           in Some (bump_tiers (case updated of
                None \<Rightarrow> remove_tier tier d1
              | Some (sp, stats) \<Rightarrow> put_tier tier sp stats d1))))"

text \<open>\<open>_metadata_sequence\<close>: the number at the front of a metadata file's name, or -1.\<close>

definition metadata_sequence :: "string \<Rightarrow> int" where
  "metadata_sequence version =
     (let prefix = before_first (CHR ''-'') (after_last (CHR ''/'') version)
      in if all_digits prefix then int (digits_value prefix) else -1)"

definition store_staging_statistics ::
  "string \<Rightarrow> offset \<times> offset \<Rightarrow> json \<Rightarrow> 'r db \<Rightarrow> bool \<times> 'r db" where
  "store_staging_statistics version sp stats d =
     (if (case tier_row d ''staging'' of
            Some (_, _, Some v) \<Rightarrow> metadata_sequence version \<le> metadata_sequence v
          | _ \<Rightarrow> False)
      then (False, d)
      else (let d1 = drop_legacy_tier ''staging'' d
            in (True, bump_tiers (d1\<lparr>db_tier_offsets := (db_tier_offsets d1)(''staging'' \<mapsto> sp),
                 db_tier_stats := (db_tier_stats d1)(''staging'' \<mapsto> (stats, Some version))\<rparr>))))"

text \<open>\<open>adopt_current_names\<close>: each table's legacy row takes the current name, or goes where the
  current one is there already; the generation moves only if a row did.\<close>

definition adopt_key :: "string \<times> string \<Rightarrow> (string \<rightharpoonup> 'a) \<Rightarrow> (string \<rightharpoonup> 'a)" where
  "adopt_key names m =
     (case names of (new, old) \<Rightarrow>
        if m new = None then (m(new := m old))(old := None) else m(old := None))"

definition adopt_tiers :: "'r db \<Rightarrow> 'r db" where
  "adopt_tiers d =
     (let names = [(''staging'', ''local''), (''published'', ''archive'')];
          moved = (\<exists>(new, old) \<in> set names. db_tier_offsets d old \<noteq> None \<or> db_tier_stats d old \<noteq> None);
          d1 = d\<lparr>db_tier_offsets := fold adopt_key names (db_tier_offsets d),
                 db_tier_stats := fold adopt_key names (db_tier_stats d)\<rparr>
      in if moved then bump_tiers d1 else d1)"

definition adopt_current_names :: "'r db \<Rightarrow> 'r db" where
  "adopt_current_names d = adopt_tiers (d\<lparr>db_meta := adopt_meta (db_meta d)\<rparr>)"

subsection \<open>The buffer's own row: retirement\<close>

text \<open>\<open>next\<close> of the backend: the offset the next append takes.\<close>

definition next_offset :: "'r db \<Rightarrow> offset" where
  "next_offset d = (case db_seq d of None \<Rightarrow> 0 | Some s \<Rightarrow> s) + 1"

definition write_buffer_row :: "offset \<Rightarrow> offset \<Rightarrow> json \<Rightarrow> 'r db \<Rightarrow> 'r db" where
  "write_buffer_row a b stats d = bump_tiers (put_tier ''buffer'' (a, b) stats d)"

definition close_buffer :: "json \<Rightarrow> 'r db \<Rightarrow> 'r db" where
  "close_buffer stats d =
     (if db_tier_offsets d ''buffer'' \<noteq> None then d
      else let e = next_offset d;
               a = (case list_min (map fst (db_rows d)) of None \<Rightarrow> e | Some l \<Rightarrow> l)
           in write_buffer_row a e stats d)"

text \<open>\<open>empty_buffer_range\<close> raises where the buffer has no end: None.\<close>

definition empty_buffer_range :: "json \<Rightarrow> 'r db \<Rightarrow> 'r db option" where
  "empty_buffer_range stats d =
     (case db_tier_offsets d ''buffer'' of
        None \<Rightarrow> None
      | Some (_, e) \<Rightarrow> Some (write_buffer_row e e stats d))"

record retirement =
  rt_retired :: bool
  rt_through :: offset
  rt_published :: "string option"

fun json_get :: "string \<Rightarrow> json \<Rightarrow> json option" where
  "json_get k (JObj kvs) = map_of kvs k"
| "json_get k _ = None"

text \<open>\<open>_retirement\<close>; a count that is 0 as an int or a float is 0 to Python, and so is \<open>False\<close>.\<close>

definition json_zero :: "json option \<Rightarrow> bool" where
  "json_zero j \<longleftrightarrow> j \<in> {Some (JInt 0), Some (JFloat (FVal (Fin 0))), Some (JBool False)}"

definition retirement_of :: "offset \<Rightarrow> json \<Rightarrow> string option \<Rightarrow> retirement" where
  "retirement_of e stats published =
     \<lparr>rt_retired = json_zero (json_get ''record_count'' stats), rt_through = e - 1,
      rt_published = published\<rparr>"

definition retired :: "'r db \<Rightarrow> retirement option" where
  "retired d =
     (case joined_row d ''buffer'' of
        None \<Rightarrow> None
      | Some ((_, e), stats, _) \<Rightarrow> Some (retirement_of e stats (get_meta PUBLISHED_KEY d)))"

subsection \<open>The generation\<close>

definition gen_value :: "'r db \<Rightarrow> int" where
  "gen_value d = (case db_meta d TIER_GENERATION of None \<Rightarrow> 0 | Some v \<Rightarrow> cast_int v)"

text \<open>Any operation on the tiers, or any other one, which leaves the tier tables and the generation
  alone.\<close>

inductive tier_step :: "'r db \<Rightarrow> 'r db \<Rightarrow> bool" where
  step_update: "update_tier tier change d = Some d' \<Longrightarrow> tier_step d d'"
| step_staging: "store_staging_statistics version sp stats d = (wrote, d') \<Longrightarrow> tier_step d d'"
| step_adopt: "tier_step d (adopt_current_names d)"
| step_close: "tier_step d (close_buffer stats d)"
| step_empty: "empty_buffer_range stats d = Some d' \<Longrightarrow> tier_step d d'"
| step_other: "db_tier_offsets d' = db_tier_offsets d \<Longrightarrow> db_tier_stats d' = db_tier_stats d \<Longrightarrow>
    db_meta d' TIER_GENERATION = db_meta d TIER_GENERATION \<Longrightarrow> tier_step d d'"

definition tiers_move :: "'r db \<Rightarrow> 'r db \<Rightarrow> bool" where
  "tiers_move d d' \<longleftrightarrow> gen_value d < gen_value d' \<or>
     (db_meta d' TIER_GENERATION = db_meta d TIER_GENERATION \<and>
      db_tier_offsets d' = db_tier_offsets d \<and> db_tier_stats d' = db_tier_stats d)"

lemma tiers_move_trans: "tiers_move d e \<Longrightarrow> tiers_move e f \<Longrightarrow> tiers_move d f"
  by (auto simp: tiers_move_def gen_value_def)

lemma tiers_move_refl [simp]: "tiers_move d d"
  by (simp add: tiers_move_def)

lemma cast_int_one: "cast_int ''1'' = 1"
  by (simp add: cast_int_def is_digit_def digits_value_def digit_value_def)

lemma gen_value_bump: "gen_value (bump_tiers d) = gen_value d + 1"
  by (simp add: gen_value_def bump_tiers_def cast_int_one split: option.splits)

lemma gen_value_tables [simp]:
  "gen_value (drop_legacy_tier t d) = gen_value d" "gen_value (remove_tier t d) = gen_value d"
  "gen_value (put_tier t sp s d) = gen_value d"
  by (simp_all add: gen_value_def drop_legacy_tier_def remove_tier_def put_tier_def split: option.splits)

lemma bump_moves: "gen_value d = gen_value e \<Longrightarrow> tiers_move d (bump_tiers e)"
  by (simp add: tiers_move_def gen_value_bump)

lemma adopt_key_absent: "m old = None \<Longrightarrow> adopt_key (new, old) m = m"
  by (simp add: adopt_key_def fun_upd_idem)

lemma adopt_meta_generation: "adopt_meta m TIER_GENERATION = m TIER_GENERATION"
  by (simp add: adopt_meta_def adopt_one_other TIER_GENERATION_def)

lemma adopt_tiers_moves: "tiers_move d (adopt_tiers d)"
proof (cases "\<exists>(new, old) \<in> {(''staging'', ''local''), (''published'', ''archive'')}.
    db_tier_offsets d old \<noteq> None \<or> db_tier_stats d old \<noteq> None")
  case True
  then show ?thesis
    by (simp add: adopt_tiers_def Let_def) (auto intro!: bump_moves simp: gen_value_def)
next
  case False
  then have "db_tier_offsets d ''local'' = None" "db_tier_stats d ''local'' = None"
    "db_tier_offsets d ''archive'' = None" "db_tier_stats d ''archive'' = None"
    by (simp_all del: not_None_eq)
  with False show ?thesis
    by (simp add: adopt_tiers_def Let_def adopt_key_absent tiers_move_def)
qed

lemma tier_step_moves: "tier_step d d' \<Longrightarrow> tiers_move d d'"
proof (induction rule: tier_step.induct)
  case (step_update tier change d d')
  then show ?case
    by (auto simp: update_tier_def Let_def split: option.splits intro!: bump_moves)
next
  case (step_staging version sp stats d wrote d')
  have "gen_value ((drop_legacy_tier ''staging'' d)\<lparr>db_tier_offsets := a, db_tier_stats := b\<rparr>)
      = gen_value d" for a b
    by (simp add: gen_value_def drop_legacy_tier_def split: option.splits)
  with step_staging show ?case
    by (auto simp: store_staging_statistics_def Let_def split: if_splits intro!: bump_moves)
next
  case (step_adopt d)
  have "tiers_move d (d\<lparr>db_meta := adopt_meta (db_meta d)\<rparr>)"
    by (simp add: tiers_move_def adopt_meta_generation)
  with adopt_tiers_moves show ?case
    unfolding adopt_current_names_def by (blast intro: tiers_move_trans)
next
  case (step_close d stats)
  show ?case
    by (simp add: close_buffer_def Let_def write_buffer_row_def bump_moves)
next
  case (step_empty stats d d')
  then show ?case
    by (auto simp: empty_buffer_range_def write_buffer_row_def split: option.splits intro!: bump_moves)
next
  case (step_other d' d)
  then show ?case by (simp add: tiers_move_def)
qed

lemma tier_steps_move: "steps tier_step d d' \<Longrightarrow> tiers_move d d'"
  by (induction rule: steps.induct) (auto intro: tiers_move_trans tier_step_moves)

lemma same_generation:
  assumes "steps tier_step d d'" and "db_meta d' TIER_GENERATION = db_meta d TIER_GENERATION"
  shows "tiers d' = tiers d"
proof -
  from assms have "db_tier_offsets d' = db_tier_offsets d" "db_tier_stats d' = db_tier_stats d"
    using tier_steps_move [OF assms(1)] by (auto simp: tiers_move_def gen_value_def)
  then have "joined_row d' = joined_row d" by (intro ext) (simp add: joined_row_def)
  with assms(2) show ?thesis by (simp add: tiers_def cong: if_cong option.case_cong)
qed

subsection \<open>The staging row moves forward only\<close>

lemma bump_tables [simp]:
  "db_tier_offsets (bump_tiers d) = db_tier_offsets d" "db_tier_stats (bump_tiers d) = db_tier_stats d"
  by (simp_all add: bump_tiers_def)

lemma joined_row_bump [simp]: "joined_row (bump_tiers d) t = joined_row d t"
  by (simp add: joined_row_def bump_tiers_def)

lemma staging_stored:
  "store_staging_statistics version sp stats d = (True, d') \<Longrightarrow>
     joined_row d' ''staging'' = Some (sp, stats, Some version)"
  by (auto simp: store_staging_statistics_def Let_def joined_row_def bump_tiers_def split: if_splits)

lemma tier_row_joined: "joined_row d t = Some r \<Longrightarrow> tier_row d t = Some r"
  by (simp add: tier_row_def)

lemma staging_refused_iff:
  "fst (store_staging_statistics version sp stats d) = False \<longleftrightarrow>
     (\<exists>a s v. tier_row d ''staging'' = Some (a, s, Some v) \<and>
        metadata_sequence version \<le> metadata_sequence v)"
  by (auto simp: store_staging_statistics_def Let_def split: option.splits)

text \<open>Whatever order two processes store their rollups of two versions in, the newer version's
  row is the one kept, and the older one's late store reports that it wrote nothing.\<close>

theorem newer_staging_rollup_wins:
  assumes "metadata_sequence v1 < metadata_sequence v2"
    and "\<And>a s v. tier_row d ''staging'' = Some (a, s, Some v) \<Longrightarrow> metadata_sequence v < metadata_sequence v1"
  shows "joined_row (snd (store_staging_statistics v2 sp2 s2 (snd (store_staging_statistics v1 sp1 s1 d)))) ''staging''
           = Some (sp2, s2, Some v2) \<and>
         store_staging_statistics v1 sp1 s1 (snd (store_staging_statistics v2 sp2 s2 d))
           = (False, snd (store_staging_statistics v2 sp2 s2 d)) \<and>
         joined_row (snd (store_staging_statistics v2 sp2 s2 d)) ''staging'' = Some (sp2, s2, Some v2)"
proof -
  have stored: "joined_row (snd (store_staging_statistics v sp s e)) ''staging'' = Some (sp, s, Some v)"
    if "\<And>a s' w. tier_row e ''staging'' = Some (a, s', Some w) \<Longrightarrow> metadata_sequence w < metadata_sequence v"
    for v sp s and e :: "'a db"
  proof -
    have "fst (store_staging_statistics v sp s e)"
      using staging_refused_iff [of v sp s e] that by force
    then have "store_staging_statistics v sp s e = (True, snd (store_staging_statistics v sp s e))"
      by (metis prod.collapse)
    then show ?thesis by (rule staging_stored)
  qed
  have two: "joined_row (snd (store_staging_statistics v2 sp2 s2 d)) ''staging'' = Some (sp2, s2, Some v2)"
    by (rule stored) (use assms in \<open>force dest: assms(2)\<close>)
  have one: "joined_row (snd (store_staging_statistics v1 sp1 s1 d)) ''staging'' = Some (sp1, s1, Some v1)"
    by (rule stored) (use assms in force)
  have "joined_row (snd (store_staging_statistics v2 sp2 s2 (snd (store_staging_statistics v1 sp1 s1 d)))) ''staging''
      = Some (sp2, s2, Some v2)"
    by (rule stored) (use assms(1) tier_row_joined [OF one] in auto)
  moreover have "store_staging_statistics v1 sp1 s1 (snd (store_staging_statistics v2 sp2 s2 d))
           = (False, snd (store_staging_statistics v2 sp2 s2 d))"
    using tier_row_joined [OF two] assms(1) by (simp add: store_staging_statistics_def)
  ultimately show ?thesis using two by simp
qed

subsection \<open>Adopting the current names\<close>

definition current_names :: "(string \<times> string) list" where
  "current_names = [(''staging'', ''local''), (''published'', ''archive'')]"

lemma adopt_key_apply:
  "new \<noteq> old \<Longrightarrow> adopt_key (new, old) m t =
     (if t = old then None else if t = new \<and> m new = None then m old else m t)"
  by (auto simp: adopt_key_def)

lemma adopt_keys:
  "fold adopt_key current_names m t =
     (if t = ''local'' \<or> t = ''archive'' then None
      else case m t of Some x \<Rightarrow> Some x
           | None \<Rightarrow> (case LEGACY_TIERS t of None \<Rightarrow> None | Some old \<Rightarrow> m old))"
  by (simp add: current_names_def adopt_key_apply LEGACY_TIERS_def split: option.splits)

lemma adopted_tables:
  "db_tier_offsets (adopt_current_names d) = fold adopt_key current_names (db_tier_offsets d)"
  "db_tier_stats (adopt_current_names d) = fold adopt_key current_names (db_tier_stats d)"
  by (simp_all add: adopt_current_names_def adopt_tiers_def current_names_def bump_tiers_def Let_def)

lemma adopted_meta:
  "k \<noteq> TIER_GENERATION \<Longrightarrow> db_meta (adopt_current_names d) k = adopt_meta (db_meta d) k"
  by (simp add: adopt_current_names_def adopt_tiers_def bump_tiers_def Let_def)

lemma LEGACY_TIERS_if:
  "LEGACY_TIERS t = (if t = ''published'' then Some ''archive'' else if t = ''staging'' then Some ''local'' else None)"
  by (simp add: LEGACY_TIERS_def)

lemma LEGACY_TIERS_old: "LEGACY_TIERS t = Some old \<Longrightarrow> old = ''local'' \<or> old = ''archive''"
  by (auto simp: LEGACY_TIERS_if split: if_splits)

lemma CURRENT_TIER_iff: "CURRENT_TIER t \<noteq> None \<longleftrightarrow> t = ''local'' \<or> t = ''archive''"
  by (auto simp: CURRENT_TIER_def)

text \<open>A tier has its row in both tables or in neither: every write keeps the two together.\<close>

definition tier_tables_ok :: "'r db \<Rightarrow> bool" where
  "tier_tables_ok d \<longleftrightarrow> dom (db_tier_offsets d) = dom (db_tier_stats d)"

lemma tables_both: "tier_tables_ok d \<Longrightarrow> db_tier_offsets d t = None \<longleftrightarrow> db_tier_stats d t = None"
  unfolding tier_tables_ok_def by (metis domIff)

lemma joined_None: "tier_tables_ok d \<Longrightarrow> joined_row d t = None \<longleftrightarrow> db_tier_offsets d t = None"
  using tables_both [of d t] by (auto simp: joined_row_def split: option.splits)

lemma adopted_joined:
  assumes ok: "tier_tables_ok d" and t: "t \<noteq> ''local''" "t \<noteq> ''archive''"
  shows "joined_row (adopt_current_names d) t =
    (case joined_row d t of Some r \<Rightarrow> Some r
     | None \<Rightarrow> (case LEGACY_TIERS t of None \<Rightarrow> None | Some old \<Rightarrow> joined_row d old))"
proof (cases "db_tier_offsets d t")
  case None
  with tables_both [OF ok, of t] have "db_tier_stats d t = None" by simp
  with None t joined_None [OF ok, of t] show ?thesis
    by (simp add: joined_row_def adopted_tables adopt_keys split: option.splits)
next
  case (Some sp)
  with tables_both [OF ok, of t] obtain s where "db_tier_stats d t = Some s" by auto
  with Some t show ?thesis
    by (simp add: joined_row_def adopted_tables adopt_keys split: prod.splits)
qed

text \<open>A writer's open that adopts the current names changes no value any reader sees, neither a
  setting nor a tier row, and leaves no row under a legacy name.\<close>

theorem adopting_names_changes_no_value:
  assumes ok: "tier_tables_ok d"
  shows "(\<forall>k. current_key k \<longrightarrow> k \<noteq> TIER_GENERATION \<longrightarrow>
            get_meta k (adopt_current_names d) = get_meta k d) \<and>
         snd (tiers (adopt_current_names d)) = snd (tiers d) \<and>
         (\<forall>old \<in> {''archive'', ''archive_through''}. db_meta (adopt_current_names d) old = None) \<and>
         (\<forall>old \<in> {''local'', ''archive''}. joined_row (adopt_current_names d) old = None)"
proof (intro conjI)
  show "\<forall>k. current_key k \<longrightarrow> k \<noteq> TIER_GENERATION \<longrightarrow>
            get_meta k (adopt_current_names d) = get_meta k d"
  proof (intro allI impI)
    fix k assume k: "current_key k" "k \<noteq> TIER_GENERATION"
    have "meta_value k (db_meta (adopt_current_names d)) = meta_value k (adopt_meta (db_meta d))"
      by (rule meta_value_agree)
        (use k in \<open>auto simp: adopted_meta LEGACY_META_if TIER_GENERATION_def split: if_splits\<close>)
    with k show "get_meta k (adopt_current_names d) = get_meta k d"
      by (simp add: get_meta_def adopt_meta_value)
  qed
  show "snd (tiers (adopt_current_names d)) = snd (tiers d)"
  proof (rule ext)
    fix t
    show "snd (tiers (adopt_current_names d)) t = snd (tiers d) t"
    proof (cases "t = ''local'' \<or> t = ''archive''")
      case True
      then have "CURRENT_TIER t \<noteq> None" by (simp only: CURRENT_TIER_iff)
      then show ?thesis by (simp add: tiers_def)
    next
      case False
      have gone: "joined_row (adopt_current_names d) old = None" if "LEGACY_TIERS t = Some old" for old
        using LEGACY_TIERS_old [OF that] by (elim disjE) (simp_all add: joined_row_def adopted_tables adopt_keys)
      from False have cur: "CURRENT_TIER t = None" using CURRENT_TIER_iff by blast
      have adj: "joined_row (adopt_current_names d) t =
          (case joined_row d t of Some r \<Rightarrow> Some r
           | None \<Rightarrow> (case LEGACY_TIERS t of None \<Rightarrow> None | Some old \<Rightarrow> joined_row d old))"
        using adopted_joined [OF ok] False by blast
      show ?thesis
      proof (cases "LEGACY_TIERS t")
        case None
        show ?thesis by (simp add: tiers_def cur adj None split: option.splits)
      next
        case (Some old)
        show ?thesis by (simp add: tiers_def cur adj Some gone [OF Some] split: option.splits)
      qed
    qed
  qed
  show "\<forall>old \<in> {''archive'', ''archive_through''}. db_meta (adopt_current_names d) old = None"
    by (auto simp: adopted_meta TIER_GENERATION_def adopt_meta_legacy)
  show "\<forall>old \<in> {''local'', ''archive''}. joined_row (adopt_current_names d) old = None"
    by (auto simp: joined_row_def adopted_tables adopt_keys)
qed

subsection \<open>Retirement\<close>

lemma list_min_rows:
  "list_min (map fst rows) = Some l \<Longrightarrow> (i, r) \<in> set rows \<Longrightarrow> l \<le> i"
  by (rule list_min_le) force+

text \<open>What a log goes on storing: the two tables' rows, adopted names, the buffer's row closed or emptied,
  and whatever leaves the buffer's row alone. \<open>update_tier\<close> is only ever called of the published table.\<close>

inductive tier_write :: "'r db \<Rightarrow> 'r db \<Rightarrow> bool" where
  write_update: "tier \<in> {''staging'', ''published''} \<Longrightarrow> update_tier tier change d = Some d' \<Longrightarrow> tier_write d d'"
| write_staging: "store_staging_statistics version sp stats d = (wrote, d') \<Longrightarrow> tier_write d d'"
| write_adopt: "tier_write d (adopt_current_names d)"
| write_close: "tier_write d (close_buffer stats d)"
| write_empty: "empty_buffer_range stats d = Some d' \<Longrightarrow> tier_write d d'"
| write_other: "db_tier_offsets d' ''buffer'' = db_tier_offsets d ''buffer'' \<Longrightarrow>
    db_tier_stats d' ''buffer'' = db_tier_stats d ''buffer'' \<Longrightarrow> tier_write d d'"

text \<open>The buffer's row is there, starts no lower than \<open>a\<close> and ends at \<open>e\<close>.\<close>

definition closed_at :: "offset \<Rightarrow> offset \<Rightarrow> 'r db \<Rightarrow> bool" where
  "closed_at a e d \<longleftrightarrow> (\<exists>b. db_tier_offsets d ''buffer'' = Some (b, e) \<and> a \<le> b \<and> b \<le> e) \<and> db_tier_stats d ''buffer'' \<noteq> None"

lemma closed_retired: "closed_at a e d \<Longrightarrow> \<exists>r. retired d = Some r \<and> rt_through r = e - 1"
  by (auto simp: closed_at_def retired_def joined_row_def retirement_of_def)

lemma tier_write_closed: "tier_write d d' \<Longrightarrow> closed_at a e d \<Longrightarrow> closed_at a e d'"
proof (induction rule: tier_write.induct)
  case (write_update tier change d d')
  then show ?case
    by (auto simp: update_tier_def Let_def closed_at_def bump_tiers_def remove_tier_def put_tier_def
        drop_legacy_tier_def LEGACY_TIERS_if split: option.splits)
next
  case (write_staging version sp stats d wrote d')
  then show ?case
    by (auto simp: store_staging_statistics_def Let_def closed_at_def bump_tiers_def
        drop_legacy_tier_def LEGACY_TIERS_if split: if_splits)
next
  case (write_adopt d)
  then show ?case by (auto simp: closed_at_def adopted_tables adopt_keys)
next
  case (write_close d stats)
  then show ?case by (auto simp: closed_at_def close_buffer_def)
next
  case (write_empty stats d d')
  then show ?case
    by (auto simp: closed_at_def empty_buffer_range_def write_buffer_row_def put_tier_def bump_tiers_def)
next
  case (write_other d' d)
  then show ?case by (simp add: closed_at_def)
qed

lemma tier_writes_closed: "steps tier_write d d' \<Longrightarrow> closed_at a e d \<Longrightarrow> closed_at a e d'"
  by (induction rule: steps.induct) (auto intro: tier_write_closed)

text \<open>C37. Closing the buffer gives the log its end: the range runs from the lowest buffered row to
  the offset the next append would have taken, so it holds every buffered row; closing again
  changes nothing, and emptying it keeps that end. And whatever is stored afterwards, by any run of the tier
  writes and of operations that leave the buffer's row alone, the log stays closed at that end.\<close>

theorem closing_the_buffer_is_final:
  assumes "db_tier_offsets d ''buffer'' = None" and "db_tier_stats d ''buffer'' = None"
    and "\<forall>(i, r) \<in> set (db_rows d). i < next_offset d"
    and "steps tier_write (close_buffer stats d) later"
  shows "(\<exists>a. db_tier_offsets (close_buffer stats d) ''buffer'' = Some (a, next_offset d) \<and>
       (\<forall>(i, r) \<in> set (db_rows d). in_span a (next_offset d) i) \<and>
       (\<exists>b. db_tier_offsets later ''buffer'' = Some (b, next_offset d) \<and> a \<le> b \<and> b \<le> next_offset d)) \<and>
     close_buffer stats' (close_buffer stats d) = close_buffer stats d \<and>
     retired (close_buffer stats d) = Some (retirement_of (next_offset d) stats (get_meta PUBLISHED_KEY d)) \<and>
     (\<exists>d'. empty_buffer_range stats' (close_buffer stats d) = Some d' \<and>
        db_tier_offsets d' ''buffer'' = Some (next_offset d, next_offset d)) \<and>
     (\<exists>r. retired later = Some r \<and> rt_through r = next_offset d - 1)"
proof -
  define a where "a = (case list_min (map fst (db_rows d)) of None \<Rightarrow> next_offset d | Some l \<Rightarrow> l)"
  have close: "close_buffer stats d = write_buffer_row a (next_offset d) stats d"
    using assms(1) by (simp add: close_buffer_def a_def Let_def)
  have row: "joined_row (write_buffer_row x y s e) ''buffer'' = Some ((x, y), s, None)"
    if "db_tier_stats e ''buffer'' = None" for x y s and e :: "'a db"
    using that by (simp add: write_buffer_row_def joined_row_def put_tier_def bump_tiers_def)
  have "in_span a (next_offset d) i" if i: "(i, r) \<in> set (db_rows d)" for i r
  proof (cases "list_min (map fst (db_rows d))")
    case None
    with i show ?thesis by simp
  next
    case (Some l)
    with i list_min_rows [OF Some i] assms(3) show ?thesis by (auto simp: in_span_def a_def)
  qed
  moreover have "a \<le> next_offset d"
  proof (cases "list_min (map fst (db_rows d))")
    case (Some l)
    then obtain r where "(l, r) \<in> set (db_rows d)" using list_min_in [OF Some] by auto
    with assms(3) Some show ?thesis by (auto simp: a_def)
  qed (simp add: a_def)
  then have "closed_at a (next_offset d) (close_buffer stats d)"
    by (simp add: closed_at_def close write_buffer_row_def put_tier_def bump_tiers_def)
  with assms(4) have later: "closed_at a (next_offset d) later" by (rule tier_writes_closed)
  then obtain b where b: "db_tier_offsets later ''buffer'' = Some (b, next_offset d)" "a \<le> b" "b \<le> next_offset d"
    by (auto simp: closed_at_def)
  moreover have "\<exists>r. retired later = Some r \<and> rt_through r = next_offset d - 1" using later by (rule closed_retired)
  moreover have "db_tier_offsets (close_buffer stats d) ''buffer'' = Some (a, next_offset d)"
    "close_buffer stats' (close_buffer stats d) = close_buffer stats d"
    "\<exists>d'. empty_buffer_range stats' (close_buffer stats d) = Some d' \<and>
       db_tier_offsets d' ''buffer'' = Some (next_offset d, next_offset d)"
    unfolding close by (auto simp: close_buffer_def write_buffer_row_def put_tier_def bump_tiers_def empty_buffer_range_def)
  moreover have pub: "get_meta PUBLISHED_KEY (close_buffer stats d) = get_meta PUBLISHED_KEY d"
    unfolding get_meta_def close
    by (rule meta_value_agree) (auto simp: write_buffer_row_def bump_tiers_def put_tier_def
        PUBLISHED_KEY_def TIER_GENERATION_def LEGACY_META_if split: if_splits)
  moreover have "retired (close_buffer stats d) = Some (retirement_of (next_offset d) stats (get_meta PUBLISHED_KEY d))"
    using row [OF assms(2)] pub unfolding close by (simp add: retired_def)
  ultimately show ?thesis by blast
qed

subsection \<open>Small databases\<close>

definition staging_versions :: "string list" where
  "staging_versions = [''metadata/00001-aa.metadata.json'', ''metadata/00012-bb.metadata.json'']"

theorem newer_staging_rollup_wins_witness:
  "fst (store_staging_statistics ''m/00001-aa.json'' (0, 5) JNull
     (snd (store_staging_statistics ''m/00012-bb.json'' (0, 9) JNull (empty_db :: nat db)))) = False"
  using newer_staging_rollup_wins [of "''m/00001-aa.json''" "''m/00012-bb.json''" "empty_db :: nat db"
      "(0, 9)" JNull "(0, 5)" JNull]
  by (simp add: metadata_sequence_def before_first_def after_last_def all_digits_def is_digit_def
      digits_value_def digit_value_def Let_def tier_row_def joined_row_def empty_db_def LEGACY_TIERS_def)

definition legacy_db :: "nat db" where
  "legacy_db = empty_db\<lparr>db_meta := [''archive'' \<mapsto> ''s3://b/p'', ''archive_through'' \<mapsto> ''41''],
     db_tier_offsets := [''archive'' \<mapsto> (1, 42)], db_tier_stats := [''archive'' \<mapsto> (JNull, None)]\<rparr>"

theorem adopting_names_changes_no_value_witness:
  "get_meta PUBLISHED_KEY (adopt_current_names legacy_db) = Some ''s3://b/p'' \<and>
   snd (tiers (adopt_current_names legacy_db)) ''published'' = Some ((1, 42), JNull, None)"
proof -
  have ok: "tier_tables_ok legacy_db" by (simp add: tier_tables_ok_def legacy_db_def)
  have "get_meta PUBLISHED_KEY legacy_db = Some ''s3://b/p''"
    by (simp add: get_meta_def meta_value_def legacy_db_def empty_db_def PUBLISHED_KEY_def LEGACY_META_def)
  moreover have "snd (tiers legacy_db) ''published'' = Some ((1, 42), JNull, None)"
    by (simp add: tiers_def joined_row_def legacy_db_def empty_db_def LEGACY_TIERS_def CURRENT_TIER_def)
  moreover have "current_key PUBLISHED_KEY" "PUBLISHED_KEY \<noteq> TIER_GENERATION"
    by (simp_all add: current_key_def PUBLISHED_KEY_def TIER_GENERATION_def)
  ultimately show ?thesis using adopting_names_changes_no_value [OF ok] by simp
qed

theorem closing_the_buffer_is_final_witness:
  "\<exists>r. retired (adopt_current_names (close_buffer JNull (empty_db\<lparr>db_rows := [(4, 7 :: nat)], db_seq := Some 6\<rparr>))) = Some r \<and>
     rt_through r = 6"
proof -
  let ?d = "empty_db\<lparr>db_rows := [(4, 7 :: nat)], db_seq := Some 6\<rparr>"
  have "steps tier_write (close_buffer JNull ?d) (adopt_current_names (close_buffer JNull ?d))"
    by (rule steps_step, rule steps_refl, rule write_adopt)
  from closing_the_buffer_is_final [OF _ _ _ this] show ?thesis
    by (simp add: empty_db_def next_offset_def)
qed

end
