(* ===== verification/Tiers.thy ===== *)
theory Tiers
  imports Tier_Rows Manifest "HOL-Library.Char_ord" "HOL-Library.List_Lexorder"
begin

text \<open>
  The published tier row a read consults to skip the published table (\<^verbatim>\<open>src/litelink/_tiers.py\<close>):
  its stored form, the operations that replace, widen and drop it, and the decoded rows a reader
  keeps between queries. A stored text is the JSON value it holds; \<open>decode\<close> is None where the
  source would raise.
\<close>

subsection \<open>The stored form\<close>

text \<open>\<open>json.dumps\<close> of a bound that is not None: the types it prints, None where it raises.\<close>

fun json_of :: "pyval \<Rightarrow> json option" where
  "json_of (PBool b) = Some (JBool b)"
| "json_of (PInt i) = Some (JInt i)"
| "json_of (PFloat f) = Some (JFloat f)"
| "json_of (PStr s) = Some (JStr s)"
| "json_of _ = None"

definition json_count :: "int option \<Rightarrow> json" where
  "json_count n = (case n of None \<Rightarrow> JNull | Some i \<Rightarrow> JInt i)"

definition json_bound :: "pyval option \<Rightarrow> json option" where
  "json_bound v = (case v of None \<Rightarrow> Some JNull | Some x \<Rightarrow> json_of x)"

definition encode_column :: "column_statistics \<Rightarrow> json option" where
  "encode_column c =
     (case (json_bound (cs_min c), json_bound (cs_max c)) of
        (Some lo, Some hi) \<Rightarrow>
          Some (JArr [lo, hi, json_count (cs_null_count c), json_count (cs_value_count c),
                      json_count (cs_nan_count c)])
      | _ \<Rightarrow> None)"

text \<open>\<open>sort_keys\<close> orders both objects by key.\<close>

definition encode :: "pa_schema \<Rightarrow> tier_statistics \<Rightarrow> json option" where
  "encode schema st =
     (let kinds = columns [schema];
          cols = filter (\<lambda>(name, _). map_of kinds name \<noteq> None) (ts_columns st)
      in map_option (\<lambda>vs. JObj [(''columns'', JObj (sort_key fst (zip (map fst cols) vs))),
                                (''record_count'', json_count (ts_record_count st))])
           (those (map (encode_column \<circ> snd) cols)))"

fun bound_of :: "json \<Rightarrow> pyval option" where
  "bound_of (JBool b) = Some (PBool b)"
| "bound_of (JInt i) = Some (PInt i)"
| "bound_of (JFloat f) = Some (PFloat f)"
| "bound_of (JStr s) = Some (PStr s)"
| "bound_of _ = None"

fun count_of :: "json \<Rightarrow> int option" where
  "count_of (JInt i) = Some i"
| "count_of _ = None"

fun decode_column :: "json \<Rightarrow> column_statistics option" where
  "decode_column (JArr [lo, hi, nulls, vals, nans]) =
     Some \<lparr>cs_min = bound_of lo, cs_max = bound_of hi, cs_null_count = count_of nulls,
           cs_value_count = count_of vals, cs_nan_count = count_of nans\<rparr>"
| "decode_column _ = None"

definition decode :: "json \<Rightarrow> tier_statistics option" where
  "decode j =
     (case (case json_get ''columns'' j of None \<Rightarrow> Some [] | Some (JObj kvs) \<Rightarrow> Some kvs | _ \<Rightarrow> None) of
        None \<Rightarrow> None
      | Some kvs \<Rightarrow>
          map_option (\<lambda>cs. \<lparr>ts_tier = None,
              ts_record_count = Option.bind (json_get ''record_count'' j) count_of,
              ts_file_count = 0, ts_columns = zip (map fst kvs) cs\<rparr>)
            (those (map (decode_column \<circ> snd) kvs)))"

subsection \<open>Ranges, unions, empty tiers\<close>

definition py_int :: "pyval \<Rightarrow> int" where
  "py_int v = (case v of PInt i \<Rightarrow> i | PBool b \<Rightarrow> (if b then 1 else 0)
     | PFloat (FVal (Fin r)) \<Rightarrow> (if 0 \<le> r then \<lfloor>r\<rfloor> else \<lceil>r\<rceil>) | _ \<Rightarrow> 0)"

definition offsets_of :: "tier_statistics \<Rightarrow> offset \<times> offset" where
  "offsets_of st =
     (case map_of (ts_columns st) OFFSET of
        None \<Rightarrow> (0, 0)
      | Some c \<Rightarrow> (case (cs_min c, cs_max c) of
                    (Some lo, Some hi) \<Rightarrow> (py_int lo, py_int hi + 1)
                  | _ \<Rightarrow> (0, 0)))"

definition union_tier :: "pa_schema \<Rightarrow> tier_statistics \<Rightarrow> tier_statistics \<Rightarrow> tier_statistics" where
  "union_tier schema kept added = merge_parts (map fst (columns [schema])) [kept, added]"

definition UNKNOWN :: tier_statistics where
  "UNKNOWN = \<lparr>ts_tier = None, ts_record_count = None, ts_file_count = 0, ts_columns = []\<rparr>"

definition empty_tier :: "pa_schema \<Rightarrow> tier_statistics" where
  "empty_tier schema =
     \<lparr>ts_tier = None, ts_record_count = Some 0, ts_file_count = 0,
      ts_columns = map (\<lambda>(name, kind). (name,
        \<lparr>cs_min = None, cs_max = None, cs_null_count = Some 0, cs_value_count = Some 0,
         cs_nan_count = (if pa_floating kind then Some 0 else None)\<rparr>)) (columns [schema])\<rparr>"

definition tier_entry ::
  "string \<Rightarrow> int \<times> int option \<Rightarrow> pa_schema \<Rightarrow> tier_statistics \<Rightarrow> entry" where
  "tier_entry tier sp schema st =
     \<lparr>en_name = tier, en_start = fst sp, en_end = snd sp, en_schema = schema, en_statistics = st\<rparr>"

subsection \<open>The published row\<close>

definition PUBLISHED :: string where "PUBLISHED = ''published''"

text \<open>A \<open>TypeError\<close> of \<open>encode\<close> is raised before the transaction: None, and nothing changes.\<close>

definition replace_published :: "pa_schema \<Rightarrow> tier_statistics \<Rightarrow> 'r db \<Rightarrow> 'r db option" where
  "replace_published schema st d =
     (case encode schema st of
        None \<Rightarrow> None
      | Some j \<Rightarrow> update_tier PUBLISHED (\<lambda>_ _. Some (Some (offsets_of st, j))) d)"

definition joined_span :: "offset \<times> offset \<Rightarrow> offset \<times> offset \<Rightarrow> offset \<times> offset" where
  "joined_span current added =
     (if snd added \<le> fst added then current
      else if snd current \<le> fst current then added
      else (min (fst current) (fst added), max (snd current) (snd added)))"

definition widen_change ::
  "pa_schema \<Rightarrow> tier_statistics \<Rightarrow> (offset \<times> offset) option \<Rightarrow> json option
     \<Rightarrow> ((offset \<times> offset) \<times> json) option option" where
  "widen_change schema st current raw =
     (case (current, raw) of
        (Some cur, Some j) \<Rightarrow>
          (case decode j of
             None \<Rightarrow> None
           | Some kept \<Rightarrow>
               (case encode schema (union_tier schema kept st) of
                  None \<Rightarrow> None
                | Some j' \<Rightarrow> Some (Some (joined_span cur (offsets_of st), j'))))
      | _ \<Rightarrow> Some None)"

definition widen_published :: "pa_schema \<Rightarrow> tier_statistics \<Rightarrow> 'r db \<Rightarrow> 'r db option" where
  "widen_published schema st d = update_tier PUBLISHED (widen_change schema st) d"

definition drop_published :: "'r db \<Rightarrow> 'r db option" where
  "drop_published d = update_tier PUBLISHED (\<lambda>_ _. Some None) d"

subsection \<open>What a reader keeps\<close>

record stored =
  so_offsets :: "offset \<times> offset"
  so_statistics :: tier_statistics
  so_version :: "string option"

type_synonym tier_cache = "(string \<times> (string \<rightharpoonup> stored)) option"

text \<open>Every row decoded; a row that does not decode raises in the source, and is None here.\<close>

definition decode_tiers :: "(string \<rightharpoonup> tier_row) \<Rightarrow> (string \<rightharpoonup> stored)" where
  "decode_tiers raw = (\<lambda>tier. case raw tier of
     None \<Rightarrow> None
   | Some (sp, j, v) \<Rightarrow> map_option (\<lambda>st. \<lparr>so_offsets = sp, so_statistics = st, so_version = v\<rparr>) (decode j))"

definition load_tiers :: "tier_cache \<Rightarrow> 'r db \<Rightarrow> (string \<rightharpoonup> stored) \<times> tier_cache" where
  "load_tiers cache d =
     (case tiers d of (generation, raw) \<Rightarrow>
        if (case (cache, generation) of (Some (g, _), Some g') \<Rightarrow> g = g' | _ \<Rightarrow> False)
        then (snd (the cache), cache)
        else let decoded = decode_tiers raw
             in (decoded, case generation of None \<Rightarrow> cache | Some g \<Rightarrow> Some (g, decoded)))"

definition load_published :: "tier_cache \<Rightarrow> 'r db \<Rightarrow> stored option" where
  "load_published cache d = fst (load_tiers cache d) PUBLISHED"

subsection \<open>What is stored reads back\<close>

lemma bound_of_json: "json_of v = Some j \<Longrightarrow> bound_of j = Some v"
  by (cases v rule: json_of.cases) auto

lemma bound_of_json_bound: "json_bound v = Some j \<Longrightarrow> bound_of j = v"
  by (auto simp: json_bound_def bound_of_json split: option.splits)

lemma count_of_json [simp]: "count_of (json_count n) = n"
  by (simp add: json_count_def split: option.splits)

lemma decode_encode_column: "encode_column c = Some j \<Longrightarrow> decode_column j = Some c"
  by (auto simp: encode_column_def bound_of_json_bound split: option.splits)

lemma those_map_Some:
  "those (map f xs) = Some ys \<Longrightarrow> list_all2 (\<lambda>x y. f x = Some y) xs ys"
proof (induction xs arbitrary: ys)
  case (Cons x xs)
  then show ?case by (auto split: option.splits)
qed simp

lemma those_map_exact: "list_all2 (\<lambda>x y. f x = Some y) xs ys \<Longrightarrow> those (map f xs) = Some ys"
  by (induction rule: list_all2_induct) auto

lemma insort_key_map: "insort_key f (g x) (map g xs) = map g (insort_key (f \<circ> g) x xs)"
  by (induction xs) auto

lemma sort_key_map_list: "sort_key f (map g xs) = map g (sort_key (f \<circ> g) xs)"
  by (induction xs) (simp_all add: insort_key_map comp_def)

lemma encoded_columns:
  assumes "those (map (encode_column \<circ> snd) cols) = Some vs"
  shows "zip (map fst cols) vs = map (\<lambda>(n, c). (n, the (encode_column c))) cols \<and>
         (\<forall>(n, c) \<in> set cols. encode_column c = Some (the (encode_column c)))"
proof -
  from those_map_Some [OF assms] show ?thesis
  proof (induction cols vs rule: list_all2_induct)
    case (Cons x xs y ys)
    then show ?case by (cases x) auto
  qed simp
qed

lemma decode_object:
  assumes "json_get ''columns'' j = Some (JObj (map (\<lambda>(n, c). (n, the (encode_column c))) cols))"
    and "\<forall>(n, c) \<in> set cols. encode_column c = Some (the (encode_column c))"
    and "json_get ''record_count'' j = Some (json_count rc)"
  shows "decode j = Some \<lparr>ts_tier = None, ts_record_count = rc, ts_file_count = 0, ts_columns = cols\<rparr>"
proof -
  have "those (map (decode_column \<circ> snd) (map (\<lambda>(n, c). (n, the (encode_column c))) cols))
      = Some (map snd cols)"
    unfolding map_map using assms(2)
    by (intro those_map_exact) (auto simp: list_all2_conv_all_nth all_set_conv_all_nth split_beta
        intro!: decode_encode_column)
  moreover have "fst \<circ> (\<lambda>(n :: string, c). (n, the (encode_column c))) = fst" by auto
  moreover have "zip (map fst cols) (map snd cols) = cols" by (rule zip_map_fst_snd)
  ultimately show ?thesis by (simp add: decode_def assms(1,3))
qed

lemma decode_encode:
  assumes "encode schema st = Some j"
  shows "decode j = Some \<lparr>ts_tier = None, ts_record_count = ts_record_count st, ts_file_count = 0,
    ts_columns = sort_key fst (filter (\<lambda>(name, _). map_of (columns [schema]) name \<noteq> None) (ts_columns st))\<rparr>"
proof -
  define cols where "cols = filter (\<lambda>(name, _). map_of (columns [schema]) name \<noteq> None) (ts_columns st)"
  let ?g = "\<lambda>(n :: string, c). (n, the (encode_column c))"
  from assms obtain vs where vs: "those (map (encode_column \<circ> snd) cols) = Some vs"
    and j: "j = JObj [(''columns'', JObj (sort_key fst (zip (map fst cols) vs))),
                      (''record_count'', json_count (ts_record_count st))]"
    by (auto simp: encode_def cols_def Let_def)
  note e = encoded_columns [OF vs]
  have "fst \<circ> ?g = fst" by auto
  then have "sort_key fst (zip (map fst cols) vs) = map ?g (sort_key fst cols)"
    using e by (simp add: sort_key_map_list)
  then have "json_get ''columns'' j = Some (JObj (map ?g (sort_key fst cols)))" by (simp add: j)
  moreover have "\<forall>(n, c) \<in> set (sort_key fst cols). encode_column c = Some (the (encode_column c))"
    using e by simp
  ultimately show ?thesis
    unfolding cols_def [symmetric] by (rule decode_object) (simp add: j)
qed

text \<open>A stored tier row decodes to exactly the statistics that were stored, restricted to the
  prunable columns: every bound with its own type, every count, and what was unknown still
  unknown.\<close>

theorem tier_row_roundtrip:
  assumes "encode schema st = Some j"
  shows "\<exists>st'. decode j = Some st' \<and> ts_record_count st' = ts_record_count st \<and>
    set (ts_columns st') = {(name, c) \<in> set (ts_columns st). map_of (columns [schema]) name \<noteq> None}"
  using decode_encode [OF assms] by auto

subsection \<open>A reader's copy is never stale\<close>

lemma load_tiers_fresh:
  "load_tiers cache d = (decoded, cache') \<Longrightarrow>
     (\<And>g c. cache = Some (g, c) \<Longrightarrow> db_meta d TIER_GENERATION = Some g \<Longrightarrow> c = decode_tiers (snd (tiers d))) \<Longrightarrow>
     decoded = decode_tiers (snd (tiers d))"
  by (auto simp: load_tiers_def tiers_def Let_def split: option.splits if_splits)

lemma load_tiers_caches:
  assumes "load_tiers cache d = (decoded, cache')" and "cache' = Some (g, c)" and "cache' \<noteq> cache"
  shows "db_meta d TIER_GENERATION = Some g \<and> c = decode_tiers (snd (tiers d))"
  using assms by (auto simp: load_tiers_def tiers_def Let_def split: option.splits if_splits)

text \<open>C38. The rows a reader keeps between queries are never stale: after any sequence of tier writes by
  any process, and of anything else, loading returns what the tables then hold, because every
  change to a tier moves the generation to a value it never had before.\<close>

theorem stored_tiers_never_stale:
  assumes "load_tiers None d = (decoded, cache)" and "steps tier_step d d'"
  shows "fst (load_tiers cache d') = decode_tiers (snd (tiers d'))"
proof -
  obtain decoded' cache' where l: "load_tiers cache d' = (decoded', cache')" by fastforce
  have "c = decode_tiers (snd (tiers d'))"
    if c: "cache = Some (g, c)" and g: "db_meta d' TIER_GENERATION = Some g" for g c
  proof -
    from load_tiers_caches [OF assms(1) c] c
    have "db_meta d TIER_GENERATION = Some g" "c = decode_tiers (snd (tiers d))" by auto
    with same_generation [OF assms(2)] g show ?thesis by simp
  qed
  from load_tiers_fresh [OF l this] l show ?thesis by simp
qed

subsection \<open>Widening keeps the row true\<close>

lemma add_column_distinct:
  "distinct (map fst found) \<Longrightarrow> distinct (map fst (add_column fld found))"
  by (cases fld) (auto simp: add_column_def map_of_eq_None_iff)

lemma columns_distinct: "distinct (map fst (columns schemas))"
proof -
  have "distinct (map fst found) \<Longrightarrow> distinct (map fst (fold add_column flds found))" for flds found
    by (induction flds arbitrary: found) (auto intro: add_column_distinct)
  then show ?thesis by (simp add: columns_def)
qed

lemma distinct_sort_fst: "distinct (map fst xs) \<Longrightarrow> distinct (map fst (sort_key fst xs))"
  by (simp add: distinct_map)

lemma map_of_sort_fst:
  assumes "distinct (map fst xs)"
  shows "map_of (sort_key fst xs) = map_of xs"
  using assms distinct_sort_fst [OF assms] by (subst map_of_inject_set) auto

text \<open>A tier that describes rows: every column it has, and its record count.\<close>

definition tier_true :: "tier_statistics \<Rightarrow> row list \<Rightarrow> bool" where
  "tier_true st rows \<longleftrightarrow> (\<forall>name. tier_describes name st rows)"

definition spans_rows :: "offset \<times> offset \<Rightarrow> row list \<Rightarrow> bool" where
  "spans_rows sp rows \<longleftrightarrow> (\<forall>r \<in> set rows. in_span (fst sp) (snd sp) (row_offset r))"

lemma union_true:
  assumes "tier_true a xs" and "tier_true b ys"
  shows "tier_true (union_tier schema a b) (xs @ ys)"
  using merge_describes [of name "[a, b]" "[xs, ys]" for name] assms
  by (simp add: tier_true_def union_tier_def)

lemma union_columns: "map fst (ts_columns (union_tier schema a b)) = map fst (columns [schema])"
  by (simp add: union_tier_def merge_parts_def comp_def)

lemma stored_true:
  assumes j: "encode schema st = Some j" and d: "distinct (map fst (ts_columns st))"
    and st: "tier_true st rows"
  shows "\<exists>st'. decode j = Some st' \<and> tier_true st' rows"
proof -
  let ?cols = "filter (\<lambda>(name, _). map_of (columns [schema]) name \<noteq> None) (ts_columns st)"
  have "distinct (map fst ?cols)" using d by (rule distinct_map_filter)
  then have sorted: "map_of (sort_key fst ?cols) = map_of ?cols" by (rule map_of_sort_fst)
  have "describes c (map (\<lambda>r. r name) rows)" if "map_of (sort_key fst ?cols) name = Some c" for name c
    using that st unfolding sorted map_of_filter_fst
    by (auto simp: tier_true_def tier_describes_def split: if_splits)
  with st decode_encode [OF j] show ?thesis
    by (auto simp: tier_true_def tier_describes_def)
qed

lemma joined_span_spans:
  "spans_rows cur xs \<Longrightarrow> spans_rows added ys \<Longrightarrow> spans_rows (joined_span cur added) (xs @ ys)"
  by (fastforce simp: spans_rows_def joined_span_def in_span_def)

lemma PUBLISHED_legacy: "LEGACY_TIERS PUBLISHED = Some ''archive''"
  by (simp add: LEGACY_TIERS_def PUBLISHED_def)

lemma PUBLISHED_other: "PUBLISHED \<noteq> ''archive''" "''archive'' \<noteq> PUBLISHED"
  by (simp_all add: PUBLISHED_def)

lemma update_published:
  assumes "update_tier PUBLISHED change d = Some d'"
  obtains updated where
    "change (map_option fst (tier_row d PUBLISHED)) (map_option (fst \<circ> snd) (tier_row d PUBLISHED)) = Some updated"
    and "map_option (\<lambda>(sp, j, _). (sp, j)) (tier_row d' PUBLISHED) = updated"
proof -
  from assms obtain updated where u:
    "change (map_option fst (tier_row d PUBLISHED)) (map_option (fst \<circ> snd) (tier_row d PUBLISHED)) = Some updated"
    and d': "d' = bump_tiers (case updated of None \<Rightarrow> remove_tier PUBLISHED (drop_legacy_tier PUBLISHED d)
              | Some (sp, stats) \<Rightarrow> put_tier PUBLISHED sp stats (drop_legacy_tier PUBLISHED d))"
    by (auto simp: update_tier_def Let_def split: option.splits)
  have "map_option (\<lambda>(sp, j, _). (sp, j)) (tier_row d' PUBLISHED) = updated"
  proof (cases updated)
    case None
    then show ?thesis
      by (simp add: d' tier_row_def joined_row_bump)
        (simp add: joined_row_def PUBLISHED_legacy PUBLISHED_other remove_tier_def drop_legacy_tier_def)
  next
    case (Some a)
    obtain x y j where a: "a = ((x, y), j)" by (metis prod.collapse)
    show ?thesis
      by (simp add: d' Some a tier_row_def joined_row_bump)
        (simp add: joined_row_def PUBLISHED_legacy PUBLISHED_other put_tier_def drop_legacy_tier_def
          split: option.splits)
  qed
  with u show ?thesis by (rule that)
qed

lemma widen_keeps_true:
  assumes w: "widen_published schema st d = Some d'" and added: "tier_true st A" "spans_rows (offsets_of st) A"
    and row: "tier_row d PUBLISHED = Some (sp, j, v)"
    and kept: "decode j = Some kept" "tier_true kept L" "spans_rows sp L"
  shows "\<exists>sp' j' v' st'. tier_row d' PUBLISHED = Some (sp', j', v') \<and> decode j' = Some st' \<and>
    tier_true st' (L @ A) \<and> spans_rows sp' (L @ A)"
proof -
  obtain j' where j': "encode schema (union_tier schema kept st) = Some j'"
    and row': "map_option (\<lambda>(sp, j, _). (sp, j)) (tier_row d' PUBLISHED)
                 = Some (joined_span sp (offsets_of st), j')"
    by (rule update_published [OF w [unfolded widen_published_def]])
      (auto simp: row widen_change_def kept(1) split: option.splits)
  have "distinct (map fst (ts_columns (union_tier schema kept st)))"
    unfolding union_columns by (rule columns_distinct)
  from stored_true [OF j' this union_true [OF kept(2) added(1)]] obtain st'
    where st': "decode j' = Some st'" "tier_true st' (L @ A)" by blast
  from row' obtain v' where "tier_row d' PUBLISHED = Some (joined_span sp (offsets_of st), j', v')" by auto
  with st' joined_span_spans [OF kept(3) added(2)] show ?thesis by blast
qed

lemma widen_missing:
  assumes "widen_published schema st d = Some d'" and "tier_row d PUBLISHED = None"
  shows "tier_row d' PUBLISHED = None"
  by (rule update_published [OF assms(1) [unfolded widen_published_def]]) (simp add: assms(2) widen_change_def)

text \<open>C39. Before eviction moves rows \<open>A\<close> below the staging table it widens the published row. If the
  stored row was true of the rows \<open>L\<close> already there, the widened row is true of all of them: its
  range covers every offset and its statistics describe every row. A missing row stays missing, so
  it is never a row that knows only the new ones.\<close>

theorem widening_never_loses_rows:
  assumes w: "widen_published schema st d = Some d'"
    and added: "tier_true st A" "spans_rows (offsets_of st) A"
  shows "(case tier_row d PUBLISHED of
            None \<Rightarrow> tier_row d' PUBLISHED = None
          | Some (sp, j, _) \<Rightarrow>
              (\<forall>kept. decode j = Some kept \<longrightarrow> tier_true kept L \<longrightarrow> spans_rows sp L \<longrightarrow>
                (\<exists>sp' j' v' st'. tier_row d' PUBLISHED = Some (sp', j', v') \<and> decode j' = Some st' \<and>
                   tier_true st' (L @ A) \<and> spans_rows sp' (L @ A))))"
proof (cases "tier_row d PUBLISHED")
  case None
  with widen_missing [OF w] show ?thesis by simp
next
  case (Some a)
  then obtain sp j v where row: "tier_row d PUBLISHED = Some (sp, j, v)" by (cases a) auto
  from widen_keeps_true [OF w added this] row show ?thesis by (auto simp: spans_rows_def)
qed

lemma prune_one:
  assumes "row_of m name = row_of m' name" and "mf_kinds m = mf_kinds m'"
  shows "prune (Some m) [name] terms = prune (Some m') [name] terms"
  by (simp add: prune_def assms cong: option.case_cong)

text \<open>With the entry of a true row in the manifest, pruning keeps the published table while it holds a row the
  terms select.\<close>

lemma published_entry_kept:
  assumes "tier_true st rows" and "spans_rows sp rows"
    and "\<forall>r \<in> set rows. \<exists>i. r OFFSET = PInt i" and "\<forall>r \<in> set rows. \<forall>name. \<not> is_nan (r name)"
    and "r \<in> set rows" and "\<And>t. t \<in> set terms \<Longrightarrow> selects duck t r"
    and "\<forall>e \<in> set others. en_name e \<noteq> PUBLISHED"
  shows "PUBLISHED \<in> set (prune (Some (build (tier_entry PUBLISHED (fst sp, Some (snd sp)) schema st # others)))
           [PUBLISHED] terms)"
proof -
  let ?e = "tier_entry PUBLISHED (fst sp, Some (snd sp)) schema st"
  let ?m = "build (?e # others)"
  have "entry_true ?e rows"
    using assms(1-4)
    by (fastforce simp: entry_true_def tier_entry_def tier_true_def spans_rows_def in_span_def row_offset_def)
  then have true: "row_true (mf_kinds ?m) (build_row (mf_kinds ?m) ?e) rows"
    by (rule build_row_true)
  have "manifest_true (?m\<lparr>mf_rows := [build_row (mf_kinds ?m) ?e]\<rparr>) (\<lambda>_. rows)"
    using true by (simp add: manifest_true_def)
  from prune_sound [OF this, of PUBLISHED "[PUBLISHED]" r terms duck] assms(5,6)
  have "PUBLISHED \<in> set (prune (Some (?m\<lparr>mf_rows := [build_row (mf_kinds ?m) ?e]\<rparr>)) [PUBLISHED] terms)"
    by simp
  moreover have "row_of (?m\<lparr>mf_rows := [build_row (mf_kinds ?m) ?e]\<rparr>) PUBLISHED = row_of ?m PUBLISHED"
  proof -
    have none: "find (\<lambda>r. mr_unit r = PUBLISHED) (rev (map (build_row k) others)) = None" for k
      using assms(7) by (auto simp: find_None_iff build_row_def)
    have app: "find P (xs @ ys) = (case find P xs of None \<Rightarrow> find P ys | Some x \<Rightarrow> Some x)"
      for P and xs ys :: "manifest_row list"
      by (induction xs) auto
    show ?thesis by (simp add: row_of_def build_def Let_def app none)
  qed
  ultimately show ?thesis using prune_one [of "?m\<lparr>mf_rows := [build_row (mf_kinds ?m) ?e]\<rparr>" PUBLISHED ?m]
    by simp
qed

subsection \<open>Small tiers\<close>

definition x_schema :: pa_schema where
  "x_schema = [(''x'', True, Pa_int 64)]"

definition x_tier :: "row list \<Rightarrow> tier_statistics" where
  "x_tier rows = from_rows [(''x'', LongType), (OFFSET, LongType)] rows"

lemma x_columns: "columns [x_schema] = [(''x'', Pa_int 64)]"
  by (simp add: columns_def x_schema_def add_column_def PRUNABLE_def OFFSET_def)

lemma x_tier_true: "tier_true (x_tier (map offset_row is)) (map offset_row is)"
  unfolding tier_true_def x_tier_def
  by (auto intro!: from_rows_describes simp: offset_row_def column_value_def is_nan_def)

theorem tier_row_roundtrip_witness:
  "\<exists>j st'. encode x_schema (x_tier [offset_row 3]) = Some j \<and> decode j = Some st' \<and>
     ts_record_count st' = Some 1"
proof -
  have "encode x_schema (x_tier [offset_row 3]) \<noteq> None"
    by (simp add: encode_def x_columns x_tier_def from_rows_def column_from_rows_def encode_column_def
        json_bound_def extreme_def non_null_def offset_row_def bounded_type_def OFFSET_def)
  then obtain j where "encode x_schema (x_tier [offset_row 3]) = Some j" by auto
  with tier_row_roundtrip [OF this] show ?thesis by (auto simp: x_tier_def from_rows_def)
qed

theorem stored_tiers_never_stale_witness:
  "fst (load_tiers (snd (load_tiers None (bump_tiers (empty_db :: nat db))))
     (close_buffer JNull (bump_tiers (empty_db :: nat db))))
     = decode_tiers (snd (tiers (close_buffer JNull (bump_tiers (empty_db :: nat db)))))"
proof -
  have s: "steps tier_step (bump_tiers (empty_db :: nat db)) (close_buffer JNull (bump_tiers empty_db))"
    by (rule steps_step, rule steps_refl, rule step_close)
  show ?thesis
    by (rule stored_tiers_never_stale [OF surjective_pairing s])
qed

definition published_db :: "nat db" where
  "published_db = empty_db\<lparr>db_tier_offsets := [''published'' \<mapsto> (0, 1)],
     db_tier_stats := [''published'' \<mapsto> (the (encode x_schema (x_tier [offset_row 0])), None)]\<rparr>"

lemma x_encode: "encode x_schema (x_tier [offset_row i]) = Some (JObj [(''columns'', JObj [(''x'',
    JArr [JInt i, JInt i, JInt 0, JInt 1, JNull])]), (''record_count'', JInt 1)])"
  by (simp add: encode_def x_columns x_tier_def from_rows_def column_from_rows_def encode_column_def
      json_bound_def extreme_def non_null_def offset_row_def bounded_type_def OFFSET_def json_count_def
      floating_type_def)

lemma x_widened: "widen_published x_schema (x_tier [offset_row 1]) published_db \<noteq> None"
  by (simp add: widen_published_def update_tier_def published_db_def empty_db_def x_encode tier_row_def
      joined_row_def PUBLISHED_def widen_change_def decode_def)
    (simp add: encode_def union_tier_def merge_parts_def merge_result_def merge_step_def merge_start_def
      x_columns x_tier_def from_rows_def encode_column_def column_from_rows_def json_bound_def
      widen_low_def widen_high_def extreme_def non_null_def offset_row_def bounded_type_def py_min_def
      py_max_def py_lt_def less_ext_def OFFSET_def json_count_def)

theorem widening_never_loses_rows_witness:
  "\<exists>d' sp' j' v' st'. widen_published x_schema (x_tier [offset_row 1]) published_db = Some d' \<and>
     tier_row d' PUBLISHED = Some (sp', j', v') \<and> decode j' = Some st' \<and>
     tier_true st' [offset_row 0, offset_row 1]"
proof -
  from x_widened obtain d' where d': "widen_published x_schema (x_tier [offset_row 1]) published_db = Some d'"
    by auto
  have t: "tier_true (x_tier [offset_row i]) [offset_row i]" for i
    using x_tier_true [of "[i]"] by simp
  have row: "tier_row published_db PUBLISHED = Some ((0, 1), the (encode x_schema (x_tier [offset_row 0])), None)"
    by (simp add: published_db_def empty_db_def tier_row_def joined_row_def PUBLISHED_def)
  have "distinct (map fst (ts_columns (x_tier [offset_row 0])))"
    by (simp add: x_tier_def from_rows_def OFFSET_def)
  from stored_true [OF x_encode this t] obtain kept where
    kept: "decode (the (encode x_schema (x_tier [offset_row 0]))) = Some kept" "tier_true kept [offset_row 0]"
    by (auto simp: x_encode)
  have "spans_rows (offsets_of (x_tier [offset_row 1])) [offset_row 1]"
    by (simp add: spans_rows_def offsets_of_def x_tier_def from_rows_def column_from_rows_def OFFSET_def
        extreme_def non_null_def offset_row_def bounded_type_def row_offset_def in_span_def py_int_def)
  from widening_never_loses_rows [OF d' t this, of "[offset_row 0]"] kept
  show ?thesis
    using d' by (simp add: row spans_rows_def offset_row_def row_offset_def in_span_def) blast
qed

end
