(* ===== verification/Seal_Queue.thy ===== *)
theory Seal_Queue
  imports Tier_Rows "HOL-Library.Multiset"
begin

text \<open>
  Appending rows and the queue of groups waiting for a file (\<^verbatim>\<open>src/litelink/_buffer.py\<close>:
  \<open>append\<close>, \<open>_insert\<close>, \<open>_cut\<close>, \<open>_seed_group\<close>, \<open>close_open_group\<close>, \<open>claim_seal\<close>, \<open>finish_seal\<close>;
  \<^verbatim>\<open>src/litelink/_sqlite.py\<close>: \<open>next\<close>, \<open>floor\<close>, \<open>seed\<close>, \<open>advance\<close>). An extent without a path is a
  group: open while it has no end, queued once it has one. A row of an append is either refused
  (the error the row's checks raise, and whether they raise it at or after the insert, where the
  trigger of a retired log comes first) or its stored values; \<open>sz\<close> measures those.
\<close>

subsection \<open>Offsets\<close>

definition seq_of :: "'r db \<Rightarrow> offset" where
  "seq_of d = (case db_seq d of None \<Rightarrow> 0 | Some s \<Rightarrow> s)"

definition highest_row :: "'r db \<Rightarrow> offset option" where
  "highest_row d = list_max (map fst (db_rows d))"

definition floor_of :: "'r db \<Rightarrow> offset" where
  "floor_of d = max (seq_of d) (case highest_row d of None \<Rightarrow> 0 | Some h \<Rightarrow> h)"

text \<open>\<open>seed\<close> raises (None) where rows lie above the sequence it would set.\<close>

definition seed :: "offset \<Rightarrow> 'r db \<Rightarrow> 'r db option" where
  "seed first d =
     (if (case highest_row d of None \<Rightarrow> False | Some h \<Rightarrow> first - 1 < h) then None
      else Some (d\<lparr>db_seq := Some (first - 1)\<rparr>))"

definition advance :: "int \<Rightarrow> 'r db \<Rightarrow> ((offset \<times> offset) \<times> 'r db) option" where
  "advance n d =
     (let low = floor_of d; top = low + n in
      case seed (top + 1) d of
        None \<Rightarrow> None
      | Some d' \<Rightarrow> if next_offset d' - 1 \<noteq> top then None else Some ((low + 1, top + 1), d'))"

definition reserve :: "int \<Rightarrow> 'r db \<Rightarrow> ((offset \<times> offset) \<times> 'r db) option" where
  "reserve n d = (if n \<le> 0 then None else advance n d)"

text \<open>SQLite's AUTOINCREMENT: one above the sequence and above every row.\<close>

definition insert_row :: "'r \<Rightarrow> 'r db \<Rightarrow> offset \<times> 'r db" where
  "insert_row r d =
     (let i = floor_of d + 1 in (i, d\<lparr>db_rows := db_rows d @ [(i, r)], db_seq := Some i\<rparr>))"

subsection \<open>The open group\<close>

record group =
  gr_id :: nat
  gr_start :: "offset option"
  gr_bytes :: int

definition open_extent :: "extent \<Rightarrow> bool" where
  "open_extent e \<longleftrightarrow> ex_end e = None \<and> ex_path e = None"

definition queued_extent :: "extent \<Rightarrow> bool" where
  "queued_extent e \<longleftrightarrow> ex_end e \<noteq> None \<and> ex_path e = None"

definition read_group :: "'r db \<Rightarrow> group option" where
  "read_group d =
     map_option (\<lambda>e. \<lparr>gr_id = ex_id e, gr_start = ex_start e, gr_bytes = ex_bytes e\<rparr>)
       (find open_extent (db_extents d))"

definition write_group :: "group \<Rightarrow> offset option \<Rightarrow> 'r db \<Rightarrow> 'r db" where
  "write_group g fin d =
     d\<lparr>db_extents := map (\<lambda>e. if ex_id e = gr_id g
         then e\<lparr>ex_start := gr_start g, ex_bytes := gr_bytes g, ex_end := fin\<rparr> else e) (db_extents d)\<rparr>"

definition insert_extent ::
  "offset option \<Rightarrow> offset option \<Rightarrow> int \<Rightarrow> path option \<Rightarrow> int option \<Rightarrow> 'r db \<Rightarrow> nat \<times> 'r db" where
  "insert_extent a b bytes p named d =
     (let i = Suc (db_extent_seq d) in
      (i, d\<lparr>db_extents := db_extents d @ [\<lparr>ex_id = i, ex_start = a, ex_end = b, ex_bytes = bytes,
                                          ex_path = p, ex_named = named\<rparr>],
            db_extent_seq := i\<rparr>))"

definition cut_group :: "group \<Rightarrow> offset \<Rightarrow> 'r db \<Rightarrow> group \<times> 'r db" where
  "cut_group g i d =
     (case insert_extent None None 0 None None (write_group g (Some (i + 1)) d) of
        (n, d') \<Rightarrow> (\<lparr>gr_id = n, gr_start = None, gr_bytes = 0\<rparr>, d'))"

subsection \<open>Append\<close>

datatype 'e append_error = Retired_error | Row_refused 'e | No_open_group

record seal_limits =
  target_seal_size :: int
  target_seal_rows :: "int option"

definition NO_ROW_LIMIT :: int where
  "NO_ROW_LIMIT = 2 ^ 62"

text \<open>\<open>config.target_seal_rows or _NO_ROW_LIMIT\<close>.\<close>

definition row_limit :: "seal_limits \<Rightarrow> int" where
  "row_limit c = (case target_seal_rows c of None \<Rightarrow> NO_ROW_LIMIT
                  | Some n \<Rightarrow> if n = 0 then NO_ROW_LIMIT else n)"

text \<open>The group once a row at offset \<open>i\<close> is in it, and whether it is to be cut there.\<close>

definition grow :: "('r \<Rightarrow> int) \<Rightarrow> offset \<Rightarrow> 'r \<Rightarrow> group \<Rightarrow> group" where
  "grow sz i r g =
     g\<lparr>gr_start := (case gr_start g of None \<Rightarrow> Some i | Some s \<Rightarrow> Some s),
       gr_bytes := gr_bytes g + sz r\<rparr>"

definition full :: "seal_limits \<Rightarrow> offset \<Rightarrow> group \<Rightarrow> bool" where
  "full c i g \<longleftrightarrow> target_seal_size c \<le> gr_bytes g \<or>
     row_limit c \<le> i - (case gr_start g of None \<Rightarrow> i | Some s \<Rightarrow> if s = 0 then i else s) + 1"

fun append_loop ::
  "seal_limits \<Rightarrow> ('r \<Rightarrow> int) \<Rightarrow> ((bool \<times> 'e) + 'r) list \<Rightarrow> group \<Rightarrow> 'r db
     \<Rightarrow> 'e append_error + (offset list \<times> group \<times> 'r db)" where
  "append_loop c sz [] g d = Inr ([], g, d)"
| "append_loop c sz (Inl (late, e) # rows) g d =
     (if late \<and> db_tier_offsets d ''buffer'' \<noteq> None then Inl Retired_error else Inl (Row_refused e))"
| "append_loop c sz (Inr r # rows) g d =
     (if db_tier_offsets d ''buffer'' \<noteq> None then Inl Retired_error
      else (case insert_row r d of (i, d1) \<Rightarrow>
        let g1 = grow sz i r g;
            (g2, d2) = (if full c i g1 then cut_group g1 i d1 else (g1, d1))
        in (case append_loop c sz rows g2 d2 of
              Inl e \<Rightarrow> Inl e
            | Inr (os, g3, d3) \<Rightarrow> Inr (i # os, g3, d3))))"

text \<open>One transaction: an error leaves the state as it was.\<close>

definition append_rows ::
  "seal_limits \<Rightarrow> ('r \<Rightarrow> int) \<Rightarrow> ((bool \<times> 'e) + 'r) list \<Rightarrow> 'r db \<Rightarrow> ('e append_error + offset list) \<times> 'r db" where
  "append_rows c sz rows d =
     (case read_group d of
        None \<Rightarrow> (Inl No_open_group, d)
      | Some g \<Rightarrow>
          (case append_loop c sz rows g d of
             Inl e \<Rightarrow> (Inl e, d)
           | Inr (os, g', d') \<Rightarrow> (Inr os, write_group g' None d')))"

subsection \<open>The queue\<close>

definition pending_group :: "'r db \<Rightarrow> (offset \<times> offset) option" where
  "pending_group d =
     (case find queued_extent (db_extents d) of
        None \<Rightarrow> None
      | Some e \<Rightarrow> Some (the (ex_start e), the (ex_end e)))"

definition last_queued_end :: "'r db \<Rightarrow> offset option" where
  "last_queued_end d = list_max (map (the \<circ> ex_end) (filter queued_extent (db_extents d)))"

definition open_group_started :: "'r db \<Rightarrow> bool" where
  "open_group_started d =
     (case find open_extent (db_extents d) of None \<Rightarrow> True | Some e \<Rightarrow> ex_start e \<noteq> None)"

text \<open>An open group with a row at or above its start: the predicate of both statements.\<close>

definition closable :: "'r db \<Rightarrow> extent \<Rightarrow> bool" where
  "closable d e \<longleftrightarrow> open_extent e \<and>
     (case ex_start e of None \<Rightarrow> False | Some s \<Rightarrow> \<exists>(i, r) \<in> set (db_rows d). s \<le> i)"

definition close_open_group :: "'r db \<Rightarrow> bool \<times> 'r db" where
  "close_open_group d =
     (if \<not> (\<exists>e \<in> set (db_extents d). closable d e) then (False, d)
      else (let d1 = d\<lparr>db_extents := map (\<lambda>e. if closable d e
                  then e\<lparr>ex_end := map_option (\<lambda>h. h + 1) (highest_row d)\<rparr> else e) (db_extents d)\<rparr>
            in (True, snd (insert_extent None None 0 None None d1))))"

definition claim_seal :: "offset \<Rightarrow> offset \<Rightarrow> path \<Rightarrow> 'r db \<Rightarrow> 'r db" where
  "claim_seal a b p d = d\<lparr>db_sealing := [(a, b, p)]\<rparr>"

definition pending_seal :: "'r db \<Rightarrow> (offset \<times> offset \<times> path) option" where
  "pending_seal d = (case db_sealing d of [] \<Rightarrow> None | x # _ \<Rightarrow> Some x)"

text \<open>\<open>finish_seal\<close>; None is the UNIQUE violation of naming two extents alike, rolled back.\<close>

definition ends_at :: "offset \<Rightarrow> extent \<Rightarrow> bool" where
  "ends_at b e \<longleftrightarrow> ex_end e = Some b \<and> ex_path e = None"

definition finish_seal :: "int \<Rightarrow> offset \<Rightarrow> path \<Rightarrow> 'r db \<Rightarrow> (bool \<times> 'r db) option" where
  "finish_seal now b p d =
     (let kept = filter (\<lambda>(_, _, q). q \<noteq> p) (db_sealing d) in
      if length kept = length (db_sealing d) then Some (False, d\<lparr>db_sealing := kept\<rparr>)
      else let named = filter (ends_at b) (db_extents d) in
           if named \<noteq> [] \<and> (1 < length named \<or> Some p \<in> ex_path ` set (db_extents d)) then None
           else Some (True, d\<lparr>db_sealing := kept,
             db_extents := map (\<lambda>e. if ends_at b e then e\<lparr>ex_path := Some p, ex_named := Some now\<rparr>
                                    else e) (db_extents d)\<rparr>))"

subsection \<open>Seeding, rows, eviction\<close>

definition measure_from :: "('r \<Rightarrow> int) \<Rightarrow> offset \<Rightarrow> 'r db \<Rightarrow> int" where
  "measure_from sz low d = sum_list (map (\<lambda>(i, r). if low \<le> i then sz r else 0) (db_rows d))"

text \<open>\<open>_seed_group\<close>; None where the stored watermark is not a number.\<close>

definition covered_end :: "'r db \<Rightarrow> offset option" where
  "covered_end d =
     (let filed = (case list_max (List.map_filter ex_end (db_extents d)) of None \<Rightarrow> 0 | Some e \<Rightarrow> e) in
      case meta_value PUBLISHED_THROUGH_KEY (db_meta d) of
        None \<Rightarrow> Some (max filed 0)
      | Some v \<Rightarrow> map_option (\<lambda>p. max filed (p + 1)) (text_int v))"

definition seed_group :: "('r \<Rightarrow> int) \<Rightarrow> 'r db \<Rightarrow> 'r db option" where
  "seed_group sz d =
     (if \<exists>e \<in> set (db_extents d). open_extent e then Some d
      else map_option (\<lambda>covered.
             snd (insert_extent (list_min (filter (\<lambda>i. covered \<le> i) (map fst (db_rows d)))) None
                    (measure_from sz covered d) None None d)) (covered_end d))"

definition reseed_group :: "('r \<Rightarrow> int) \<Rightarrow> 'r db \<Rightarrow> 'r db option" where
  "reseed_group sz d =
     seed_group sz (d\<lparr>db_extents := filter (\<lambda>e. \<not> open_extent e) (db_extents d)\<rparr>)"

definition evict_rows :: "offset \<Rightarrow> offset \<Rightarrow> 'r db \<Rightarrow> nat \<times> 'r db" where
  "evict_rows a b d =
     (length (filter (\<lambda>(i, r). in_span a b i) (db_rows d)),
      d\<lparr>db_rows := filter (\<lambda>(i, r). \<not> in_span a b i) (db_rows d)\<rparr>)"

definition rows_between :: "offset \<Rightarrow> offset \<Rightarrow> 'r db \<Rightarrow> (offset \<times> 'r) list" where
  "rows_between a b d = filter (\<lambda>(i, r). a \<le> i \<and> i \<le> b - 1) (db_rows d)"

definition buffer_span :: "'r db \<Rightarrow> (offset \<times> offset) option" where
  "buffer_span d =
     (case (list_min (map fst (db_rows d)), highest_row d) of
        (Some lo, Some hi) \<Rightarrow> Some (lo, hi + 1) | _ \<Rightarrow> None)"

definition count_from :: "offset \<Rightarrow> 'r db \<Rightarrow> nat" where
  "count_from a d = length (filter (\<lambda>(i, r). a \<le> i) (db_rows d))"

subsection \<open>The shape of the queue\<close>

definition unnamed :: "'r db \<Rightarrow> extent list" where
  "unnamed d = filter (\<lambda>e. ex_path e = None) (db_extents d)"

definition ids_ok :: "'r db \<Rightarrow> bool" where
  "ids_ok d \<longleftrightarrow> distinct (map ex_id (db_extents d)) \<and> (\<forall>e \<in> set (db_extents d). ex_id e \<le> db_extent_seq d)"

text \<open>The queued groups, oldest first, and the open one behind them.\<close>

definition queue_shape :: "'r db \<Rightarrow> extent list \<Rightarrow> extent \<Rightarrow> bool" where
  "queue_shape d C e \<longleftrightarrow> ids_ok d \<and> unnamed d = C @ [e] \<and> open_extent e \<and> (\<forall>x \<in> set C. queued_extent x)"

definition group_of :: "extent \<Rightarrow> group" where
  "group_of e = \<lparr>gr_id = ex_id e, gr_start = ex_start e, gr_bytes = ex_bytes e\<rparr>"

definition with_group :: "group \<Rightarrow> offset option \<Rightarrow> extent \<Rightarrow> extent" where
  "with_group g fin e = e\<lparr>ex_start := gr_start g, ex_bytes := gr_bytes g, ex_end := fin\<rparr>"

definition fresh_extent :: "nat \<Rightarrow> extent" where
  "fresh_extent i = \<lparr>ex_id = i, ex_start = None, ex_end = None, ex_bytes = 0, ex_path = None, ex_named = None\<rparr>"

lemma find_filter: "(\<And>x. P x \<Longrightarrow> Q x) \<Longrightarrow> find P (filter Q xs) = find P xs"
  by (induction xs) auto

lemma find_append_None: "\<forall>x \<in> set xs. \<not> P x \<Longrightarrow> find P (xs @ ys) = find P ys"
  by (induction xs) auto

lemma queued_not_open: "queued_extent x \<Longrightarrow> \<not> open_extent x"
  by (simp add: queued_extent_def open_extent_def)

lemma find_open: "queue_shape d C e \<Longrightarrow> find open_extent (db_extents d) = Some e"
proof -
  assume s: "queue_shape d C e"
  have "find open_extent (db_extents d) = find open_extent (unnamed d)"
    unfolding unnamed_def by (rule find_filter [symmetric]) (simp add: open_extent_def)
  also have "\<dots> = Some e"
    using s by (simp add: queue_shape_def find_append_None queued_not_open)
  finally show ?thesis .
qed

lemma read_group_shape: "queue_shape d C e \<Longrightarrow> read_group d = Some (group_of e)"
  by (simp add: read_group_def find_open group_of_def)

lemma shape_in_extents: "queue_shape d C e \<Longrightarrow> x \<in> set (C @ [e]) \<Longrightarrow> x \<in> set (db_extents d)"
  by (metis filter_is_subset queue_shape_def subsetD unnamed_def)

lemma shape_ids:
  assumes "queue_shape d C e" and "x \<in> set (db_extents d)" and "ex_id x = ex_id e"
  shows "x = e"
  using assms shape_in_extents [OF assms(1), of e]
  by (auto simp: queue_shape_def ids_ok_def dest: distinct_map_eqD)

lemma unnamed_map:
  assumes "\<And>x. x \<in> set (db_extents d) \<Longrightarrow> ex_path (f x) = None \<longleftrightarrow> ex_path x = None"
    and "db_extents d' = map f (db_extents d)"
  shows "unnamed d' = map f (unnamed d)"
proof -
  have "filter (\<lambda>e. ex_path (f e) = None) (db_extents d) = filter (\<lambda>e. ex_path e = None) (db_extents d)"
    by (rule filter_cong) (simp_all add: assms(1))
  then show ?thesis by (simp add: unnamed_def assms(2) filter_map comp_def)
qed

lemma write_group_extents:
  assumes "queue_shape d C e" and "gr_id g = ex_id e"
  shows "db_extents (write_group g fin d) = map (\<lambda>x. if x = e then with_group g fin x else x) (db_extents d)"
  using assms shape_ids [OF assms(1)] by (auto simp: write_group_def with_group_def)

lemma unnamed_write_group:
  assumes s: "queue_shape d C e" and g: "gr_id g = ex_id e"
  shows "unnamed (write_group g fin d) = C @ [with_group g fin e]"
proof -
  let ?f = "\<lambda>x. if x = e then with_group g fin x else x"
  have "unnamed (write_group g fin d) = map ?f (unnamed d)"
    by (rule unnamed_map [OF _ write_group_extents [OF s g]]) (simp add: with_group_def)
  moreover have "e \<notin> set C" using s by (auto simp: queue_shape_def queued_not_open)
  then have "map ?f C = C" by (intro map_idI) auto
  ultimately show ?thesis using s by (simp add: queue_shape_def)
qed

lemma ids_ok_write_group: "ids_ok d \<Longrightarrow> ids_ok (write_group g fin d)"
proof -
  have "map ex_id (db_extents (write_group g fin d)) = map ex_id (db_extents d)"
    by (simp add: write_group_def)
  moreover have "db_extent_seq (write_group g fin d) = db_extent_seq d" by (simp add: write_group_def)
  ultimately show "ids_ok d \<Longrightarrow> ids_ok (write_group g fin d)"
    unfolding ids_ok_def by (metis (no_types, lifting) image_iff list.set_map)
qed

lemma shape_write_open:
  assumes s: "queue_shape d C e" and g: "gr_id g = ex_id e"
  shows "queue_shape (write_group g None d) C (with_group g None e)"
  using s unnamed_write_group [OF s g, of None] ids_ok_write_group
  by (auto simp: queue_shape_def with_group_def open_extent_def)

lemma insert_extent_simps:
  "insert_extent a b n p w d = (i, d') \<Longrightarrow> i = Suc (db_extent_seq d) \<and> db_extent_seq d' = i \<and>
     db_extents d' = db_extents d @ [\<lparr>ex_id = i, ex_start = a, ex_end = b, ex_bytes = n, ex_path = p, ex_named = w\<rparr>] \<and>
     db_rows d' = db_rows d \<and> db_seq d' = db_seq d \<and> db_tier_offsets d' = db_tier_offsets d"
  by (auto simp: insert_extent_def Let_def)

lemma ids_ok_insert: "ids_ok d \<Longrightarrow> insert_extent a b n p w d = (i, d') \<Longrightarrow> ids_ok d'"
  by (fastforce simp: ids_ok_def insert_extent_def Let_def)

text \<open>A cut closes the open group at its row and opens the next.\<close>

lemma shape_cut:
  assumes s: "queue_shape d C e" and g: "gr_id g = ex_id e" and c: "cut_group g i d = (g', d')"
  shows "queue_shape d' (C @ [with_group g (Some (i + 1)) e]) (fresh_extent (gr_id g')) \<and>
    gr_start g' = None \<and> gr_bytes g' = 0 \<and>
    db_rows d' = db_rows d \<and> db_seq d' = db_seq d \<and> db_tier_offsets d' = db_tier_offsets d"
proof -
  obtain n d1 where ins: "insert_extent None None 0 None None (write_group g (Some (i + 1)) d) = (n, d1)"
    by fastforce
  with c have eqs: "g' = \<lparr>gr_id = n, gr_start = None, gr_bytes = 0\<rparr>" "d' = d1"
    by (auto simp: cut_group_def)
  note i = insert_extent_simps [OF ins]
  have "unnamed d1 = unnamed (write_group g (Some (i + 1)) d) @ [fresh_extent n]"
    using i by (simp add: unnamed_def fresh_extent_def)
  moreover have "ids_ok d1"
    using ids_ok_insert [OF _ ins] ids_ok_write_group s by (auto simp: queue_shape_def)
  ultimately show ?thesis
    using s unnamed_write_group [OF s g] i
    by (auto simp: queue_shape_def eqs with_group_def queued_extent_def open_extent_def fresh_extent_def
        write_group_def)
qed

subsection \<open>Every row owed to one file\<close>

definition range_of :: "extent \<Rightarrow> offset \<times> offset" where
  "range_of e = (the (ex_start e), the (ex_end e))"

definition owed :: "(offset \<times> offset) list \<Rightarrow> offset option \<Rightarrow> offset \<Rightarrow> bool" where
  "owed R st i \<longleftrightarrow> (\<exists>(a, b) \<in> set R. in_span a b i) \<or> (\<exists>s. st = Some s \<and> s \<le> i)"

text \<open>\<open>R\<close> holds the ranges of the files written and of the queued groups, \<open>st\<close> the start of the open
  group: they are disjoint, within the offsets issued, and hold every buffered row.\<close>

definition queue_good ::
  "(offset \<times> 'r) list \<Rightarrow> offset \<Rightarrow> (offset \<times> offset) list \<Rightarrow> offset option \<Rightarrow> bool" where
  "queue_good rows hi R st \<longleftrightarrow>
     sorted_wrt (<) (map fst rows) \<and> (\<forall>(i, r) \<in> set rows. 0 < i \<and> i \<le> hi) \<and> 0 \<le> hi \<and>
     (\<forall>(a, b) \<in> set R. 0 < a \<and> a < b \<and> b \<le> hi + 1) \<and>
     sorted_wrt (\<lambda>(a, b) (c, d). b \<le> c \<or> d \<le> a) R \<and>
     (\<forall>s. st = Some s \<longrightarrow> 0 < s \<and> s \<le> hi \<and> (\<forall>(a, b) \<in> set R. b \<le> s)) \<and>
     (\<forall>(i, r) \<in> set rows. owed R st i)"

definition started :: "offset \<Rightarrow> offset option \<Rightarrow> offset" where
  "started i st = (case st of None \<Rightarrow> i | Some s \<Rightarrow> s)"

lemma good_append_row:
  assumes g: "queue_good rows hi R st"
  shows "queue_good (rows @ [(hi + 1, r)]) (hi + 1) R (Some (started (hi + 1) st))"
proof -
  have st: "0 < started (hi + 1) st" "started (hi + 1) st \<le> hi + 1"
    "\<And>a b. (a, b) \<in> set R \<Longrightarrow> b \<le> started (hi + 1) st"
    using g by (cases st; force simp: queue_good_def started_def)+
  have "owed R (Some (started (hi + 1) st)) i" if "owed R st i" for i
    using that by (auto simp: owed_def started_def)
  with g st show ?thesis
    unfolding queue_good_def by (fastforce simp: sorted_wrt_append owed_def)
qed

lemma good_cut:
  assumes g: "queue_good rows hi R (Some s)"
  shows "queue_good rows hi (R @ [(s, hi + 1)]) None"
proof -
  have "owed (R @ [(s, hi + 1)]) None i" if "(i, r) \<in> set rows" for i r
    using g that unfolding queue_good_def owed_def in_span_def by fastforce
  with g show ?thesis
    unfolding queue_good_def by (fastforce simp: sorted_wrt_append)
qed

lemma floor_good: "queue_good (db_rows d) (seq_of d) R st \<Longrightarrow> floor_of d = seq_of d"
proof -
  assume g: "queue_good (db_rows d) (seq_of d) R st"
  show "floor_of d = seq_of d"
  proof (cases "highest_row d")
    case None
    with g show ?thesis by (simp add: floor_of_def queue_good_def)
  next
    case (Some h)
    then have "h \<in> set (map fst (db_rows d))" unfolding highest_row_def by (rule list_max_in)
    with g have "h \<le> seq_of d" by (auto simp: queue_good_def)
    with Some show ?thesis by (simp add: floor_of_def)
  qed
qed

lemma insert_row_simps:
  assumes "queue_good (db_rows d) (seq_of d) R st" and "insert_row r d = (i, d')"
  shows "i = seq_of d + 1" "db_rows d' = db_rows d @ [(i, r)]" "seq_of d' = i"
    "db_extents d' = db_extents d" "db_extent_seq d' = db_extent_seq d"
    "db_tier_offsets d' = db_tier_offsets d"
  using assms(2) floor_good [OF assms(1)] by (auto simp: insert_row_def Let_def seq_of_def)

lemma queue_shape_cong:
  "db_extents d' = db_extents d \<Longrightarrow> db_extent_seq d' = db_extent_seq d \<Longrightarrow>
     queue_shape d' C e \<longleftrightarrow> queue_shape d C e"
  by (simp add: queue_shape_def ids_ok_def unnamed_def)

lemma grow_simps [simp]:
  "gr_id (grow sz i r g) = gr_id g" "gr_start (grow sz i r g) = Some (started i (gr_start g))"
  "gr_bytes (grow sz i r g) = gr_bytes g + sz r"
  by (simp_all add: grow_def started_def split: option.splits)

text \<open>The state of an append under way: the queue in the table, the open group in hand.\<close>

definition appending :: "(offset \<times> offset) list \<Rightarrow> extent list \<Rightarrow> group \<Rightarrow> 'r db \<Rightarrow> bool" where
  "appending F C g d \<longleftrightarrow> (\<exists>e. queue_shape d C e \<and> gr_id g = ex_id e) \<and>
     queue_good (db_rows d) (seq_of d) (F @ map range_of C) (gr_start g)"

lemma appending_row:
  assumes a: "appending F C g d" and i: "insert_row r d = (i, d1)"
  shows "appending F C (grow sz i r g) d1 \<and> i = seq_of d + 1 \<and> seq_of d1 = i \<and>
    db_rows d1 = db_rows d @ [(i, r)] \<and> db_tier_offsets d1 = db_tier_offsets d"
proof -
  from a have good: "queue_good (db_rows d) (seq_of d) (F @ map range_of C) (gr_start g)"
    by (simp add: appending_def)
  note s = insert_row_simps [OF good i]
  from a obtain e where "queue_shape d C e" "gr_id g = ex_id e" by (auto simp: appending_def)
  then have "queue_shape d1 C e" by (simp add: queue_shape_cong [OF s(4,5)])
  with \<open>gr_id g = ex_id e\<close> s good_append_row [OF good, of r] show ?thesis
    by (auto simp: appending_def)
qed

lemma appending_cut:
  assumes a: "appending F C g d" and st: "gr_start g = Some s" and c: "cut_group g (seq_of d) d = (g', d')"
  shows "\<exists>x. appending F (C @ [x]) g' d' \<and> range_of x = (s, seq_of d + 1) \<and> ex_bytes x = gr_bytes g \<and>
    queued_extent x \<and> gr_start g' = None \<and> gr_bytes g' = 0 \<and>
    seq_of d' = seq_of d \<and> db_rows d' = db_rows d \<and> db_tier_offsets d' = db_tier_offsets d"
proof -
  from a obtain e where e: "queue_shape d C e" "gr_id g = ex_id e"
    and good: "queue_good (db_rows d) (seq_of d) (F @ map range_of C) (gr_start g)"
    by (auto simp: appending_def)
  let ?x = "with_group g (Some (seq_of d + 1)) e"
  from shape_cut [OF e c] have sh: "queue_shape d' (C @ [?x]) (fresh_extent (gr_id g'))"
    and g': "gr_start g' = None" "gr_bytes g' = 0"
    and same: "db_rows d' = db_rows d" "db_seq d' = db_seq d" "db_tier_offsets d' = db_tier_offsets d"
    by simp_all
  have seq: "seq_of d' = seq_of d" using same by (simp add: seq_of_def)
  have x: "range_of ?x = (s, seq_of d + 1)" "ex_bytes ?x = gr_bytes g"
    using st by (simp_all add: range_of_def with_group_def)
  have "queue_good (db_rows d) (seq_of d) ((F @ map range_of C) @ [(s, seq_of d + 1)]) None"
    by (rule good_cut) (use good st in simp)
  then have "appending F (C @ [?x]) g' d'"
    using sh g' same seq x by (auto simp: appending_def fresh_extent_def)
  moreover have "queued_extent ?x" using sh by (simp add: queue_shape_def)
  ultimately show ?thesis using x g' same seq by blast
qed

definition cut_exactly :: "seal_limits \<Rightarrow> ('r \<Rightarrow> int) \<Rightarrow> (offset \<times> 'r) list \<Rightarrow> extent \<Rightarrow> bool" where
  "cut_exactly c sz rows x \<longleftrightarrow> (\<exists>s i r. range_of x = (s, i + 1) \<and> (i, r) \<in> set rows \<and>
     (target_seal_size c \<le> ex_bytes x \<or> row_limit c \<le> i + 1 - s) \<and>
     ex_bytes x - sz r < target_seal_size c \<and> i - s < row_limit c)"

definition open_small :: "seal_limits \<Rightarrow> offset \<Rightarrow> group \<Rightarrow> bool" where
  "open_small c hi g \<longleftrightarrow> gr_bytes g < target_seal_size c \<and>
     (\<forall>s. gr_start g = Some s \<longrightarrow> hi - s + 1 < row_limit c)"

definition limits_ok :: "seal_limits \<Rightarrow> bool" where
  "limits_ok c \<longleftrightarrow> 0 < target_seal_size c \<and> 0 < row_limit c"

definition row_step ::
  "seal_limits \<Rightarrow> ('r \<Rightarrow> int) \<Rightarrow> 'r \<Rightarrow> group \<Rightarrow> 'r db \<Rightarrow> offset \<times> group \<times> 'r db" where
  "row_step c sz r g d =
     (case insert_row r d of (i, d1) \<Rightarrow>
        (i, if full c i (grow sz i r g) then cut_group (grow sz i r g) i d1 else (grow sz i r g, d1)))"

lemma append_loop_Inr:
  "append_loop c sz (Inr r # rows) g d =
     (if db_tier_offsets d ''buffer'' \<noteq> None then Inl Retired_error
      else (case row_step c sz r g d of (i, g2, d2) \<Rightarrow>
        (case append_loop c sz rows g2 d2 of
           Inl e \<Rightarrow> Inl e
         | Inr (os, g3, d3) \<Rightarrow> Inr (i # os, g3, d3))))"
  by (simp add: row_step_def Let_def split: prod.splits)

lemma row_step_good:
  assumes a: "appending F C g d" and r: "row_step c sz r g d = (i, g2, d2)"
  shows "\<exists>N. appending F (C @ N) g2 d2 \<and> i = seq_of d + 1 \<and> seq_of d2 = i \<and>
    db_rows d2 = db_rows d @ [(i, r)] \<and> db_tier_offsets d2 = db_tier_offsets d \<and>
    (limits_ok c \<longrightarrow> open_small c (seq_of d) g \<longrightarrow>
       open_small c i g2 \<and> (\<forall>x \<in> set N. cut_exactly c sz (db_rows d2) x))"
proof -
  obtain j d1 where ins: "insert_row r d = (j, d1)" by fastforce
  let ?g = "grow sz j r g"
  let ?s = "started j (gr_start g)"
  from appending_row [OF a ins, of sz] have a1: "appending F C ?g d1"
    and j: "j = seq_of d + 1" "seq_of d1 = j" "db_rows d1 = db_rows d @ [(j, r)]"
      "db_tier_offsets d1 = db_tier_offsets d"
    by auto
  from r ins have ij: "i = j" by (auto simp: row_step_def)
  have pos: "0 < ?s" using a1 by (auto simp: appending_def queue_good_def)
  then have full: "full c j ?g \<longleftrightarrow> target_seal_size c \<le> gr_bytes g + sz r \<or> row_limit c \<le> j - ?s + 1"
    by (simp add: full_def)
  show ?thesis
  proof (cases "full c j ?g")
    case False
    with r ins have "g2 = ?g" "d2 = d1" by (auto simp: row_step_def)
    moreover have "open_small c j ?g" using False full by (auto simp: open_small_def)
    ultimately show ?thesis using a1 j ij by (intro exI [of _ "[]"]) simp
  next
    case True
    with r ins have "cut_group ?g (seq_of d1) d1 = (g2, d2)" by (auto simp: row_step_def j)
    from appending_cut [OF a1 _ this, of ?s] obtain x where
      x: "appending F (C @ [x]) g2 d2" "range_of x = (?s, j + 1)" "ex_bytes x = gr_bytes g + sz r"
      and g2: "gr_start g2 = None" "gr_bytes g2 = 0"
      and same: "seq_of d2 = j" "db_rows d2 = db_rows d1" "db_tier_offsets d2 = db_tier_offsets d1"
      by (auto simp: j)
    have "cut_exactly c sz (db_rows d2) x" if "limits_ok c" "open_small c (seq_of d) g"
      unfolding cut_exactly_def
    proof (intro exI conjI)
      show "range_of x = (?s, j + 1)" by (rule x(2))
      show "(j, r) \<in> set (db_rows d2)" by (simp add: same j)
      show "target_seal_size c \<le> ex_bytes x \<or> row_limit c \<le> j + 1 - ?s"
        using True full x(3) by auto
      show "ex_bytes x - sz r < target_seal_size c" using that x(3) by (simp add: open_small_def)
      show "j - ?s < row_limit c"
        using that j by (cases "gr_start g") (auto simp: open_small_def limits_ok_def started_def)
    qed
    moreover have "limits_ok c \<Longrightarrow> open_small c j g2" using g2 by (simp add: open_small_def limits_ok_def)
    ultimately show ?thesis using x(1) same j ij by (intro exI [of _ "[x]"]) simp
  qed
qed

lemma append_loop_good:
  assumes "append_loop c sz rows g d = Inr (os, g', d')" and "appending F C g d"
  shows "\<exists>N new. appending F (C @ N) g' d' \<and> seq_of d' = seq_of d + int (length rows) \<and>
    os = [seq_of d + 1..seq_of d'] \<and>
    db_rows d' = db_rows d @ new \<and> map fst new = os \<and> map (Inr \<circ> snd) new = rows \<and>
    (limits_ok c \<longrightarrow> open_small c (seq_of d) g \<longrightarrow>
       open_small c (seq_of d') g' \<and> (\<forall>x \<in> set N. cut_exactly c sz (db_rows d') x))"
  using assms
proof (induction rows arbitrary: g d os C)
  case Nil
  then show ?case by (intro exI [of _ "[]"]) auto
next
  case (Cons x rows)
  then obtain r where x: "x = Inr r" by (cases x) (auto split: if_splits)
  obtain i g2 d2 where step: "row_step c sz r g d = (i, g2, d2)" by (metis prod_cases3)
  from Cons.prems(1) x step obtain os' where
    loop: "append_loop c sz rows g2 d2 = Inr (os', g', d')" and os: "os = i # os'"
    by (auto simp: append_loop_Inr simp del: append_loop.simps(3) split: if_splits sum.splits)
  from row_step_good [OF Cons.prems(2) step] obtain N where
    N: "appending F (C @ N) g2 d2" "i = seq_of d + 1" "seq_of d2 = i" "db_rows d2 = db_rows d @ [(i, r)]"
      "limits_ok c \<longrightarrow> open_small c (seq_of d) g \<longrightarrow>
         open_small c i g2 \<and> (\<forall>x \<in> set N. cut_exactly c sz (db_rows d2) x)"
    by auto
  from Cons.IH [OF loop N(1)] obtain M new where
    M: "appending F ((C @ N) @ M) g' d'" "seq_of d' = seq_of d2 + int (length rows)"
      "os' = [seq_of d2 + 1..seq_of d']"
      "db_rows d' = db_rows d2 @ new" "map fst new = os'" "map (Inr \<circ> snd) new = rows"
      "limits_ok c \<longrightarrow> open_small c (seq_of d2) g2 \<longrightarrow>
         open_small c (seq_of d') g' \<and> (\<forall>x \<in> set M. cut_exactly c sz (db_rows d') x)"
    by blast
  have more: "cut_exactly c sz (db_rows d') y" if "cut_exactly c sz (db_rows d2) y" for y
    using that M(4) by (fastforce simp: cut_exactly_def)
  have offsets: "os = [seq_of d + 1..seq_of d']"
    using os N(2,3) M(2,3) by (subst upto.simps) simp
  show ?case
  proof (intro exI conjI)
    show "appending F (C @ N @ M) g' d'" using M(1) by simp
    show "seq_of d' = seq_of d + int (length (x # rows))" using M(2) N(2,3) by simp
    show "os = [seq_of d + 1..seq_of d']" by (rule offsets)
    show "db_rows d' = db_rows d @ (i, r) # new" using M(4) N(4) by simp
    show "map fst ((i, r) # new) = os" using os M(5) by simp
    show "map (Inr \<circ> snd) ((i, r) # new) = x # rows" using x M(6) by simp
    show "limits_ok c \<longrightarrow> open_small c (seq_of d) g \<longrightarrow>
       open_small c (seq_of d') g' \<and> (\<forall>y \<in> set (N @ M). cut_exactly c sz (db_rows d') y)"
      using N(3,5) M(7) more by auto
  qed
qed

subsection \<open>The machine\<close>

text \<open>
  The state with the ranges of the files seals have written (\<open>F\<close>), which the tables forget once a
  file is merged or reclaimed. Every operation of a running log is a step: \<open>other\<close> is any that
  leaves the rows, the sequence and the queue alone, as those on named extents, intents, tiers,
  claims and \<^verbatim>\<open>meta\<close> do.
\<close>

definition filed_by :: "offset \<Rightarrow> 'r db \<Rightarrow> (offset \<times> offset) list" where
  "filed_by b d = map range_of (filter (ends_at b) (db_extents d))"

inductive queue_step ::
  "'r db \<times> (offset \<times> offset) list \<Rightarrow> 'r db \<times> (offset \<times> offset) list \<Rightarrow> bool" where
  q_append: "append_rows c sz (rows :: ((bool \<times> string) + 'r) list) d = (res, d') \<Longrightarrow> queue_step (d, F) (d', F)"
| q_reserve: "reserve n d = Some (sp, d') \<Longrightarrow> queue_step (d, F) (d', F)"
| q_close: "close_open_group d = (ok, d') \<Longrightarrow> queue_step (d, F) (d', F)"
| q_claim: "queue_step (d, F) (claim_seal a b p d, F)"
| q_lost: "finish_seal now b p d = Some (False, d') \<Longrightarrow> queue_step (d, F) (d', F)"
| q_finish: "finish_seal now b p d = Some (True, d') \<Longrightarrow> queue_step (d, F) (d', F @ filed_by b d)"
| q_seed: "seed_group sz d = Some d' \<Longrightarrow> queue_step (d, F) (d', F)"
| q_evict: "evict_rows a b d = (n, d') \<Longrightarrow> queue_step (d, F) (d', F)"
| q_other: "db_rows d' = db_rows d \<Longrightarrow> db_seq d' = db_seq d \<Longrightarrow> unnamed d' = unnamed d \<Longrightarrow> ids_ok d' \<Longrightarrow>
    queue_step (d, F) (d', F)"

text \<open>A log as it is created: no rows, one open group, offsets from \<open>first\<close> on.\<close>

definition queue_init :: "'r db \<times> (offset \<times> offset) list \<Rightarrow> bool" where
  "queue_init s \<longleftrightarrow> (case s of (d, F) \<Rightarrow>
     db_rows d = [] \<and> 0 \<le> seq_of d \<and> db_extents d = [fresh_extent 1] \<and> db_extent_seq d = 1 \<and> F = [])"

definition queue_inv :: "'r db \<times> (offset \<times> offset) list \<Rightarrow> bool" where
  "queue_inv s \<longleftrightarrow> (case s of (d, F) \<Rightarrow>
     (\<exists>C e. queue_shape d C e \<and>
        queue_good (db_rows d) (seq_of d) (F @ map range_of C) (ex_start e)))"

lemma queue_inv_appending:
  "queue_inv (d, F) \<Longrightarrow> \<exists>C g. read_group d = Some g \<and> appending F C g d"
proof -
  assume "queue_inv (d, F)"
  then obtain C e where "queue_shape d C e"
    and "queue_good (db_rows d) (seq_of d) (F @ map range_of C) (ex_start e)"
    by (auto simp: queue_inv_def)
  then have "read_group d = Some (group_of e)" "appending F C (group_of e) d"
    by (auto simp: read_group_shape appending_def group_of_def)
  then show ?thesis by blast
qed

lemma appending_written:
  assumes "appending F C g d"
  shows "queue_inv (write_group g None d, F)"
proof -
  from assms obtain e where e: "queue_shape d C e" "gr_id g = ex_id e"
    and good: "queue_good (db_rows d) (seq_of d) (F @ map range_of C) (gr_start g)"
    by (auto simp: appending_def)
  from shape_write_open [OF e] good show ?thesis
    unfolding queue_inv_def by (auto simp: with_group_def write_group_def seq_of_def intro!: exI)
qed

lemma inv_append:
  assumes "queue_inv (d, F)" and "append_rows c sz rows d = (res, d')"
  shows "queue_inv (d', F)"
proof -
  from queue_inv_appending [OF assms(1)] obtain C g where g: "read_group d = Some g" "appending F C g d"
    by blast
  show ?thesis
  proof (cases "append_loop c sz rows g d")
    case (Inl e)
    with assms g show ?thesis by (simp add: append_rows_def)
  next
    case (Inr a)
    then obtain os g' d1 where loop: "append_loop c sz rows g d = Inr (os, g', d1)" by (cases a) auto
    with assms(2) g have "d' = write_group g' None d1" by (simp add: append_rows_def)
    with append_loop_good [OF loop g(2)] show ?thesis by (auto intro: appending_written)
  qed
qed

lemma queue_good_higher:
  "queue_good rows hi R st \<Longrightarrow> hi \<le> hi' \<Longrightarrow> queue_good rows hi' R st"
  unfolding queue_good_def by fastforce

lemma queue_good_fewer:
  "queue_good rows hi R st \<Longrightarrow> queue_good (filter P rows) hi R st"
  unfolding queue_good_def by (auto simp: sorted_wrt_map sorted_wrt_filter)

lemma seed_simps:
  "seed first d = Some d' \<Longrightarrow> d' = d\<lparr>db_seq := Some (first - 1)\<rparr>"
  by (auto simp: seed_def split: if_splits)

lemma advance_simps:
  assumes "advance n d = Some (sp, d')"
  shows "sp = (floor_of d + 1, floor_of d + n + 1) \<and> d' = d\<lparr>db_seq := Some (floor_of d + n)\<rparr>"
  using assms by (auto simp: advance_def Let_def seed_def split: option.splits if_splits)

lemma advance_total:
  assumes "0 < n"
  shows "advance n d = Some ((floor_of d + 1, floor_of d + n + 1), d\<lparr>db_seq := Some (floor_of d + n)\<rparr>)"
  using assms by (auto simp: advance_def Let_def seed_def next_offset_def floor_of_def split: option.splits)

lemma inv_reserve:
  assumes inv: "queue_inv (d, F)" and r: "reserve n d = Some (sp, d')"
  shows "queue_inv (d', F)"
proof -
  from r have n: "0 < n" and "advance n d = Some (sp, d')" by (auto simp: reserve_def split: if_splits)
  from advance_simps [OF this(2)] have d': "d' = d\<lparr>db_seq := Some (floor_of d + n)\<rparr>" by simp
  from inv obtain C e where s: "queue_shape d C e"
    and good: "queue_good (db_rows d) (seq_of d) (F @ map range_of C) (ex_start e)"
    by (auto simp: queue_inv_def)
  have "seq_of d' = seq_of d + n" by (simp add: d' seq_of_def floor_good [OF good, unfolded seq_of_def])
  with queue_good_higher [OF good, of "seq_of d'"] n
  have "queue_good (db_rows d') (seq_of d') (F @ map range_of C) (ex_start e)" by (simp add: d')
  moreover have "queue_shape d' C e" using s by (simp add: d' queue_shape_def ids_ok_def unnamed_def)
  ultimately show ?thesis by (auto simp: queue_inv_def)
qed

lemma closable_only:
  assumes "queue_shape d C e" and "x \<in> set (db_extents d)" and "closable d x"
  shows "x = e"
proof -
  have "x \<in> set (unnamed d)" "open_extent x"
    using assms(2,3) by (auto simp: unnamed_def closable_def open_extent_def)
  with assms(1) show ?thesis by (auto simp: queue_shape_def queued_not_open)
qed

lemma close_is_cut:
  assumes s: "queue_shape d C e" and c: "closable d e" and h: "highest_row d = Some h"
  shows "close_open_group d = (True, snd (cut_group (group_of e) h d))"
proof -
  have e: "e \<in> set (db_extents d)" by (rule shape_in_extents [OF s]) simp
  have "(if closable d x then x\<lparr>ex_end := Some (h + 1)\<rparr> else x) =
        (if ex_id x = gr_id (group_of e)
         then x\<lparr>ex_start := gr_start (group_of e), ex_bytes := gr_bytes (group_of e), ex_end := Some (h + 1)\<rparr>
         else x)" if x: "x \<in> set (db_extents d)" for x
  proof (cases "x = e")
    case True
    with c show ?thesis by (simp add: group_of_def)
  next
    case False
    with closable_only [OF s x] shape_ids [OF s x] have "\<not> closable d x" "ex_id x \<noteq> ex_id e" by blast+
    then show ?thesis by (simp add: group_of_def)
  qed
  then have ext: "map (\<lambda>x. if closable d x then x\<lparr>ex_end := Some (h + 1)\<rparr> else x) (db_extents d) =
      db_extents (write_group (group_of e) (Some (h + 1)) d)"
    by (simp add: write_group_def)
  have "close_open_group d = (True, snd (insert_extent None None 0 None None
      (d\<lparr>db_extents := map (\<lambda>x. if closable d x then x\<lparr>ex_end := Some (h + 1)\<rparr> else x) (db_extents d)\<rparr>)))"
    unfolding close_open_group_def Let_def h option.map by (rule if_not_P) (use c e in blast)
  also have "d\<lparr>db_extents := map (\<lambda>x. if closable d x then x\<lparr>ex_end := Some (h + 1)\<rparr> else x) (db_extents d)\<rparr>
      = write_group (group_of e) (Some (h + 1)) d"
    unfolding ext by (simp add: write_group_def)
  finally show ?thesis by (simp add: cut_group_def split: prod.splits)
qed

lemma good_close:
  assumes g: "queue_good rows hi R (Some s)" and h: "h \<le> hi" "s \<le> h" "\<forall>(i, r) \<in> set rows. i \<le> h"
  shows "queue_good rows hi (R @ [(s, h + 1)]) None"
proof -
  have "owed (R @ [(s, h + 1)]) None i" if "(i, r) \<in> set rows" for i r
    using g h that unfolding queue_good_def owed_def in_span_def by fastforce
  with g h show ?thesis
    unfolding queue_good_def by (fastforce simp: sorted_wrt_append)
qed

lemma inv_close:
  assumes inv: "queue_inv (d, F)" and c: "close_open_group d = (ok, d')"
  shows "queue_inv (d', F)"
proof (cases "\<exists>x \<in> set (db_extents d). closable d x")
  case False
  with c inv show ?thesis by (simp add: close_open_group_def)
next
  case True
  from inv obtain C e where s: "queue_shape d C e"
    and good: "queue_good (db_rows d) (seq_of d) (F @ map range_of C) (ex_start e)"
    by (auto simp: queue_inv_def)
  from True closable_only [OF s] have e: "closable d e" by blast
  then obtain st i r where st: "ex_start e = Some st" "(i, r) \<in> set (db_rows d)" "st \<le> i"
    by (auto simp: closable_def split: option.splits)
  then have "highest_row d \<noteq> None" by (auto simp: highest_row_def)
  then obtain h where h: "highest_row d = Some h" by auto
  then have max: "\<forall>(i, r) \<in> set (db_rows d). i \<le> h" and "h \<in> set (map fst (db_rows d))"
    unfolding highest_row_def by (force dest: list_max_ge, rule list_max_in)
  then have "h \<le> seq_of d" using good by (auto simp: queue_good_def)
  have hs: "st \<le> h" using max st(2,3) by force
  obtain g' d1 where cut: "cut_group (group_of e) h d = (g', d1)" by fastforce
  with close_is_cut [OF s e h] c have d1: "d1 = d'" by simp
  let ?x = "with_group (group_of e) (Some (h + 1)) e"
  from shape_cut [OF s _ cut] have sh: "queue_shape d' (C @ [?x]) (fresh_extent (gr_id g'))"
    and same: "db_rows d' = db_rows d" "db_seq d' = db_seq d"
    by (simp_all add: group_of_def d1)
  have "range_of ?x = (st, h + 1)" by (simp add: range_of_def with_group_def group_of_def st(1))
  moreover have "queue_good (db_rows d) (seq_of d) ((F @ map range_of C) @ [(st, h + 1)]) None"
    by (rule good_close) (use good st(1) \<open>h \<le> seq_of d\<close> hs max in auto)
  ultimately have "queue_good (db_rows d') (seq_of d') (F @ map range_of (C @ [?x])) None"
    using same by (simp add: seq_of_def)
  with sh show ?thesis by (fastforce simp: queue_inv_def fresh_extent_def)
qed

lemma sorted_wrt_mset:
  assumes "\<And>x y. P x y \<Longrightarrow> P y x" and "sorted_wrt P xs" and "mset xs = mset ys"
  shows "sorted_wrt P ys"
  using assms(2,3)
proof (induction ys arbitrary: xs)
  case (Cons y ys)
  then have "y \<in> set xs" by (metis list.set_intros(1) mset_eq_setD)
  then obtain a b where xs: "xs = a @ y # b" by (meson split_list)
  with Cons.prems have "mset (a @ b) = mset ys" "sorted_wrt P (a @ b)"
    by (auto simp: sorted_wrt_append)
  moreover have "\<forall>z \<in> set (a @ b). P y z"
    using Cons.prems(1) assms(1) by (auto simp: xs sorted_wrt_append)
  ultimately show ?case using Cons.IH [of "a @ b"] mset_eq_setD [of "a @ b" ys] by auto
qed simp

lemma queue_good_mset:
  assumes g: "queue_good rows hi R st" and m: "mset R = mset R'"
  shows "queue_good rows hi R' st"
proof -
  have "set R = set R'" using m by (rule mset_eq_setD)
  moreover have "sorted_wrt (\<lambda>(a, b) (c, d). b \<le> c \<or> d \<le> a) R'"
    by (rule sorted_wrt_mset [OF _ _ m]) (use g in \<open>auto simp: queue_good_def\<close>)
  ultimately show ?thesis using g by (simp add: queue_good_def owed_def)
qed

lemma ids_ok_same:
  assumes "map ex_id (db_extents d') = map ex_id (db_extents d)" and "db_extent_seq d' = db_extent_seq d"
    and "ids_ok d"
  shows "ids_ok d'"
proof -
  have eq: "ids_ok e \<longleftrightarrow> distinct (map ex_id (db_extents e)) \<and>
      (\<forall>i \<in> set (map ex_id (db_extents e)). i \<le> db_extent_seq e)" for e :: "'b db"
    by (simp add: ids_ok_def)
  have eq': "ids_ok e \<longleftrightarrow> distinct (map ex_id (db_extents e)) \<and>
      (\<forall>i \<in> set (map ex_id (db_extents e)). i \<le> db_extent_seq e)" for e :: "'a db"
    by (simp add: ids_ok_def)
  from assms show ?thesis unfolding eq eq' by simp
qed

lemma finish_simps:
  assumes "finish_seal now b p d = Some (True, d')"
  shows "db_rows d' = db_rows d \<and> db_seq d' = db_seq d \<and> db_extent_seq d' = db_extent_seq d \<and>
    db_extents d' = map (\<lambda>e. if ends_at b e then e\<lparr>ex_path := Some p, ex_named := Some now\<rparr> else e) (db_extents d)"
  using assms by (auto simp: finish_seal_def Let_def split: if_splits)

lemma filter_named:
  "filter (\<lambda>e. ex_path e = None)
     (map (\<lambda>e. if ends_at b e then e\<lparr>ex_path := Some p, ex_named := Some now\<rparr> else e) xs) =
   filter (\<lambda>x. \<not> ends_at b x) (filter (\<lambda>e. ex_path e = None) xs)"
  by (induction xs) (auto simp: ends_at_def)

lemma inv_finish:
  assumes inv: "queue_inv (d, F)" and f: "finish_seal now b p d = Some (True, d')"
  shows "queue_inv (d', F @ filed_by b d)"
proof -
  note s = finish_simps [OF f]
  from inv obtain C e where sh: "queue_shape d C e"
    and good: "queue_good (db_rows d) (seq_of d) (F @ map range_of C) (ex_start e)"
    by (auto simp: queue_inv_def)
  let ?C = "filter (\<lambda>x. \<not> ends_at b x) C"
  have e: "\<not> ends_at b e" using sh by (simp add: queue_shape_def open_extent_def ends_at_def)
  have "unnamed d' = filter (\<lambda>x. \<not> ends_at b x) (unnamed d)"
    unfolding unnamed_def conjunct2 [OF conjunct2 [OF conjunct2 [OF s]]] by (rule filter_named)
  then have un: "unnamed d' = ?C @ [e]" using sh e by (simp add: queue_shape_def)
  have "filter (ends_at b) (db_extents d) = filter (ends_at b) (unnamed d)"
    unfolding unnamed_def filter_filter by (rule filter_cong) (auto simp: ends_at_def)
  then have filed: "filed_by b d = map range_of (filter (ends_at b) C)"
    using sh e by (simp add: filed_by_def queue_shape_def)
  have "map ex_id (db_extents d') = map ex_id (db_extents d)" using s by simp
  then have "ids_ok d'" by (rule ids_ok_same) (use sh s in \<open>auto simp: queue_shape_def\<close>)
  with un sh have "queue_shape d' ?C e" by (auto simp: queue_shape_def)
  moreover have "mset (F @ map range_of C) = mset ((F @ filed_by b d) @ map range_of ?C)"
    unfolding filed mset_append mset_map mset_filter by (simp add: image_mset_union [symmetric])
  then have "queue_good (db_rows d) (seq_of d) ((F @ filed_by b d) @ map range_of ?C) (ex_start e)"
    by (rule queue_good_mset [OF good])
  ultimately show ?thesis using s by (auto simp: queue_inv_def seq_of_def)
qed

lemma open_exists: "queue_shape d C e \<Longrightarrow> \<exists>x \<in> set (db_extents d). open_extent x"
  using shape_in_extents [of d C e e] by (auto simp: queue_shape_def)

lemma inv_step: "queue_step s t \<Longrightarrow> queue_inv s \<Longrightarrow> queue_inv t"
proof (induction rule: queue_step.induct)
  case (q_append c sz rows d res d' F)
  then show ?case by (blast intro: inv_append)
next
  case (q_reserve n d sp d' F)
  then show ?case by (blast intro: inv_reserve)
next
  case (q_close d ok d' F)
  then show ?case by (blast intro: inv_close)
next
  case (q_claim d F a b p)
  then show ?case
    by (simp add: queue_inv_def claim_seal_def queue_shape_def ids_ok_def unnamed_def seq_of_def)
next
  case (q_lost now b p d d' F)
  then have "db_rows d' = db_rows d" "db_seq d' = db_seq d" "db_extents d' = db_extents d"
    "db_extent_seq d' = db_extent_seq d"
    by (auto simp: finish_seal_def Let_def split: if_splits)
  with q_lost show ?case
    by (simp add: queue_inv_def queue_shape_def ids_ok_def unnamed_def seq_of_def)
next
  case (q_finish now b p d d' F)
  then show ?case by (blast intro: inv_finish)
next
  case (q_seed sz d d' F)
  then have "d' = d"
    using open_exists by (auto simp: queue_inv_def seed_group_def split: if_splits)
  with q_seed show ?case by simp
next
  case (q_evict a b d n d' F)
  then have "d' = d\<lparr>db_rows := filter (\<lambda>(i, r). \<not> in_span a b i) (db_rows d)\<rparr>"
    by (simp add: evict_rows_def)
  with q_evict.prems show ?case
    by (auto simp: queue_inv_def queue_shape_def ids_ok_def unnamed_def seq_of_def intro!: queue_good_fewer)
next
  case (q_other d' d F)
  then show ?case by (auto simp: queue_inv_def queue_shape_def seq_of_def)
qed

lemma inv_init: "queue_init s \<Longrightarrow> queue_inv s"
  unfolding queue_init_def queue_inv_def
  by (auto simp: queue_shape_def ids_ok_def unnamed_def fresh_extent_def open_extent_def queue_good_def
      intro!: exI [of _ "[]"])

interpretation queue: invariant_machine queue_init queue_step queue_inv
  by unfold_locales (auto intro: inv_init inv_step)

subsection \<open>Offsets are issued once\<close>

text \<open>
  The contract of a counter offsets are issued from: no step lowers it, and what a step issues lies
  above the old value and not above the new one. So nothing is ever issued twice.
\<close>

locale offset_counter =
  fixes step :: "'s \<Rightarrow> 's \<Rightarrow> bool"
    and ok :: "'s \<Rightarrow> bool"
    and high :: "'s \<Rightarrow> offset"
    and issues :: "'s \<Rightarrow> 's \<Rightarrow> offset set \<Rightarrow> bool"
  assumes never_lowered: "ok s \<Longrightarrow> step s t \<Longrightarrow> high s \<le> high t"
    and stays_ok: "ok s \<Longrightarrow> step s t \<Longrightarrow> ok t"
    and issued_fresh: "ok s \<Longrightarrow> issues s t I \<Longrightarrow> i \<in> I \<Longrightarrow> high s < i \<and> i \<le> high t"
    and issued_step: "issues s t I \<Longrightarrow> step s t"
begin

lemma steps_high: "steps step s t \<Longrightarrow> ok s \<Longrightarrow> ok t \<and> high s \<le> high t"
  by (induction rule: steps.induct) (auto intro: stays_ok order_trans dest: never_lowered)

lemma issued_once:
  assumes "ok s" and "issues s t I" and "steps step t u" and "issues u v J" and "i \<in> I" and "j \<in> J"
  shows "i < j"
proof -
  have "ok t" using assms(1) issued_step [OF assms(2)] by (rule stays_ok)
  with steps_high [OF assms(3)] have "ok u" "high t \<le> high u" by auto
  with issued_fresh [OF assms(1,2,5)] issued_fresh [OF _ assms(4,6)] show ?thesis by auto
qed

end

text \<open>What the log issues: the offsets an append returns, and the range a reservation does.\<close>

inductive issues ::
  "'r db \<times> (offset \<times> offset) list \<Rightarrow> 'r db \<times> (offset \<times> offset) list \<Rightarrow> offset set \<Rightarrow> bool" where
  issues_append: "append_rows c sz (rows :: ((bool \<times> string) + 'r) list) d = (Inr os, d') \<Longrightarrow> issues (d, F) (d', F) (set os)"
| issues_reserve: "reserve n d = Some ((a, b), d') \<Longrightarrow> issues (d, F) (d', F) {i. in_span a b i}"

definition high_of :: "'r db \<times> (offset \<times> offset) list \<Rightarrow> offset" where
  "high_of s = seq_of (fst s)"

lemma seq_write_group [simp]: "seq_of (write_group g fin d) = seq_of d"
  by (simp add: write_group_def seq_of_def)

lemma append_Inr:
  assumes inv: "queue_inv (d, F)" and a: "append_rows c sz rows d = (Inr os, d')"
  shows "os = [seq_of d + 1..seq_of d'] \<and> seq_of d' = seq_of d + int (length rows) \<and>
    (\<exists>new. db_rows d' = db_rows d @ new \<and> map fst new = os \<and> map (Inr \<circ> snd) new = rows)"
proof -
  from queue_inv_appending [OF inv] obtain C g where g: "read_group d = Some g" "appending F C g d"
    by blast
  with a obtain g' d1 where loop: "append_loop c sz rows g d = Inr (os, g', d1)"
    and d': "d' = write_group g' None d1"
    by (auto simp: append_rows_def split: sum.splits)
  from append_loop_good [OF loop g(2)] show ?thesis
    by (auto simp: d') (auto simp: write_group_def)
qed

lemma append_Inl: "append_rows c sz rows d = (Inl e, d') \<Longrightarrow> d' = d"
  by (auto simp: append_rows_def split: option.splits sum.splits)

lemma step_high:
  assumes "queue_step s t" and "queue_inv s"
  shows "high_of s \<le> high_of t"
  using assms
proof (induction rule: queue_step.induct)
  case (q_append c sz rows d res d' F)
  show ?case
  proof (cases res)
    case (Inl e)
    with q_append append_Inl show ?thesis by (fastforce simp: high_of_def)
  next
    case (Inr os)
    with append_Inr [OF q_append.prems, of c sz rows os d'] q_append.hyps show ?thesis by (simp add: high_of_def)
  qed
next
  case (q_reserve n d sp d' F)
  then have n: "0 < n" and adv: "advance n d = Some (sp, d')" by (auto simp: reserve_def split: if_splits)
  have "seq_of d \<le> floor_of d" by (simp add: floor_of_def)
  with advance_simps [OF adv] n show ?case by (simp add: high_of_def seq_of_def)
next
  case (q_close d ok d' F)
  then show ?case
    by (auto simp: high_of_def seq_of_def close_open_group_def insert_extent_def Let_def split: if_splits)
next
  case (q_seed sz d d' F)
  then show ?case
    by (auto simp: high_of_def seq_of_def seed_group_def insert_extent_def Let_def split: if_splits)
qed (auto simp: high_of_def seq_of_def claim_seal_def finish_seal_def evict_rows_def Let_def split: if_splits)

lemma issues_steps: "issues s t I \<Longrightarrow> queue_step s t"
  by (induction rule: issues.induct) (auto intro: queue_step.intros)

lemma issues_fresh:
  assumes "issues s t I" and "queue_inv s" and "i \<in> I"
  shows "high_of s < i \<and> i \<le> high_of t"
  using assms
proof (induction rule: issues.induct)
  case (issues_append c sz rows d os d' F)
  with append_Inr [OF issues_append.prems(1) issues_append.hyps] show ?case by (auto simp: high_of_def)
next
  case (issues_reserve n d a b d' F)
  then have "advance n d = Some ((a, b), d')" by (auto simp: reserve_def split: if_splits)
  from advance_simps [OF this] issues_reserve.prems show ?case
    by (auto simp: high_of_def seq_of_def in_span_def floor_of_def)
qed

interpretation counter: offset_counter queue_step queue_inv high_of issues
  by unfold_locales (auto intro: step_high inv_step issues_steps dest: issues_fresh)

end
