(* ===== verification/Seal_Contract.thy ===== *)
theory Seal_Contract
  imports Seal_Queue
begin

text \<open>
  What the seal queue promises its callers: every buffered row is owed to exactly one file, no offset
  is issued twice, an append is all or nothing and does not depend on how the rows were batched,
  groups are cut on the row that fills them, and a seal names the one group it was claimed for.
\<close>

subsection \<open>Counting the places of a row\<close>

lemma disjoint_ranges_count:
  assumes "sorted_wrt (\<lambda>(a, b) (c, d). b \<le> c \<or> d \<le> a) R"
  shows "length (filter (\<lambda>(a, b). in_span a b i) R) = (if \<exists>(a, b) \<in> set R. in_span a b i then 1 else (0::nat))"
  using assms
proof (induction R)
  case (Cons x R)
  obtain a b where x: "x = (a, b)" by fastforce
  show ?case
  proof (cases "in_span a b i")
    case True
    with Cons.prems have "\<forall>(c, d) \<in> set R. \<not> in_span c d i"
      by (auto simp: x in_span_def)
    then have "filter (\<lambda>(a, b). in_span a b i) R = []" by (auto simp: filter_empty_conv)
    with True show ?thesis by (simp add: x)
  qed (use Cons in \<open>auto simp: x\<close>)
qed simp

definition places :: "(offset \<times> offset) list \<Rightarrow> offset option \<Rightarrow> offset \<Rightarrow> nat" where
  "places R st i = length (filter (\<lambda>(a, b). in_span a b i) R) +
     (case st of None \<Rightarrow> 0 | Some s \<Rightarrow> if s \<le> i then 1 else 0)"

lemma good_one_place:
  assumes g: "queue_good rows hi R st" and i: "(i, r) \<in> set rows"
  shows "places R st i = 1"
proof -
  from g have d: "sorted_wrt (\<lambda>(a, b) (c, d). b \<le> c \<or> d \<le> a) R" by (simp add: queue_good_def)
  from g i have "owed R st i" by (auto simp: queue_good_def)
  moreover have "\<not> in_span a b i" if "st = Some s" "s \<le> i" "(a, b) \<in> set R" for s a b
    using g that by (fastforce simp: queue_good_def in_span_def)
  ultimately show ?thesis
    unfolding places_def disjoint_ranges_count [OF d] by (auto simp: owed_def split: option.splits)
qed

lemma filter_open_shape:
  assumes "queue_shape d C e"
  shows "filter open_extent (db_extents d) = [e]" "filter queued_extent (db_extents d) = C"
proof -
  have "filter open_extent (db_extents d) = filter open_extent (unnamed d)"
    "filter queued_extent (db_extents d) = filter queued_extent (unnamed d)"
    unfolding unnamed_def filter_filter by (rule filter_cong; auto simp: open_extent_def queued_extent_def)+
  moreover from assms have "filter open_extent C = []" "filter queued_extent C = C" "\<not> queued_extent e"
    by (auto simp: queue_shape_def filter_empty_conv filter_id_conv queued_not_open)
  ultimately show "filter open_extent (db_extents d) = [e]" "filter queued_extent (db_extents d) = C"
    using assms by (auto simp: queue_shape_def)
qed

text \<open>C5. In every reachable state the log has exactly one open group, and every buffered row lies in
  exactly one of the files written, the queued groups and the open group.\<close>

theorem every_row_owed_once:
  assumes "reach queue_init queue_step (d, F)"
  shows "\<exists>e. filter open_extent (db_extents d) = [e] \<and>
    (\<forall>(i, r) \<in> set (db_rows d).
       places (F @ map range_of (filter queued_extent (db_extents d))) (ex_start e) i = 1)"
proof -
  from queue.inv_reach [OF assms] obtain C e where s: "queue_shape d C e"
    and g: "queue_good (db_rows d) (seq_of d) (F @ map range_of C) (ex_start e)"
    by (auto simp: queue_inv_def)
  with filter_open_shape [OF s] good_one_place [OF g] show ?thesis by auto
qed

text \<open>C6. Whatever is appended, reserved, sealed, evicted or reseeded in between, an offset issued
  later is above every offset issued before: none is issued twice.\<close>

theorem offsets_issued_once:
  assumes "reach queue_init queue_step s" and "issues s t I" and "steps queue_step t u"
    and "issues u v J" and "i \<in> I" and "j \<in> J"
  shows "i < j"
  by (rule counter.issued_once [OF queue.inv_reach [OF assms(1)] assms(2-)])

subsection \<open>Append, all or nothing\<close>

lemma append_loop_Inl:
  assumes "append_loop c sz rows g d = Inl e" and "appending F C g d"
  shows "(\<exists>m. Inl m \<in> set rows) \<or> (rows \<noteq> [] \<and> db_tier_offsets d ''buffer'' \<noteq> None)"
  using assms
proof (induction rows arbitrary: g d C)
  case (Cons x rows)
  show ?case
  proof (cases x)
    case (Inr r)
    obtain i g2 d2 where step: "row_step c sz r g d = (i, g2, d2)" by (metis prod_cases3)
    from row_step_good [OF Cons.prems(2) step] obtain N where
      N: "appending F (C @ N) g2 d2" "db_tier_offsets d2 = db_tier_offsets d" by blast
    show ?thesis
    proof (cases "db_tier_offsets d ''buffer'' \<noteq> None")
      case False
      with Cons.prems(1) Inr step have "append_loop c sz rows g2 d2 = Inl e"
        by (auto simp: append_loop_Inr simp del: append_loop.simps(3) split: sum.splits)
      from Cons.IH [OF this N(1)] N(2) show ?thesis by auto
    qed simp
  qed auto
qed simp

lemma append_loop_Inr_fine:
  assumes "append_loop c sz rows g d = Inr x" and "appending F C g d"
  shows "rows = [] \<or> db_tier_offsets d ''buffer'' = None"
  using assms
  by (cases rows; cases "hd rows")
    (auto simp: append_loop_Inr simp del: append_loop.simps(3) not_None_eq split: if_splits)

text \<open>C7. An append either changes nothing, and then a row was refused or the log no longer takes
  rows, or it buffers every row in order at the next consecutive offsets.\<close>

theorem append_all_or_nothing:
  assumes "reach queue_init queue_step (d, F)"
  shows "case append_rows c sz rows d of
      (Inl e, d') \<Rightarrow> d' = d \<and> ((\<exists>m. Inl m \<in> set rows) \<or> (rows \<noteq> [] \<and> db_tier_offsets d ''buffer'' \<noteq> None))
    | (Inr os, d') \<Rightarrow> (rows = [] \<or> db_tier_offsets d ''buffer'' = None) \<and>
        os = [seq_of d + 1..seq_of d + int (length rows)] \<and>
        (\<exists>new. db_rows d' = db_rows d @ new \<and> map fst new = os \<and> map (Inr \<circ> snd) new = rows)"
proof -
  note inv = queue.inv_reach [OF assms]
  from queue_inv_appending [OF inv] obtain C g where g: "read_group d = Some g" "appending F C g d"
    by blast
  obtain res d' where a: "append_rows c sz rows d = (res, d')" by fastforce
  show ?thesis
  proof (cases res)
    case (Inl e)
    with a g have "append_loop c sz rows g d = Inl e" "d' = d"
      by (auto simp: append_rows_def split: sum.splits)
    with append_loop_Inl [OF this(1) g(2)] a Inl show ?thesis by auto
  next
    case (Inr os)
    with a g obtain x where "append_loop c sz rows g d = Inr x" by (auto simp: append_rows_def split: sum.splits)
    from append_loop_Inr_fine [OF this g(2)] a Inr append_Inr [OF inv, of c sz rows os d'] show ?thesis
      by auto
  qed
qed

subsection \<open>Batches\<close>

text \<open>The table as it is while an append holds the open group, and as a batch would have left it.\<close>

definition later :: "group \<Rightarrow> 'r db \<Rightarrow> 'r db \<Rightarrow> bool" where
  "later g d d' \<longleftrightarrow> d' = d \<or> (\<exists>h. gr_id h = gr_id g \<and> d' = write_group h None d)"

lemma write_group_twice: "gr_id h = gr_id g \<Longrightarrow> write_group g fin (write_group h fin' d) = write_group g fin d"
  by (simp add: write_group_def comp_def cong: if_cong)

lemma later_write: "later g d d' \<Longrightarrow> write_group g fin d' = write_group g fin d"
  by (auto simp: later_def write_group_twice)

lemma insert_row_write:
  "insert_row r (write_group h fin d) = (case insert_row r d of (i, d1) \<Rightarrow> (i, write_group h fin d1))"
  by (simp add: insert_row_def Let_def floor_of_def seq_of_def highest_row_def write_group_def)

lemma later_row_step:
  assumes l: "later g d d'" and s: "row_step c sz r g d = (i, g2, d2)"
  shows "\<exists>d2'. row_step c sz r g d' = (i, g2, d2') \<and> later g2 d2 d2'"
proof -
  obtain j d1 where ins: "insert_row r d = (j, d1)" by fastforce
  obtain d1' where ins': "insert_row r d' = (j, d1')" and l1: "later (grow sz j r g) d1 d1'"
    using l unfolding later_def
  proof (elim disjE exE conjE)
    fix h assume "gr_id h = gr_id g" "d' = write_group h None d"
    then show ?thesis
      by (intro that [of "write_group h None d1"]) (auto simp: insert_row_write ins later_def)
  qed (use ins that [of d1] in \<open>auto simp: later_def\<close>)
  show ?thesis
  proof (cases "full c j (grow sz j r g)")
    case True
    have "cut_group (grow sz j r g) j d1' = cut_group (grow sz j r g) j d1"
      by (simp add: cut_group_def later_write [OF l1])
    with True s ins ins' show ?thesis by (auto simp: row_step_def later_def)
  qed (use s ins ins' l1 in \<open>auto simp: row_step_def\<close>)
qed

lemma later_tiers: "later g d d' \<Longrightarrow> db_tier_offsets d' = db_tier_offsets d"
  by (auto simp: later_def write_group_def)

lemma later_loop:
  assumes "later g d d'"
  shows "case append_loop c sz rows g d of
      Inl e \<Rightarrow> append_loop c sz rows g d' = Inl e
    | Inr (os, g2, d2) \<Rightarrow> \<exists>d2'. append_loop c sz rows g d' = Inr (os, g2, d2') \<and> later g2 d2 d2'"
  using assms
proof (induction rows arbitrary: g d d')
  case (Cons x rows)
  show ?case
  proof (cases x)
    case (Inr r)
    obtain i g2 d2 where step: "row_step c sz r g d = (i, g2, d2)" by (metis prod_cases3)
    from later_row_step [OF Cons.prems step] obtain d2' where
      step': "row_step c sz r g d' = (i, g2, d2')" and l2: "later g2 d2 d2'" by blast
    from Cons.IH [OF l2] show ?thesis
      by (auto simp: Inr append_loop_Inr step step' later_tiers [OF Cons.prems]
          simp del: append_loop.simps(3) split: sum.splits)
  next
    case (Inl a)
    then show ?thesis by (cases a) (simp add: later_tiers [OF Cons.prems])
  qed
qed simp

lemma append_loop_append:
  "append_loop c sz (xs @ ys) g d =
     (case append_loop c sz xs g d of
        Inl e \<Rightarrow> Inl e
      | Inr (os, g1, d1) \<Rightarrow> (case append_loop c sz ys g1 d1 of
          Inl e \<Rightarrow> Inl e | Inr (os', g2, d2) \<Rightarrow> Inr (os @ os', g2, d2)))"
proof (induction xs arbitrary: g d)
  case Nil
  then show ?case by (auto split: sum.splits)
next
  case (Cons x xs)
  show ?case
  proof (cases x)
    case (Inr r)
    obtain i g2 d2 where step: "row_step c sz r g d = (i, g2, d2)" by (metis prod_cases3)
    show ?thesis
      using Cons.IH [of g2 d2]
      by (auto simp: Inr append_loop_Inr step simp del: append_loop.simps(3) split: sum.splits)
  next
    case (Inl a)
    then show ?thesis by (cases a) simp
  qed
qed

lemma read_written_group:
  assumes "appending F C g d"
  shows "read_group (write_group g None d) = Some g"
proof -
  from assms obtain e where e: "queue_shape d C e" "gr_id g = ex_id e" by (auto simp: appending_def)
  from read_group_shape [OF shape_write_open [OF e]] e(2) show ?thesis
    by (simp add: group_of_def with_group_def)
qed

text \<open>C8. Appending one batch after another leaves the log exactly as appending them as one: the
  same offsets, the same cuts, the same open group; and a refused second batch refuses the whole.\<close>

theorem batches_do_not_matter:
  assumes "reach queue_init queue_step (d, F)" and "append_rows c sz xs d = (Inr os, d1)"
  shows "append_rows c sz (xs @ ys) d =
    (case append_rows c sz ys d1 of (Inl e, d2) \<Rightarrow> (Inl e, d) | (Inr os', d2) \<Rightarrow> (Inr (os @ os'), d2))"
proof -
  from queue_inv_appending [OF queue.inv_reach [OF assms(1)]] obtain C g
    where g: "read_group d = Some g" "appending F C g d" by blast
  with assms(2) obtain g1 e1 where x: "append_loop c sz xs g d = Inr (os, g1, e1)"
    and d1: "d1 = write_group g1 None e1"
    by (auto simp: append_rows_def split: sum.splits)
  from append_loop_good [OF x g(2)] obtain N where a: "appending F (C @ N) g1 e1" by blast
  have rd: "read_group d1 = Some g1" unfolding d1 by (rule read_written_group [OF a])
  have "later g1 e1 d1" by (auto simp: later_def d1)
  from later_loop [OF this, of c sz ys] show ?thesis
    using g rd
    by (auto simp: append_rows_def append_loop_append x later_write split: sum.splits)
qed

subsection \<open>Cuts\<close>

text \<open>C9. With positive limits, and an open group within them when the append begins, every group that this
  append newly queues ends on the very row that filled it: with that row it reaches the byte or the
  row limit, without it neither; and the group it leaves open is within both limits. Groups queued before, by
  \<open>close_open_group\<close> short of any limit among them, are not spoken of.\<close>

theorem groups_cut_where_they_fill:
  assumes "reach queue_init queue_step (d, F)" and "append_rows c sz rows d = (Inr os, d')"
    and "limits_ok c" and "read_group d = Some g" and "open_small c (seq_of d) g"
  shows "(\<forall>x \<in> set (db_extents d'). queued_extent x \<longrightarrow> x \<notin> set (db_extents d) \<longrightarrow>
      cut_exactly c sz (db_rows d') x) \<and> (\<exists>g'. read_group d' = Some g' \<and> open_small c (seq_of d') g')"
proof -
  from queue_inv_appending [OF queue.inv_reach [OF assms(1)]] assms(4) obtain C
    where a: "appending F C g d" by auto
  with assms(2,4) obtain g1 e1 where x: "append_loop c sz rows g d = Inr (os, g1, e1)"
    and d': "d' = write_group g1 None e1"
    by (auto simp: append_rows_def split: sum.splits)
  from append_loop_good [OF x a] assms(3,5) obtain N where
    N: "appending F (C @ N) g1 e1" "open_small c (seq_of e1) g1"
      "\<forall>x \<in> set N. cut_exactly c sz (db_rows e1) x" by blast
  from N(1) obtain e where e: "queue_shape e1 (C @ N) e" "gr_id g1 = ex_id e" by (auto simp: appending_def)
  from a obtain e0 where e0: "queue_shape d C e0" by (auto simp: appending_def)
  have C: "x \<in> set (db_extents d)" if "x \<in> set C" for x
    using shape_in_extents [OF e0, of x] that by simp
  have "set (filter queued_extent (db_extents d')) = set (C @ N)"
    unfolding d' filter_open_shape(2) [OF shape_write_open [OF e]] ..
  then have "x \<in> set C \<union> set N" if "x \<in> set (db_extents d')" "queued_extent x" for x
    using that by auto
  moreover have "db_rows d' = db_rows e1" "seq_of d' = seq_of e1" by (simp_all add: d' write_group_def seq_of_def)
  moreover have "read_group d' = Some g1" unfolding d' by (rule read_written_group [OF N(1)])
  ultimately show ?thesis using C N(2,3) by auto
qed

subsection \<open>Finishing a seal\<close>

lemma disjoint_same_end:
  assumes "sorted_wrt (\<lambda>(a, b) (c, d). b \<le> c \<or> d \<le> a) R" and "\<forall>(a, b) \<in> set R. a < (b::offset)"
  shows "length (filter (\<lambda>(a, b). b = e) R) \<le> 1"
  using assms
proof (induction R)
  case (Cons x R)
  obtain a b where x: "x = (a, b)" by fastforce
  show ?case
  proof (cases "b = e")
    case True
    with Cons.prems have "filter (\<lambda>(a, b). b = e) R = []"
      by (fastforce simp: x filter_empty_conv)
    with True show ?thesis by (simp add: x)
  qed (use Cons in \<open>simp add: x\<close>)
qed simp

lemma ends_at_one:
  assumes s: "queue_shape d C e"
    and g: "queue_good (db_rows d) (seq_of d) (F @ map range_of C) (ex_start e)"
  shows "length (filter (ends_at b) (db_extents d)) \<le> 1"
proof -
  from g have "length (filter (\<lambda>(a, e). e = b) (F @ map range_of C)) \<le> 1"
    by (intro disjoint_same_end) (auto simp: queue_good_def)
  then have "length (filter (\<lambda>x. the (ex_end x) = b) C) \<le> 1"
    by (simp add: filter_map comp_def range_of_def)
  moreover have "filter (\<lambda>x. the (ex_end x) = b) C = filter (ends_at b) C"
    using s by (intro filter_cong) (auto simp: queue_shape_def queued_extent_def ends_at_def)
  moreover have "filter (ends_at b) (db_extents d) = filter (ends_at b) (unnamed d)"
    unfolding unnamed_def filter_filter by (rule filter_cong) (auto simp: ends_at_def)
  moreover have "\<not> ends_at b e" using s by (simp add: queue_shape_def open_extent_def ends_at_def)
  ultimately show ?thesis using s by (simp add: queue_shape_def)
qed

text \<open>C10. A seal claimed for a queued group under a fresh path always finishes, never hitting the
  UNIQUE constraint: it names that group and no other extent, spends the claim and keeps every
  buffered row; a caller whose claim was replaced is told so and changes nothing.\<close>

theorem seal_names_its_own_group:
  assumes "reach queue_init queue_step (d, F)" and "x \<in> set (db_extents d)" and "queued_extent x"
    and "range_of x = (a, b)" and "Some p \<notin> ex_path ` set (db_extents d)" and "q \<noteq> p"
  shows "finish_seal now b q (claim_seal a b p d) = Some (False, claim_seal a b p d) \<and>
    finish_seal now b p (claim_seal a b p d) =
      Some (True, d\<lparr>db_sealing := [], db_extents := map (\<lambda>y. if y = x
        then y\<lparr>ex_path := Some p, ex_named := Some now\<rparr> else y) (db_extents d)\<rparr>)"
proof -
  from queue.inv_reach [OF assms(1)] obtain C e where s: "queue_shape d C e"
    and g: "queue_good (db_rows d) (seq_of d) (F @ map range_of C) (ex_start e)"
    by (auto simp: queue_inv_def)
  have one: "\<not> 1 < length (filter (ends_at b) (db_extents d))" using ends_at_one [OF s g, of b] by simp
  have x: "ends_at b x" using assms(3,4) by (auto simp: queued_extent_def range_of_def ends_at_def)
  then have "x \<in> set (filter (ends_at b) (db_extents d))" using assms(2) by simp
  with one have "filter (ends_at b) (db_extents d) = [x]"
    by (cases "filter (ends_at b) (db_extents d)") auto
  then have "set (filter (ends_at b) (db_extents d)) = {x}" by simp
  then have only: "y \<in> set (db_extents d) \<Longrightarrow> ends_at b y \<longleftrightarrow> y = x" for y by auto
  have ext: "map (\<lambda>e. if ends_at b e then e\<lparr>ex_path := Some p, ex_named := Some now\<rparr> else e) (db_extents d)
      = map (\<lambda>y. if y = x then y\<lparr>ex_path := Some p, ex_named := Some now\<rparr> else y) (db_extents d)"
    by (rule map_cong [OF refl]) (simp add: only)
  show ?thesis
    using assms(5,6) one by (auto simp: finish_seal_def claim_seal_def ext)
qed

subsection \<open>The properties on a log of five rows\<close>

text \<open>A fresh log of integer rows, each as many bytes as its value, sealed at ten bytes.\<close>

definition sample_log :: "int db" where
  "sample_log = empty_db\<lparr>db_extents := [fresh_extent 1], db_extent_seq := 1\<rparr>"

definition sample_limits :: seal_limits where
  "sample_limits = \<lparr>target_seal_size = 10, target_seal_rows = None\<rparr>"

definition sample_two :: "int db" where
  "sample_two = snd (append_rows sample_limits id [Inr 4, Inr 7, Inr 1 :: (bool \<times> string) + int] sample_log)"

lemmas sample_defs = sample_log_def sample_limits_def empty_db_def fresh_extent_def append_rows_def
  read_group_def open_extent_def insert_row_def floor_of_def seq_of_def highest_row_def list_max_Cons
  grow_def full_def row_limit_def NO_ROW_LIMIT_def cut_group_def insert_extent_def write_group_def
  queued_extent_def range_of_def Let_def

lemma sample_reach: "reach queue_init queue_step (sample_log, [])"
  by (rule reach_init) (simp add: queue_init_def sample_log_def fresh_extent_def empty_db_def seq_of_def)

lemma sample_append:
  "append_rows sample_limits id [Inr 4, Inr 7, Inr 1 :: (bool \<times> string) + int] sample_log =
     (Inr [1, 2, 3], sample_two)"
  by (simp add: sample_two_def) (simp add: sample_defs)

lemma sample_rows: "db_rows sample_two = [(1, 4), (2, 7), (3, 1)]" "db_sealing sample_two = []"
  "db_extents sample_two =
     [\<lparr>ex_id = 1, ex_start = Some 1, ex_end = Some 3, ex_bytes = 11, ex_path = None, ex_named = None\<rparr>,
      \<lparr>ex_id = 2, ex_start = Some 3, ex_end = None, ex_bytes = 1, ex_path = None, ex_named = None\<rparr>]"
  by (simp_all add: sample_two_def sample_defs)

lemma sample_two_reach: "reach queue_init queue_step (sample_two, [])"
  using sample_append by (rule reach_step [OF sample_reach q_append])

lemma every_row_owed_once_witness:
  "\<exists>e. filter open_extent (db_extents sample_two) = [e] \<and>
     places [(1, 3)] (ex_start e) 1 = 1 \<and> places [(1, 3)] (ex_start e) 3 = 1"
proof -
  have "filter queued_extent (db_extents sample_two) = [hd (db_extents sample_two)]"
    by (simp add: sample_rows queued_extent_def)
  with every_row_owed_once [OF sample_two_reach] show ?thesis by (auto simp: sample_rows range_of_def open_extent_def)
qed

lemma offsets_issued_once_witness: "(3::int) < 4"
proof (rule offsets_issued_once [OF sample_reach])
  show "issues (sample_log, []) (sample_two, []) (set [1, 2, 3])"
    by (rule issues_append [OF sample_append])
  show "steps queue_step (sample_two, []) (sample_two, [])" by (rule steps_refl)
  show "issues (sample_two, []) (sample_two\<lparr>db_seq := Some 5\<rparr>, []) {i. in_span 4 6 i}"
    by (rule issues_reserve [of 2])
      (simp add: reserve_def advance_total, simp add: sample_two_def sample_defs)
  show "(3::int) \<in> set [1, 2, 3]" by simp
  show "(4::int) \<in> {i. in_span 4 6 i}" by (simp add: in_span_def)
qed

lemma append_all_or_nothing_witness:
  "snd (append_rows sample_limits id [Inr 4, Inl (True, ''column id'') :: (bool \<times> string) + int] sample_log) = sample_log \<and>
   (\<exists>new. db_rows (snd (append_rows sample_limits id [Inr 4 :: (bool \<times> string) + int] sample_log)) = new \<and> map fst new = [1] \<and>
     map (Inr \<circ> snd) new = [Inr 4 :: (bool \<times> string) + int])"
proof
  have "append_rows sample_limits id [Inr 4, Inl (True, ''column id'') :: (bool \<times> string) + int] sample_log = (Inl (Row_refused ''column id''), sample_log)"
    by (simp add: sample_defs)
  with append_all_or_nothing [OF sample_reach, where c = sample_limits and sz = id and rows = "[Inr 4, Inl (True, ''column id'') :: (bool \<times> string) + int]"]
  show "snd (append_rows sample_limits id [Inr 4, Inl (True, ''column id'') :: (bool \<times> string) + int] sample_log) = sample_log" by simp
  obtain d' where a: "append_rows sample_limits id [Inr 4 :: (bool \<times> string) + int] sample_log = (Inr [1], d')" by (simp add: sample_defs)
  from append_all_or_nothing [OF sample_reach, where c = sample_limits and sz = id and rows = "[Inr 4 :: (bool \<times> string) + int]"]
  show "\<exists>new. db_rows (snd (append_rows sample_limits id [Inr 4 :: (bool \<times> string) + int] sample_log)) = new \<and> map fst new = [1] \<and>
     map (Inr \<circ> snd) new = [Inr 4 :: (bool \<times> string) + int]"
    unfolding a by (simp add: sample_log_def empty_db_def)
qed

lemma batches_do_not_matter_witness:
  "append_rows sample_limits id ([Inr 4, Inr 7, Inr 1] @ [Inr 2 :: (bool \<times> string) + int]) sample_log =
    (case append_rows sample_limits id [Inr 2 :: (bool \<times> string) + int] sample_two of
       (Inl e, d2) \<Rightarrow> (Inl e, sample_log) | (Inr os', d2) \<Rightarrow> (Inr ([1, 2, 3] @ os'), d2))"
  by (rule batches_do_not_matter [OF sample_reach sample_append])

lemma groups_cut_where_they_fill_witness:
  "cut_exactly sample_limits id (db_rows sample_two) (hd (db_extents sample_two)) \<and>
   (\<exists>g'. read_group sample_two = Some g' \<and> open_small sample_limits (seq_of sample_two) g')"
proof -
  have "read_group sample_log = Some \<lparr>gr_id = 1, gr_start = None, gr_bytes = 0\<rparr>"
    by (simp add: sample_defs)
  from groups_cut_where_they_fill [OF sample_reach sample_append _ this] show ?thesis
    by (simp add: sample_rows queued_extent_def) (simp add: sample_defs limits_ok_def open_small_def)
qed

lemma seal_names_its_own_group_witness:
  "fst (the (finish_seal 9 3 ''b'' (claim_seal 1 3 ''a'' sample_two))) = False \<and>
   fst (the (finish_seal 9 3 ''a'' (claim_seal 1 3 ''a'' sample_two))) = True"
  using seal_names_its_own_group [OF sample_two_reach, of "hd (db_extents sample_two)" 1 3 "''a''" "''b''" 9]
  by (simp add: sample_rows queued_extent_def range_of_def)

end
