(* ===== verification/Tail_Cache.thy ===== *)
theory Tail_Cache
  imports Seal_Contract
begin

text \<open>
  The cached tail a reader keeps of the buffer (\<^verbatim>\<open>src/litelink/_buffer.py\<close>: \<open>rows_from\<close>, \<open>_reusable\<close>,
  \<open>_rows\<close>, \<open>lowest_offset\<close>, \<open>no_rows\<close>, \<open>_drop_tail\<close>). A cached row is its offset and its columns
  under the schema in force when it was read: \<open>look sh r\<close>, a parameter. Shapes are compared by
  identity in the source; here a shape is a value of any type, equal only to itself.
\<close>

subsection \<open>Reading rows\<close>

definition select_rows :: "('s \<Rightarrow> 'r \<Rightarrow> 'v) \<Rightarrow> 's \<Rightarrow> (offset \<Rightarrow> bool) \<Rightarrow> 'r db \<Rightarrow> (offset \<times> 'v) list" where
  "select_rows look sh P d =
     map (\<lambda>(i, r). (i, look sh r)) (sort_key fst (filter (\<lambda>(i, r). P i) (db_rows d)))"

definition lowest_offset :: "'r db \<Rightarrow> offset option" where
  "lowest_offset d = list_min (map fst (db_rows d))"

definition no_rows :: "('s \<Rightarrow> 'r \<Rightarrow> 'v) \<Rightarrow> 's \<Rightarrow> 'r db \<Rightarrow> (offset \<times> 'v) list" where
  "no_rows look sh d = select_rows look sh (\<lambda>i. NO_ROW_LIMIT < i) d"

subsection \<open>The cache\<close>

record ('s, 'v) tail =
  tl_shape :: "'s option"
  tl_rows :: "(offset \<times> 'v) list option"
  tl_start :: offset
  tl_end :: offset
  tl_from :: offset

definition empty_tail :: "('s, 'v) tail" where
  "empty_tail = \<lparr>tl_shape = None, tl_rows = None, tl_start = 0, tl_end = 0, tl_from = 0\<rparr>"

definition drop_tail :: "('s, 'v) tail \<Rightarrow> ('s, 'v) tail" where
  "drop_tail t = t\<lparr>tl_rows := None, tl_start := 0, tl_end := 0, tl_from := 0\<rparr>"

definition reusable :: "offset \<Rightarrow> ('s, 'v) tail \<Rightarrow> (offset \<times> 'v) list option" where
  "reusable start t =
     (case tl_rows t of
        None \<Rightarrow> None
      | Some rows \<Rightarrow>
          if \<not> (tl_from t \<le> start \<and> start \<le> tl_end t) then None
          else (let base = max start (tl_start t);
                    kept = drop (nat (base - tl_start t)) rows
                in case kept of
                     [] \<Rightarrow> if start < tl_end t then None else Some kept
                   | (i, v) # _ \<Rightarrow> if i \<noteq> base then None else Some kept))"

text \<open>What is remembered of a table just read from \<open>start\<close> on.\<close>

definition remember :: "offset \<Rightarrow> (offset \<times> 'v) list \<Rightarrow> ('s, 'v) tail \<Rightarrow> ('s, 'v) tail" where
  "remember start table t =
     (if table \<noteq> [] then t\<lparr>tl_rows := Some table, tl_from := start,
         tl_start := fst (hd table), tl_end := fst (last table) + 1\<rparr>
      else t\<lparr>tl_rows := Some table, tl_from := start, tl_start := start, tl_end := start\<rparr>)"

definition rows_from ::
  "('s \<Rightarrow> 'r \<Rightarrow> 'v) \<Rightarrow> 's \<Rightarrow> offset option \<Rightarrow> 'r db \<Rightarrow> ('s, 'v) tail
     \<Rightarrow> (offset \<times> 'v) list \<times> ('s, 'v) tail" where
  "rows_from look sh start0 d t0 =
     (let start = (case start0 of None \<Rightarrow> 0 | Some s \<Rightarrow> s);
          t = (if tl_shape t0 \<noteq> Some sh then (drop_tail t0)\<lparr>tl_shape := Some sh\<rparr> else t0);
          table = (case reusable start t of
             None \<Rightarrow> select_rows look sh (\<lambda>i. start \<le> i) d
           | Some cached \<Rightarrow> cached @ select_rows look sh (\<lambda>i. tl_end t \<le> i) d)
      in (table, remember start table t))"

subsection \<open>Reading in offset order\<close>

definition view :: "('s \<Rightarrow> 'r \<Rightarrow> 'v) \<Rightarrow> 's \<Rightarrow> (offset \<times> 'r) list \<Rightarrow> (offset \<times> 'v) list" where
  "view look sh rows = map (\<lambda>(i, r). (i, look sh r)) rows"

lemma view_simps [simp]: "view look sh [] = []" "view look sh (xs @ ys) = view look sh xs @ view look sh ys"
  "map fst (view look sh xs) = map fst xs"
  by (simp_all add: view_def case_prod_beta comp_def)

lemma view_filter: "view look sh (filter (\<lambda>(i, r). P i) xs) = filter (\<lambda>(i, v). P i) (view look sh xs)"
  by (induction xs) (auto simp: view_def)

lemma sorted_filter_rows:
  "sorted_wrt (<) (map fst rows) \<Longrightarrow> sorted_wrt (<) (map fst (filter P rows))"
  by (induction rows) auto

lemma select_rows_view:
  assumes "sorted_wrt (<) (map fst (db_rows d))"
  shows "select_rows look sh P d = view look sh (filter (\<lambda>(i, r). P i) (db_rows d))"
proof -
  have "sorted (map fst (filter (\<lambda>(i, r). P i) (db_rows d)))"
    using sorted_filter_rows [OF assms] by (rule strict_sorted_imp_sorted)
  then show ?thesis by (simp add: select_rows_def view_def sort_key_id_if_sorted)
qed

lemma strict_sorted_rows_from:
  assumes "sorted_wrt (<) (map fst xs)" and "a \<le> (b::offset)"
  shows "filter (\<lambda>(i, r). a \<le> i \<and> i < b) xs @ filter (\<lambda>(i, r). b \<le> i) xs = filter (\<lambda>(i, r). a \<le> i) xs"
  using assms(1)
proof (induction xs)
  case (Cons x xs)
  obtain i r where x: "x = (i, r)" by fastforce
  show ?case
  proof (cases "b \<le> i")
    case True
    with Cons.prems have "filter (\<lambda>(i, r). a \<le> i \<and> i < b) xs = []"
      by (fastforce simp: x filter_empty_conv)
    with Cons True assms(2) show ?thesis by (simp add: x)
  qed (use Cons in \<open>simp add: x\<close>)
qed simp

lemma drop_is_filter:
  assumes "sorted_wrt (<) (map fst xs)" and "drop n xs = (b, v) # ys"
  shows "drop n xs = filter (\<lambda>(i, v). (b::offset) \<le> i) xs"
proof -
  have xs: "xs = take n xs @ (b, v) # ys" using assms(2) by (metis append_take_drop_id)
  have "sorted_wrt (<) (map fst (take n xs @ (b, v) # ys))" using assms(1) xs by simp
  then have "\<forall>(i, w) \<in> set (take n xs). i < b" "\<forall>(i, w) \<in> set ys. b < i"
    by (auto simp: sorted_wrt_append)
  then have "filter (\<lambda>(i, v). b \<le> i) (take n xs) = []" "filter (\<lambda>(i, v). b \<le> i) ((b, v) # ys) = (b, v) # ys"
    by (fastforce simp: filter_empty_conv filter_id_conv)+
  then show ?thesis by (subst (2) xs) (simp add: assms(2))
qed

subsection \<open>The cache is complete from where it says\<close>

definition tail_ok :: "('s \<Rightarrow> 'r \<Rightarrow> 'v) \<Rightarrow> offset \<Rightarrow> 'r db \<Rightarrow> ('s, 'v) tail \<Rightarrow> bool" where
  "tail_ok look low d t \<longleftrightarrow>
     (case tl_rows t of
        None \<Rightarrow> True
      | Some rows \<Rightarrow> (\<exists>sh. tl_shape t = Some sh \<and> sorted_wrt (<) (map fst rows) \<and>
          (\<forall>(i, v) \<in> set rows. tl_start t \<le> i \<and> tl_from t \<le> i \<and> i < tl_end t) \<and>
          (rows = [] \<longrightarrow> tl_from t = tl_end t) \<and> (rows \<noteq> [] \<longrightarrow> tl_end t \<le> seq_of d + 1) \<and>
          filter (\<lambda>(i, v). low \<le> i) rows =
            view look sh (filter (\<lambda>(i, r). low \<le> i \<and> tl_from t \<le> i \<and> i < tl_end t) (db_rows d))))"

definition rows_ok :: "'r db \<Rightarrow> bool" where
  "rows_ok d \<longleftrightarrow> sorted_wrt (<) (map fst (db_rows d)) \<and> (\<forall>(i, r) \<in> set (db_rows d). i \<le> seq_of d)"

lemma reusable_filter:
  assumes "reusable start t = Some kept" and "tl_rows t = Some rows" and "sorted_wrt (<) (map fst rows)"
    and "\<forall>(i, v) \<in> set rows. tl_start t \<le> i \<and> i < tl_end t"
  shows "kept = filter (\<lambda>(i, v). start \<le> i) rows \<and> tl_from t \<le> start \<and> start \<le> tl_end t"
proof -
  let ?b = "max start (tl_start t)"
  let ?k = "drop (nat (?b - tl_start t)) rows"
  from assms(1,2) have lim: "tl_from t \<le> start" "start \<le> tl_end t"
    and k: "(case ?k of [] \<Rightarrow> if start < tl_end t then None else Some ?k
              | (i, v) # _ \<Rightarrow> if i \<noteq> ?b then None else Some ?k) = Some kept"
    by (auto simp: reusable_def Let_def split: if_splits)
  have "kept = filter (\<lambda>(i, v). start \<le> i) rows"
  proof (cases ?k)
    case Nil
    with k have "kept = []" "tl_end t \<le> start" by (auto split: if_splits)
    moreover have "filter (\<lambda>(i, v). start \<le> i) rows = []"
      using assms(4) \<open>tl_end t \<le> start\<close> by (fastforce simp: filter_empty_conv)
    ultimately show ?thesis by simp
  next
    case (Cons x ys)
    then obtain v where x: "x = (?b, v)" and "kept = ?k" using k by (cases x) (auto split: if_splits)
    with drop_is_filter [OF assms(3), of _ ?b v ys] Cons have "kept = filter (\<lambda>(i, v). ?b \<le> i) rows" by simp
    also have "\<dots> = filter (\<lambda>(i, v). start \<le> i) rows" using assms(4) by (intro filter_cong) auto
    finally show ?thesis .
  qed
  with lim show ?thesis by simp
qed

lemma filter_filter_pairs:
  "filter (\<lambda>(i, v). P i) (filter (\<lambda>(i, v). Q i) xs) = filter (\<lambda>(i, v). Q i \<and> P i) xs"
  by (induction xs) auto

lemma remember_ok:
  assumes ok: "rows_ok d" and t: "tl_shape t = Some sh"
    and s: "sorted_wrt (<) (map fst table)" and ge: "\<forall>(i, v) \<in> set table. start \<le> i \<and> i \<le> seq_of d"
    and eq: "filter (\<lambda>(i, v). low \<le> i) table = view look sh (filter (\<lambda>(i, r). low \<le> i \<and> start \<le> i) (db_rows d))"
  shows "tail_ok look low d (remember start table t)"
proof (cases "table = []")
  case True
  have "filter (\<lambda>(i, r). low \<le> i \<and> start \<le> i \<and> i < start) (db_rows d) = []"
    by (auto simp: filter_empty_conv)
  with True t show ?thesis by (simp add: tail_ok_def remember_def)
next
  case False
  obtain h v tl where table: "table = (h, v) # tl" using False by (cases table) auto
  obtain l w ini where last: "table = ini @ [(l, w)]" using False by (cases table rule: rev_cases) auto
  have ends: "fst (hd table) = h" "fst (last table) = l" by (simp add: table) (simp add: last)
  have low: "\<forall>(i, v) \<in> set table. h \<le> i" using s by (force simp: table)
  have high: "\<forall>(i, v) \<in> set table. i \<le> l" using s by (force simp: last sorted_wrt_append)
  have "i \<le> l" if "(i, r) \<in> set (db_rows d)" "low \<le> i" "start \<le> i" for i r
  proof -
    have "(i, look sh r) \<in> set (view look sh (filter (\<lambda>(i, r). low \<le> i \<and> start \<le> i) (db_rows d)))"
      using that by (force simp: view_def)
    then have "(i, look sh r) \<in> set table" unfolding eq [symmetric] by simp
    with high show ?thesis by blast
  qed
  then have "filter (\<lambda>(i, r). low \<le> i \<and> start \<le> i \<and> i < l + 1) (db_rows d) =
      filter (\<lambda>(i, r). low \<le> i \<and> start \<le> i) (db_rows d)"
    by (intro filter_cong) auto
  moreover have "l \<le> seq_of d" using ge by (auto simp: last)
  moreover have "\<forall>(i, v) \<in> set table. h \<le> i \<and> start \<le> i \<and> i < l + 1" using low high ge by fastforce
  ultimately show ?thesis using False t s eq ends by (simp add: tail_ok_def remember_def)
qed

lemma rows_from_correct:
  assumes ok: "rows_ok d" and inv: "tail_ok look low d t0"
    and r: "rows_from look sh start0 d t0 = (table, t')"
    and start: "start = (case start0 of None \<Rightarrow> 0 | Some s \<Rightarrow> s)"
  shows "tail_ok look low d t' \<and> (\<forall>(i, v) \<in> set table. start \<le> i) \<and>
    filter (\<lambda>(i, v). low \<le> i) table = view look sh (filter (\<lambda>(i, r). low \<le> i \<and> start \<le> i) (db_rows d))"
proof -
  from ok have sorted: "sorted_wrt (<) (map fst (db_rows d))" and top: "\<forall>(i, r) \<in> set (db_rows d). i \<le> seq_of d"
    by (auto simp: rows_ok_def)
  define t where "t = (if tl_shape t0 \<noteq> Some sh then (drop_tail t0)\<lparr>tl_shape := Some sh\<rparr> else t0)"
  have shape: "tl_shape t = Some sh" by (simp add: t_def)
  have inv_t: "tail_ok look low d t" using inv by (simp add: t_def tail_ok_def drop_tail_def)
  have table: "table = (case reusable start t of
      None \<Rightarrow> select_rows look sh (\<lambda>i. start \<le> i) d
    | Some cached \<Rightarrow> cached @ select_rows look sh (\<lambda>i. tl_end t \<le> i) d)"
    and t': "t' = remember start table t"
    using r unfolding rows_from_def Let_def start [symmetric] t_def [symmetric] by auto
  have good: "sorted_wrt (<) (map fst table) \<and> (\<forall>(i, v) \<in> set table. start \<le> i \<and> i \<le> seq_of d) \<and>
    filter (\<lambda>(i, v). low \<le> i) table = view look sh (filter (\<lambda>(i, r). low \<le> i \<and> start \<le> i) (db_rows d))"
  proof (cases "reusable start t")
    case None
    then have tb: "table = view look sh (filter (\<lambda>(i, r). start \<le> i) (db_rows d))"
      by (simp add: table select_rows_view [OF sorted])
    have "\<forall>(i, v) \<in> set table. start \<le> i \<and> i \<le> seq_of d" using top by (auto simp: tb view_def)
    moreover have "filter (\<lambda>(i, v). low \<le> i) table =
        view look sh (filter (\<lambda>(i, r). low \<le> i \<and> start \<le> i) (db_rows d))"
      unfolding tb view_filter [symmetric] filter_filter_pairs by (simp only: conj_commute)
    moreover have "sorted_wrt (<) (map fst table)" using sorted_filter_rows [OF sorted] by (simp add: tb)
    ultimately show ?thesis by blast
  next
    case (Some kept)
    then obtain rows where rows: "tl_rows t = Some rows" by (auto simp: reusable_def split: option.splits)
    with inv_t shape have srt: "sorted_wrt (<) (map fst rows)"
      and rng: "\<forall>(i, v) \<in> set rows. tl_start t \<le> i \<and> tl_from t \<le> i \<and> i < tl_end t"
      and top': "rows \<noteq> [] \<longrightarrow> tl_end t \<le> seq_of d + 1"
      and eq: "filter (\<lambda>(i, v). low \<le> i) rows =
        view look sh (filter (\<lambda>(i, r). low \<le> i \<and> tl_from t \<le> i \<and> i < tl_end t) (db_rows d))"
      by (auto simp: tail_ok_def)
    from rng have "\<forall>(i, v) \<in> set rows. tl_start t \<le> i \<and> i < tl_end t" by auto
    from reusable_filter [OF Some rows srt this] have kept: "kept = filter (\<lambda>(i, v). start \<le> i) rows"
      and lim: "tl_from t \<le> start" "start \<le> tl_end t" by auto
    let ?fresh = "view look sh (filter (\<lambda>(i, r). tl_end t \<le> i) (db_rows d))"
    have tb: "table = kept @ ?fresh" by (simp add: table Some select_rows_view [OF sorted])
    have fresh: "\<forall>(i, v) \<in> set ?fresh. tl_end t \<le> i \<and> i \<le> seq_of d" using top by (auto simp: view_def)
    have in_kept: "\<forall>(i, v) \<in> set kept. start \<le> i \<and> i < tl_end t \<and> i \<le> seq_of d"
      using rng top' by (fastforce simp: kept)
    have "sorted_wrt (<) (map fst table)"
      unfolding tb map_append sorted_wrt_append
      using in_kept fresh sorted_filter_rows [OF srt] sorted_filter_rows [OF sorted] by (fastforce simp: kept)
    moreover have "\<forall>(i, v) \<in> set table. start \<le> i \<and> i \<le> seq_of d" using in_kept fresh lim(2) by (fastforce simp: tb)
    moreover have "filter (\<lambda>(i, v). low \<le> i) table =
        view look sh (filter (\<lambda>(i, r). low \<le> i \<and> start \<le> i) (db_rows d))"
    proof -
      have "filter (\<lambda>(i, v). low \<le> i) kept = filter (\<lambda>(i, v). start \<le> i) (filter (\<lambda>(i, v). low \<le> i) rows)"
        by (simp add: kept filter_filter_pairs conj_commute)
      also have "\<dots> = view look sh (filter (\<lambda>(i, r). start \<le> i \<and> i < tl_end t) (filter (\<lambda>(i, r). low \<le> i) (db_rows d)))"
        unfolding eq view_filter [symmetric] filter_filter_pairs using lim(1) by (intro arg_cong [where f = "view look sh"] filter_cong) auto
      finally have "filter (\<lambda>(i, v). low \<le> i) table = view look sh
          (filter (\<lambda>(i, r). start \<le> i \<and> i < tl_end t) (filter (\<lambda>(i, r). low \<le> i) (db_rows d)) @
           filter (\<lambda>(i, r). tl_end t \<le> i) (filter (\<lambda>(i, r). low \<le> i) (db_rows d)))"
        by (simp add: tb view_filter [symmetric] filter_filter_pairs conj_commute)
      also have "\<dots> = view look sh (filter (\<lambda>(i, r). start \<le> i) (filter (\<lambda>(i, r). low \<le> i) (db_rows d)))"
        unfolding strict_sorted_rows_from [OF sorted_filter_rows [OF sorted] lim(2)] ..
      finally show ?thesis by (simp only: filter_filter_pairs)
    qed
    ultimately show ?thesis by blast
  qed
  then have "tail_ok look low d t'" unfolding t' using remember_ok [OF ok shape] by blast
  with good show ?thesis by auto
qed

subsection \<open>Reads among appends, seals and evictions\<close>

text \<open>
  The log with one reader's cache and a bound \<open>low\<close> no row at or above which has been deleted. A step
  is a step of the log, or a read: from anywhere, under any schema.
\<close>

inductive tail_step :: "('s \<Rightarrow> 'r \<Rightarrow> 'v) \<Rightarrow>
    ('r db \<times> (offset \<times> offset) list) \<times> ('s, 'v) tail \<times> offset \<Rightarrow>
    ('r db \<times> (offset \<times> offset) list) \<times> ('s, 'v) tail \<times> offset \<Rightarrow> bool" for look where
  t_log: "queue_step (d, F) (d', F') \<Longrightarrow> low \<le> low' \<Longrightarrow>
    (\<forall>x \<in> set (db_rows d). low' \<le> fst x \<longrightarrow> x \<in> set (db_rows d')) \<Longrightarrow>
    tail_step look ((d, F), t, low) ((d', F'), t, low')"
| t_read: "rows_from look sh start d t = (table, t') \<Longrightarrow>
    tail_step look ((d, F), t, low) ((d, F), t', low)"
| t_close: "tail_step look (s, t, low) (s, drop_tail t, low)"

definition tail_init :: "('r db \<times> (offset \<times> offset) list) \<times> ('s, 'v) tail \<times> offset \<Rightarrow> bool" where
  "tail_init s \<longleftrightarrow> queue_init (fst s) \<and> fst (snd s) = empty_tail"

fun tail_inv :: "('s \<Rightarrow> 'r \<Rightarrow> 'v) \<Rightarrow> ('r db \<times> (offset \<times> offset) list) \<times> ('s, 'v) tail \<times> offset \<Rightarrow> bool" where
  "tail_inv look ((d, F), t, low) \<longleftrightarrow> queue_inv (d, F) \<and> tail_ok look low d t"

lemma queue_rows_ok: "queue_inv (d, F) \<Longrightarrow> rows_ok d"
  by (auto simp: queue_inv_def queue_good_def rows_ok_def)

lemma step_rows:
  assumes "queue_step s s'" and "queue_inv s"
  shows "\<exists>P new. db_rows (fst s') = filter P (db_rows (fst s)) @ new \<and> (\<forall>x \<in> set new. seq_of (fst s) < fst x)"
  using assms
proof (induction rule: queue_step.induct)
  case (q_append c sz rows d res d' F)
  show ?case
  proof (cases res)
    case (Inl e)
    with q_append append_Inl have "d' = d" by blast
    then show ?thesis by (intro exI [of _ "\<lambda>_. True"] exI [of _ "[]"]) simp
  next
    case (Inr os)
    from append_Inr [OF q_append.prems] q_append.hyps Inr obtain new where
      "db_rows d' = db_rows d @ new" "map fst new = [seq_of d + 1..seq_of d']" by blast
    moreover from this(2) have "\<forall>x \<in> set new. seq_of d < fst x"
      by (metis (no_types, lifting) atLeastAtMost_iff image_eqI list.set_map set_upto zless_iff_Suc_zadd zle_iff_zadd less_le_trans add1_zle_eq)
    ultimately show ?thesis by (intro exI [of _ "\<lambda>_. True"] exI [of _ new]) simp
  qed
next
  case (q_evict a b d n d' F)
  then show ?case
    by (intro exI [of _ "\<lambda>(i, r). \<not> in_span a b i"] exI [of _ "[]"]) (auto simp: evict_rows_def)
next
  case (q_reserve n d sp d' F)
  then have "db_rows d' = db_rows d" by (auto simp: reserve_def dest: advance_simps split: if_splits)
  then show ?case by (intro exI [of _ "\<lambda>_. True"] exI [of _ "[]"]) simp
next
  case (q_close d ok d' F)
  then have "db_rows d' = db_rows d"
    by (auto simp: close_open_group_def insert_extent_def Let_def split: if_splits)
  then show ?case by (intro exI [of _ "\<lambda>_. True"] exI [of _ "[]"]) simp
next
  case (q_seed sz d d' F)
  then have "db_rows d' = db_rows d"
    by (auto simp: seed_group_def insert_extent_def Let_def split: if_splits)
  then show ?case by (intro exI [of _ "\<lambda>_. True"] exI [of _ "[]"]) simp
qed (auto simp: claim_seal_def finish_seal_def Let_def split: if_splits
    intro!: exI [of _ "\<lambda>_. True"] exI [of _ "[]"])

lemma tail_ok_log:
  assumes step: "queue_step (d, F) (d', F')" and inv: "queue_inv (d, F)" and ok: "tail_ok look low d t"
    and low: "low \<le> low'" and kept: "\<forall>x \<in> set (db_rows d). low' \<le> fst x \<longrightarrow> x \<in> set (db_rows d')"
  shows "tail_ok look low' d' t"
proof (cases "tl_rows t")
  case (Some rows)
  from step_rows [OF step inv] obtain P new where
    d': "db_rows d' = filter P (db_rows d) @ new" and new: "\<forall>x \<in> set new. seq_of d < fst x" by auto
  have high: "seq_of d \<le> seq_of d'" using step_high [OF step inv] by (simp add: high_of_def)
  have rows: "rows_ok d" using inv by (rule queue_rows_ok)
  from ok Some obtain sh where sh: "tl_shape t = Some sh" "sorted_wrt (<) (map fst rows)"
    and rng: "\<forall>(i, v) \<in> set rows. tl_start t \<le> i \<and> tl_from t \<le> i \<and> i < tl_end t"
    and e: "rows = [] \<longrightarrow> tl_from t = tl_end t" "rows \<noteq> [] \<longrightarrow> tl_end t \<le> seq_of d + 1"
    and eq: "filter (\<lambda>(i, v). low \<le> i) rows =
      view look sh (filter (\<lambda>(i, r). low \<le> i \<and> tl_from t \<le> i \<and> i < tl_end t) (db_rows d))"
    by (auto simp: tail_ok_def)
  let ?w = "\<lambda>low (i, r). low \<le> i \<and> tl_from t \<le> i \<and> i < tl_end t"
  have "filter (?w low') new = []"
    using new e by (cases "rows = []") (fastforce simp: filter_empty_conv)+
  moreover have "filter (?w low') (filter P (db_rows d)) = filter (?w low') (db_rows d)"
  proof -
    have "P x" if "x \<in> set (db_rows d)" "low' \<le> fst x" for x
    proof -
      have "x \<in> set (filter P (db_rows d)) \<union> set new" using kept that d' by auto
      moreover have "x \<notin> set new" using new rows that(1) by (fastforce simp: rows_ok_def)
      ultimately show ?thesis by simp
    qed
    then show ?thesis unfolding filter_filter by (intro filter_cong) auto
  qed
  ultimately have same: "filter (?w low') (db_rows d') = filter (?w low') (db_rows d)" by (simp add: d')
  have "filter (\<lambda>(i, v). low' \<le> i) rows = filter (\<lambda>(i, v). low' \<le> i) (filter (\<lambda>(i, v). low \<le> i) rows)"
    unfolding filter_filter_pairs using low by (intro filter_cong) auto
  also have "\<dots> = view look sh (filter (?w low') (db_rows d))"
    unfolding eq view_filter [symmetric] filter_filter_pairs
    using low by (intro arg_cong [where f = "view look sh"] filter_cong) auto
  finally have "filter (\<lambda>(i, v). low' \<le> i) rows = view look sh (filter (?w low') (db_rows d'))"
    unfolding same .
  then show ?thesis using Some sh rng e high by (auto simp: tail_ok_def)
qed (simp add: tail_ok_def)

lemma tail_inv_step: "tail_step look s s' \<Longrightarrow> tail_inv look s \<Longrightarrow> tail_inv look s'"
proof (induction rule: tail_step.induct)
  case (t_log d F d' F' low low' t)
  then have "queue_inv (d', F')" by (auto intro: inv_step)
  with t_log tail_ok_log show ?case by auto
next
  case (t_read sh start d t table t' F low)
  with rows_from_correct [OF queue_rows_ok _ t_read.hyps refl] show ?case by auto
next
  case (t_close s t low)
  then show ?case by (cases s) (simp add: tail_ok_def drop_tail_def)
qed

interpretation tail: invariant_machine tail_init "tail_step look" "tail_inv look" for look
proof unfold_locales
  fix s :: "('a db \<times> (offset \<times> offset) list) \<times> ('b, 'c) tail \<times> offset"
  assume "tail_init s"
  then show "tail_inv look s"
    by (cases s; cases "fst s") (auto simp: tail_init_def tail_ok_def empty_tail_def intro: inv_init)
qed (rule tail_inv_step)

text \<open>C24. However reads, appends, reservations, seals and evictions interleave, and whatever schemas the
  reads run under, a read through the cache that starts at or above every evicted offset returns exactly
  the rows a fresh read returns, in the same order. (One that starts below may still return evicted rows out of
  the cache; the reads of a query, which may, are C3 and C4.)\<close>

theorem cached_tail_is_a_fresh_read:
  assumes "reach tail_init (tail_step look) ((d, F), t, low)"
    and "low \<le> (case start of None \<Rightarrow> 0 | Some s \<Rightarrow> s)"
  shows "fst (rows_from look sh start d t) =
    select_rows look sh (\<lambda>i. (case start of None \<Rightarrow> 0 | Some s \<Rightarrow> s) \<le> i) d"
proof -
  let ?s = "case start of None \<Rightarrow> 0 | Some s \<Rightarrow> s"
  obtain table t' where r: "rows_from look sh start d t = (table, t')" by fastforce
  from tail.inv_reach [OF assms(1)] have inv: "queue_inv (d, F)" "tail_ok look low d t" by auto
  from inv(1) have ok: "rows_ok d" by (rule queue_rows_ok)
  from rows_from_correct [OF ok inv(2) r refl] have
    ge: "\<forall>(i, v) \<in> set table. ?s \<le> i"
    and eq: "filter (\<lambda>(i, v). low \<le> i) table = view look sh (filter (\<lambda>(i, r). low \<le> i \<and> ?s \<le> i) (db_rows d))"
    by auto
  have "filter (\<lambda>(i, v). low \<le> i) table = table" using ge assms(2) by (fastforce simp: filter_id_conv)
  moreover have "filter (\<lambda>(i, r). low \<le> i \<and> ?s \<le> i) (db_rows d) = filter (\<lambda>(i, r). ?s \<le> i) (db_rows d)"
    using assms(2) by (intro filter_cong) auto
  ultimately show ?thesis using r eq ok by (simp add: select_rows_view rows_ok_def)
qed

text \<open>A reader of the sample log after it was read once, then two more rows were appended.\<close>

lemma cached_tail_is_a_fresh_read_witness:
  "fst (rows_from (\<lambda>_. id) () (Some 3) sample_two
      (snd (rows_from (\<lambda>_. id) () (Some 1) sample_two empty_tail))) = [(3, 1)]"
proof -
  let ?t = "snd (rows_from (\<lambda>_. id) () (Some 1) sample_two empty_tail)"
  have "queue_step (sample_log, []) (sample_two, [])" by (rule q_append [OF sample_append])
  then have log: "tail_step (\<lambda>_ :: unit. id) ((sample_log, []), empty_tail, 0) ((sample_two, []), empty_tail, 0)"
    by (rule t_log) (simp_all add: sample_log_def empty_db_def)
  have "reach tail_init (tail_step (\<lambda>_ :: unit. id)) ((sample_log, []), empty_tail, 0)"
    by (rule reach_init)
      (simp add: tail_init_def queue_init_def sample_log_def fresh_extent_def empty_db_def seq_of_def)
  then have two: "reach tail_init (tail_step (\<lambda>_ :: unit. id)) ((sample_two, []), empty_tail, 0)"
    using log by (rule reach_step)
  have "tail_step (\<lambda>_ :: unit. id) ((sample_two, []), empty_tail, 0) ((sample_two, []), ?t, 0)"
    by (rule t_read [where sh = "()" and start = "Some 1"]) (rule prod.collapse [symmetric])
  with two have "reach tail_init (tail_step (\<lambda>_ :: unit. id)) ((sample_two, []), ?t, 0)"
    by (rule reach_step)
  from cached_tail_is_a_fresh_read [OF this, of "Some 3" "()"] show ?thesis
    by (simp add: select_rows_def sample_rows)
qed

end
