(* ===== verification/Layout.thy ===== *)
theory Layout
  imports Text
begin

text \<open>
  Where a log's files live (\<^verbatim>\<open>src/litelink/_layout.py\<close>). An absolute path is the list of its
  components, as \<^verbatim>\<open>pathlib\<close> keeps it; a stored name is a string. Which files exist is an argument of
  the two questions that ask for it. A ValueError is a value.
\<close>

subsection \<open>Paths\<close>

type_synonym parts = "string list"

fun split_at :: "char \<Rightarrow> string \<Rightarrow> string list" where
  "split_at c [] = [[]]"
| "split_at c (x # s) =
     (if x = c then [] # split_at c s
      else (case split_at c s of [] \<Rightarrow> [[x]] | p # ps \<Rightarrow> (x # p) # ps))"

fun join_with :: "char \<Rightarrow> string list \<Rightarrow> string" where
  "join_with c [] = []"
| "join_with c [p] = p"
| "join_with c (p # ps) = p @ c # join_with c ps"

text \<open>The components \<open>Path\<close> keeps of a text, joining one onto a directory, and \<open>str\<close> of the two kinds.\<close>

definition path_parts :: "string \<Rightarrow> parts" where
  "path_parts s = filter (\<lambda>p. p \<noteq> [] \<and> p \<noteq> ''.'') (split_at CHR ''/'' s)"

definition path_join :: "parts \<Rightarrow> string \<Rightarrow> parts" where
  "path_join dir s = (if starts_with s ''/'' then path_parts s else dir @ path_parts s)"

definition absolute_text :: "parts \<Rightarrow> string" where
  "absolute_text ps = CHR ''/'' # join_with CHR ''/'' ps"

definition relative_text :: "parts \<Rightarrow> string" where
  "relative_text ps = (if ps = [] then ''.'' else join_with CHR ''/'' ps)"

subsection \<open>The layout of one log\<close>

definition NAMESPACE :: string where "NAMESPACE = ''litelink''"

definition SEALED :: string where "SEALED = ''sealed''"

definition COMPACTED :: string where "COMPACTED = ''compacted''"

definition INGESTED :: string where "INGESTED = ''ingested''"

definition S3_SCHEME :: string where "S3_SCHEME = ''s3://''"

definition LOCAL_SCHEME :: string where "LOCAL_SCHEME = ''file://''"

definition is_compacted :: "path \<Rightarrow> bool" where
  "is_compacted p = contains (''/data/'' @ COMPACTED @ ''/'') p"

record layout =
  ly_root :: parts
  ly_name :: string

definition directory :: "layout \<Rightarrow> parts" where
  "directory l = path_join (ly_root l) (ly_name l)"

definition buffer_db :: "layout \<Rightarrow> parts" where
  "buffer_db l = path_join (directory l) ''buffer.db''"

definition catalog_db :: "layout \<Rightarrow> parts" where
  "catalog_db l = path_join (directory l) ''catalog.db''"

definition legacy_catalog_db :: "layout \<Rightarrow> parts" where
  "legacy_catalog_db l = path_join (ly_root l) ''catalog.db''"

definition is_legacy :: "(parts \<Rightarrow> bool) \<Rightarrow> layout \<Rightarrow> bool" where
  "is_legacy exists l \<longleftrightarrow> exists (legacy_catalog_db l) \<and> \<not> exists (catalog_db l)"

definition catalog_uri :: "layout \<Rightarrow> string" where
  "catalog_uri l = ''sqlite:///'' @ absolute_text (catalog_db l)"

definition warehouse_uri :: "layout \<Rightarrow> string" where
  "warehouse_uri l = ''file://'' @ absolute_text (ly_root l)"

definition table_location :: "layout \<Rightarrow> string" where
  "table_location l = ''file://'' @ absolute_text (directory l)"

definition default_published :: "layout \<Rightarrow> string" where
  "default_published l = LOCAL_SCHEME @ absolute_text (path_join (directory l) ''published'')"

definition published_table_location :: "string \<Rightarrow> layout \<Rightarrow> string" where
  "published_table_location prefix l = rstrip CHR ''/'' prefix @ ''/'' @ ly_name l"

definition replication_config :: "layout \<Rightarrow> parts" where
  "replication_config l = path_join (directory l) ''litestream.yml''"

definition published_db :: "(parts \<Rightarrow> bool) \<Rightarrow> layout \<Rightarrow> parts" where
  "published_db exists l =
     (let legacy = path_join (directory l) ''archive.db''; current = path_join (directory l) ''published.db''
      in if exists legacy \<and> \<not> exists current then legacy else current)"

definition published_catalog_uri :: "(parts \<Rightarrow> bool) \<Rightarrow> layout \<Rightarrow> string" where
  "published_catalog_uri exists l = ''sqlite:///'' @ absolute_text (published_db exists l)"

definition databases :: "(parts \<Rightarrow> bool) \<Rightarrow> layout \<Rightarrow> parts list" where
  "databases exists l = [buffer_db l, catalog_db l, published_db exists l]"

definition table_id :: "layout \<Rightarrow> string" where
  "table_id l = NAMESPACE @ ''.'' @ ly_name l"

definition seal_path :: "layout \<Rightarrow> offset \<Rightarrow> offset \<Rightarrow> string \<Rightarrow> path" where
  "seal_path l a b token =
     ly_name l @ ''/data/'' @ SEALED @ ''/'' @ int_text a @ ''-'' @ int_text b @ ''-'' @ token @ ''.parquet''"

definition compaction_path :: "layout \<Rightarrow> offset \<Rightarrow> string \<Rightarrow> path" where
  "compaction_path l a token =
     ly_name l @ ''/data/'' @ COMPACTED @ ''/'' @ int_text a @ ''-'' @ token @ ''.parquet''"

definition ingest_path :: "layout \<Rightarrow> offset \<Rightarrow> string \<Rightarrow> path" where
  "ingest_path l a token =
     ly_name l @ ''/data/'' @ INGESTED @ ''/'' @ int_text a @ ''-'' @ token @ ''.parquet''"

definition absolute :: "layout \<Rightarrow> path \<Rightarrow> parts" where
  "absolute l p = path_join (ly_root l) p"

text \<open>None where \<open>relative_to\<close> raises: the path is not below the root.\<close>

definition relative :: "layout \<Rightarrow> path \<Rightarrow> path option" where
  "relative l p =
     (let q = remove_prefix p ''file://''; ps = path_parts q; n = length (ly_root l) in
      if starts_with q ''/'' \<and> take n ps = ly_root l then Some (relative_text (drop n ps)) else None)"

subsection \<open>The published prefix\<close>

definition published_remote :: "string \<Rightarrow> bool" where
  "published_remote p \<longleftrightarrow> starts_with p S3_SCHEME"

definition bucket_char :: "char \<Rightarrow> bool" where
  "bucket_char c \<longleftrightarrow> c \<in> set ''abcdefghijklmnopqrstuvwxyzABCDEFGHIJKLMNOPQRSTUVWXYZ0123456789.-_''"

datatype published_error =
    Not_absolute
  | Missing_slash string
  | Not_s3
  | No_bucket
  | Bad_bucket string

definition validate_published :: "string \<Rightarrow> published_error option" where
  "validate_published p =
     (if starts_with p LOCAL_SCHEME then
        (if starts_with p (LOCAL_SCHEME @ ''/'') then None else Some Not_absolute)
      else if \<not> starts_with p S3_SCHEME then
        (if starts_with p ''s3:'' then Some (Missing_slash (S3_SCHEME @ lstrip CHR ''/'' (drop 3 p))) else Some Not_s3)
      else (let bucket = before_first CHR ''/'' (remove_prefix p S3_SCHEME) in
        if bucket = [] then Some No_bucket
        else if list_all bucket_char bucket then None
        else Some (Bad_bucket bucket)))"

subsection \<open>Splitting and joining\<close>

definition plain_part :: "string \<Rightarrow> bool" where
  "plain_part p \<longleftrightarrow> p \<noteq> [] \<and> p \<noteq> ''.'' \<and> CHR ''/'' \<notin> set p"

lemma split_at_plain: "c \<notin> set p \<Longrightarrow> split_at c p = [p]"
  by (induction p) auto

lemma split_at_append: "c \<notin> set p \<Longrightarrow> split_at c (p @ c # s) = p # split_at c s"
  by (induction p) auto

lemma split_join: "ps \<noteq> [] \<Longrightarrow> \<forall>p \<in> set ps. c \<notin> set p \<Longrightarrow> split_at c (join_with c ps) = ps"
  by (induction c ps rule: join_with.induct) (auto simp: split_at_plain split_at_append)

lemma path_parts_join:
  assumes "list_all plain_part ps"
  shows "path_parts (join_with CHR ''/'' ps) = ps"
proof (cases "ps = []")
  case False
  with assms show ?thesis
    by (simp add: path_parts_def split_join plain_part_def list_all_iff filter_id_conv)
qed (simp add: path_parts_def)

lemma path_parts_absolute: "list_all plain_part ps \<Longrightarrow> path_parts (absolute_text ps) = ps"
  using path_parts_join by (simp add: absolute_text_def path_parts_def)

lemma join_not_absolute:
  assumes "list_all plain_part ps"
  shows "\<not> starts_with (join_with CHR ''/'' ps) ''/''"
proof (cases ps)
  case (Cons p qs)
  with assms obtain c s where "p = c # s" and "c \<noteq> CHR ''/''" by (cases p) (auto simp: plain_part_def)
  with Cons show ?thesis by (cases qs) (auto simp: starts_with_def)
qed (simp add: starts_with_def)

lemma joined_relative:
  assumes "list_all plain_part ps" and "ps \<noteq> []" and "list_all plain_part (ly_root l)"
  shows "absolute l (join_with CHR ''/'' ps) = ly_root l @ ps"
    and "relative l (absolute_text (ly_root l @ ps)) = Some (join_with CHR ''/'' ps)"
    and "relative l (''file://'' @ absolute_text (ly_root l @ ps)) = Some (join_with CHR ''/'' ps)"
proof -
  show "absolute l (join_with CHR ''/'' ps) = ly_root l @ ps"
    using assms join_not_absolute [OF assms(1)] by (simp add: absolute_def path_join_def path_parts_join)
  have parts: "path_parts (absolute_text (ly_root l @ ps)) = ly_root l @ ps"
    using assms by (intro path_parts_absolute) simp
  have bare: "remove_prefix (absolute_text q) ''file://'' = absolute_text q"
    "remove_prefix (''file://'' @ absolute_text q) ''file://'' = absolute_text q"
    "starts_with (absolute_text q) ''/''" for q
    by (simp_all add: remove_prefix_def absolute_text_def starts_with_def)
  show "relative l (absolute_text (ly_root l @ ps)) = Some (join_with CHR ''/'' ps)"
    "relative l (''file://'' @ absolute_text (ly_root l @ ps)) = Some (join_with CHR ''/'' ps)"
    unfolding relative_def Let_def bare parts using assms(2) by (simp_all add: bare relative_text_def)
qed

subsection \<open>The names of data files\<close>

datatype data_name = Sealed_file offset offset string | Compacted_file offset string | Ingested_file offset string

fun stored_name :: "layout \<Rightarrow> data_name \<Rightarrow> path" where
  "stored_name l (Sealed_file a b t) = seal_path l a b t"
| "stored_name l (Compacted_file a t) = compaction_path l a t"
| "stored_name l (Ingested_file a t) = ingest_path l a t"

fun kind_directory :: "data_name \<Rightarrow> string" where
  "kind_directory (Sealed_file a b t) = SEALED"
| "kind_directory (Compacted_file a t) = COMPACTED"
| "kind_directory (Ingested_file a t) = INGESTED"

fun file_text :: "data_name \<Rightarrow> string" where
  "file_text (Sealed_file a b t) = int_text a @ CHR ''-'' # int_text b @ CHR ''-'' # t @ ''.parquet''"
| "file_text (Compacted_file a t) = int_text a @ CHR ''-'' # t @ ''.parquet''"
| "file_text (Ingested_file a t) = int_text a @ CHR ''-'' # t @ ''.parquet''"

text \<open>Offsets are never negative, and a token is some of the digits of a UUID.\<close>

fun name_ok :: "data_name \<Rightarrow> bool" where
  "name_ok (Sealed_file a b t) \<longleftrightarrow> 0 \<le> a \<and> 0 \<le> b \<and> CHR ''/'' \<notin> set t"
| "name_ok (Compacted_file a t) \<longleftrightarrow> 0 \<le> a \<and> CHR ''/'' \<notin> set t"
| "name_ok (Ingested_file a t) \<longleftrightarrow> 0 \<le> a \<and> CHR ''/'' \<notin> set t"

lemmas directory_defs = SEALED_def COMPACTED_def INGESTED_def

lemma stored_name_join:
  "stored_name l k = join_with CHR ''/'' [ly_name l, ''data'', kind_directory k, file_text k]"
  by (cases k) (simp_all add: seal_path_def compaction_path_def ingest_path_def directory_defs)

lemma digit_in_text: "c \<in> set (nat_text n) \<Longrightarrow> is_digit c"
  using nat_text_digits [of n] by (auto simp: all_digits_def list_all_iff)

lemma digits_plain: "\<not> is_digit CHR ''/''" "\<not> is_digit CHR ''-''"
  by (simp_all add: is_digit_def)

lemma int_text_plain: "0 \<le> a \<Longrightarrow> CHR ''/'' \<notin> set (int_text a) \<and> CHR ''-'' \<notin> set (int_text a)"
  using digits_plain by (auto simp: int_text_def dest: digit_in_text)

lemma file_plain: "name_ok k \<Longrightarrow> plain_part (file_text k)"
  by (cases k) (auto simp: plain_part_def int_text_plain append_eq_Cons_conv)

lemma split_once: "c \<notin> set u \<Longrightarrow> c \<notin> set u' \<Longrightarrow> u @ c # v = u' @ c # v' \<longleftrightarrow> u = u' \<and> v = v'"
  by (induction u arbitrary: u') (auto simp: Cons_eq_append_conv append_eq_Cons_conv, (metis append_Nil list.exhaust list.inject list.set_intros(1) append_Cons)+)

lemma contains_iff: "contains p s \<longleftrightarrow> (\<exists>u v. s = u @ p @ v)"
proof (induction s)
  case (Cons c s)
  have "(\<exists>u v. c # s = u @ p @ v) \<longleftrightarrow> (\<exists>v. c # s = p @ v) \<or> (\<exists>u v. s = u @ p @ v)"
    by (metis append_Cons append_Nil list.exhaust list.inject)
  with Cons show ?case by (simp add: starts_with_iff)
qed simp

lemma kind_directory_plain: "plain_part (kind_directory k)"
  by (cases k) (simp_all add: directory_defs plain_part_def)

lemma compacted_directory:
  assumes n: "plain_part (ly_name l)" and k: "name_ok k"
  shows "is_compacted (stored_name l k) \<longleftrightarrow> kind_directory k = COMPACTED"
proof
  assume "is_compacted (stored_name l k)"
  then obtain u v where uv: "stored_name l k = u @ ''/data/'' @ COMPACTED @ ''/'' @ v"
    by (auto simp: is_compacted_def contains_iff)
  have no: "CHR ''/'' \<notin> set (ly_name l)" "CHR ''/'' \<notin> set (kind_directory k)" "CHR ''/'' \<notin> set (file_text k)"
    using n file_plain [OF k] kind_directory_plain by (auto simp: plain_part_def)
  then have "count_list (stored_name l k) CHR ''/'' = 3"
    by (simp add: stored_name_join count_list_0_iff)
  with uv have "count_list u CHR ''/'' = 0" "count_list v CHR ''/'' = 0"
    by (simp_all add: directory_defs)
  then have uv_no: "CHR ''/'' \<notin> set u" "CHR ''/'' \<notin> set v" by (simp_all add: count_list_0_iff)
  have "ly_name l @ CHR ''/'' # ''data/'' @ kind_directory k @ CHR ''/'' # file_text k =
      u @ CHR ''/'' # ''data/'' @ COMPACTED @ CHR ''/'' # v"
    using uv by (simp add: stored_name_join)
  then have "kind_directory k @ CHR ''/'' # file_text k = COMPACTED @ CHR ''/'' # v"
    unfolding split_once [OF no(1) uv_no(1)] by simp
  then show "kind_directory k = COMPACTED"
    using split_once [OF no(2), of COMPACTED] by (simp add: directory_defs)
next
  assume "kind_directory k = COMPACTED"
  then have "stored_name l k = ly_name l @ (''/data/'' @ COMPACTED @ ''/'') @ file_text k"
    by (simp add: stored_name_join)
  then show "is_compacted (stored_name l k)" unfolding is_compacted_def contains_iff by blast
qed

lemma int_text_same: "0 \<le> a \<Longrightarrow> 0 \<le> b \<Longrightarrow> int_text a = int_text b \<Longrightarrow> a = b"
  by (metis text_int_roundtrip option.inject)

lemma file_text_inj:
  assumes "name_ok k" and "name_ok k'" and "kind_directory k = kind_directory k'" and "file_text k = file_text k'"
  shows "k = k'"
proof -
  have one: "int_text a @ CHR ''-'' # s = int_text b @ CHR ''-'' # s' \<Longrightarrow> 0 \<le> a \<Longrightarrow> 0 \<le> b \<Longrightarrow> a = b \<and> s = s'" for a b s s'
    using split_once [of "CHR ''-''" "int_text a" "int_text b"] int_text_plain int_text_same by blast
  from assms show ?thesis
    by (cases k; cases k') (auto simp: directory_defs dest!: one)
qed

text \<open>The names stored for data files identify them. Under a log whose root and name are plain, the
  absolute path or URI of a stored name turns back into that name; two names reach one path only if
  they are the same kind, offsets and token; and a file is recognised as a merge's output by its path
  exactly when it was named as one.\<close>

theorem names_identify_files:
  assumes root: "list_all plain_part (ly_root l)" and name: "plain_part (ly_name l)"
    and k: "name_ok k" and k': "name_ok k'"
  shows "relative l (absolute_text (absolute l (stored_name l k))) = Some (stored_name l k) \<and>
    relative l (''file://'' @ absolute_text (absolute l (stored_name l k))) = Some (stored_name l k) \<and>
    (absolute l (stored_name l k) = absolute l (stored_name l k') \<longleftrightarrow> k = k') \<and>
    (is_compacted (stored_name l k) \<longleftrightarrow> (\<exists>a t. k = Compacted_file a t))"
proof -
  have plain: "list_all plain_part [ly_name l, ''data'', kind_directory j, file_text j]" if "name_ok j" for j
    using name file_plain [OF that] kind_directory_plain by (simp add: plain_part_def)
  note joined = joined_relative [OF plain _ root, folded stored_name_join]
  have "is_compacted (stored_name l k) \<longleftrightarrow> (\<exists>a t. k = Compacted_file a t)"
    unfolding compacted_directory [OF name k] by (cases k) (simp_all add: directory_defs)
  with file_text_inj [OF k k'] joined [OF k] joined(1) [OF k'] show ?thesis by auto
qed

lemma names_identify_files_witness:
  "relative \<lparr>ly_root = [''srv'', ''logs''], ly_name = ''ticks''\<rparr> ''/srv/logs/ticks/data/sealed/1-9-ab12.parquet'' =
     Some ''ticks/data/sealed/1-9-ab12.parquet'' \<and>
   is_compacted (stored_name \<lparr>ly_root = [''srv'', ''logs''], ly_name = ''ticks''\<rparr> (Compacted_file 1 ''ab12''))"
proof -
  let ?l = "\<lparr>ly_root = [''srv'', ''logs''], ly_name = ''ticks''\<rparr>"
  have "list_all plain_part (ly_root ?l)" "plain_part (ly_name ?l)" by (simp_all add: plain_part_def)
  note th = names_identify_files [OF this]
  have "stored_name ?l (Sealed_file 1 9 ''ab12'') = ''ticks/data/sealed/1-9-ab12.parquet''"
    by (simp add: seal_path_def SEALED_def int_text_def nat_text.simps digit_def char_of_def bit_0)
  moreover have "absolute_text (absolute ?l ''ticks/data/sealed/1-9-ab12.parquet'') =
      ''/srv/logs/ticks/data/sealed/1-9-ab12.parquet''"
    by (simp add: absolute_def path_join_def path_parts_def starts_with_def absolute_text_def)
  moreover have "name_ok (Sealed_file 1 9 ''ab12'')" "name_ok (Compacted_file 1 ''ab12'')" by simp_all
  ultimately show ?thesis
    using th [of "Sealed_file 1 9 ''ab12''" "Sealed_file 1 9 ''ab12''"]
      th [of "Compacted_file 1 ''ab12''" "Compacted_file 1 ''ab12''"] by simp
qed

end
