(* ===== verification/Base64.thy ===== *)
theory Base64
  imports Litelink_Prelude
begin

text \<open>
  \<open>base64.b64encode\<close> and \<open>base64.b64decode\<close> of Python's library, on byte lists and ASCII text: how a
  nested column stores bytes as JSON (\<^verbatim>\<open>src/litelink/_types.py\<close>).
\<close>

definition b64_char :: "nat \<Rightarrow> char" where
  "b64_char n = char_of (if n < 26 then 65 + n else if n < 52 then 71 + n else if n < 62 then n - 4
     else if n = 62 then 43 else (47 :: nat))"

definition b64_value :: "char \<Rightarrow> nat" where
  "b64_value c = (let n = of_char c :: nat in
     if 97 \<le> n then n - 71 else if 65 \<le> n then n - 65 else if 48 \<le> n then n + 4
     else if n = 43 then 62 else 63)"

fun b64encode :: "nat list \<Rightarrow> string" where
  "b64encode [] = []"
| "b64encode [a] = [b64_char (a div 4), b64_char (a mod 4 * 16), CHR ''='', CHR ''='']"
| "b64encode [a, b] =
     [b64_char (a div 4), b64_char (a mod 4 * 16 + b div 16), b64_char (b mod 16 * 4), CHR ''='']"
| "b64encode (a # b # c # xs) =
     b64_char (a div 4) # b64_char (a mod 4 * 16 + b div 16) # b64_char (b mod 16 * 4 + c div 64)
       # b64_char (c mod 64) # b64encode xs"

text \<open>None where the text is not whole groups of four characters, which Python refuses.\<close>

fun b64decode :: "string \<Rightarrow> nat list option" where
  "b64decode [] = Some []"
| "b64decode (w # x # y # z # s) =
     (let a = b64_value w * 4 + b64_value x div 16;
          b = b64_value x mod 16 * 16 + b64_value y div 4;
          c = b64_value y mod 4 * 64 + b64_value z
      in if y = CHR ''='' \<and> z = CHR ''='' \<and> s = [] then Some [a]
         else if z = CHR ''='' \<and> s = [] then Some [a, b]
         else map_option (\<lambda>xs. a # b # c # xs) (b64decode s))"
| "b64decode _ = None"

definition is_bytes :: "nat list \<Rightarrow> bool" where
  "is_bytes xs \<longleftrightarrow> (\<forall>x \<in> set xs. x < 256)"

lemma of_char_b64: "n < 64 \<Longrightarrow> of_char (b64_char n) =
    (if n < 26 then 65 + n else if n < 52 then 71 + n else if n < 62 then n - 4
     else if n = 62 then 43 else (47 :: nat))"
  by (simp add: b64_char_def)

lemma b64_value_char [simp]: "n < 64 \<Longrightarrow> b64_value (b64_char n) = n"
  unfolding b64_value_def Let_def of_char_b64 by (auto split: if_splits)

lemma b64_char_not_pad [simp]: "n < 64 \<Longrightarrow> b64_char n \<noteq> CHR ''=''"
proof
  assume n: "n < 64" and "b64_char n = CHR ''=''"
  then have "of_char (b64_char n) = (of_char CHR ''='' :: nat)" by simp
  also have "\<dots> = 61" by simp
  finally show False using of_char_b64 [OF n] n by (auto split: if_splits)
qed

lemma pack:
  assumes "(p::nat) < m" and "q < n"
  shows "p * n + q < m * n" "(p * n + q) div n = p" "(p * n + q) mod n = q"
proof -
  have "p * n + q < (p + 1) * n" using assms(2) by simp
  also have "\<dots> \<le> m * n" using assms(1) by (intro mult_le_mono1) simp
  finally show "p * n + q < m * n" .
qed (use assms(2) in simp_all)

lemma byte_parts:
  assumes "(a::nat) < 256"
  shows "a div 4 < 64" "a mod 4 < 4" "a mod 16 < 16" "a mod 64 < 64" "a div 16 < 16" "a div 64 < 4"
    "a mod 4 * 16 < 64" "a mod 16 * 4 < 64"
  using assms by auto

lemma b64decode_four:
  assumes "w < 64" "x < 64" "y < 64" "z < 64"
  shows "b64decode (b64_char w # b64_char x # b64_char y # b64_char z # s) =
    map_option (\<lambda>xs. (w * 4 + x div 16) # (x mod 16 * 16 + y div 4) # (y mod 4 * 64 + z) # xs) (b64decode s)"
  using assms by (simp add: Let_def)

lemma b64_roundtrip: "is_bytes xs \<Longrightarrow> b64decode (b64encode xs) = Some xs"
proof (induction xs rule: b64encode.induct)
  case (2 a)
  then have a: "a < 256" by (simp add: is_bytes_def)
  show ?case using byte_parts [OF a] by (simp add: Let_def)
next
  case (3 a b)
  then have a: "a < 256" "b < 256" by (simp_all add: is_bytes_def)
  note p = byte_parts [OF a(1)] byte_parts [OF a(2)]
  from pack [OF p(2) p(13)] p show ?case by (simp add: Let_def)
next
  case (4 a b c xs)
  then have a: "a < 256" "b < 256" "c < 256" by (simp_all add: is_bytes_def)
  note p = byte_parts [OF a(1)] byte_parts [OF a(2)] byte_parts [OF a(3)]
  note x = pack [OF p(2) p(13)] and y = pack [OF p(11) p(22)]
  have lt: "a div 4 < 64" "a mod 4 * 16 + b div 16 < 64" "b mod 16 * 4 + c div 64 < 64" "c mod 64 < 64"
    using p(1,20) x(1) y(1) by simp_all
  have eqs: "a div 4 * 4 + a mod 4 = a" "b div 16 * 16 + b mod 16 = b" "c div 64 * 64 + c mod 64 = c"
    by simp_all
  from 4 have "b64decode (b64encode xs) = Some xs" by (simp add: is_bytes_def)
  then show ?case
    unfolding b64encode.simps b64decode_four [OF lt] by (simp only: x(2,3) y(2,3) eqs option.map)
qed simp_all

end
