(* ===== verification/Column_Types.thy ===== *)
theory Column_Types
  imports Arrow Base64
begin

text \<open>
  The column types a log can carry (\<^verbatim>\<open>src/litelink/_types.py\<close>: \<open>ColumnType\<close>, \<open>_SUPPORTED\<close>, \<open>_REASONS\<close>,
  \<open>column_type\<close>, \<open>validate_schema\<close>, the build half of \<open>_encoder\<close>, \<open>_duckdb\<close>, \<open>slot_bits\<close>,
  \<open>size_bits\<close>). A TypeError is a value; the field it names is the text the source builds.
\<close>

subsection \<open>How a type is carried\<close>

datatype affinity = INTEGER_column | REAL_column | TEXT_column | BLOB_column

datatype carrier = C_int | C_float | C_str | C_bool | C_bytes | C_bytearray | C_none

record column_kind =
  ct_sqlite :: affinity
  ct_duckdb :: string
  ct_carriers :: "carrier list"
  ct_bounds :: "(rat \<times> rat) option"
  ct_exact_int :: "int option"
  ct_variable_length :: bool
  ct_width :: "nat option"
  ct_nested :: bool

definition INT32 :: "int \<times> int" where
  "INT32 = (- (2 ^ 31), 2 ^ 31 - 1)"

definition INT64 :: "int \<times> int" where
  "INT64 = (- (2 ^ 63), 2 ^ 63 - 1)"

text \<open>The double nearest to \<open>3.4028235e38\<close>, exactly.\<close>

definition FLOAT32 :: "rat \<times> rat" where
  "FLOAT32 = (- 340282349999999991754788743781432688640, 340282349999999991754788743781432688640)"

definition column_kind_of ::
  "affinity \<Rightarrow> string \<Rightarrow> carrier list \<Rightarrow> (rat \<times> rat) option \<Rightarrow> int option \<Rightarrow> bool \<Rightarrow> column_kind" where
  "column_kind_of a q cs b e v =
     \<lparr>ct_sqlite = a, ct_duckdb = q, ct_carriers = cs, ct_bounds = b, ct_exact_int = e,
      ct_variable_length = v, ct_width = None, ct_nested = False\<rparr>"

text \<open>\<open>_SUPPORTED\<close> and the \<open>fixed_size_binary\<close> case of \<open>column_type\<close>.\<close>

fun plain_type :: "pa_type \<Rightarrow> column_kind option" where
  "plain_type Pa_bool = Some (column_kind_of INTEGER_column ''BOOLEAN'' [C_bool, C_none] None None False)"
| "plain_type (Pa_int n) =
     (if n = 32 then Some (column_kind_of INTEGER_column ''INTEGER'' [C_int, C_none]
         (Some (of_int (fst INT32), of_int (snd INT32))) None False)
      else if n = 64 then Some (column_kind_of INTEGER_column ''BIGINT'' [C_int, C_none] None None False)
      else None)"
| "plain_type (Pa_float n) =
     (if n = 32 then Some (column_kind_of REAL_column ''FLOAT'' [C_float, C_int, C_none] (Some FLOAT32)
         (Some (2 ^ 24)) False)
      else if n = 64 then Some (column_kind_of REAL_column ''DOUBLE'' [C_float, C_int, C_none] None
         (Some (2 ^ 53)) False)
      else None)"
| "plain_type Pa_string = Some (column_kind_of TEXT_column ''VARCHAR'' [C_str, C_none] None None True)"
| "plain_type Pa_large_string = Some (column_kind_of TEXT_column ''VARCHAR'' [C_str, C_none] None None True)"
| "plain_type Pa_binary =
     Some (column_kind_of BLOB_column ''BLOB'' [C_bytes, C_bytearray, C_none] None None True)"
| "plain_type (Pa_fixed_binary w) =
     Some ((column_kind_of BLOB_column ''BLOB'' [C_bytes, C_bytearray, C_none] None None False)\<lparr>ct_width := Some w\<rparr>)"
| "plain_type _ = None"

datatype reason = No_unsigned | Widened_to_int32 | Declare_binary | Declare_list | Unions_as_structs
  | Time_as_int64 | No_decimal_affinity | No_reason

text \<open>\<open>_REASONS\<close>, in order.\<close>

fun refusal_reason :: "pa_type \<Rightarrow> reason" where
  "refusal_reason (Pa_uint n) = No_unsigned"
| "refusal_reason (Pa_int n) = (if n = 8 \<or> n = 16 then Widened_to_int32 else No_reason)"
| "refusal_reason Pa_large_binary = Declare_binary"
| "refusal_reason Pa_other_list = Declare_list"
| "refusal_reason Pa_union = Unions_as_structs"
| "refusal_reason Pa_temporal = Time_as_int64"
| "refusal_reason Pa_decimal = No_decimal_affinity"
| "refusal_reason t = No_reason"

datatype type_error =
    Unsupported pa_type reason
  | In_field string type_error
  | No_fields string
  | Duplicate_fields string "string list"
  | Bad_map_key string pa_type
  | In_column string type_error

fun nested_type :: "pa_type \<Rightarrow> bool" where
  "nested_type (Pa_struct fs) = True"
| "nested_type (Pa_map k n v) = True"
| "nested_type (Pa_list n t) = True"
| "nested_type _ = False"

definition map_key_type :: "pa_type \<Rightarrow> bool" where
  "map_key_type t \<longleftrightarrow> t = Pa_string \<or> t = Pa_large_string \<or> pa_integer t"

definition first_error :: "'e option list \<Rightarrow> 'e option" where
  "first_error es = (case find (\<lambda>e. e \<noteq> None) es of None \<Rightarrow> None | Some e \<Rightarrow> e)"

definition sub_field :: "string \<Rightarrow> string \<Rightarrow> string" where
  "sub_field loc name = (if loc = [] then name else loc @ ''.'' @ name)"

text \<open>Building the encoder of a nested column: the TypeError it raises, or None. A struct whose names
  are all declared once builds each field's encoder in order.\<close>

fun encoder_error :: "string \<Rightarrow> pa_type \<Rightarrow> type_error option" where
  "encoder_error loc (Pa_struct fs) =
     (let names = map fst fs; label = (if loc = [] then ''the top level'' else loc) in
      if fs = [] then Some (No_fields label)
      else if \<not> distinct names then Some (Duplicate_fields label names)
      else first_error (map (\<lambda>(n, b, t). encoder_error (sub_field loc n) t) fs))"
| "encoder_error loc (Pa_map k n v) =
     (if \<not> map_key_type k then Some (Bad_map_key (if loc = [] then ''at the top level'' else loc) k)
      else (case encoder_error (loc @ ''[key]'') k of
              Some e \<Rightarrow> Some e | None \<Rightarrow> encoder_error (loc @ ''[]'') v))"
| "encoder_error loc (Pa_list n t) = encoder_error (loc @ ''[]'') t"
| "encoder_error loc t = (case plain_type t of
     Some k \<Rightarrow> None | None \<Rightarrow> Some (In_field loc (Unsupported t (refusal_reason t))))"

fun quoted :: "string \<Rightarrow> string" where
  "quoted [] = []"
| "quoted (c # s) = (if c = CHR 0x22 then [c, c] else [c]) @ quoted s"

definition commas :: "string list \<Rightarrow> string" where
  "commas xs = (case xs of [] \<Rightarrow> [] | y # ys \<Rightarrow> y @ concat (map (\<lambda>x. '', '' @ x) ys))"

fun duckdb_type :: "pa_type \<Rightarrow> string" where
  "duckdb_type (Pa_struct fs) = ''STRUCT('' @
     commas (map (\<lambda>(n, b, t). [CHR 0x22] @ quoted n @ [CHR 0x22] @ '' '' @ duckdb_type t) fs) @ '')''"
| "duckdb_type (Pa_map k n v) = ''MAP('' @ duckdb_type k @ '', '' @ duckdb_type v @ '')''"
| "duckdb_type (Pa_list n t) = duckdb_type t @ ''[]''"
| "duckdb_type t = (case plain_type t of None \<Rightarrow> [] | Some k \<Rightarrow> ct_duckdb k)"

definition column_type :: "pa_type \<Rightarrow> type_error + column_kind" where
  "column_type t =
     (case plain_type t of
        Some k \<Rightarrow> Inr k
      | None \<Rightarrow>
          if nested_type t then (case encoder_error [] t of
            Some e \<Rightarrow> Inl e
          | None \<Rightarrow> Inr ((column_kind_of TEXT_column (duckdb_type t) [C_str, C_none] None None True)
                           \<lparr>ct_nested := True\<rparr>))
          else Inl (Unsupported t (refusal_reason t)))"

definition validate_schema :: "pa_schema \<Rightarrow> type_error option" where
  "validate_schema fs = first_error (map (\<lambda>(n, b, t).
     case column_type t of Inl e \<Rightarrow> Some (In_column n e) | Inr k \<Rightarrow> None) fs)"

subsection \<open>Arrow sizes\<close>

text \<open>None where the source raises for a type it has no size model of.\<close>

fun slot_bits :: "pa_type \<Rightarrow> nat option" where
  "slot_bits Pa_bool = Some 2"
| "slot_bits (Pa_fixed_binary w) = Some (8 * w + 1)"
| "slot_bits (Pa_int n) = Some (n + 1)"
| "slot_bits (Pa_uint n) = Some (n + 1)"
| "slot_bits (Pa_float n) = Some (n + 1)"
| "slot_bits Pa_large_string = Some 65"
| "slot_bits Pa_large_binary = Some 65"
| "slot_bits Pa_string = Some 33"
| "slot_bits Pa_binary = Some 33"
| "slot_bits (Pa_struct fs) =
     map_option (\<lambda>ns. 1 + sum_list ns) (those (map (\<lambda>(n, b, t). slot_bits t) fs))"
| "slot_bits (Pa_list n t) = Some 33"
| "slot_bits (Pa_map k n v) = Some 33"
| "slot_bits _ = None"

text \<open>Whether \<open>size_bits\<close> of a type is a function rather than None.\<close>

fun sized :: "pa_type \<Rightarrow> bool" where
  "sized (Pa_struct fs) = list_ex (\<lambda>(n, b, t). sized t) fs"
| "sized t = (t = Pa_string \<or> t = Pa_large_string \<or> t = Pa_binary \<or> t = Pa_large_binary \<or>
     (case t of Pa_list n u \<Rightarrow> True | Pa_map k n v \<Rightarrow> True | _ \<Rightarrow> False))"

text \<open>A dict is looked up by a string key.\<close>

definition dict_get :: "string \<Rightarrow> (pyval \<times> pyval) list \<Rightarrow> pyval" where
  "dict_get n kv = (case map_of kv (PStr n) of None \<Rightarrow> PNone | Some v \<Rightarrow> v)"

text \<open>The pairs a map value holds, of a dict or of a list of pairs.\<close>

fun pair_of :: "pyval \<Rightarrow> (pyval \<times> pyval) option" where
  "pair_of (PList [k, v]) = Some (k, v)"
| "pair_of _ = None"

fun entries_of :: "pyval \<Rightarrow> (pyval \<times> pyval) list" where
  "entries_of (PDict kv) = kv"
| "entries_of (PList vs) = List.map_filter pair_of vs"
| "entries_of _ = []"

fun items_of :: "pyval \<Rightarrow> pyval list" where
  "items_of (PList vs) = vs"
| "items_of _ = []"

fun text_bytes :: "pyval \<Rightarrow> nat" where
  "text_bytes (PStr s) = length s"
| "text_bytes (PBytes b) = length b"
| "text_bytes _ = 0"

fun dict_of :: "pyval \<Rightarrow> (pyval \<times> pyval) list" where
  "dict_of (PDict kv) = kv"
| "dict_of _ = []"

definition unless_none :: "(pyval \<Rightarrow> nat) \<Rightarrow> pyval \<Rightarrow> nat" where
  "unless_none f v = (if v = PNone then 0 else f v)"

text \<open>\<open>size_bits\<close>, 0 for a type it has no function for.\<close>

fun size_bits :: "pa_type \<Rightarrow> pyval \<Rightarrow> nat" where
  "size_bits (Pa_struct fs) v =
     sum_list (map (\<lambda>(n, b, t). unless_none (size_bits t) (dict_get n (dict_of v))) fs)"
| "size_bits (Pa_list n t) v =
     the (slot_bits t) * length (items_of v) + sum_list (map (unless_none (size_bits t)) (items_of v))"
| "size_bits (Pa_map k n t) v =
     sum_list (map (\<lambda>(key, item). the (slot_bits k) + the (slot_bits t) + 1 + size_bits k key
       + unless_none (size_bits t) item) (entries_of v))"
| "size_bits t v = (if t = Pa_string \<or> t = Pa_large_string \<or> t = Pa_binary \<or> t = Pa_large_binary
     then 8 * text_bytes v else 0)"

end
