(* ===== verification/Config.thy ===== *)
theory Config
  imports Layout Column_Types "HOL-Library.Monad_Syntax"
begin

text \<open>
  The operational policy (\<^verbatim>\<open>src/litelink/_config.py\<close>), its JSON, and the rules a configuration must
  pass (\<open>validate\<close> of \<^verbatim>\<open>src/litelink/_handle.py\<close>). A \<open>timedelta\<close> is its microseconds. The JSON holds
  seconds as a double, so \<open>total_seconds\<close> and \<open>timedelta(seconds=...)\<close> are computed here with their
  rounding: \<open>double_of\<close> is the nearest double of a rational, ties to even.
\<close>

subsection \<open>The settings\<close>

type_synonym duration = int

record log_config =
  target_seal_size :: int
  target_seal_rows :: "int option"
  target_compact_size :: "int option"
  target_compact_step_size :: "int option"
  target_row_group_size :: int
  target_row_group_rows :: "int option"
  staging_retention :: "duration option"
  staging_max_bytes :: "int option"
  wal_replication :: bool
  vacuum_free_ratio :: "pyfloat option"
  wal_retention :: "duration option"
  staging_snapshot_retention :: duration
  published_snapshot_retention :: duration
  compact_min_files :: int
  compression :: string

definition DEFAULT_COMPACT_SIZE :: int where
  "DEFAULT_COMPACT_SIZE = 512 * 1024 * 1024"

definition DEFAULT_ROW_GROUP_SIZE :: int where
  "DEFAULT_ROW_GROUP_SIZE = 64 * 1024 * 1024"

definition DEFAULT_STAGING_MAX_BYTES :: int where
  "DEFAULT_STAGING_MAX_BYTES = 4 * 1024 * 1024 * 1024"

definition second :: duration where "second = 1000000"

definition defaults :: log_config where
  "defaults = \<lparr>target_seal_size = 8 * 1024 * 1024, target_seal_rows = None,
     target_compact_size = None, target_compact_step_size = None,
     target_row_group_size = DEFAULT_ROW_GROUP_SIZE, target_row_group_rows = None,
     staging_retention = None, staging_max_bytes = Some DEFAULT_STAGING_MAX_BYTES,
     wal_replication = False, vacuum_free_ratio = None, wal_retention = None,
     staging_snapshot_retention = 15 * 60 * second, published_snapshot_retention = 60 * 60 * second,
     compact_min_files = 4, compression = ''zstd''\<rparr>"

text \<open>\<open>x or default\<close>: 0 is as good as None.\<close>

definition compact_size :: "log_config \<Rightarrow> int" where
  "compact_size c = (case target_compact_size c of None \<Rightarrow> DEFAULT_COMPACT_SIZE
                     | Some n \<Rightarrow> if n = 0 then DEFAULT_COMPACT_SIZE else n)"

definition compact_step :: "log_config \<Rightarrow> int" where
  "compact_step c = (case target_compact_step_size c of Some n \<Rightarrow> n | None \<Rightarrow> max 1 (compact_size c div 8))"

subsection \<open>Seconds as doubles\<close>

fun ilog2 :: "nat \<Rightarrow> nat" where
  "ilog2 n = (if n < 2 then 0 else Suc (ilog2 (n div 2)))"

declare ilog2.simps [simp del]

definition round_half_even :: "rat \<Rightarrow> int" where
  "round_half_even x = (let f = \<lfloor>x\<rfloor>; r = x - of_int f in
     if r < 1 / 2 then f else if 1 / 2 < r then f + 1 else if even f then f else f + 1)"

text \<open>The exponent \<open>e\<close> of a positive rational, \<open>2 ^ e \<le> x < 2 ^ (e + 1)\<close>, and its nearest double.\<close>

definition binary_exponent :: "rat \<Rightarrow> int" where
  "binary_exponent x = (case quotient_of x of (p, q) \<Rightarrow>
     let k = int (ilog2 (nat p)) - int (ilog2 (nat q)) in if 2 powi k \<le> x then k else k - 1)"

definition double_of :: "rat \<Rightarrow> rat" where
  "double_of x =
     (if x = 0 then 0
      else let u = 2 powi (binary_exponent \<bar>x\<bar> - 52) in of_int (round_half_even (x / u)) * u)"

definition total_seconds :: "duration \<Rightarrow> rat" where
  "total_seconds d = double_of (of_int d / 1000000)"

definition truncated :: "rat \<Rightarrow> int" where
  "truncated x = (if 0 \<le> x then \<lfloor>x\<rfloor> else \<lceil>x\<rceil>)"

text \<open>\<open>timedelta(seconds=x)\<close>: whole seconds exactly, the fraction through one multiplication of doubles.\<close>

definition from_seconds :: "rat \<Rightarrow> duration" where
  "from_seconds x = round_half_even (of_int (truncated x * 1000000) + double_of ((x - of_int (truncated x)) * 1000000))"

subsection \<open>JSON\<close>

definition json_opt :: "('a \<Rightarrow> json) \<Rightarrow> 'a option \<Rightarrow> json" where
  "json_opt f v = (case v of None \<Rightarrow> JNull | Some x \<Rightarrow> f x)"

definition json_seconds :: "duration \<Rightarrow> json" where
  "json_seconds d = JFloat (FVal (Fin (total_seconds d)))"

definition to_json :: "log_config \<Rightarrow> json" where
  "to_json c = JObj
     [(''target_seal_size'', JInt (target_seal_size c)),
      (''target_compact_size'', json_opt JInt (target_compact_size c)),
      (''target_compact_step_size'', json_opt JInt (target_compact_step_size c)),
      (''target_seal_rows'', json_opt JInt (target_seal_rows c)),
      (''target_row_group_size'', JInt (target_row_group_size c)),
      (''target_row_group_rows'', json_opt JInt (target_row_group_rows c)),
      (''staging_retention'', json_opt json_seconds (staging_retention c)),
      (''staging_max_bytes'', json_opt JInt (staging_max_bytes c)),
      (''wal_replication'', JBool (wal_replication c)),
      (''vacuum_free_ratio'', json_opt JFloat (vacuum_free_ratio c)),
      (''wal_retention'', json_opt json_seconds (wal_retention c)),
      (''staging_snapshot_retention'', json_seconds (staging_snapshot_retention c)),
      (''published_snapshot_retention'', json_seconds (published_snapshot_retention c)),
      (''compact_min_files'', JInt (compact_min_files c)),
      (''compression'', JStr (compression c))]"

text \<open>Reading a setting back: None where the document holds a value no version of litelink wrote there.\<close>

fun as_int :: "json \<Rightarrow> int option" where
  "as_int (JInt i) = Some i"
| "as_int _ = None"

fun as_bool :: "json \<Rightarrow> bool option" where
  "as_bool (JBool b) = Some b"
| "as_bool _ = None"

fun as_str :: "json \<Rightarrow> string option" where
  "as_str (JStr s) = Some s"
| "as_str _ = None"

fun as_float :: "json \<Rightarrow> pyfloat option" where
  "as_float (JFloat f) = Some f"
| "as_float (JInt i) = Some (FVal (Fin (of_int i)))"
| "as_float _ = None"

fun as_duration :: "json \<Rightarrow> duration option" where
  "as_duration (JInt i) = Some (i * 1000000)"
| "as_duration (JFloat (FVal (Fin x))) = Some (from_seconds x)"
| "as_duration _ = None"

definition nullable :: "(json \<Rightarrow> 'a option) \<Rightarrow> json \<Rightarrow> 'a option option" where
  "nullable f j = (if j = JNull then Some None else map_option Some (f j))"

definition setting :: "(string \<rightharpoonup> json) \<Rightarrow> string \<Rightarrow> (json \<Rightarrow> 'a option) \<Rightarrow> 'a \<Rightarrow> 'a option" where
  "setting raw key f d = (case raw key of None \<Rightarrow> Some d | Some j \<Rightarrow> f j)"

text \<open>\<open>raw.get(key, legacy)\<close>, with the default for null; and the name \<open>staging_retention\<close> had.\<close>

definition snapshot_setting :: "(string \<rightharpoonup> json) \<Rightarrow> string \<Rightarrow> duration \<Rightarrow> duration option" where
  "snapshot_setting raw key d =
     (let stored = (case raw key of Some j \<Rightarrow> j
                    | None \<Rightarrow> (case raw ''snapshot_retention'' of Some j \<Rightarrow> j | None \<Rightarrow> JNull))
      in if stored = JNull then Some d else as_duration stored)"

definition retention_setting :: "(string \<rightharpoonup> json) \<Rightarrow> duration option option" where
  "retention_setting raw =
     (case raw ''staging_retention'' of
        Some j \<Rightarrow> nullable as_duration j
      | None \<Rightarrow> setting raw ''local_retention'' (nullable as_duration) (staging_retention defaults))"

definition from_raw :: "(string \<rightharpoonup> json) \<Rightarrow> log_config option" where
  "from_raw raw =
     do {
       seal \<leftarrow> setting raw ''target_seal_size'' as_int (target_seal_size defaults);
       target \<leftarrow> setting raw ''target_compact_size'' (nullable as_int) (target_compact_size defaults);
       step \<leftarrow> setting raw ''target_compact_step_size'' (nullable as_int) (target_compact_step_size defaults);
       rows \<leftarrow> setting raw ''target_seal_rows'' (nullable as_int) (target_seal_rows defaults);
       groups \<leftarrow> setting raw ''target_row_group_size'' as_int (target_row_group_size defaults);
       group_rows \<leftarrow> setting raw ''target_row_group_rows'' (nullable as_int) (target_row_group_rows defaults);
       retention \<leftarrow> retention_setting raw;
       bytes \<leftarrow> setting raw ''staging_max_bytes'' (nullable as_int) (staging_max_bytes defaults);
       wal \<leftarrow> setting raw ''wal_replication'' as_bool (wal_replication defaults);
       ratio \<leftarrow> setting raw ''vacuum_free_ratio'' (nullable as_float) (vacuum_free_ratio defaults);
       depth \<leftarrow> setting raw ''wal_retention'' (nullable as_duration) (wal_retention defaults);
       staging \<leftarrow> snapshot_setting raw ''staging_snapshot_retention'' (staging_snapshot_retention defaults);
       published \<leftarrow> snapshot_setting raw ''published_snapshot_retention'' (published_snapshot_retention defaults);
       files \<leftarrow> setting raw ''compact_min_files'' as_int (compact_min_files defaults);
       codec \<leftarrow> setting raw ''compression'' as_str (compression defaults);
       Some \<lparr>target_seal_size = seal, target_seal_rows = rows, target_compact_size = target,
         target_compact_step_size = step, target_row_group_size = groups, target_row_group_rows = group_rows,
         staging_retention = retention, staging_max_bytes = bytes, wal_replication = wal,
         vacuum_free_ratio = ratio, wal_retention = depth, staging_snapshot_retention = staging,
         published_snapshot_retention = published, compact_min_files = files, compression = codec\<rparr>
     }"

definition from_json :: "json \<Rightarrow> log_config option" where
  "from_json j = (case j of JObj kvs \<Rightarrow> from_raw (map_of (rev kvs)) | _ \<Rightarrow> None)"

subsection \<open>The rules of a configuration\<close>

datatype config_error =
    Offset_in_schema
  | Schema_refused type_error
  | Published_refused published_error
  | Sort_unknown "string list"
  | Sort_nested "string list"
  | Negative_snapshot_retention string
  | Bad_max_bytes
  | Unbounded_staging
  | Negative_retention
  | Needs_remote
  | Bad_free_ratio
  | Wal_retention_unused
  | Wal_retention_not_positive
  | Min_files_below_two
  | Bad_seal_rows
  | Bad_compact_size
  | Bad_compact_step
  | Bad_row_group_size
  | Bad_row_group_rows
  | Unknown_codec string

definition CODECS :: "string list" where
  "CODECS = [''none'', ''snappy'', ''gzip'', ''zstd'']"

definition share :: "pyfloat \<Rightarrow> bool" where
  "share f = (case f of FVal x \<Rightarrow> Fin 0 \<le> x \<and> x \<le> Fin 1 | NaN \<Rightarrow> False)"

text \<open>The rules in order, each with the error of breaking it; the first broken one is raised.\<close>

definition nested_column :: "pa_schema \<Rightarrow> string \<Rightarrow> bool" where
  "nested_column fs c = (case map_of fs c of
     Some (b, t) \<Rightarrow> (case column_type t of Inr k \<Rightarrow> ct_nested k | Inl e \<Rightarrow> False) | None \<Rightarrow> False)"

definition config_rules :: "log_config \<Rightarrow> string option \<Rightarrow> (bool \<times> config_error) list" where
  "config_rules c published =
     [(staging_snapshot_retention c < 0, Negative_snapshot_retention ''staging_snapshot_retention''),
      (published_snapshot_retention c < 0, Negative_snapshot_retention ''published_snapshot_retention''),
      ((case staging_max_bytes c of Some n \<Rightarrow> n < 1 | None \<Rightarrow> False), Bad_max_bytes),
      (staging_retention c = None \<and> staging_max_bytes c = None, Unbounded_staging),
      ((case staging_retention c of Some d \<Rightarrow> d < 0 | None \<Rightarrow> False), Negative_retention),
      (wal_replication c \<and> (case published of None \<Rightarrow> True | Some p \<Rightarrow> \<not> published_remote p), Needs_remote),
      ((case vacuum_free_ratio c of Some f \<Rightarrow> \<not> share f | None \<Rightarrow> False), Bad_free_ratio),
      (wal_retention c \<noteq> None \<and> \<not> wal_replication c, Wal_retention_unused),
      ((case wal_retention c of Some d \<Rightarrow> total_seconds d \<le> 0 | None \<Rightarrow> False), Wal_retention_not_positive),
      (compact_min_files c < 2, Min_files_below_two),
      ((case target_seal_rows c of Some n \<Rightarrow> n < 1 | None \<Rightarrow> False), Bad_seal_rows),
      (compact_size c < 1, Bad_compact_size),
      (\<not> (1 \<le> compact_step c \<and> compact_step c \<le> compact_size c), Bad_compact_step),
      (target_row_group_size c < 1, Bad_row_group_size),
      ((case target_row_group_rows c of Some n \<Rightarrow> n < 1 | None \<Rightarrow> False), Bad_row_group_rows),
      (compression c \<notin> set CODECS, Unknown_codec (compression c))]"

definition first_broken :: "(bool \<times> 'e) list \<Rightarrow> 'e option" where
  "first_broken rules = map_option snd (find fst rules)"

definition validate :: "pa_schema \<Rightarrow> string list \<Rightarrow> log_config \<Rightarrow> string option \<Rightarrow> config_error option" where
  "validate fs sort_by c published =
     (if ''litelink_offset'' \<in> set (map fst fs) then Some Offset_in_schema
      else case validate_schema fs of Some e \<Rightarrow> Some (Schema_refused e)
      | None \<Rightarrow> (case Option.bind published validate_published of Some e \<Rightarrow> Some (Published_refused e)
      | None \<Rightarrow> (let missing = filter (\<lambda>c. c \<notin> set (map fst fs)) sort_by;
                    nested = filter (nested_column fs) sort_by in
          if missing \<noteq> [] then Some (Sort_unknown missing)
          else if nested \<noteq> [] then Some (Sort_nested nested)
          else first_broken (config_rules c published))))"

lemma broken_rule: "first_broken rules = None \<longleftrightarrow> (\<forall>r \<in> set rules. \<not> fst r)"
  by (simp add: first_broken_def find_None_all)

lemma validated_rules: "validate fs sb c published = None \<Longrightarrow> first_broken (config_rules c published) = None"
  by (auto simp: validate_def Let_def split: if_splits option.splits)

text \<open>What the rest of the development uses of an accepted configuration.\<close>

lemma validated_compaction:
  assumes "validate fs sb c published = None"
  shows "2 \<le> compact_min_files c \<and> 1 \<le> compact_size c \<and> 1 \<le> compact_step c \<and> compact_step c \<le> compact_size c"
  using validated_rules [OF assms] unfolding broken_rule by (simp add: config_rules_def)

lemma validated_row_groups:
  assumes "validate fs sb c published = None"
  shows "1 \<le> target_row_group_size c \<and> (\<forall>n. target_row_group_rows c = Some n \<longrightarrow> 1 \<le> n)"
  using validated_rules [OF assms] unfolding broken_rule by (auto simp: config_rules_def)

subsection \<open>Rounding\<close>

lemma ilog2_bounds: "0 < n \<Longrightarrow> 2 ^ ilog2 n \<le> n \<and> n < 2 ^ Suc (ilog2 n)"
proof (induction n rule: ilog2.induct)
  case (1 n)
  show ?case
  proof (cases "n < 2")
    case True
    with 1(2) have "n = 1" by simp
    then show ?thesis by (simp add: ilog2.simps)
  next
    case False
    with 1 have "2 ^ ilog2 (n div 2) \<le> n div 2 \<and> n div 2 < 2 ^ Suc (ilog2 (n div 2))" by simp
    with False show ?thesis by (subst (1 2) ilog2.simps) auto
  qed
qed

lemma binary_exponent_le:
  assumes "0 < x"
  shows "2 powi binary_exponent x \<le> x"
proof -
  obtain p q where pq: "quotient_of x = (p, q)" by (cases "quotient_of x")
  then have q: "0 < q" and x: "x = of_int p / of_int q"
    by (auto dest: quotient_of_denom_pos quotient_of_div)
  with assms have p: "0 < p" by (auto simp: zero_less_divide_iff)
  let ?a = "ilog2 (nat p)" and ?b = "ilog2 (nat q)"
  have "2 ^ ?a \<le> nat p" "nat q \<le> 2 ^ Suc ?b" using ilog2_bounds [of "nat p"] ilog2_bounds [of "nat q"] p q by auto
  then have "2 ^ ?a \<le> p" "q \<le> 2 ^ Suc ?b" using p q by (simp_all add: le_nat_iff nat_le_iff)
  then have "of_int (2 ^ ?a) \<le> (of_int p :: rat)" "(of_int q :: rat) \<le> of_int (2 ^ Suc ?b)"
    by (simp_all only: of_int_le_iff)
  then have "(2 :: rat) ^ ?a / 2 ^ Suc ?b \<le> of_int p / of_int q"
    using p q by (intro frac_le) auto
  moreover have "(2 :: rat) powi (int ?a - int ?b - 1) = 2 ^ ?a / 2 ^ Suc ?b"
    by (simp add: power_int_diff)
  ultimately have "2 powi (int ?a - int ?b - 1) \<le> x" unfolding x by simp
  then show ?thesis by (simp add: binary_exponent_def pq Let_def)
qed

lemma round_half_even_near: "\<bar>of_int (round_half_even x) - x\<bar> \<le> 1 / 2"
  unfolding round_half_even_def Let_def by (simp add: abs_if) linarith

lemma round_half_even_eq: "\<bar>x - of_int n\<bar> < 1 / 2 \<Longrightarrow> round_half_even x = n"
proof -
  assume a: "\<bar>x - of_int n\<bar> < 1 / 2"
  then have "\<bar>of_int (round_half_even x) - of_int n :: rat\<bar> < 1"
    using round_half_even_near [of x] by linarith
  then have "\<bar>round_half_even x - n\<bar> < 1" by (metis of_int_1_less_iff of_int_abs of_int_diff of_int_less_1_iff)
  then show ?thesis by simp
qed

lemma double_of_near: "\<bar>double_of x - x\<bar> \<le> \<bar>x\<bar> / 2 ^ 53"
proof (cases "x = 0")
  case False
  let ?e = "binary_exponent \<bar>x\<bar>"
  let ?u = "2 powi (?e - 52) :: rat"
  have u: "0 < ?u" by simp
  have "\<bar>of_int (round_half_even (x / ?u)) - x / ?u\<bar> * ?u \<le> 1 / 2 * ?u"
    using round_half_even_near u by (intro mult_right_mono) auto
  moreover have "\<bar>of_int (round_half_even (x / ?u)) - x / ?u\<bar> * ?u = \<bar>double_of x - x\<bar>"
  proof -
    have "\<bar>of_int (round_half_even (x / ?u)) - x / ?u\<bar> * ?u = \<bar>(of_int (round_half_even (x / ?u)) - x / ?u) * ?u\<bar>"
      using u by (simp add: abs_mult)
    also have "(of_int (round_half_even (x / ?u)) - x / ?u) * ?u = double_of x - x"
      using False u by (simp add: double_of_def Let_def left_diff_distrib)
    finally show ?thesis .
  qed
  moreover have "1 / 2 * ?u = 2 powi ?e / 2 ^ 53" by (simp add: power_int_diff)
  moreover have "2 powi ?e \<le> \<bar>x\<bar>" using False by (intro binary_exponent_le) simp
  moreover have "2 powi ?e / 2 ^ 53 \<le> \<bar>x\<bar> / 2 ^ 53"
    using calculation(4) by (intro divide_right_mono) auto
  ultimately show ?thesis by linarith
qed (simp add: double_of_def)

text \<open>Up to \<open>2 ^ 32\<close> seconds, 136 years, a duration survives its JSON to the microsecond.\<close>

lemma seconds_roundtrip:
  assumes "\<bar>d\<bar> \<le> 2 ^ 32 * 1000000"
  shows "from_seconds (total_seconds d) = d"
proof -
  define x :: rat where "x = of_int d / 1000000"
  define y where "y = double_of x"
  define t where "t = truncated y"
  define f where "f = (y - of_int t) * 1000000"
  have "of_int \<bar>d\<bar> \<le> (of_int (2 ^ 32 * 1000000) :: rat)" using assms by (simp only: of_int_le_iff)
  then have "\<bar>of_int d :: rat\<bar> \<le> 2 ^ 32 * 1000000" by simp
  then have x: "\<bar>x\<bar> \<le> 2 ^ 32" by (simp add: x_def)
  have y: "\<bar>y - x\<bar> \<le> 1 / 2 ^ 21" using double_of_near [of x] x unfolding y_def by simp
  have "\<bar>y - of_int t\<bar> \<le> 1"
    using floor_correct [of y] ceiling_correct [of y] unfolding t_def truncated_def abs_le_iff
    by (cases "0 \<le> y") (simp_all, linarith+)
  then have f: "\<bar>f\<bar> \<le> 1000000" unfolding f_def by (simp add: abs_mult)
  have p: "\<bar>double_of f - f\<bar> \<le> 1 / 100" using double_of_near [of f] f by simp
  have "of_int (t * 1000000) + double_of f - of_int d = 1000000 * (y - x) + (double_of f - f)"
    by (simp add: f_def x_def algebra_simps)
  moreover have "\<bar>1000000 * (y - x)\<bar> \<le> 48 / 100" using y by (simp only: abs_mult abs_numeral) (simp add: field_simps)
  ultimately have "\<bar>of_int (t * 1000000) + double_of f - of_int d\<bar> < 1 / 2" using p by linarith
  then have "round_half_even (of_int (t * 1000000) + double_of f) = d" by (rule round_half_even_eq)
  then show ?thesis by (simp add: from_seconds_def total_seconds_def f_def t_def y_def x_def)
qed


subsection \<open>The JSON of a configuration\<close>

definition durations :: "log_config \<Rightarrow> duration list" where
  "durations c = [staging_snapshot_retention c, published_snapshot_retention c] @
     (case staging_retention c of None \<Rightarrow> [] | Some d \<Rightarrow> [d]) @ (case wal_retention c of None \<Rightarrow> [] | Some d \<Rightarrow> [d])"

definition short_durations :: "log_config \<Rightarrow> bool" where
  "short_durations c = list_all (\<lambda>d. \<bar>d\<bar> \<le> 2 ^ 32 * second) (durations c)"

lemma read_settings:
  "nullable as_int (json_opt JInt v) = Some v" "nullable as_float (json_opt JFloat w) = Some w"
  by (cases v; simp add: nullable_def json_opt_def) (cases w; simp add: nullable_def json_opt_def)

lemma read_duration: "\<bar>d\<bar> \<le> 2 ^ 32 * second \<Longrightarrow> as_duration (json_seconds d) = Some d"
  by (simp add: json_seconds_def seconds_roundtrip second_def)

lemma read_optional_duration:
  "(\<And>x. d = Some x \<Longrightarrow> \<bar>x\<bar> \<le> 2 ^ 32 * second) \<Longrightarrow> nullable as_duration (json_opt json_seconds d) = Some d"
  by (cases d) (simp_all add: nullable_def json_opt_def read_duration, simp add: json_seconds_def)

text \<open>C27. A configuration stored in the log is read back as itself by the next process to open it: every
  setting, and every duration of up to 136 years to the microsecond, though it travels as a double of
  seconds.\<close>

theorem config_roundtrip:
  assumes "short_durations c"
  shows "from_json (to_json c) = Some c"
proof -
  have d: "as_duration (json_seconds (staging_snapshot_retention c)) = Some (staging_snapshot_retention c)"
    "as_duration (json_seconds (published_snapshot_retention c)) = Some (published_snapshot_retention c)"
    "nullable as_duration (json_opt json_seconds (staging_retention c)) = Some (staging_retention c)"
    "nullable as_duration (json_opt json_seconds (wal_retention c)) = Some (wal_retention c)"
    using assms by (auto simp: short_durations_def durations_def read_duration intro!: read_optional_duration)
  have j: "json_seconds x \<noteq> JNull" for x by (simp add: json_seconds_def)
  show ?thesis
    by (simp add: from_json_def to_json_def from_raw_def setting_def retention_setting_def
        snapshot_setting_def read_settings d j del: as_duration.simps)
qed

lemma config_roundtrip_witness:
  "from_json (to_json (defaults\<lparr>wal_retention := Some 1\<rparr>)) = Some (defaults\<lparr>wal_retention := Some 1\<rparr>)"
  by (rule config_roundtrip) (simp add: short_durations_def durations_def defaults_def second_def)

text \<open>What an older version wrote: an absent setting is its default, the old names are read, and one
  snapshot retention is both tables'.\<close>

lemma old_config:
  "from_json (JObj []) = Some defaults"
  "from_json (JObj [(''local_retention'', JInt 60), (''snapshot_retention'', JInt 7)]) =
     Some (defaults\<lparr>staging_retention := Some (60 * second),
       staging_snapshot_retention := 7 * second, published_snapshot_retention := 7 * second\<rparr>)"
  by (simp_all add: from_json_def from_raw_def setting_def retention_setting_def snapshot_setting_def
      defaults_def nullable_def second_def)

end
