(* ===== verification/Published_State.thy ===== *)
theory Published_State
  imports Seal_Contract "HOL-Library.Product_Lexorder"
begin

text \<open>
  What \<^verbatim>\<open>buffer.db\<close> records of the files behind the buffer (\<^verbatim>\<open>src/litelink/_buffer.py\<close>): sizes and
  ages of data files, how far the published table reaches and what is on its way there, the swaps
  owed, the outputs of merges and the files waiting to be deleted; and what a restore keeps of it.
  A remote location is one holding \<open>://\<close>, as in the LIKE patterns of the source.
\<close>

subsection \<open>Data files\<close>

definition remote :: "path \<Rightarrow> bool" where
  "remote p \<longleftrightarrow> contains ''://'' p"

definition remote_extent :: "extent \<Rightarrow> bool" where
  "remote_extent e \<longleftrightarrow> (case ex_path e of None \<Rightarrow> False | Some p \<Rightarrow> remote p)"

definition file_bytes :: "'r db \<Rightarrow> (path \<times> int) list" where
  "file_bytes d = List.map_filter (\<lambda>e. map_option (\<lambda>p. (p, ex_bytes e)) (ex_path e)) (db_extents d)"

definition file_ages :: "'r db \<Rightarrow> (path \<times> int) list" where
  "file_ages d = List.map_filter (\<lambda>e. case (ex_path e, ex_named e) of
     (Some p, Some t) \<Rightarrow> Some (p, t) | _ \<Rightarrow> None) (db_extents d)"

text \<open>\<open>INSERT INTO extent ... ON CONFLICT(rel_path) DO UPDATE SET bytes\<close>.\<close>

definition record_file :: "int \<Rightarrow> path \<Rightarrow> offset \<Rightarrow> offset \<Rightarrow> int \<Rightarrow> 'r db \<Rightarrow> 'r db" where
  "record_file now p a b n d =
     (if Some p \<in> ex_path ` set (db_extents d)
      then d\<lparr>db_extents := map (\<lambda>e. if ex_path e = Some p then e\<lparr>ex_bytes := n\<rparr> else e) (db_extents d)\<rparr>
      else snd (insert_extent (Some a) (Some b) n (Some p) (Some now) d))"

subsection \<open>Coverage of the published table\<close>

text \<open>\<open>-1 if current is None else int(current)\<close>; None where \<open>int\<close> raises.\<close>

definition watermark :: "'r db \<Rightarrow> int option" where
  "watermark d = (case meta_value PUBLISHED_THROUGH_KEY (db_meta d) of None \<Rightarrow> Some (-1) | Some v \<Rightarrow> text_int v)"

definition covered_row :: "offset \<Rightarrow> extent \<Rightarrow> bool" where
  "covered_row b e \<longleftrightarrow> remote_extent e \<and> (case ex_end e of None \<Rightarrow> False | Some x \<Rightarrow> x \<le> b)"

definition confirm_published :: "int \<Rightarrow> path list \<Rightarrow> 'r db \<Rightarrow> 'r db option" where
  "confirm_published through landed d =
     map_option (\<lambda>current. let raised = max through current in
       d\<lparr>db_meta := (if 0 \<le> raised then write_meta [(PUBLISHED_THROUGH_KEY, int_text raised)] (db_meta d)
                     else db_meta d),
         db_intents := filter (\<lambda>(p, t). p \<notin> set landed) (db_intents d),
         db_extents := filter (\<lambda>e. \<not> covered_row (raised + 1) e) (db_extents d)\<rparr>) (watermark d)"

text \<open>\<open>location.rstrip("/") + "/"\<close>.\<close>

definition boundary :: "path \<Rightarrow> path" where
  "boundary p = rev (dropWhile (\<lambda>c. c = CHR ''/'') (rev p)) @ ''/''"

definition under :: "path \<Rightarrow> path \<Rightarrow> bool" where
  "under prefix p \<longleftrightarrow> take (length prefix) p = prefix"

definition adopt_published_coverage :: "path \<Rightarrow> 'r db \<Rightarrow> 'r db option" where
  "adopt_published_coverage location d =
     (let rows = filter remote_extent (db_extents d) in
      if rows = [] then Some d
      else (let mine = filter (\<lambda>e. under (boundary location) (the (ex_path e))) rows in
        case those (map ex_start mine) of
          None \<Rightarrow> None
        | Some ours \<Rightarrow>
            let foreign = (length ours < length rows);
                d1 = (if foreign \<and> ours \<noteq> [] \<and> meta_value PUBLISHED_FROM_KEY (db_meta d) = None
                      then d\<lparr>db_meta := write_meta [(PUBLISHED_FROM_KEY, int_text (the (list_min ours)))]
                                          (db_meta d)\<rparr>
                      else d)
            in (case meta_value PUBLISHED_THROUGH_KEY (db_meta d1) of
                  None \<Rightarrow> Some d1
                | Some v \<Rightarrow> map_option (\<lambda>c. d1\<lparr>db_extents :=
                      filter (\<lambda>e. \<not> covered_row (c + 1) e) (db_extents d1)\<rparr>) (text_int v))))"

definition intend_file :: "path \<Rightarrow> offset \<Rightarrow> offset \<Rightarrow> int \<Rightarrow> 'r db \<Rightarrow> 'r db" where
  "intend_file p a b n d =
     (let t = \<lparr>in_start = a, in_end = b, in_bytes = n\<rparr> in
      d\<lparr>db_intents := (if p \<in> fst ` set (db_intents d)
          then map (\<lambda>(q, u). (q, if q = p then t else u)) (db_intents d)
          else db_intents d @ [(p, t)])\<rparr>)"

definition intents :: "path \<Rightarrow> 'r db \<Rightarrow> (path \<times> offset \<times> offset \<times> int) list" where
  "intents prefix d = map (\<lambda>(p, t). (p, in_start t, in_end t, in_bytes t))
     (filter (\<lambda>(p, t). under (boundary prefix) p) (db_intents d))"

definition forget_intent :: "path \<Rightarrow> 'r db \<Rightarrow> 'r db" where
  "forget_intent p d = d\<lparr>db_intents := filter (\<lambda>(q, t). q \<noteq> p) (db_intents d)\<rparr>"

text \<open>The one statement of \<open>published_ranges\<close>: the watermark's range, read under its current name
  only, and with \<open>pending\<close> the intents and the rows of an older log.\<close>

definition published_ranges :: "offset \<Rightarrow> bool \<Rightarrow> 'r db \<Rightarrow> (offset \<times> offset) list" where
  "published_ranges low pending d =
     (let settled = (case db_meta d PUBLISHED_THROUGH_KEY of
            None \<Rightarrow> []
          | Some v \<Rightarrow> [(case db_meta d PUBLISHED_FROM_KEY of None \<Rightarrow> 0 | Some w \<Rightarrow> cast_int w,
                        cast_int v + 1)]);
          intended = map (\<lambda>(p, t). (in_start t, in_end t)) (filter (\<lambda>(p, t). low < in_end t) (db_intents d));
          recorded = map (\<lambda>e. (the (ex_start e), the (ex_end e)))
            (filter (\<lambda>e. remote_extent e \<and> (case ex_end e of None \<Rightarrow> False | Some b \<Rightarrow> low < b)) (db_extents d))
      in sort (filter (\<lambda>(a, b). a < b) (if pending then settled @ intended @ recorded else settled)))"

subsection \<open>Merges and swaps\<close>

definition record_merge ::
  "int \<Rightarrow> (path \<times> offset \<times> offset \<times> int) list \<Rightarrow> path list \<Rightarrow> path list \<Rightarrow> 'r db \<Rightarrow> 'r db" where
  "record_merge now outputs sources swap d =
     (let d1 = fold (\<lambda>(p, a, b, n). record_file now p a b n) outputs d
      in d1\<lparr>db_extents := filter (\<lambda>e. \<forall>p \<in> set sources. ex_path e \<noteq> Some p) (db_extents d1),
            db_swaps := (db_swaps d1 - set sources) \<union> set swap\<rparr>)"

definition awaiting_swaps :: "'r db \<Rightarrow> path set" where
  "awaiting_swaps d = db_swaps d"

definition clear_swap :: "path \<Rightarrow> 'r db \<Rightarrow> 'r db" where
  "clear_swap p d = d\<lparr>db_swaps := db_swaps d - {p}\<rparr>"

subsection \<open>Compaction\<close>

definition claim_compaction :: "offset \<Rightarrow> offset \<Rightarrow> path \<Rightarrow> 'r db \<Rightarrow> 'r db" where
  "claim_compaction a b p d = d\<lparr>db_compacting := db_compacting d @ [(a, b, p)]\<rparr>"

definition claim_output :: "offset \<Rightarrow> offset \<Rightarrow> path \<Rightarrow> 'r db \<Rightarrow> 'r db" where
  "claim_output a b p d = d\<lparr>db_compacting := db_compacting d @ [(a, b, p)]\<rparr>"

definition pending_compaction :: "'r db \<Rightarrow> (offset \<times> offset \<times> path) option" where
  "pending_compaction d = (case db_compacting d of [] \<Rightarrow> None | x # _ \<Rightarrow> Some x)"

definition pending_outputs :: "'r db \<Rightarrow> (offset \<times> offset \<times> path) list" where
  "pending_outputs d = db_compacting d"

definition clear_compaction :: "path option \<Rightarrow> 'r db \<Rightarrow> 'r db" where
  "clear_compaction p d = d\<lparr>db_compacting :=
     (case p of None \<Rightarrow> [] | Some q \<Rightarrow> filter (\<lambda>(a, b, r). r \<noteq> q) (db_compacting d))\<rparr>"

subsection \<open>The deletion queue\<close>

definition enqueue_deletions :: "path list \<Rightarrow> int \<Rightarrow> 'r db \<Rightarrow> 'r db" where
  "enqueue_deletions ps at0 d = d\<lparr>db_pending :=
     fold (\<lambda>p q. if p \<in> fst ` set q then q else q @ [(p, at0)]) ps (db_pending d)\<rparr>"

definition restamp_deletions :: "path list \<Rightarrow> int \<Rightarrow> 'r db \<Rightarrow> 'r db" where
  "restamp_deletions ps at0 d = d\<lparr>db_pending :=
     map (\<lambda>(p, t). (p, if p \<in> set ps then at0 else t)) (db_pending d)\<rparr>"

definition due_deletions :: "int \<Rightarrow> 'r db \<Rightarrow> path list" where
  "due_deletions cutoff d = map fst (filter (\<lambda>(p, t). t \<le> cutoff) (db_pending d))"

definition forget_deletion :: "path \<Rightarrow> 'r db \<Rightarrow> 'r db" where
  "forget_deletion p d = d\<lparr>db_pending := filter (\<lambda>(q, t). q \<noteq> p) (db_pending d),
     db_extents := filter (\<lambda>e. ex_path e \<noteq> Some p) (db_extents d)\<rparr>"

definition queued_deletions :: "'r db \<Rightarrow> path list" where
  "queued_deletions d = map fst (db_pending d)"

subsection \<open>Restoring on another machine\<close>

text \<open>\<open>strip_local_state\<close>: two transactions, the second \<open>_seed_group\<close>.\<close>

definition strip_local_state ::
  "('r \<Rightarrow> int) \<Rightarrow> int \<Rightarrow> 'r db \<Rightarrow> ((int \<times> offset) \<times> 'r db) option" where
  "strip_local_state sz n d =
     (let d1 = d\<lparr>db_extents := [], db_swaps := {},
                 db_pending := filter (\<lambda>(p, t). remote p) (db_pending d),
                 db_claims := (db_claims d)\<lparr>claim_rows := []\<rparr>, db_sealing := []\<rparr>
      in case advance n d1 of
           None \<Rightarrow> None
         | Some ((_, e), d2) \<Rightarrow>
             map_option (\<lambda>d3. ((int (length (db_rows d1)), e - 1 + 1), d3)) (seed_group sz d2))"

end
