(* ===== verification/Published_Contract.thy ===== *)
theory Published_Contract
  imports Published_State
begin

text \<open>
  What the records behind the buffer promise: none of these operations touches the queue of groups;
  confirmations land in any order; compaction never sees less published than there is and eviction
  never more; a merge accounts for every file; a queued file is never lost and waits its whole grace
  period; and a restored log starts a sound queue above every offset the old machine may have issued.
\<close>

subsection \<open>Bookkeeping leaves the queue alone\<close>

inductive bookkeeping :: "'r db \<Rightarrow> 'r db \<Rightarrow> bool" where
  b_record: "bookkeeping d (record_file now p a b n d)"
| b_confirm: "confirm_published through landed d = Some d' \<Longrightarrow> bookkeeping d d'"
| b_adopt: "adopt_published_coverage location d = Some d' \<Longrightarrow> bookkeeping d d'"
| b_intend: "bookkeeping d (intend_file p a b n d)"
| b_forget_intent: "bookkeeping d (forget_intent p d)"
| b_merge: "bookkeeping d (record_merge now outputs sources swap d)"
| b_clear_swap: "bookkeeping d (clear_swap p d)"
| b_claim: "bookkeeping d (claim_compaction a b p d)"
| b_output: "bookkeeping d (claim_output a b p d)"
| b_clear: "bookkeeping d (clear_compaction q d)"
| b_enqueue: "bookkeeping d (enqueue_deletions ps t d)"
| b_restamp: "bookkeeping d (restamp_deletions ps t d)"
| b_forget: "bookkeeping d (forget_deletion p d)"
| b_meta: "bookkeeping d (set_meta_all pairs d)"
| b_moved: "set_meta_moved key v resets d = (moved, d') \<Longrightarrow> bookkeeping d d'"
| b_raise: "raise_meta vs d = Some d' \<Longrightarrow> bookkeeping d d'"

definition same_queue :: "'r db \<Rightarrow> 'r db \<Rightarrow> bool" where
  "same_queue d d' \<longleftrightarrow> db_rows d' = db_rows d \<and> db_seq d' = db_seq d \<and> unnamed d' = unnamed d \<and>
     (ids_ok d \<longrightarrow> ids_ok d')"

lemma same_queue_refl [simp]: "same_queue d d"
  by (simp add: same_queue_def)

lemma same_queue_trans: "same_queue d e \<Longrightarrow> same_queue e f \<Longrightarrow> same_queue d f"
  by (simp add: same_queue_def)

lemma same_queue_tables:
  "db_rows d' = db_rows d \<Longrightarrow> db_seq d' = db_seq d \<Longrightarrow> db_extents d' = db_extents d \<Longrightarrow>
     db_extent_seq d' = db_extent_seq d \<Longrightarrow> same_queue d d'"
  by (simp add: same_queue_def unnamed_def ids_ok_def)

lemma same_queue_filter:
  assumes "db_rows d' = db_rows d" "db_seq d' = db_seq d" "db_extent_seq d' = db_extent_seq d"
    and "db_extents d' = filter P (db_extents d)" and "\<And>e. ex_path e = None \<Longrightarrow> P e"
  shows "same_queue d d'"
proof -
  have "unnamed d' = unnamed d"
    unfolding unnamed_def assms(4) filter_filter by (rule filter_cong) (auto simp: assms(5))
  moreover have "ids_ok d \<Longrightarrow> ids_ok d'"
    using assms(3) by (auto simp: ids_ok_def assms(4) distinct_map_filter)
  ultimately show ?thesis using assms(1,2) by (simp add: same_queue_def)
qed

lemma covered_row_named: "ex_path e = None \<Longrightarrow> \<not> covered_row b e"
  by (simp add: covered_row_def remote_extent_def)

lemma same_queue_record: "same_queue d (record_file now p a b n d)"
proof (cases "Some p \<in> ex_path ` set (db_extents d)")
  case True
  let ?f = "\<lambda>e. if ex_path e = Some p then e\<lparr>ex_bytes := n\<rparr> else e"
  have r: "record_file now p a b n d = d\<lparr>db_extents := map ?f (db_extents d)\<rparr>"
    using True by (simp add: record_file_def)
  have "unnamed (record_file now p a b n d) = map ?f (unnamed d)"
    by (rule unnamed_map) (simp_all add: r)
  also have "map ?f (unnamed d) = unnamed d" by (rule map_idI) (auto simp: unnamed_def)
  finally have "unnamed (record_file now p a b n d) = unnamed d" .
  moreover have "ids_ok d \<Longrightarrow> ids_ok (record_file now p a b n d)"
    by (rule ids_ok_same) (simp_all add: r)
  ultimately show ?thesis by (simp add: same_queue_def r)
next
  case False
  obtain i d' where ins: "insert_extent (Some a) (Some b) n (Some p) (Some now) d = (i, d')" by fastforce
  from insert_extent_simps [OF ins] ids_ok_insert [OF _ ins] False ins show ?thesis
    by (auto simp: same_queue_def record_file_def unnamed_def)
qed

lemma same_queue_records: "same_queue d (fold (\<lambda>(p, a, b, n). record_file now p a b n) outputs d)"
proof (induction outputs arbitrary: d)
  case (Cons x outputs)
  obtain p a b n where "x = (p, a, b, n)" by (metis prod_cases4)
  with same_queue_trans [OF same_queue_record Cons.IH] show ?case by simp
qed simp

lemma same_queue_merge: "same_queue d (record_merge now outputs sources swap d)"
proof -
  let ?d = "fold (\<lambda>(p, a, b, n). record_file now p a b n) outputs d"
  have "same_queue ?d (record_merge now outputs sources swap d)"
    by (rule same_queue_filter [where P = "\<lambda>e. \<forall>p \<in> set sources. ex_path e \<noteq> Some p"])
      (simp_all add: record_merge_def Let_def)
  with same_queue_records show ?thesis by (rule same_queue_trans)
qed

lemma same_queue_confirm:
  assumes "confirm_published through landed d = Some d'"
  shows "same_queue d d'"
proof -
  from assms obtain w where "watermark d = Some w" by (auto simp: confirm_published_def)
  with assms show ?thesis
    by (intro same_queue_filter [where P = "\<lambda>e. \<not> covered_row (max through w + 1) e"])
      (auto simp: confirm_published_def Let_def covered_row_named)
qed

lemma same_queue_adopt:
  assumes "adopt_published_coverage location d = Some d'"
  shows "same_queue d d'"
proof -
  have "\<exists>m b. d' = d \<or> d' = d\<lparr>db_meta := m\<rparr> \<or>
      d' = d\<lparr>db_meta := m, db_extents := filter (\<lambda>e. \<not> covered_row b e) (db_extents d)\<rparr> \<or>
      d' = d\<lparr>db_extents := filter (\<lambda>e. \<not> covered_row b e) (db_extents d)\<rparr>"
    using assms
    by (auto simp: adopt_published_coverage_def Let_def simp del: write_meta.simps
        split: if_splits option.splits)
  then show ?thesis
  proof (elim exE disjE)
    fix m b
    assume "d' = d\<lparr>db_meta := m, db_extents := filter (\<lambda>e. \<not> covered_row b e) (db_extents d)\<rparr>"
    then show ?thesis
      by (intro same_queue_filter [where P = "\<lambda>e. \<not> covered_row b e"]) (simp_all add: covered_row_named)
  next
    fix m b
    assume "d' = d\<lparr>db_extents := filter (\<lambda>e. \<not> covered_row b e) (db_extents d)\<rparr>"
    then show ?thesis
      by (intro same_queue_filter [where P = "\<lambda>e. \<not> covered_row b e"]) (simp_all add: covered_row_named)
  qed (auto intro: same_queue_tables)
qed

lemma bookkeeping_same_queue: "bookkeeping d d' \<Longrightarrow> same_queue d d'"
proof (induction rule: bookkeeping.induct)
  case (b_forget d p)
  then show ?case
    by (intro same_queue_filter [where P = "\<lambda>e. ex_path e \<noteq> Some p"]) (simp_all add: forget_deletion_def)
next
  case (b_moved key v resets d moved d')
  then show ?case by (auto simp: set_meta_moved_def Let_def intro: same_queue_tables)
next
  case (b_raise vs d d')
  then show ?case by (auto simp: raise_meta_def intro: same_queue_tables)
qed (auto intro: same_queue_record same_queue_confirm same_queue_adopt same_queue_merge
    same_queue_tables simp: intend_file_def forget_intent_def clear_swap_def claim_compaction_def claim_output_def
      clear_compaction_def enqueue_deletions_def restamp_deletions_def set_meta_all_def Let_def
    simp del: write_meta.simps)

text \<open>No record kept of files, coverage, merges, deletions or settings touches a buffered row, the
  offset sequence or a group of the queue: such an operation takes a reachable log to a reachable
  log, so everything proved of the queue holds between any of them.\<close>

theorem bookkeeping_keeps_the_queue:
  assumes "reach queue_init queue_step (d, F)" and "bookkeeping d d'"
  shows "reach queue_init queue_step (d', F) \<and> db_rows d' = db_rows d \<and> db_seq d' = db_seq d \<and>
    unnamed d' = unnamed d"
proof -
  have s: "same_queue d d'" using assms(2) by (rule bookkeeping_same_queue)
  have "ids_ok d" using queue.inv_reach [OF assms(1)] by (auto simp: queue_inv_def queue_shape_def)
  with s have "queue_step (d, F) (d', F)" by (intro q_other) (simp_all add: same_queue_def)
  with assms(1) s show ?thesis by (auto simp: same_queue_def intro: reach_step)
qed

subsection \<open>Confirmations\<close>

lemma through_current: "current_key PUBLISHED_THROUGH_KEY" "current_key PUBLISHED_FROM_KEY"
  "PUBLISHED_FROM_KEY \<noteq> PUBLISHED_THROUGH_KEY"
  by (simp_all add: current_key_def PUBLISHED_THROUGH_KEY_def PUBLISHED_FROM_KEY_def)

lemma write_twice:
  "write_meta [(k, v)] (write_meta [(k, u)] m) = write_meta [(k, v)] m"
  unfolding write_meta_one by (cases "LEGACY_META k") (auto simp: fun_eq_iff)

definition raised_meta :: "int \<Rightarrow> meta \<Rightarrow> meta" where
  "raised_meta r m = (if 0 \<le> r then write_meta [(PUBLISHED_THROUGH_KEY, int_text r)] m else m)"

lemma confirm_alt:
  "confirm_published through landed d =
     map_option (\<lambda>w. d\<lparr>db_meta := raised_meta (max through w) (db_meta d),
         db_intents := filter (\<lambda>(p, t). p \<notin> set landed) (db_intents d),
         db_extents := filter (\<lambda>e. \<not> covered_row (max through w + 1) e) (db_extents d)\<rparr>) (watermark d)"
  by (simp add: confirm_published_def raised_meta_def Let_def)

lemma watermark_after:
  assumes "watermark d = Some w" and "db_meta d' = raised_meta (max a w) (db_meta d)" and "0 \<le> a"
  shows "watermark d' = Some (max a w)"
  using assms by (auto simp: watermark_def raised_meta_def meta_value_write_one [OF through_current(1,1)]
      simp del: write_meta.simps split: option.splits)

lemma covered_row_mono: "covered_row b e \<Longrightarrow> b \<le> c \<Longrightarrow> covered_row c e"
  by (auto simp: covered_row_def split: option.splits)

lemma filter_covered:
  "b \<le> c \<Longrightarrow> filter (\<lambda>e. \<not> covered_row c e) (filter (\<lambda>e. \<not> covered_row b e) xs) =
     filter (\<lambda>e. \<not> covered_row c e) xs"
  unfolding filter_filter by (rule filter_cong) (auto dest: covered_row_mono)

lemma confirm_twice:
  assumes "0 \<le> a" "0 \<le> b"
  shows "Option.bind (confirm_published a A d) (confirm_published b B) =
    confirm_published (max a b) (A @ B) d"
proof (cases "watermark d")
  case None
  then show ?thesis by (simp add: confirm_published_def)
next
  case (Some w)
  let ?d = "d\<lparr>db_meta := raised_meta (max a w) (db_meta d),
         db_intents := filter (\<lambda>(p, t). p \<notin> set A) (db_intents d),
         db_extents := filter (\<lambda>e. \<not> covered_row (max a w + 1) e) (db_extents d)\<rparr>"
  have "watermark ?d = Some (max a w)" using watermark_after [OF Some, of ?d a] assms by simp
  moreover have "max b (max a w) = max (max a b) w" by simp
  moreover have "raised_meta (max (max a b) w) (raised_meta (max a w) m) = raised_meta (max (max a b) w) m" for m
  proof -
    have "0 \<le> max (max a b) w" "0 \<le> max a w" using assms by auto
    then show ?thesis by (simp add: raised_meta_def write_twice del: write_meta.simps)
  qed
  moreover have "filter (\<lambda>e. \<not> covered_row (max (max a b) w + 1) e) (db_extents ?d) =
      filter (\<lambda>e. \<not> covered_row (max (max a b) w + 1) e) (db_extents d)"
    by (simp add: filter_covered del: filter_filter)
  moreover have "filter (\<lambda>(p, t). p \<notin> set B) (db_intents ?d) =
      filter (\<lambda>(p, t). p \<notin> set (A @ B)) (db_intents d)"
    by (auto intro: filter_cong)
  ultimately show ?thesis by (simp add: confirm_alt Some del: filter_filter)
qed

lemma confirm_perm: "set A = set B \<Longrightarrow> confirm_published a A d = confirm_published a B d"
  by (simp add: confirm_published_def)

text \<open>Two publishes of disjoint ranges may confirm in either order, or as one confirmation of the
  higher offset: the state is the same, and the watermark is the highest of the three.\<close>

theorem confirmations_commute:
  assumes "0 \<le> a" and "0 \<le> b"
  shows "Option.bind (confirm_published a A d) (confirm_published b B) =
      Option.bind (confirm_published b B d) (confirm_published a A) \<and>
    Option.bind (confirm_published a A d) (confirm_published b B) = confirm_published (max a b) (A @ B) d \<and>
    (case confirm_published a A d of None \<Rightarrow> watermark d = None
     | Some d' \<Rightarrow> watermark d' = map_option (max a) (watermark d))"
proof (intro conjI)
  show "Option.bind (confirm_published a A d) (confirm_published b B) =
      Option.bind (confirm_published b B d) (confirm_published a A)"
    unfolding confirm_twice [OF assms] confirm_twice [OF assms(2,1)] max.commute [of b a]
    by (rule confirm_perm) auto
  show "case confirm_published a A d of None \<Rightarrow> watermark d = None
     | Some d' \<Rightarrow> watermark d' = map_option (max a) (watermark d)"
  proof (cases "watermark d")
    case (Some w)
    let ?d = "d\<lparr>db_meta := raised_meta (max a w) (db_meta d),
         db_intents := filter (\<lambda>(p, t). p \<notin> set A) (db_intents d),
         db_extents := filter (\<lambda>e. \<not> covered_row (max a w + 1) e) (db_extents d)\<rparr>"
    have "watermark ?d = Some (max a w)" using watermark_after [OF Some, of ?d a] assms by simp
    then show ?thesis by (simp add: confirm_alt Some)
  qed (simp add: confirm_alt)
qed (rule confirm_twice [OF assms])

subsection \<open>What compaction and eviction may believe\<close>

lemma text_int_cast: "text_int s = Some n \<Longrightarrow> cast_int s = n"
proof (cases s)
  case (Cons c cs)
  assume "text_int s = Some n"
  with Cons show ?thesis
    by (auto simp: text_int_def cast_int_def takeWhile_digits split: if_splits simp del: takeWhile.simps)
qed (simp add: text_int_def)

definition published_from :: "'r db \<Rightarrow> offset" where
  "published_from d = (case db_meta d PUBLISHED_FROM_KEY of None \<Rightarrow> 0 | Some w \<Rightarrow> cast_int w)"

text \<open>An offset the ranges hold; \<open>pending\<close> asks compaction's question, otherwise eviction's.\<close>

definition covers :: "offset \<Rightarrow> bool \<Rightarrow> 'r db \<Rightarrow> offset \<Rightarrow> bool" where
  "covers low pending d x \<longleftrightarrow> (\<exists>(a, b) \<in> set (published_ranges low pending d). in_span a b x)"

definition settled_at :: "'r db \<Rightarrow> offset \<Rightarrow> bool" where
  "settled_at d x \<longleftrightarrow> (case db_meta d PUBLISHED_THROUGH_KEY of None \<Rightarrow> False
     | Some v \<Rightarrow> published_from d \<le> x \<and> x \<le> cast_int v)"

definition pending_at :: "offset \<Rightarrow> 'r db \<Rightarrow> offset \<Rightarrow> bool" where
  "pending_at low d x \<longleftrightarrow> (\<exists>(p, t) \<in> set (db_intents d). low < in_end t \<and> in_span (in_start t) (in_end t) x) \<or>
     (\<exists>e \<in> set (db_extents d). remote_extent e \<and> (\<exists>b. ex_end e = Some b \<and> low < b \<and> in_span (the (ex_start e)) b x))"

lemma in_span_less: "in_span a b x \<Longrightarrow> a < b"
  by (simp add: in_span_def)

lemma covers_cases: "covers low pending d x \<longleftrightarrow> settled_at d x \<or> (pending \<and> pending_at low d x)"
proof -
  have drop: "(\<exists>(a, b) \<in> set (sort (filter (\<lambda>(a, b). a < b) xs)). in_span a b x) \<longleftrightarrow>
      (\<exists>(a, b) \<in> set xs. in_span a b x)" for xs
    by (force simp: in_span_def)
  have i: "(\<exists>(a, b) \<in> set (map (\<lambda>(p, t). (in_start t, in_end t)) (filter (\<lambda>(p, t). low < in_end t) I)). in_span a b x)
      \<longleftrightarrow> (\<exists>(p, t) \<in> set I. low < in_end t \<and> in_span (in_start t) (in_end t) x)" for I :: "(path \<times> intent) list"
    by (induction I) auto
  have e: "(\<exists>(a, b) \<in> set (map (\<lambda>e. (the (ex_start e), the (ex_end e)))
        (filter (\<lambda>e. remote_extent e \<and> (case ex_end e of None \<Rightarrow> False | Some b \<Rightarrow> low < b)) E)). in_span a b x) \<longleftrightarrow>
      (\<exists>e \<in> set E. remote_extent e \<and> (\<exists>b. ex_end e = Some b \<and> low < b \<and> in_span (the (ex_start e)) b x))" for E
    by (induction E) (auto split: option.splits)
  have s: "(\<exists>(a, b) \<in> set (case db_meta d PUBLISHED_THROUGH_KEY of None \<Rightarrow> []
          | Some v \<Rightarrow> [(published_from d, cast_int v + 1)]). in_span a b x) \<longleftrightarrow> settled_at d x"
    by (auto simp: settled_at_def in_span_def split: option.splits)
  show ?thesis
    unfolding covers_def pending_at_def published_ranges_def Let_def drop published_from_def [symmetric]
    by (cases pending) (simp_all only: if_True if_False set_append bex_Un i e s simp_thms)
qed

lemma raised_through:
  assumes "0 \<le> r"
  shows "raised_meta r m PUBLISHED_THROUGH_KEY = Some (int_text r)"
    "raised_meta r m PUBLISHED_FROM_KEY = m PUBLISHED_FROM_KEY"
  using assms by (simp_all add: raised_meta_def write_meta_one LEGACY_META_def PUBLISHED_THROUGH_KEY_def
      PUBLISHED_FROM_KEY_def del: write_meta.simps)

lemma watermark_settled:
  assumes "watermark d = Some w" and "db_meta d ''archive_through'' = None" and "settled_at d x"
  shows "published_from d \<le> x \<and> x \<le> w"
proof -
  from assms(3) obtain v where v: "db_meta d PUBLISHED_THROUGH_KEY = Some v"
    and x: "published_from d \<le> x" "x \<le> cast_int v"
    by (auto simp: settled_at_def split: option.splits)
  from v assms(1) have "text_int v = Some w" by (simp add: watermark_def meta_value_def)
  with x text_int_cast show ?thesis by blast
qed

lemma confirm_settled:
  assumes "watermark d = Some w" and "0 \<le> a"
    and "d' = d\<lparr>db_meta := raised_meta (max a w) (db_meta d), db_intents := I, db_extents := E\<rparr>"
  shows "settled_at d' x \<longleftrightarrow> published_from d \<le> x \<and> x \<le> max a w"
  using raised_through [of "max a w" "db_meta d"] assms(2)
  by (simp add: settled_at_def published_from_def assms(3))

text \<open>When a push is confirmed, its copies lying within what it confirms, compaction's question is
  answered yes for every offset it was answered yes for before, with no moment between the intents
  and the watermark; and eviction's turns yes only for offsets the push confirmed.\<close>

theorem confirming_never_uncovers:
  assumes "confirm_published through landed d = Some d'" and "0 \<le> through"
    and "db_meta d ''archive_through'' = None"
    and "\<forall>(p, t) \<in> set (db_intents d). p \<in> set landed \<longrightarrow> published_from d \<le> in_start t \<and> in_end t \<le> through + 1"
    and "\<forall>e \<in> set (db_extents d). remote_extent e \<longrightarrow> published_from d \<le> the (ex_start e)"
  shows "(covers low True d x \<longrightarrow> covers low True d' x) \<and>
    (covers low False d' x \<longrightarrow> covers low False d x \<or> (published_from d \<le> x \<and> x \<le> through))"
proof -
  from assms(1) obtain w where w: "watermark d = Some w"
    and d': "d' = d\<lparr>db_meta := raised_meta (max through w) (db_meta d),
         db_intents := filter (\<lambda>(p, t). p \<notin> set landed) (db_intents d),
         db_extents := filter (\<lambda>e. \<not> covered_row (max through w + 1) e) (db_extents d)\<rparr>"
    by (auto simp: confirm_alt)
  note new = confirm_settled [OF w assms(2) d']
  have old: "settled_at d x \<Longrightarrow> settled_at d' x"
    unfolding new using watermark_settled [OF w assms(3)] by (meson max.coboundedI2)
  have "settled_at d' x \<or> pending_at low d' x" if "pending_at low d x"
    using that unfolding pending_at_def new
  proof (elim disjE bexE exE conjE)
    fix i assume i: "i \<in> set (db_intents d)"
      and "case i of (p, t) \<Rightarrow> low < in_end t \<and> in_span (in_start t) (in_end t) x"
    then obtain p t where t: "(p, t) \<in> set (db_intents d)" "low < in_end t" "in_span (in_start t) (in_end t) x"
      by (cases i) auto
    show "(published_from d \<le> x \<and> x \<le> max through w) \<or>
      (\<exists>(p, t) \<in> set (db_intents d'). low < in_end t \<and> in_span (in_start t) (in_end t) x) \<or>
      (\<exists>e \<in> set (db_extents d'). remote_extent e \<and> (\<exists>b. ex_end e = Some b \<and> low < b \<and> in_span (the (ex_start e)) b x))"
    proof (cases "p \<in> set landed")
      case True
      with t(1) assms(4) have "published_from d \<le> in_start t" "in_end t \<le> through + 1" by auto
      with t(3) show ?thesis by (auto simp: in_span_def)
    next
      case False
      with t have "(p, t) \<in> set (db_intents d')" by (simp add: d')
      with t(2,3) show ?thesis by blast
    qed
  next
    fix e b
    assume e: "e \<in> set (db_extents d)" "remote_extent e" "ex_end e = Some b" "low < b"
      "in_span (the (ex_start e)) b x"
    show "(published_from d \<le> x \<and> x \<le> max through w) \<or>
      (\<exists>(p, t) \<in> set (db_intents d'). low < in_end t \<and> in_span (in_start t) (in_end t) x) \<or>
      (\<exists>e \<in> set (db_extents d'). remote_extent e \<and> (\<exists>b. ex_end e = Some b \<and> low < b \<and> in_span (the (ex_start e)) b x))"
    proof (cases "covered_row (max through w + 1) e")
      case True
      with e have "b \<le> max through w + 1" by (simp add: covered_row_def)
      moreover have "published_from d \<le> the (ex_start e)" using assms(5) e(1,2) by blast
      ultimately show ?thesis using e(5) by (auto simp: in_span_def)
    next
      case False
      with e have "e \<in> set (db_extents d')" by (simp add: d')
      with e show ?thesis by blast
    qed
  qed
  moreover have "x \<le> through \<or> settled_at d x" if "settled_at d' x"
  proof (cases "db_meta d PUBLISHED_THROUGH_KEY")
    case None
    with w assms(3) have "w = -1" by (simp add: watermark_def meta_value_def LEGACY_META_def PUBLISHED_THROUGH_KEY_def)
    with that new assms(2) show ?thesis by auto
  next
    case (Some v)
    with w have "text_int v = Some w" by (simp add: watermark_def meta_value_def)
    with that new Some show ?thesis by (auto simp: settled_at_def text_int_cast)
  qed
  ultimately show ?thesis using old new by (auto simp: covers_cases)
qed

subsection \<open>Merges\<close>

lemma map_of_map_filter:
  "map_of (file_bytes d) p = map_option ex_bytes (find (\<lambda>e. ex_path e = Some p) (db_extents d))"
proof -
  have "map_of (List.map_filter (\<lambda>e. map_option (\<lambda>p. (p, ex_bytes e)) (ex_path e)) xs) p =
      map_option ex_bytes (find (\<lambda>e. ex_path e = Some p) xs)" for xs
    by (induction xs) (auto simp: map_filter_simps split: option.splits)
  then show ?thesis by (simp add: file_bytes_def)
qed

lemma find_map_same:
  "(\<And>x. P (f x) \<longleftrightarrow> P x) \<Longrightarrow> find P (map f xs) = map_option f (find P xs)"
  by (induction xs) auto

lemma find_append: "find P (xs @ ys) = (case find P xs of None \<Rightarrow> find P ys | Some x \<Rightarrow> Some x)"
  by (induction xs) auto

lemma record_file_bytes:
  "map_of (file_bytes (record_file now p a b n d)) = (map_of (file_bytes d))(p \<mapsto> n)"
proof
  fix q
  show "map_of (file_bytes (record_file now p a b n d)) q = ((map_of (file_bytes d))(p \<mapsto> n)) q"
  proof (cases "Some p \<in> ex_path ` set (db_extents d)")
    case True
    let ?f = "\<lambda>e. if ex_path e = Some p then e\<lparr>ex_bytes := n\<rparr> else e"
    have "find (\<lambda>e. ex_path e = Some q) (map ?f (db_extents d)) =
        map_option ?f (find (\<lambda>e. ex_path e = Some q) (db_extents d))"
      by (rule find_map_same) auto
    then have new: "map_of (file_bytes (record_file now p a b n d)) q =
        map_option ex_bytes (map_option ?f (find (\<lambda>e. ex_path e = Some q) (db_extents d)))"
      using True by (simp add: map_of_map_filter record_file_def)
    show ?thesis
    proof (cases "find (\<lambda>e. ex_path e = Some q) (db_extents d)")
      case None
      with True have "q \<noteq> p" by (auto simp: find_None_all)
      with None show ?thesis unfolding new by (simp add: map_of_map_filter)
    next
      case (Some e)
      then have "ex_path e = Some q" by (auto dest: find_SomeD)
      with Some show ?thesis unfolding new by (simp add: map_of_map_filter)
    qed
  next
    case False
    then have none: "find (\<lambda>e. ex_path e = Some p) (db_extents d) = None" by (force simp: find_None_all)
    obtain i d' where ins: "insert_extent (Some a) (Some b) n (Some p) (Some now) d = (i, d')" by fastforce
    from insert_extent_simps [OF ins] False ins none show ?thesis
      by (auto simp: map_of_map_filter record_file_def find_append split: option.splits)
  qed
qed

lemma record_file_swaps: "db_swaps (record_file now p a b n d) = db_swaps d"
  by (simp add: record_file_def insert_extent_def Let_def)

lemma find_drop:
  "find (\<lambda>e. ex_path e = Some q) (filter (\<lambda>e. \<forall>p \<in> S. ex_path e \<noteq> Some p) xs) =
     (if q \<in> S then None else find (\<lambda>e. ex_path e = Some q) xs)"
  by (induction xs) auto

text \<open>Recording a merge gives each output its measured bytes, takes every source out and leaves
  every other file's size as it was; the outputs' swaps are owed, a source's debt is not.\<close>

theorem merge_accounts_for_every_file:
  "map_of (file_bytes (record_merge now outputs sources swap d)) =
     (fold (\<lambda>(p, a, b, n) m. m(p \<mapsto> n)) outputs (map_of (file_bytes d))) |` (- set sources) \<and>
   awaiting_swaps (record_merge now outputs sources swap d) = (awaiting_swaps d - set sources) \<union> set swap"
proof -
  let ?d = "fold (\<lambda>(p, a, b, n). record_file now p a b n) outputs d"
  have b: "map_of (file_bytes ?d) = fold (\<lambda>(p, a, b, n) m. m(p \<mapsto> n)) outputs (map_of (file_bytes d))"
    by (induction outputs arbitrary: d) (auto simp: record_file_bytes)
  have s: "db_swaps ?d = db_swaps d"
    by (induction outputs arbitrary: d) (auto simp: record_file_swaps)
  have "map_of (file_bytes (record_merge now outputs sources swap d)) q =
      (map_of (file_bytes ?d) |` (- set sources)) q" for q
    by (simp add: map_of_map_filter record_merge_def Let_def find_drop restrict_map_def)
  then show ?thesis using b s by (auto simp: awaiting_swaps_def record_merge_def Let_def)
qed

subsection \<open>The deletion queue\<close>

text \<open>What may happen to the queue while \<open>p\<close>, which left its table at \<open>t\<close>, waits to be deleted: any
  enqueueing, a restamp that for \<open>p\<close> is no earlier, and other files being forgotten.\<close>

inductive waiting :: "path \<Rightarrow> int \<Rightarrow> 'r db \<Rightarrow> 'r db \<Rightarrow> bool" for p :: path and t :: int where
  w_enqueue: "waiting p t d (enqueue_deletions ps u d)"
| w_restamp: "(p \<in> set ps \<longrightarrow> t \<le> u) \<Longrightarrow> waiting p t d (restamp_deletions ps u d)"
| w_forget: "q \<noteq> p \<Longrightarrow> waiting p t d (forget_deletion q d)"

definition queued_since :: "path \<Rightarrow> int \<Rightarrow> 'r db \<Rightarrow> bool" where
  "queued_since p t d \<longleftrightarrow> p \<in> set (queued_deletions d) \<and> (\<forall>u. (p, u) \<in> set (db_pending d) \<longrightarrow> t \<le> u)"

lemma enqueue_entries:
  "(p, u) \<in> set (fold (\<lambda>p q. if p \<in> fst ` set q then q else q @ [(p, t)]) ps q) \<Longrightarrow>
     (p, u) \<in> set q \<or> p \<notin> fst ` set q"
proof (induction ps arbitrary: q)
  case (Cons a ps)
  from Cons.IH [OF Cons.prems [unfolded fold_simps]] show ?case by (auto split: if_splits)
qed simp

lemma enqueue_keeps:
  "x \<in> set q \<Longrightarrow> x \<in> set (fold (\<lambda>p q. if p \<in> fst ` set q then q else q @ [(p, t)]) ps q)"
  by (induction ps arbitrary: q) auto

lemma waiting_step: "waiting p t d d' \<Longrightarrow> queued_since p t d \<Longrightarrow> queued_since p t d'"
proof (induction rule: waiting.induct)
  case (w_enqueue d ps u)
  then have "p \<in> fst ` set (db_pending d)" by (simp add: queued_since_def queued_deletions_def)
  then obtain v where "(p, v) \<in> set (db_pending d)" by auto
  then have "(p, v) \<in> set (db_pending (enqueue_deletions ps u d))"
    unfolding enqueue_deletions_def by (simp add: enqueue_keeps)
  then have "p \<in> set (queued_deletions (enqueue_deletions ps u d))" by (force simp: queued_deletions_def)
  moreover have "t \<le> v" if "(p, v) \<in> set (db_pending (enqueue_deletions ps u d))" for v
    using enqueue_entries [of p v u ps "db_pending d"] that w_enqueue \<open>p \<in> fst ` set (db_pending d)\<close>
    by (auto simp: enqueue_deletions_def queued_since_def)
  ultimately show ?case by (simp add: queued_since_def)
next
  case (w_restamp ps u d)
  have "queued_deletions (restamp_deletions ps u d) = queued_deletions d"
    by (simp add: queued_deletions_def restamp_deletions_def case_prod_beta comp_def)
  with w_restamp show ?case by (auto simp: queued_since_def restamp_deletions_def)
next
  case (w_forget q d)
  then show ?case by (force simp: queued_since_def forget_deletion_def queued_deletions_def)
qed

lemma waiting_steps: "steps (waiting p t) d d' \<Longrightarrow> queued_since p t d \<Longrightarrow> queued_since p t d'"
  by (induction rule: steps.induct) (auto intro: waiting_step)

text \<open>C25. A queued file re-dated to the moment \<open>t\<close> its commit superseded it stays queued, whatever else
  is queued, re-queued, re-dated or forgotten, and is never due for a cutoff before \<open>t\<close>: a reader
  that resolved it by then keeps it for its whole grace period.\<close>

theorem queued_file_waits_its_grace:
  assumes "p \<in> set (queued_deletions d)" and "p \<in> set ps"
    and "steps (waiting p t) (restamp_deletions ps t d) d'"
  shows "p \<in> set (queued_deletions d') \<and> (p \<in> set (due_deletions cutoff d') \<longrightarrow> t \<le> cutoff)"
proof -
  have "queued_deletions (restamp_deletions ps t d) = queued_deletions d"
    by (simp add: queued_deletions_def restamp_deletions_def case_prod_beta comp_def)
  then have "queued_since p t (restamp_deletions ps t d)"
    using assms(1,2) by (auto simp: queued_since_def restamp_deletions_def)
  from waiting_steps [OF assms(3) this] show ?thesis
    by (force simp: queued_since_def due_deletions_def)
qed

subsection \<open>Restoring\<close>

lemma filter_keys: "filter P (map fst xs) = map fst (filter (\<lambda>(p, t). P p) xs)"
  by (induction xs) auto

definition published_band :: "int \<Rightarrow> (offset \<times> offset) list" where
  "published_band w = (if 0 < w then [(1, w + 1)] else [])"

lemma advance_strip:
  assumes "0 < n"
  shows "strip_local_state sz n d = map_option (\<lambda>d3. ((int (length (db_rows d)), floor_of d + n + 1), d3))
    (seed_group sz (d\<lparr>db_extents := [], db_swaps := {}, db_pending := filter (\<lambda>(p, t). remote p) (db_pending d),
       db_claims := (db_claims d)\<lparr>claim_rows := []\<rparr>, db_sealing := [], db_seq := Some (floor_of d + n)\<rparr>))"
  using assms by (simp add: strip_local_state_def Let_def advance_total)
    (simp add: floor_of_def seq_of_def highest_row_def)

lemma seeded_group:
  assumes "db_extents d = []" and "watermark d = Some w"
  shows "seed_group sz d = Some (snd (insert_extent
    (list_min (filter (\<lambda>i. max 0 (w + 1) \<le> i) (map fst (db_rows d)))) None (measure_from sz (max 0 (w + 1)) d) None None d))"
  using assms by (auto simp: seed_group_def covered_end_def watermark_def List.map_filter_def max.commute
      simp del: max.bounded_iff split: option.splits)

text \<open>C26. A restore from a copy of a sound log whose published table reaches \<open>w\<close> keeps every buffered
  row and no record of the old machine, and leaves a sound queue: each row is owed to what is already
  published or to the one open group, and what is appended next lies above every offset the old
  machine issued and a reserve of \<open>n\<close> more.\<close>

theorem restored_log_is_sound:
  fixes d :: "'r db"
  assumes "reach queue_init queue_step (d, F)" and "0 < n" and "watermark d = Some w" and "w \<le> seq_of d"
  shows "\<exists>d'. strip_local_state sz n d = Some ((int (length (db_rows d)), floor_of d + n + 1), d') \<and>
    queue_inv (d', published_band w) \<and> db_rows d' = db_rows d \<and> length (db_extents d') = 1 \<and>
    db_sealing d' = [] \<and> awaiting_swaps d' = {} \<and> claim_rows (db_claims d') = [] \<and>
    queued_deletions d' = filter remote (queued_deletions d) \<and>
    (\<forall>c (rows :: ((bool \<times> string) + 'r) list) os d''. append_rows c sz rows d' = (Inr os, d'') \<longrightarrow> (\<forall>i \<in> set os. seq_of d + n < i))"
proof -
  from queue.inv_reach [OF assms(1)] obtain C and e :: extent where
    g: "queue_good (db_rows d) (seq_of d) (F @ map range_of C) (ex_start e)"
    by (auto simp: queue_inv_def)
  let ?d = "d\<lparr>db_extents := [], db_swaps := {}, db_pending := filter (\<lambda>(p, t). remote p) (db_pending d),
       db_claims := (db_claims d)\<lparr>claim_rows := []\<rparr>, db_sealing := [], db_seq := Some (floor_of d + n)\<rparr>"
  let ?st = "list_min (filter (\<lambda>i. max 0 (w + 1) \<le> i) (map fst (db_rows d)))"
  obtain i d' where ins: "insert_extent ?st None (measure_from sz (max 0 (w + 1)) ?d) None None ?d = (i, d')"
    by fastforce
  note s = insert_extent_simps [OF ins]
  have "watermark ?d = Some w" using assms(3) by (simp add: watermark_def)
  from seeded_group [OF _ this, of sz] ins have seed: "seed_group sz ?d = Some d'" by simp
  have fl: "floor_of d = seq_of d" by (rule floor_good [OF g])
  have seq: "seq_of d' = seq_of d + n" using s fl by (simp add: seq_of_def)
  let ?e = "\<lparr>ex_id = i, ex_start = ?st, ex_end = None,
      ex_bytes = measure_from sz (max 0 (w + 1)) ?d, ex_path = None, ex_named = None\<rparr>"
  have shape: "queue_shape d' [] ?e"
    using s by (simp add: queue_shape_def ids_ok_def unnamed_def open_extent_def)
  have start: "\<exists>r. (k, r) \<in> set (db_rows d) \<and> max 0 (w + 1) \<le> k" if "?st = Some k" for k
  proof -
    have "k \<in> set (filter (\<lambda>i. max 0 (w + 1) \<le> i) (map fst (db_rows d)))"
      using that by (rule list_min_in)
    then show ?thesis by auto
  qed
  have owed: "owed (published_band w) ?st k" if k: "(k, r) \<in> set (db_rows d)" for k r
  proof (cases "max 0 (w + 1) \<le> k")
    case True
    with k have in_tail: "k \<in> set (filter (\<lambda>i. max 0 (w + 1) \<le> i) (map fst (db_rows d)))" by force
    then have "filter (\<lambda>i. max 0 (w + 1) \<le> i) (map fst (db_rows d)) \<noteq> []" by (rule length_pos_if_in_set [THEN length_greater_0_conv [THEN iffD1]])
    then have "?st \<noteq> None" by (simp only: list_min_eq_None not_False_eq_True)
    then obtain m where "?st = Some m" by blast
    with list_min_le in_tail show ?thesis unfolding owed_def by blast
  next
    case False
    moreover have "0 < k" using g k by (auto simp: queue_good_def)
    ultimately show ?thesis by (auto simp: owed_def published_band_def in_span_def)
  qed
  have "queue_good (db_rows d) (seq_of d + n) (published_band w) ?st"
    unfolding queue_good_def
  proof (intro conjI)
    show "\<forall>(k, r) \<in> set (db_rows d). owed (published_band w) ?st k" using owed by blast
    show "\<forall>k. ?st = Some k \<longrightarrow> 0 < k \<and> k \<le> seq_of d + n \<and> (\<forall>(a, b) \<in> set (published_band w). b \<le> k)"
    proof (intro allI impI)
      fix k assume "?st = Some k"
      with start obtain r where r: "(k, r) \<in> set (db_rows d)" "max 0 (w + 1) \<le> k" by blast
      with g assms(2) have "0 < k" "k \<le> seq_of d + n" by (auto simp: queue_good_def)
      with r(2) show "0 < k \<and> k \<le> seq_of d + n \<and> (\<forall>(a, b) \<in> set (published_band w). b \<le> k)"
        by (auto simp: published_band_def)
    qed
  qed (use g assms(2,4) in \<open>auto simp: queue_good_def published_band_def\<close>)
  then have "queue_good (db_rows d') (seq_of d') (published_band w @ map range_of []) (ex_start ?e)"
    using s seq by simp
  with shape have inv: "queue_inv (d', published_band w)"
    unfolding queue_inv_def prod.case by blast
  have fresh: "seq_of d + n < k" if "append_rows c sz rows d' = (Inr os, d'')" "k \<in> set os"
    for c and rows :: "((bool \<times> string) + 'r) list" and os d'' k
    using append_Inr [OF inv that(1)] that(2) seq by simp
  have rest: "db_sealing d' = [] \<and> awaiting_swaps d' = {} \<and> claim_rows (db_claims d') = [] \<and>
      queued_deletions d' = filter remote (queued_deletions d) \<and> length (db_extents d') = 1"
    using ins by (auto simp: insert_extent_def Let_def awaiting_swaps_def queued_deletions_def filter_keys
        simp del: max.bounded_iff)
  show ?thesis
    unfolding advance_strip [OF assms(2)] seed
    using s inv fresh rest by (intro exI [of _ d']) simp
qed

subsection \<open>The properties on the log of three rows\<close>

text \<open>The sample log with its first group sealed, and its file pushed but not yet confirmed.\<close>

definition sample_meta :: meta where
  "sample_meta = [PUBLISHED_THROUGH_KEY \<mapsto> ''1'']"

definition sample_pushed :: "int db" where
  "sample_pushed = intend_file ''s3://b/f'' 1 3 11 (sample_two\<lparr>db_meta := sample_meta\<rparr>)"

lemma sample_intents: "db_intents sample_pushed = [(''s3://b/f'', \<lparr>in_start = 1, in_end = 3, in_bytes = 11\<rparr>)]"
  "db_meta sample_pushed = sample_meta" "db_extents sample_pushed = db_extents sample_two"
  "db_pending sample_pushed = []"
  by (simp_all add: sample_pushed_def intend_file_def) (simp_all add: sample_two_def sample_defs)

lemma sample_watermark: "watermark sample_pushed = Some 1"
  by (simp add: watermark_def sample_intents sample_meta_def meta_value_def text_int_def all_digits_def
      is_digit_def digits_value_def digit_value_def Let_def)

lemma sample_pushed_reach: "reach queue_init queue_step (sample_pushed, [])"
proof -
  have s: "same_queue sample_two sample_pushed"
    by (simp add: sample_pushed_def intend_file_def Let_def same_queue_tables)
  have "ids_ok sample_two"
    using queue.inv_reach [OF sample_two_reach] by (auto simp: queue_inv_def queue_shape_def)
  with s have "queue_step (sample_two, []) (sample_pushed, [])" by (intro q_other) (simp_all add: same_queue_def)
  with sample_two_reach show ?thesis by (rule reach_step)
qed

lemma bookkeeping_keeps_the_queue_witness:
  "reach queue_init queue_step (enqueue_deletions [''f''] 5 sample_two, []) \<and>
   db_rows (enqueue_deletions [''f''] 5 sample_two) = db_rows sample_two \<and>
   db_seq (enqueue_deletions [''f''] 5 sample_two) = db_seq sample_two \<and>
   unnamed (enqueue_deletions [''f''] 5 sample_two) = unnamed sample_two"
  by (rule bookkeeping_keeps_the_queue [OF sample_two_reach b_enqueue])

lemma confirmations_commute_witness:
  "Option.bind (confirm_published 4 [''b''] sample_pushed) (confirm_published 2 [''a'']) =
   Option.bind (confirm_published 2 [''a''] sample_pushed) (confirm_published 4 [''b''])"
  using confirmations_commute [of 4 2 "[''b'']" sample_pushed "[''a'']"] by simp

lemma confirming_never_uncovers_witness:
  "\<exists>d'. confirm_published 2 [''s3://b/f''] sample_pushed = Some d' \<and> covers 0 True d' 2"
proof -
  obtain d' where c: "confirm_published 2 [''s3://b/f''] sample_pushed = Some d'"
    by (simp add: confirm_published_def sample_watermark)
  have "(covers 0 True sample_pushed 2 \<longrightarrow> covers 0 True d' 2) \<and>
    (covers 0 False d' 2 \<longrightarrow> covers 0 False sample_pushed 2 \<or> (published_from sample_pushed \<le> 2 \<and> (2::int) \<le> 2))"
  proof (rule confirming_never_uncovers [OF c])
    show "db_meta sample_pushed ''archive_through'' = None"
      by (simp add: sample_intents sample_meta_def PUBLISHED_THROUGH_KEY_def)
    show "\<forall>(p, t) \<in> set (db_intents sample_pushed). p \<in> set [''s3://b/f''] \<longrightarrow>
        published_from sample_pushed \<le> in_start t \<and> in_end t \<le> 2 + 1"
      by (simp add: sample_intents published_from_def sample_meta_def PUBLISHED_THROUGH_KEY_def PUBLISHED_FROM_KEY_def)
    show "\<forall>e \<in> set (db_extents sample_pushed). remote_extent e \<longrightarrow> published_from sample_pushed \<le> the (ex_start e)"
      by (simp add: sample_intents sample_rows remote_extent_def)
  qed simp
  moreover have "covers 0 True sample_pushed 2"
    by (simp add: covers_cases pending_at_def sample_intents in_span_def)
  ultimately show ?thesis using c by blast
qed

lemma queued_file_waits_its_grace_witness:
  "''f'' \<in> set (queued_deletions (forget_deletion ''g'' (restamp_deletions [''f''] 9
      (enqueue_deletions [''f'', ''g''] 5 sample_log)))) \<and>
   ''f'' \<notin> set (due_deletions 8 (forget_deletion ''g'' (restamp_deletions [''f''] 9
      (enqueue_deletions [''f'', ''g''] 5 sample_log))))"
proof -
  let ?d = "enqueue_deletions [''f'', ''g''] 5 sample_log"
  have "''f'' \<in> set (queued_deletions ?d)"
    by (simp add: queued_deletions_def enqueue_deletions_def sample_log_def empty_db_def)
  moreover have "steps (waiting ''f'' 9) (restamp_deletions [''f''] 9 ?d)
      (forget_deletion ''g'' (restamp_deletions [''f''] 9 ?d))"
    by (rule steps_step, rule steps_refl, rule w_forget) simp
  ultimately show ?thesis
    using queued_file_waits_its_grace [of "''f''" ?d "[''f'']" 9 "forget_deletion ''g'' (restamp_deletions [''f''] 9 ?d)" 8]
    by simp
qed

lemma restored_log_is_sound_witness:
  "\<exists>d'. strip_local_state id 1000 sample_pushed = Some ((3, 1004), d') \<and>
    queue_inv (d', [(1, 2)]) \<and> db_rows d' = db_rows sample_pushed"
proof -
  have "db_rows sample_pushed = db_rows sample_two" "db_seq sample_pushed = db_seq sample_two"
    by (simp_all add: sample_pushed_def intend_file_def Let_def)
  moreover have "db_seq sample_two = Some 3" by (simp add: sample_two_def sample_defs)
  ultimately have "seq_of sample_pushed = 3" "floor_of sample_pushed = 3" "length (db_rows sample_pushed) = 3"
    by (simp_all add: seq_of_def floor_of_def highest_row_def sample_rows list_max_Cons)
  with restored_log_is_sound [OF sample_pushed_reach _ sample_watermark, of 1000 id] show ?thesis
    by (auto simp: published_band_def)
qed

end
