(* ===== verification/Compaction.thy ===== *)
theory Compaction
  imports Config Published_Contract
begin

text \<open>
  What compaction merges and publishing may take (\<^verbatim>\<open>src/litelink/_maintenance.py\<close>: \<open>stretches\<close>, \<open>merges\<close>,
  \<open>stable_prefix\<close>, \<open>_covered\<close>, \<open>published_through\<close>, \<open>published_prefix\<close>, \<open>unsettled_from\<close>,
  \<open>merge_candidates\<close>, the plan of \<open>compact\<close>). The staging table is the list of its data files.
\<close>

subsection \<open>Stretches and merges\<close>

record staged_file =
  sf_path :: path
  sf_size :: int
  sf_rows :: int
  sf_start :: offset
  sf_end :: offset

record stretch =
  st_files :: "staged_file list"
  st_open :: bool

text \<open>The loop of \<open>stretches\<close>, with the stretch being gathered.\<close>

fun stretch_loop :: "int \<Rightarrow> staged_file list \<Rightarrow> staged_file list \<Rightarrow> stretch list" where
  "stretch_loop target current [] = (if current = [] then [] else [\<lparr>st_files = current, st_open = True\<rparr>])"
| "stretch_loop target current (f # fs) =
     (if target \<le> sf_size f
      then (if current = [] then [] else [\<lparr>st_files = current, st_open = False\<rparr>]) @
           \<lparr>st_files = [f], st_open = False\<rparr> # stretch_loop target [] fs
      else stretch_loop target (current @ [f]) fs)"

definition stretches :: "staged_file list \<Rightarrow> int \<Rightarrow> stretch list" where
  "stretches fs target = stretch_loop target [] fs"

definition total_size :: "staged_file list \<Rightarrow> int" where
  "total_size fs = sum_list (map sf_size fs)"

definition grows :: "int \<Rightarrow> bool \<Rightarrow> staged_file list \<Rightarrow> bool" where
  "grows step flush fs \<longleftrightarrow> 2 \<le> length fs \<and> (flush \<or> step \<le> total_size (tl fs))"

definition merges :: "stretch \<Rightarrow> int \<Rightarrow> int \<Rightarrow> int \<Rightarrow> offset \<Rightarrow> bool \<Rightarrow> staged_file list list" where
  "merges s target step min_files nxt flush =
     (let fs = st_files s in
      if \<not> st_open s then (if min_files \<le> int (length fs) then [fs] else [])
      else if nxt \<le> sf_start (hd fs) then (if grows step flush fs then [fs] else [])
      else (let published = filter (\<lambda>f. sf_end f \<le> nxt) fs;
                after = filter (\<lambda>f. nxt \<le> sf_start f) fs
            in (if grows step flush published then [published] else []) @
               (if 2 \<le> length after \<and> target \<le> total_size after then [after] else [])))"

text \<open>The loop of \<open>stable_prefix\<close> stops at the first stretch compaction may touch.\<close>

definition mergeable :: "int \<Rightarrow> stretch \<Rightarrow> bool" where
  "mergeable min_files s \<longleftrightarrow> st_open s \<or> min_files \<le> int (length (st_files s))"

definition stable_prefix :: "staged_file list \<Rightarrow> int \<Rightarrow> int \<Rightarrow> nat" where
  "stable_prefix fs budget min_files =
     sum_list (map (length \<circ> st_files) (takeWhile (\<lambda>s. \<not> mergeable min_files s) (stretches fs budget)))"

subsection \<open>Coverage\<close>

fun cover_walk :: "offset \<Rightarrow> offset \<Rightarrow> (offset \<times> offset) list \<Rightarrow> bool" where
  "cover_walk so_far b [] \<longleftrightarrow> b \<le> so_far"
| "cover_walk so_far b ((lo, hi) # rs) \<longleftrightarrow>
     (if so_far < lo then False
      else if so_far < hi then (if b \<le> hi then True else cover_walk hi b rs)
      else cover_walk so_far b rs)"

definition covered :: "(offset \<times> offset) list \<Rightarrow> offset \<Rightarrow> offset \<Rightarrow> bool" where
  "covered ranges a b \<longleftrightarrow> (if b \<le> a then True else cover_walk a b ranges)"

text \<open>None where \<open>int\<close> raises.\<close>

definition published_through :: "'r db \<Rightarrow> int option" where
  "published_through d = (case get_meta PUBLISHED_THROUGH_KEY d of None \<Rightarrow> Some 0 | Some v \<Rightarrow> text_int v)"

fun held_prefix :: "(offset \<times> offset) list \<Rightarrow> staged_file list \<Rightarrow> offset \<Rightarrow> offset" where
  "held_prefix ranges [] reached = reached"
| "held_prefix ranges (f # fs) reached =
     (if covered ranges (sf_start f) (sf_end f) then held_prefix ranges fs (sf_end f) else reached)"

definition published_prefix :: "staged_file list \<Rightarrow> bool \<Rightarrow> 'r db \<Rightarrow> offset" where
  "published_prefix fs include_intents d =
     (case sort_key sf_start fs of
        [] \<Rightarrow> 0
      | f # rest \<Rightarrow> held_prefix (published_ranges (sf_start f) include_intents d) (f # rest) 0)"

subsection \<open>The plan of a compaction\<close>

definition unsettled_from :: "log_config \<Rightarrow> staged_file list \<Rightarrow> nat" where
  "unsettled_from c fs = stable_prefix fs (compact_size c) (compact_min_files c)"

definition merge_candidates :: "log_config \<Rightarrow> staged_file list \<Rightarrow> 'r db \<Rightarrow> staged_file list" where
  "merge_candidates c fs d =
     (let rest = drop (unsettled_from c fs) fs;
          landed = published_prefix fs False d;
          claimed = published_prefix fs True d
      in if landed < claimed then filter (\<lambda>f. claimed \<le> sf_start f) rest else rest)"

definition compact_plan :: "log_config \<Rightarrow> bool \<Rightarrow> staged_file list \<Rightarrow> 'r db \<Rightarrow> staged_file list list option" where
  "compact_plan c flush fs d =
     map_option (\<lambda>through. concat (map (\<lambda>s.
         merges s (compact_size c) (compact_step c) (compact_min_files c) (through + 1) flush)
       (stretches (merge_candidates c fs d) (compact_size c)))) (published_through d)"

subsection \<open>Lemmas on stretches\<close>

lemma concat_stretch_loop: "concat (map st_files (stretch_loop t cur fs)) = cur @ fs"
  by (induction t cur fs rule: stretch_loop.induct) auto

lemma concat_stretches: "concat (map st_files (stretches fs t)) = fs"
  by (simp add: stretches_def concat_stretch_loop)

lemma stretch_nonempty: "s \<in> set (stretch_loop t cur fs) \<Longrightarrow> st_files s \<noteq> []"
  by (induction t cur fs rule: stretch_loop.induct) (auto split: if_splits)

text \<open>The closed stretches before the last full file are the same whatever files follow.\<close>

lemma stretch_loop_full:
  "t \<le> sf_size f \<Longrightarrow> stretch_loop t cur (fs @ f # gs) =
     stretch_loop t cur (fs @ [f]) @ stretch_loop t [] gs"
  by (induction t cur fs rule: stretch_loop.induct) auto

lemma stretch_loop_unfull:
  "\<forall>f \<in> set fs. sf_size f < t \<Longrightarrow> stretch_loop t cur fs =
     (if cur @ fs = [] then [] else [\<lparr>st_files = cur @ fs, st_open = True\<rparr>])"
  by (induction fs arbitrary: cur) auto

lemma full_closed: "t \<le> sf_size f \<Longrightarrow> s \<in> set (stretch_loop t cur (fs @ [f])) \<Longrightarrow> \<not> st_open s"
  by (induction t cur fs rule: stretch_loop.induct) (auto split: if_splits)

text \<open>Every list of files is a part that ends on a full file, closed for good, and the open rest.\<close>

lemma split_at_last_full:
  obtains (none) "\<forall>f \<in> set fs. sf_size f < (t :: int)"
    | (some) us f vs where "fs = us @ f # vs" and "t \<le> sf_size f" and "\<forall>g \<in> set vs. sf_size g < t"
proof (cases "\<exists>f \<in> set fs. t \<le> sf_size f")
  case True
  then obtain us f vs where "fs = us @ f # vs" "t \<le> sf_size f" "\<forall>g \<in> set vs. \<not> t \<le> sf_size g"
    using split_list_last_prop [of fs "\<lambda>f. t \<le> sf_size f"] by blast
  then show ?thesis using some [of us f vs] by (simp add: not_le)
qed (use none in force)

subsection \<open>The settled prefix\<close>

definition settled_length :: "int \<Rightarrow> stretch list \<Rightarrow> nat" where
  "settled_length m ss = sum_list (map (length \<circ> st_files) (takeWhile (\<lambda>s. \<not> mergeable m s) ss))"

lemma settled_length_simps [simp]:
  "settled_length m [] = 0"
  "settled_length m (s # ss) = (if mergeable m s then 0 else length (st_files s) + settled_length m ss)"
  by (simp_all add: settled_length_def)

lemma stable_prefix_settled: "stable_prefix fs t m = settled_length m (stretch_loop t [] fs)"
  by (simp add: stable_prefix_def settled_length_def stretches_def)

lemma open_mergeable [simp]: "mergeable m \<lparr>st_files = fs, st_open = True\<rparr>"
  by (simp add: mergeable_def)

lemma settled_append:
  "list_all (\<lambda>s. \<not> mergeable m s) ss \<Longrightarrow>
     settled_length m (ss @ rest) = length (concat (map st_files ss)) + settled_length m rest"
  by (induction ss) auto

text \<open>The settled files end on a full one, so what makes them settled lies within them.\<close>

lemma settled_loop:
  assumes "2 \<le> m"
  shows "settled_length m (stretch_loop t cur fs) \<noteq> 0 \<Longrightarrow>
    \<exists>us f vs. fs = us @ f # vs \<and> t \<le> sf_size f \<and>
      settled_length m (stretch_loop t cur fs) = length cur + Suc (length us) \<and>
      list_all (\<lambda>s. \<not> mergeable m s) (stretch_loop t cur (us @ [f]))"
proof (induction t cur fs rule: stretch_loop.induct)
  case (2 t cur f fs)
  have one: "\<not> mergeable m \<lparr>st_files = [f], st_open = False\<rparr>" using assms by (simp add: mergeable_def)
  show ?case
  proof (cases "t \<le> sf_size f")
    case full: True
    with 2(3) have cur: "cur = [] \<or> \<not> mergeable m \<lparr>st_files = cur, st_open = False\<rparr>"
      by (auto split: if_splits)
    show ?thesis
    proof (cases "settled_length m (stretch_loop t [] fs) = 0")
      case True
      show ?thesis
        by (rule exI [of _ "[]"], rule exI [of _ f], rule exI [of _ fs]) (use True full one cur in auto)
    next
      case False
      from 2(1) [OF full this] obtain us g vs where "fs = us @ g # vs" "t \<le> sf_size g"
        "settled_length m (stretch_loop t [] fs) = Suc (length us)"
        "list_all (\<lambda>s. \<not> mergeable m s) (stretch_loop t [] (us @ [g]))" by (auto simp del: list_all_append)
      then show ?thesis
        by (intro exI [of _ "f # us"], intro exI [of _ g], intro exI [of _ vs]) (use full one cur in auto)
    qed
  next
    case False
    with 2(3) have "settled_length m (stretch_loop t (cur @ [f]) fs) \<noteq> 0" by simp
    from 2(2) [OF False this] obtain us g vs where "fs = us @ g # vs" "t \<le> sf_size g"
      "settled_length m (stretch_loop t (cur @ [f]) fs) = length cur + Suc (Suc (length us))"
      "list_all (\<lambda>s. \<not> mergeable m s) (stretch_loop t (cur @ [f]) (us @ [g]))" by auto
    then show ?thesis
      by (intro exI [of _ "f # us"], intro exI [of _ g], intro exI [of _ vs]) (use False in auto)
  qed
qed (auto split: if_splits)

lemma settled_stays:
  assumes "2 \<le> m"
  shows "stable_prefix fs t m \<le> stable_prefix (take (stable_prefix fs t m) fs @ rest) t m"
proof (cases "stable_prefix fs t m = 0")
  case False
  from settled_loop [OF assms False [unfolded stable_prefix_settled]]
  obtain us f vs where fs: "fs = us @ f # vs" "t \<le> sf_size f"
      "stable_prefix fs t m = length ([] :: staged_file list) + Suc (length us)"
    and all: "list_all (\<lambda>s. \<not> mergeable m s) (stretch_loop t [] (us @ [f]))"
    unfolding stable_prefix_settled by blast
  have kept: "take (stable_prefix fs t m) fs @ rest = us @ f # rest" unfolding fs(3) unfolding fs(1) by simp
  have "stable_prefix (us @ f # rest) t m = Suc (length us) + settled_length m (stretch_loop t [] rest)"
    unfolding stable_prefix_settled
    by (subst stretch_loop_full [OF fs(2)]) (simp add: settled_append [OF all] concat_stretch_loop)
  then show ?thesis unfolding kept unfolding fs(3) by simp
qed simp

subsection \<open>The runs of a plan\<close>

lemma merges_in: "run \<in> set (merges s t st m nxt flush) \<Longrightarrow> set run \<subseteq> set (st_files s)"
  by (auto simp: merges_def Let_def split: if_splits)

lemma stretch_files_in: "s \<in> set (stretches fs t) \<Longrightarrow> set (st_files s) \<subseteq> set fs"
  using arg_cong [where f = set, OF concat_stretches [of fs t]] by auto

lemma candidates_in: "set (merge_candidates c fs d) \<subseteq> set (drop (unsettled_from c fs) fs)"
  by (auto simp: merge_candidates_def Let_def)

lemma plan_run:
  assumes "compact_plan c flush fs d = Some runs" and "run \<in> set runs"
  obtains w s where "published_through d = Some w" and "s \<in> set (stretches (merge_candidates c fs d) (compact_size c))"
    and "run \<in> set (merges s (compact_size c) (compact_step c) (compact_min_files c) (w + 1) flush)"
  using assms by (auto simp: compact_plan_def)

text \<open>C13. A file that is settled under an accepted configuration is not merged while that configuration
  stays: in any later state of the log whose staging table still starts with the files that were settled,
  whatever files follow them and whatever is recorded of them, no merge a compaction under the same
  configuration plans touches a settled file. (A changed \<open>target_compact_size\<close> may unsettle it, as \<open>compact\<close> says.)\<close>

theorem settled_files_are_final:
  assumes "validate schema sort_by c published = None"
    and "distinct (take (unsettled_from c fs) fs @ rest)"
    and "compact_plan c flush (take (unsettled_from c fs) fs @ rest) d = Some runs"
    and "run \<in> set runs"
  shows "set run \<inter> set (take (unsettled_from c fs) fs) = {}"
proof -
  let ?n = "unsettled_from c fs" and ?gs = "take (unsettled_from c fs) fs @ rest"
  have "2 \<le> compact_min_files c" using validated_compaction [OF assms(1)] by simp
  then have "?n \<le> unsettled_from c ?gs" unfolding unsettled_from_def by (rule settled_stays)
  then have "set (drop (unsettled_from c ?gs) ?gs) \<subseteq> set (drop ?n ?gs)" by (rule set_drop_subset_set_drop)
  moreover obtain w s where "s \<in> set (stretches (merge_candidates c ?gs d) (compact_size c))"
    "run \<in> set (merges s (compact_size c) (compact_step c) (compact_min_files c) (w + 1) flush)"
    using plan_run [OF assms(3,4)] by blast
  then have "set run \<subseteq> set (drop (unsettled_from c ?gs) ?gs)"
    using merges_in stretch_files_in candidates_in by blast
  moreover have "set (drop ?n ?gs) \<subseteq> set rest" by (auto dest: in_set_dropD)
  moreover have "set (take ?n fs) \<inter> set rest = {}" using assms(2) by simp
  ultimately show ?thesis by blast
qed

subsection \<open>Ranges\<close>

text \<open>The staging table's files cover contiguous ranges that do not overlap.\<close>

definition staging_ok :: "staged_file list \<Rightarrow> bool" where
  "staging_ok fs \<longleftrightarrow> sorted_wrt (\<lambda>f g. sf_end f \<le> sf_start g) fs \<and> list_all (\<lambda>f. sf_start f < sf_end f) fs"

definition contiguous_in :: "'a list \<Rightarrow> 'a list \<Rightarrow> bool" where
  "contiguous_in run fs \<longleftrightarrow> (\<exists>us vs. fs = us @ run @ vs)"

lemma contiguous_refl: "contiguous_in a a"
  unfolding contiguous_in_def by (rule exI [of _ "[]"], rule exI [of _ "[]"]) simp

lemma contiguous_trans: "contiguous_in a b \<Longrightarrow> contiguous_in b c \<Longrightarrow> contiguous_in a c"
  unfolding contiguous_in_def by (metis append.assoc)

lemma contiguous_set: "contiguous_in a b \<Longrightarrow> set a \<subseteq> set b"
  by (auto simp: contiguous_in_def)

lemma contiguous_drop: "contiguous_in (drop n fs) fs"
  unfolding contiguous_in_def by (metis append_take_drop_id append_Nil2)

lemma contiguous_takeWhile: "contiguous_in (takeWhile P fs) fs"
  unfolding contiguous_in_def by (metis takeWhile_dropWhile_id append_Nil)

lemma contiguous_dropWhile: "contiguous_in (dropWhile P fs) fs"
  unfolding contiguous_in_def by (metis takeWhile_dropWhile_id append_Nil2)

lemma stretch_contiguous: "s \<in> set (stretches fs t) \<Longrightarrow> contiguous_in (st_files s) fs"
proof -
  assume "s \<in> set (stretches fs t)"
  then obtain as bs where "stretches fs t = as @ s # bs" by (meson split_list)
  then have "fs = concat (map st_files as) @ st_files s @ concat (map st_files bs)"
    using concat_stretches [of fs t] by simp
  then show ?thesis unfolding contiguous_in_def by blast
qed

lemma staging_ok_part: "staging_ok (us @ run @ vs) \<Longrightarrow> staging_ok run"
  by (auto simp: staging_ok_def sorted_wrt_append)

lemma staging_last:
  assumes "staging_ok run" and "f \<in> set run"
  shows "sf_end f \<le> sf_end (last run)"
  using assms
  by (cases run rule: rev_cases)
    (auto simp: staging_ok_def sorted_wrt_append intro: order_trans [OF _ less_imp_le])

lemma filter_upto:
  "staging_ok fs \<Longrightarrow> filter (\<lambda>f. sf_end f \<le> x) fs = takeWhile (\<lambda>f. sf_end f \<le> x) fs"
proof (induction fs)
  case (Cons f fs)
  show ?case
  proof (cases "sf_end f \<le> x")
    case True
    with Cons show ?thesis by (simp add: staging_ok_def)
  next
    case False
    with Cons(2) have "\<forall>g \<in> set fs. \<not> sf_end g \<le> x" by (force simp: staging_ok_def list_all_iff)
    with False show ?thesis by (simp add: filter_empty_conv)
  qed
qed simp

lemma filter_from:
  "staging_ok fs \<Longrightarrow> filter (\<lambda>f. x \<le> sf_start f) fs = dropWhile (\<lambda>f. \<not> x \<le> sf_start f) fs"
proof (induction fs)
  case (Cons f fs)
  show ?case
  proof (cases "x \<le> sf_start f")
    case True
    with Cons(2) have "\<forall>g \<in> set fs. x \<le> sf_start g" by (auto simp: staging_ok_def)
    with True show ?thesis by simp
  next
    case False
    with Cons show ?thesis by (simp add: staging_ok_def)
  qed
qed simp

lemma merges_contiguous:
  assumes "staging_ok (st_files s)" and "run \<in> set (merges s t st m nxt flush)"
  shows "contiguous_in run (st_files s)"
  using assms
  by (auto simp: merges_def Let_def filter_upto filter_from split: if_splits
      intro: contiguous_refl contiguous_takeWhile contiguous_dropWhile)

lemma merges_two:
  assumes "2 \<le> m" and "run \<in> set (merges s t st m nxt flush)"
  shows "2 \<le> length run"
  using assms by (auto simp: merges_def Let_def grows_def split: if_splits)

lemma plan_run_contiguous:
  assumes "staging_ok fs" and "compact_plan c flush fs d = Some runs" and "run \<in> set runs"
  shows "contiguous_in run fs"
proof -
  obtain w s where s: "s \<in> set (stretches (merge_candidates c fs d) (compact_size c))"
    "run \<in> set (merges s (compact_size c) (compact_step c) (compact_min_files c) (w + 1) flush)"
    using plan_run [OF assms(2,3)] by blast
  have ok: "staging_ok gs" if "contiguous_in gs fs" for gs
    using assms(1) that staging_ok_part unfolding contiguous_in_def by blast
  have "contiguous_in (merge_candidates c fs d) fs"
    using contiguous_drop [of "unsettled_from c fs" fs] ok [OF contiguous_drop [of "unsettled_from c fs" fs]]
    by (auto simp: merge_candidates_def Let_def filter_from intro: contiguous_trans contiguous_dropWhile)
  then have st: "contiguous_in (st_files s) fs" using stretch_contiguous [OF s(1)] contiguous_trans by blast
  show ?thesis using merges_contiguous [OF ok [OF st] s(2)] st contiguous_trans by blast
qed

text \<open>C14. A merge replaces its range and nothing else. On a staging table of contiguous files every run a
  compaction plans has at least two files, and the files that share an offset with the range from its
  first start to its last end, which the commit replaces, are exactly the files of the run.\<close>

theorem merge_replaces_exactly_its_run:
  assumes "validate schema sort_by c published = None" and "staging_ok fs"
    and "compact_plan c flush fs d = Some runs" and "run \<in> set runs"
  shows "2 \<le> length run \<and>
    filter (\<lambda>f. overlaps (sf_start f) (sf_end f) (sf_start (hd run)) (sf_end (last run))) fs = run"
proof -
  have two: "2 \<le> length run"
    using plan_run [OF assms(3,4)] merges_two validated_compaction [OF assms(1)] by metis
  obtain us vs where fs: "fs = us @ run @ vs"
    using plan_run_contiguous [OF assms(2-4)] by (auto simp: contiguous_in_def)
  from two have ne: "run \<noteq> []" by auto
  have ok: "staging_ok (us @ run @ vs)" using assms(2) fs by simp
  have ends: "sf_start (hd run) \<le> sf_start f \<and> sf_end f \<le> sf_end (last run)" if "f \<in> set run" for f
  proof -
    have run: "staging_ok run" using ok by (rule staging_ok_part)
    have "sf_start (hd run) \<le> sf_start f"
      using run that by (cases run) (auto simp: staging_ok_def intro: order_trans less_imp_le)
    with staging_last [OF run that] show ?thesis by simp
  qed
  have hl: "hd run \<in> set run" "last run \<in> set run" using ne by simp_all
  have "overlaps (sf_start f) (sf_end f) (sf_start (hd run)) (sf_end (last run)) \<longleftrightarrow> f \<in> set run" if "f \<in> set fs" for f
  proof
    assume o: "overlaps (sf_start f) (sf_end f) (sf_start (hd run)) (sf_end (last run))"
    show "f \<in> set run"
    proof (rule ccontr)
      assume "f \<notin> set run"
      with that fs have "f \<in> set us \<or> f \<in> set vs" by auto
      with ok hl have "sf_end f \<le> sf_start (hd run) \<or> sf_end (last run) \<le> sf_start f"
        by (auto simp: staging_ok_def sorted_wrt_append)
      with o show False by (auto simp: overlaps_def)
    qed
  next
    assume f: "f \<in> set run"
    with that assms(2) have "sf_start f < sf_end f" by (auto simp: staging_ok_def list_all_iff)
    with ends [OF f] show "overlaps (sf_start f) (sf_end f) (sf_start (hd run)) (sf_end (last run))"
      by (auto simp: overlaps_def)
  qed
  then have "filter (\<lambda>f. overlaps (sf_start f) (sf_end f) (sf_start (hd run)) (sf_end (last run))) fs =
      filter (\<lambda>f. f \<in> set run) fs"
    by (intro filter_cong) auto
  also have "\<dots> = run"
  proof -
    have "distinct fs" using assms(2)
      by (induction fs) (auto simp: staging_ok_def)
    then have "set us \<inter> set run = {}" "set vs \<inter> set run = {}" unfolding fs by auto
    then have "filter (\<lambda>f. f \<in> set run) us = []" "filter (\<lambda>f. f \<in> set run) vs = []"
      by (auto simp: filter_empty_conv)
    then show ?thesis unfolding fs by simp
  qed
  finally show ?thesis using two by simp
qed

subsection \<open>Coverage\<close>

lemma cover_walk_iff:
  "sorted (map fst ranges) \<Longrightarrow> a < b \<Longrightarrow>
     cover_walk a b ranges \<longleftrightarrow> (\<forall>x. a \<le> x \<and> x < b \<longrightarrow> (\<exists>(lo, hi) \<in> set ranges. lo \<le> x \<and> x < hi))"
proof (induction a b ranges rule: cover_walk.induct)
  case (1 a b)
  then show ?case by auto
next
  case (2 a b lo hi rs)
  have sorted: "sorted (map fst rs)" and least: "\<forall>(l, h) \<in> set rs. lo \<le> l" using 2(3) by auto
  consider "a < lo" | "lo \<le> a" "hi \<le> a" | "lo \<le> a" "a < hi" "b \<le> hi" | "lo \<le> a" "a < hi" "hi < b"
    by linarith
  then show ?case
  proof cases
    case 1
    with least have "\<not> (\<exists>(l, h) \<in> set ((lo, hi) # rs). l \<le> a \<and> a < h)" by auto
    moreover have "a \<le> a \<and> a < b" using 2(4) by simp
    ultimately show ?thesis using 1 by auto
  next
    case c: 2
    have "(\<exists>(l, h) \<in> set ((lo, hi) # rs). l \<le> x \<and> x < h) \<longleftrightarrow> (\<exists>(l, h) \<in> set rs. l \<le> x \<and> x < h)"
      if "a \<le> x" for x
      using that c by auto
    with 2(2) [OF _ _ sorted 2(4)] c show ?thesis by auto
  next
    case 3
    then show ?thesis by fastforce
  next
    case c: 4
    have "(\<forall>x. a \<le> x \<and> x < b \<longrightarrow> (\<exists>(l, h) \<in> set ((lo, hi) # rs). l \<le> x \<and> x < h)) \<longleftrightarrow>
        (\<forall>x. hi \<le> x \<and> x < b \<longrightarrow> (\<exists>(l, h) \<in> set rs. l \<le> x \<and> x < h))"
      using c by (auto, (meson le_less_trans less_le_not_le linorder_not_less order_trans)+)
    with 2(1) [OF _ _ _ sorted c(3)] c show ?thesis by auto
  qed
qed

text \<open>The walk over the recorded ranges answers exactly whether every offset of a file is held:
  adjacent and overlapping ranges join, and a gap ends the answer.\<close>

theorem covered_is_coverage:
  assumes "sorted (map fst ranges)"
  shows "covered ranges a b \<longleftrightarrow> (\<forall>x. in_span a b x \<longrightarrow> (\<exists>(lo, hi) \<in> set ranges. in_span lo hi x))"
  using cover_walk_iff [OF assms, of a b] by (auto simp: covered_def in_span_def)

lemma covered_is_coverage_witness:
  "covered [(1, 151), (151, 301)] 101 201 \<and> \<not> covered [(1, 151), (152, 301)] 101 201"
proof -
  have "covered [(1, 151), (151, 301)] 101 201"
    using covered_is_coverage [of "[(1, 151), (151, 301)]" 101 201] by (auto simp: in_span_def)
  moreover have "\<not> covered [(1, 151), (152, 301)] 101 201"
  proof
    have s: "sorted (map fst [(1 :: offset, 151 :: offset), (152, 301)])" by simp
    assume "covered [(1, 151), (152, 301)] 101 201"
    from covered_is_coverage [OF s, THEN iffD1, OF this, rule_format, of 151] show False
      by (simp add: in_span_def)
  qed
  ultimately show ?thesis by blast
qed

subsection \<open>A concrete staging table\<close>

definition sample_policy :: log_config where
  "sample_policy = defaults\<lparr>target_compact_size := Some 10, target_compact_step_size := Some 2\<rparr>"

definition sample_file :: "offset \<Rightarrow> int \<Rightarrow> staged_file" where
  "sample_file a n = \<lparr>sf_path = int_text a, sf_size = n, sf_rows = 5, sf_start = a, sf_end = a + 5\<rparr>"

lemmas plan_defs = sample_policy_def sample_file_def defaults_def compact_size_def compact_step_def
  unsettled_from_def stable_prefix_def stretches_def mergeable_def merge_candidates_def compact_plan_def
  published_through_def get_meta_def meta_value_def published_prefix_def published_ranges_def
  LEGACY_META_if PUBLISHED_THROUGH_KEY_def empty_db_def merges_def grows_def total_size_def Let_def covered_def

lemma sample_policy_valid: "validate [] [] sample_policy None = None"
  by (simp add: validate_def first_broken_def config_rules_def sample_policy_def defaults_def compact_size_def
      compact_step_def validate_schema_def first_error_def DEFAULT_STAGING_MAX_BYTES_def second_def
      DEFAULT_ROW_GROUP_SIZE_def CODECS_def Let_def)

lemma sample_plan:
  "compact_plan sample_policy True [sample_file 1 12, sample_file 6 3, sample_file 11 4] (empty_db :: unit db) =
     Some [[sample_file 6 3, sample_file 11 4]]"
  by (simp add: plan_defs)

lemma settled_files_are_final_witness:
  "set [sample_file 6 3, sample_file 11 4] \<inter> set (take (unsettled_from sample_policy [sample_file 1 12]) [sample_file 1 12]) = {}"
proof -
  have "take (unsettled_from sample_policy [sample_file 1 12]) [sample_file 1 12] = [sample_file 1 12]"
    by (simp add: plan_defs)
  with settled_files_are_final [OF sample_policy_valid, of "[sample_file 1 12]" "[sample_file 6 3, sample_file 11 4]"
      True "empty_db :: unit db" _ "[sample_file 6 3, sample_file 11 4]"] sample_plan
  show ?thesis by (simp add: sample_file_def)
qed

lemma merge_replaces_exactly_its_run_witness:
  "filter (\<lambda>f. overlaps (sf_start f) (sf_end f) 6 16) [sample_file 1 12, sample_file 6 3, sample_file 11 4] =
     [sample_file 6 3, sample_file 11 4]"
  using merge_replaces_exactly_its_run [OF sample_policy_valid _ sample_plan]
  by (simp add: sample_file_def staging_ok_def)

end
