(* ===== verification/Seal_Pass.thy ===== *)
theory Seal_Pass
  imports Seal_Contract Compaction
begin

text \<open>
  Sealing, as every sealer runs it (\<^verbatim>\<open>src/litelink/_handle.py\<close>: \<open>_seal_queued\<close>, \<open>_recover_seal\<close>,
  \<open>_write_and_commit\<close>, \<open>_seal_due\<close>, \<open>_seal_all\<close>, \<open>recover\<close>'s seal half; \<^verbatim>\<open>src/litelink/_table.py\<close>:
  \<open>register\<close>, \<open>_covers\<close>, \<open>span\<close>, \<open>file_paths\<close>). The code is cut at its transactions: \<open>seal_pc\<close> says which
  one a sealer is about to run, with its local variables, and \<open>seal_next\<close> runs it. So the same
  definition serves the sealer alone (\<open>seal_queued\<close>, \<open>seal_due\<close>, \<open>seal_all\<close>) and many sealers in
  different processes interleaved with one another and stopped anywhere.

  The staging table is the list of its data files, each with the rows read from it when it was
  registered; \<open>add_files\<close> and its commit are one step, since a commit that lost its
  compare-and-swap reloads the table and runs the whole check again. \<open>arrange\<close> is pyarrow's sort on the log's
  columns. Files are written whole: a partly written file is one no step has named yet.
\<close>

subsection \<open>The staging table\<close>

type_synonym 'r data_file = "path \<times> (offset \<times> 'r) list"

record 'r seal_world =
  sw_db :: "'r db"
  sw_disk :: "path \<rightharpoonup> (offset \<times> 'r) list"
  sw_table :: "'r data_file list"

definition table_rows :: "'r data_file list \<Rightarrow> (offset \<times> 'r) list" where
  "table_rows fs = concat (map snd fs)"

definition table_span :: "'r data_file list \<Rightarrow> (offset \<times> offset) option" where
  "table_span fs =
     (case (list_min (map fst (table_rows fs)), list_max (map fst (table_rows fs))) of
        (Some lo, Some hi) \<Rightarrow> Some (lo, hi + 1) | _ \<Rightarrow> None)"

definition covers :: "'r data_file list \<Rightarrow> offset \<Rightarrow> bool" where
  "covers fs b \<longleftrightarrow> (case table_span fs of None \<Rightarrow> False | Some (lo, hi) \<Rightarrow> b \<le> hi)"

datatype register_error = Already_added path | No_such_file path

text \<open>One attempt of \<open>register\<close> for one file and no start: the table and whether the file was added.\<close>

definition register ::
  "(path \<rightharpoonup> (offset \<times> 'r) list) \<Rightarrow> path \<Rightarrow> offset \<Rightarrow> int \<Rightarrow> 'r data_file list
     \<Rightarrow> register_error + bool \<times> 'r data_file list" where
  "register disk p b through fs =
     (if covers fs b \<or> b \<le> through + 1 then Inr (False, fs)
      else if p \<in> fst ` set fs then Inl (Already_added p)
      else case disk p of None \<Rightarrow> Inl (No_such_file p) | Some rows \<Rightarrow> Inr (True, fs @ [(p, rows)]))"

subsection \<open>One sealer\<close>

definition SEAL_ROLE :: string where "SEAL_ROLE = ''seal''"

text \<open>What a call is handed from outside at each transaction: the clocks, a fresh owner, a fresh token.\<close>

record tick =
  tk_ms :: int
  tk_seconds :: int
  tk_owner :: owner
  tk_token :: string

datatype seal_result = Nothing_sealed | Sealed_to offset | Seal_raised

datatype seal_pc =
    Ready                                        \<comment> \<open>\<open>_seal_queued\<close>: about to read the head of the queue\<close>
  | Peeked offset offset                         \<comment> \<open>about to claim its range\<close>
  | Leased claim offset offset                   \<comment> \<open>about to read the head again, under the claim\<close>
  | Headed claim offset offset                   \<comment> \<open>about to look for an earlier attempt\<close>
  | Naming claim offset offset path              \<comment> \<open>about to record the range and its path\<close>
  | Renew_first claim offset offset path
  | Opening                                      \<comment> \<open>\<open>recover\<close>: about to claim every range\<close>
  | Recovering claim seal_result                 \<comment> \<open>\<open>_recover_seal\<close>: about to read \<open>sealing\<close>\<close>
  | Resolving claim seal_result offset offset path   \<comment> \<open>about to ask the table for the file\<close>
  | Requeueing claim seal_result offset offset path  \<comment> \<open>about to queue the abandoned name\<close>
  | Renaming claim seal_result offset offset path    \<comment> \<open>about to record the range and its new path\<close>
  | Writing claim seal_result offset offset path     \<comment> \<open>\<open>_write_and_commit\<close>: about to write the file\<close>
  | Renew_second claim seal_result offset offset path
  | Lost claim path                              \<comment> \<open>about to queue the file and raise\<close>
  | Committing claim seal_result offset offset path  \<comment> \<open>about to read the watermark\<close>
  | Registering claim seal_result offset offset path int
  | Declined claim seal_result offset path       \<comment> \<open>about to queue the redundant file\<close>
  | Finishing claim seal_result offset path      \<comment> \<open>about to \<open>finish_seal\<close>\<close>
  | Releasing claim seal_result
  | Returned seal_result

definition on_sw_db :: "('r db \<Rightarrow> 'r db) \<Rightarrow> 'r seal_world \<Rightarrow> 'r seal_world" where
  "on_sw_db f w = w\<lparr>sw_db := f (sw_db w)\<rparr>"

definition with_claims :: "claim_table \<Rightarrow> 'r db \<Rightarrow> 'r db" where
  "with_claims t d = d\<lparr>db_claims := t\<rparr>"

text \<open>Taking a claim: what follows when it is refused, and when it is granted.\<close>

definition take_claim ::
  "offset \<Rightarrow> offset \<Rightarrow> tick \<Rightarrow> (claim \<Rightarrow> seal_pc) \<Rightarrow> 'r seal_world \<Rightarrow> seal_pc \<times> 'r seal_world" where
  "take_claim a b t granted w =
     (case acquire (tk_ms t) Committed True (make_claim SEAL_ROLE a b (tk_owner t) None DEFAULT_TTL_MS)
             (db_claims (sw_db w)) of
        (ok, c, t') \<Rightarrow> (if ok = Some True then granted c else Returned Nothing_sealed,
                       on_sw_db (with_claims t') w))"

definition renew_claim :: "claim \<Rightarrow> tick \<Rightarrow> seal_pc \<Rightarrow> seal_pc \<Rightarrow> 'r seal_world \<Rightarrow> seal_pc \<times> 'r seal_world" where
  "renew_claim c t kept gone w =
     (case renew (tk_ms t) c (db_claims (sw_db w)) of
        (ok, t') \<Rightarrow> (if ok then kept else gone, on_sw_db (with_claims t') w))"

text \<open>\<open>_seal_queued\<close>.\<close>

fun attempt_next ::
  "layout \<Rightarrow> tick \<Rightarrow> seal_pc \<Rightarrow> 'r seal_world \<Rightarrow> seal_pc \<times> 'r seal_world" where
  "attempt_next l t Ready w =
     (case pending_group (sw_db w) of None \<Rightarrow> (Returned Nothing_sealed, w) | Some (a, b) \<Rightarrow> (Peeked a b, w))"
| "attempt_next l t (Peeked a b) w = take_claim a b t (\<lambda>c. Leased c a b) w"
| "attempt_next l t (Leased c a b) w =
     (if pending_group (sw_db w) \<noteq> Some (a, b) then (Releasing c Nothing_sealed, w) else (Headed c a b, w))"
| "attempt_next l t (Headed c a b) w =
     (case pending_seal (sw_db w) of
        Some (s, e, p) \<Rightarrow> if e = b then (Recovering c (Sealed_to b), w)
                         else (Naming c a b (seal_path l a b (tk_token t)), w)
      | None \<Rightarrow> (Naming c a b (seal_path l a b (tk_token t)), w))"
| "attempt_next l t (Naming c a b p) w = (Renew_first c a b p, on_sw_db (claim_seal a b p) w)"
| "attempt_next l t (Renew_first c a b p) w =
     renew_claim c t (Writing c (Sealed_to b) a b p) (Releasing c Seal_raised) w"
| "attempt_next l t (Finishing c r b p) w =
     (case finish_seal (tk_seconds t) b p (sw_db w) of
        None \<Rightarrow> (Releasing c Seal_raised, w)
      | Some (known, d) \<Rightarrow> (Releasing c r, w\<lparr>sw_db := d\<rparr>))"
| "attempt_next l t (Releasing c r) w =
     (Returned r, on_sw_db (\<lambda>d. with_claims (snd (release c (db_claims d))) d) w)"
| "attempt_next l t pc w = (pc, w)"

text \<open>\<open>_recover_seal\<close>, and the claim \<open>recover\<close> takes before it.\<close>

fun recovery_next ::
  "layout \<Rightarrow> tick \<Rightarrow> seal_pc \<Rightarrow> 'r seal_world \<Rightarrow> seal_pc \<times> 'r seal_world" where
  "recovery_next l t Opening w = take_claim 0 EVERYTHING t (\<lambda>c. Recovering c Nothing_sealed) w"
| "recovery_next l t (Recovering c r) w =
     (case pending_seal (sw_db w) of
        None \<Rightarrow> (Releasing c r, w) | Some (s, e, p) \<Rightarrow> (Resolving c r s e p, w))"
| "recovery_next l t (Resolving c r s e p) w =
     (if p \<in> fst ` set (sw_table w) then (Finishing c r e p, w) else (Requeueing c r s e p, w))"
| "recovery_next l t (Requeueing c r s e p) w =
     (Renaming c r s e (seal_path l s e (tk_token t)), on_sw_db (enqueue_deletions [p] (tk_seconds t)) w)"
| "recovery_next l t (Renaming c r s e p) w = (Writing c r s e p, on_sw_db (claim_seal s e p) w)"
| "recovery_next l t pc w = (pc, w)"

text \<open>\<open>_write_and_commit\<close>.\<close>

fun commit_next ::
  "((offset \<times> 'r) list \<Rightarrow> (offset \<times> 'r) list) \<Rightarrow> tick \<Rightarrow> seal_pc \<Rightarrow> 'r seal_world \<Rightarrow> seal_pc \<times> 'r seal_world" where
  "commit_next arrange t (Writing c r a b p) w =
     (Renew_second c r a b p, w\<lparr>sw_disk := (sw_disk w)(p \<mapsto> arrange (rows_between a b (sw_db w)))\<rparr>)"
| "commit_next arrange t (Renew_second c r a b p) w = renew_claim c t (Committing c r a b p) (Lost c p) w"
| "commit_next arrange t (Lost c p) w =
     (Releasing c Seal_raised, on_sw_db (enqueue_deletions [p] (tk_seconds t)) w)"
| "commit_next arrange t (Committing c r a b p) w =
     (case published_through (sw_db w) of
        None \<Rightarrow> (Releasing c Seal_raised, w) | Some through \<Rightarrow> (Registering c r a b p through, w))"
| "commit_next arrange t (Registering c r a b p through) w =
     (case register (sw_disk w) p b through (sw_table w) of
        Inl e \<Rightarrow> (Releasing c Seal_raised, w)
      | Inr (added, fs) \<Rightarrow> (if added then Finishing c r b p else Declined c r b p, w\<lparr>sw_table := fs\<rparr>))"
| "commit_next arrange t (Declined c r b p) w =
     (Finishing c r b p, on_sw_db (enqueue_deletions [p] (tk_seconds t)) w)"
| "commit_next arrange t pc w = (pc, w)"

definition seal_next ::
  "layout \<Rightarrow> ((offset \<times> 'r) list \<Rightarrow> (offset \<times> 'r) list) \<Rightarrow> tick \<Rightarrow> seal_pc \<Rightarrow> 'r seal_world
     \<Rightarrow> seal_pc \<times> 'r seal_world" where
  "seal_next l arrange t pc w =
     (case pc of
        Opening \<Rightarrow> recovery_next l t pc w
      | Recovering _ _ \<Rightarrow> recovery_next l t pc w
      | Resolving _ _ _ _ _ \<Rightarrow> recovery_next l t pc w
      | Requeueing _ _ _ _ _ \<Rightarrow> recovery_next l t pc w
      | Renaming _ _ _ _ _ \<Rightarrow> recovery_next l t pc w
      | Writing _ _ _ _ _ \<Rightarrow> commit_next arrange t pc w
      | Renew_second _ _ _ _ _ \<Rightarrow> commit_next arrange t pc w
      | Lost _ _ \<Rightarrow> commit_next arrange t pc w
      | Committing _ _ _ _ _ \<Rightarrow> commit_next arrange t pc w
      | Registering _ _ _ _ _ _ \<Rightarrow> commit_next arrange t pc w
      | Declined _ _ _ _ \<Rightarrow> commit_next arrange t pc w
      | _ \<Rightarrow> attempt_next l t pc w)"

lemma seal_next_simps [simp]:
  "seal_next l arrange t Ready w =
     (case pending_group (sw_db w) of None \<Rightarrow> (Returned Nothing_sealed, w) | Some (a, b) \<Rightarrow> (Peeked a b, w))"
  "seal_next l arrange t (Peeked a b) w = take_claim a b t (\<lambda>c. Leased c a b) w"
  "seal_next l arrange t (Leased c a b) w =
     (if pending_group (sw_db w) \<noteq> Some (a, b) then (Releasing c Nothing_sealed, w) else (Headed c a b, w))"
  "seal_next l arrange t (Headed c a b) w =
     (case pending_seal (sw_db w) of
        Some (s, e, p) \<Rightarrow> if e = b then (Recovering c (Sealed_to b), w)
                         else (Naming c a b (seal_path l a b (tk_token t)), w)
      | None \<Rightarrow> (Naming c a b (seal_path l a b (tk_token t)), w))"
  "seal_next l arrange t (Naming c a b p) w = (Renew_first c a b p, on_sw_db (claim_seal a b p) w)"
  "seal_next l arrange t (Renew_first c a b p) w =
     renew_claim c t (Writing c (Sealed_to b) a b p) (Releasing c Seal_raised) w"
  "seal_next l arrange t Opening w = take_claim 0 EVERYTHING t (\<lambda>c. Recovering c Nothing_sealed) w"
  "seal_next l arrange t (Recovering c r) w =
     (case pending_seal (sw_db w) of
        None \<Rightarrow> (Releasing c r, w) | Some (s, e, p) \<Rightarrow> (Resolving c r s e p, w))"
  "seal_next l arrange t (Resolving c r s e p) w =
     (if p \<in> fst ` set (sw_table w) then (Finishing c r e p, w) else (Requeueing c r s e p, w))"
  "seal_next l arrange t (Requeueing c r s e p) w =
     (Renaming c r s e (seal_path l s e (tk_token t)), on_sw_db (enqueue_deletions [p] (tk_seconds t)) w)"
  "seal_next l arrange t (Renaming c r s e p) w = (Writing c r s e p, on_sw_db (claim_seal s e p) w)"
  "seal_next l arrange t (Writing c r a b p) w =
     (Renew_second c r a b p, w\<lparr>sw_disk := (sw_disk w)(p \<mapsto> arrange (rows_between a b (sw_db w)))\<rparr>)"
  "seal_next l arrange t (Renew_second c r a b p) w = renew_claim c t (Committing c r a b p) (Lost c p) w"
  "seal_next l arrange t (Lost c p) w =
     (Releasing c Seal_raised, on_sw_db (enqueue_deletions [p] (tk_seconds t)) w)"
  "seal_next l arrange t (Committing c r a b p) w =
     (case published_through (sw_db w) of
        None \<Rightarrow> (Releasing c Seal_raised, w) | Some through \<Rightarrow> (Registering c r a b p through, w))"
  "seal_next l arrange t (Registering c r a b p through) w =
     (case register (sw_disk w) p b through (sw_table w) of
        Inl e \<Rightarrow> (Releasing c Seal_raised, w)
      | Inr (added, fs) \<Rightarrow> (if added then Finishing c r b p else Declined c r b p, w\<lparr>sw_table := fs\<rparr>))"
  "seal_next l arrange t (Declined c r b p) w =
     (Finishing c r b p, on_sw_db (enqueue_deletions [p] (tk_seconds t)) w)"
  "seal_next l arrange t (Finishing c r b p) w =
     (case finish_seal (tk_seconds t) b p (sw_db w) of
        None \<Rightarrow> (Releasing c Seal_raised, w)
      | Some (known, d) \<Rightarrow> (Releasing c r, w\<lparr>sw_db := d\<rparr>))"
  "seal_next l arrange t (Releasing c r) w =
     (Returned r, on_sw_db (\<lambda>d. with_claims (snd (release c (db_claims d))) d) w)"
  "seal_next l arrange t (Returned r) w = (Returned r, w)"
  by (simp_all add: seal_next_def)

subsection \<open>A sealer alone\<close>

fun run_sealer ::
  "layout \<Rightarrow> ((offset \<times> 'r) list \<Rightarrow> (offset \<times> 'r) list) \<Rightarrow> tick list \<Rightarrow> seal_pc \<Rightarrow> 'r seal_world
     \<Rightarrow> seal_pc \<times> 'r seal_world" where
  "run_sealer l arrange [] pc w = (pc, w)"
| "run_sealer l arrange (t # ts) pc w =
     (case seal_next l arrange t pc w of (pc', w') \<Rightarrow> run_sealer l arrange ts pc' w')"

text \<open>\<open>_seal_queued\<close> under the ticks of one call; it has no loop, and never needs more than \<open>SEAL_TICKS\<close>.\<close>

definition SEAL_TICKS :: nat where "SEAL_TICKS = 16"

definition seal_queued ::
  "layout \<Rightarrow> ((offset \<times> 'r) list \<Rightarrow> (offset \<times> 'r) list) \<Rightarrow> (nat \<Rightarrow> tick) \<Rightarrow> 'r seal_world
     \<Rightarrow> seal_result \<times> 'r seal_world" where
  "seal_queued l arrange ticks w =
     (case run_sealer l arrange (map ticks [0..<SEAL_TICKS]) Ready w of
        (Returned r, w') \<Rightarrow> (r, w') | (_, w') \<Rightarrow> (Seal_raised, w'))"

text \<open>\<open>_seal_due\<close>, with the ticks of its \<open>k\<close>-th call; None while it never returns, \<open>Inl\<close> where it raised.\<close>

partial_function (option) seal_due ::
  "layout \<Rightarrow> ((offset \<times> 'r) list \<Rightarrow> (offset \<times> 'r) list) \<Rightarrow> (nat \<Rightarrow> nat \<Rightarrow> tick) \<Rightarrow> nat \<Rightarrow> offset option
     \<Rightarrow> 'r seal_world \<Rightarrow> ((unit + offset option) \<times> 'r seal_world) option" where
  "seal_due l arrange ticks k sofar w =
     (if pending_group (sw_db w) = None then Some (Inr sofar, w)
      else case seal_queued l arrange (ticks k) w of
             (Nothing_sealed, w') \<Rightarrow> Some (Inr sofar, w')
           | (Seal_raised, w') \<Rightarrow> Some (Inl (), w')
           | (Sealed_to b, w') \<Rightarrow> seal_due l arrange ticks (Suc k) (Some b) w')"

text \<open>\<open>_seal_all\<close>: its loop, and the cut before it.\<close>

partial_function (option) seal_to ::
  "layout \<Rightarrow> ((offset \<times> 'r) list \<Rightarrow> (offset \<times> 'r) list) \<Rightarrow> (nat \<Rightarrow> nat \<Rightarrow> tick) \<Rightarrow> nat \<Rightarrow> offset
     \<Rightarrow> 'r seal_world \<Rightarrow> ((unit + offset option) \<times> 'r seal_world) option" where
  "seal_to l arrange ticks k target w =
     (if (case pending_group (sw_db w) of None \<Rightarrow> True | Some (a, b) \<Rightarrow> target < b) then Some (Inr (Some target), w)
      else case seal_queued l arrange (ticks k) w of
             (Nothing_sealed, w') \<Rightarrow> Some (Inr (Some target), w')
           | (Seal_raised, w') \<Rightarrow> Some (Inl (), w')
           | (Sealed_to b, w') \<Rightarrow> seal_to l arrange ticks (Suc k) target w')"

definition seal_all ::
  "layout \<Rightarrow> ((offset \<times> 'r) list \<Rightarrow> (offset \<times> 'r) list) \<Rightarrow> (nat \<Rightarrow> nat \<Rightarrow> tick)
     \<Rightarrow> 'r seal_world \<Rightarrow> ((unit + offset option) \<times> 'r seal_world) option" where
  "seal_all l arrange ticks w =
     (let w1 = on_sw_db (\<lambda>d. snd (close_open_group d)) w in
      case last_queued_end (sw_db w1) of
        None \<Rightarrow> Some (Inr None, w1)
      | Some target \<Rightarrow> seal_to l arrange ticks 0 target w1)"

end
