(* ===== verification/Prune_Terms.thy ===== *)
theory Prune_Terms
  imports Manifest "HOL-Library.Char_ord" "HOL-Library.List_Lexorder" "HOL-Library.Product_Lexorder"
begin

text \<open>
  A query's WHERE as manifest terms (\<^verbatim>\<open>src/litelink/_prune.py\<close>). DuckDB is a parameter: \<open>dk_execute\<close> runs a
  statement and gives the first column of its row, None for an error or no row. JSON text is a
  parameter too: what a tree prints as and what a text reads as. A Python exception (a missing key, an
  attribute of something that is not a dict) is None, so that every subscript of the source is a
  branch here.
\<close>

subsection \<open>Outside\<close>

record duckdb =
  dk_execute :: "string \<Rightarrow> pyval option"
  py_loads :: "string \<Rightarrow> json option"
  py_dumps :: "json \<Rightarrow> string"
  json_repr :: "json \<Rightarrow> string"
  val_repr :: "pyval \<Rightarrow> string"

text \<open>\<open>str\<close>: a string is itself, anything else prints as its \<open>repr\<close>.\<close>

definition str_json :: "duckdb \<Rightarrow> json \<Rightarrow> string" where
  "str_json dk j = (case j of JStr s \<Rightarrow> s | _ \<Rightarrow> json_repr dk j)"

definition str_val :: "duckdb \<Rightarrow> pyval \<Rightarrow> string" where
  "str_val dk v = (case v of PStr s \<Rightarrow> s | _ \<Rightarrow> val_repr dk v)"

subsection \<open>Python over a JSON tree\<close>

text \<open>\<open>node.get(k)\<close> and \<open>node.get(k, default)\<close>; \<open>node[k]\<close>.\<close>

definition get_or :: "json \<Rightarrow> string \<Rightarrow> json \<Rightarrow> json option" where
  "get_or j k other = (case j of
     JObj kvs \<Rightarrow> Some (case map_of kvs k of None \<Rightarrow> other | Some v \<Rightarrow> v) | _ \<Rightarrow> None)"

abbreviation get_key :: "json \<Rightarrow> string \<Rightarrow> json option" where
  "get_key j k \<equiv> get_or j k JNull"

definition index_key :: "json \<Rightarrow> string \<Rightarrow> json option" where
  "index_key j k = (case j of JObj kvs \<Rightarrow> map_of kvs k | _ \<Rightarrow> None)"

fun truthy :: "json \<Rightarrow> bool" where
  "truthy JNull = False"
| "truthy (JBool b) = b"
| "truthy (JInt i) = (i \<noteq> 0)"
| "truthy (JFloat f) = (f \<noteq> FVal (Fin 0))"
| "truthy (JStr s) = (s \<noteq> [])"
| "truthy (JArr xs) = (xs \<noteq> [])"
| "truthy (JObj kvs) = (kvs \<noteq> [])"

fun len_json :: "json \<Rightarrow> nat option" where
  "len_json (JStr s) = Some (length s)"
| "len_json (JArr xs) = Some (length xs)"
| "len_json (JObj kvs) = Some (length kvs)"
| "len_json _ = None"

text \<open>What \<open>for x in j\<close> runs over: a dict gives its keys, a string its characters.\<close>

fun iter_json :: "json \<Rightarrow> json list option" where
  "iter_json (JArr xs) = Some xs"
| "iter_json (JObj kvs) = Some (map (JStr \<circ> fst) kvs)"
| "iter_json (JStr s) = Some (map (\<lambda>c. JStr [c]) s)"
| "iter_json _ = None"

text \<open>Every result of a loop, None when one of its turns raised.\<close>

definition each :: "('a \<Rightarrow> 'b option) \<Rightarrow> 'a list \<Rightarrow> 'b list option" where
  "each f xs = those (map f xs)"

subsection \<open>Walking an expression\<close>

fun walk :: "json \<Rightarrow> json list" where
  "walk (JObj kvs) = JObj kvs # concat (map (\<lambda>(k, v). walk v) kvs)"
| "walk (JArr xs) = concat (map walk xs)"
| "walk _ = []"

definition is_subquery :: "json \<Rightarrow> bool" where
  "is_subquery j \<longleftrightarrow> get_key j ''class'' = Some (JStr ''SUBQUERY'') \<or> get_key j ''type'' = Some (JStr ''SUBQUERY'')"

definition is_and :: "json \<Rightarrow> bool" where
  "is_and j \<longleftrightarrow> get_key j ''class'' = Some (JStr ''CONJUNCTION'') \<and> get_key j ''type'' = Some (JStr ''CONJUNCTION_AND'')"

lemma size_map_of:
  "map_of kvs k = Some v \<Longrightarrow> size (v :: json) < Suc (size_list (size_prod (\<lambda>x. 0) size) kvs)"
  by (induction kvs) (auto split: if_splits)

lemma json_child_size: "c \<in> set cs \<Longrightarrow> size c < size (JArr cs)"
  by (induction cs) auto

text \<open>\<open>_conjuncts\<close>: a child that is not a dict has no \<open>get\<close>, an AND without children none.\<close>

function conjuncts :: "json \<Rightarrow> json list option" where
  "conjuncts j =
     (case j of
        JObj kvs \<Rightarrow>
          if is_and j
          then (case map_of kvs ''children'' of
                  None \<Rightarrow> Some []
                | Some (JArr cs) \<Rightarrow> map_option concat (those (map conjuncts cs))
                | Some (JStr s) \<Rightarrow> if s = [] then Some [] else None
                | Some (JObj c) \<Rightarrow> if c = [] then Some [] else None
                | _ \<Rightarrow> None)
          else Some [j]
      | _ \<Rightarrow> None)"
  by pat_completeness auto
termination
  by (relation "measure size") (auto dest!: size_map_of dest: json_child_size simp: less_Suc_eq_le intro: less_le_trans)

declare conjuncts.simps [simp del]

subsection \<open>Constants\<close>

text \<open>A SQL string literal: quotes doubled.\<close>

definition quoted :: "string \<Rightarrow> string" where
  "quoted s = CHR 0x27 # concat (map (\<lambda>c. if c = CHR 0x27 then [CHR 0x27, CHR 0x27] else [c]) s) @ [CHR 0x27]"

text \<open>The loop that looks under casts; None is a node without a \<open>get\<close> or a cast without a child.\<close>

function under_casts :: "json \<Rightarrow> json option" where
  "under_casts j =
     (case j of
        JObj kvs \<Rightarrow>
          if map_of kvs ''class'' = Some (JStr ''CAST'')
          then (case map_of kvs ''child'' of None \<Rightarrow> None | Some c \<Rightarrow> under_casts c)
          else Some j
      | _ \<Rightarrow> None)"
  by pat_completeness auto
termination
  by (relation "measure size") (auto dest!: size_map_of)

declare under_casts.simps [simp del]

definition template :: "json \<Rightarrow> json" where
  "template expression =
     JObj [(''error'', JBool False),
           (''statements'', JArr [JObj
             [(''node'', JObj
                [(''type'', JStr ''SELECT_NODE''),
                 (''modifiers'', JArr []),
                 (''cte_map'', JObj [(''map'', JArr [])]),
                 (''select_list'', JArr [expression]),
                 (''from_table'', JObj
                    [(''type'', JStr ''EMPTY''), (''alias'', JStr []), (''sample'', JNull),
                     (''query_location'', JInt 18446744073709551615)]),
                 (''where_clause'', JNull),
                 (''group_expressions'', JArr []),
                 (''group_sets'', JArr []),
                 (''aggregate_handling'', JStr ''STANDARD_HANDLING''),
                 (''having'', JNull),
                 (''sample'', JNull),
                 (''qualify'', JNull)]),
              (''named_param_map'', JArr [])]])]"

text \<open>\<open>_constant\<close>: the outer None is an exception, the inner one "not a constant".\<close>

definition constant_sql :: "duckdb \<Rightarrow> json \<Rightarrow> string option option" where
  "constant_sql dk expression =
     (case under_casts expression of
        None \<Rightarrow> None
      | Some probe \<Rightarrow>
          if get_key probe ''class'' \<noteq> Some (JStr ''CONSTANT'') then Some None
          else (case dk_execute dk (''SELECT json_deserialize_sql('' @ quoted (py_dumps dk (template expression)) @ '')'') of
                  None \<Rightarrow> Some None
                | Some v \<Rightarrow>
                    let shown = str_val dk v
                    in Some (if starts_with shown ''SELECT '' then Some (remove_prefix shown ''SELECT '') else None)))"

text \<open>The cast the column's type asks for, and the values Python compares as DuckDB does.\<close>

definition cast_for :: "pa_type \<Rightarrow> string \<Rightarrow> string" where
  "cast_for t sql =
     (if t = Pa_float 32 then ''CAST(('' @ sql @ '') AS FLOAT)''
      else if t = Pa_float 64 then ''CAST(('' @ sql @ '') AS DOUBLE)'' else sql)"

definition comparable :: "pa_type \<Rightarrow> pyval \<Rightarrow> bool" where
  "comparable t v =
     (if pa_floating t then (case v of PFloat _ \<Rightarrow> True | _ \<Rightarrow> False)
      else if t = Pa_bool then (case v of PBool _ \<Rightarrow> True | _ \<Rightarrow> False)
      else (case v of PInt _ \<Rightarrow> True | PDec _ \<Rightarrow> True | _ \<Rightarrow> False))"

text \<open>\<open>_value\<close>: the outer None is an exception, the inner one \<open>(False, _)\<close>.\<close>

definition value_of :: "duckdb \<Rightarrow> json \<Rightarrow> pa_type \<Rightarrow> pyval option option" where
  "value_of dk expression t =
     (case constant_sql dk expression of
        None \<Rightarrow> None
      | Some None \<Rightarrow> Some None
      | Some (Some sql) \<Rightarrow>
          (case dk_execute dk (''SELECT '' @ cast_for t sql) of
             None \<Rightarrow> Some None
           | Some v \<Rightarrow> Some (if comparable t v then Some v else None)))"

subsection \<open>Columns\<close>

text \<open>A prunable column under its lowercased name: how the schema spells it, and its type.\<close>

type_synonym kinds = "(string \<times> string \<times> pa_type) list"

definition spelled :: "pa_schema \<Rightarrow> string \<Rightarrow> nat" where
  "spelled schema low = length (filter (\<lambda>(name, _). lower name = low) schema)"

definition kinds_of :: "pa_schema \<Rightarrow> kinds" where
  "kinds_of schema =
     map (\<lambda>(name, _, t). (lower name, name, t))
       (filter (\<lambda>(name, _, t). t \<in> set PRUNABLE \<and> spelled schema (lower name) = 1) schema)"

text \<open>\<open>{field.name: field.type}\<close>: the last field of a name counts.\<close>

definition types_of :: "pa_schema \<Rightarrow> string \<Rightarrow> pa_type option" where
  "types_of schema = map_of (rev (map (\<lambda>(name, _, t). (name, t)) schema))"

definition column_of :: "duckdb \<Rightarrow> kinds \<Rightarrow> string list \<Rightarrow> json \<Rightarrow> string option option" where
  "column_of dk kinds quals expression =
     (case get_key expression ''class'' of
        None \<Rightarrow> None
      | Some c \<Rightarrow>
          if c \<noteq> JStr ''COLUMN_REF'' then Some None
          else (case Option.bind (get_or expression ''column_names'' (JArr [])) iter_json of
                  None \<Rightarrow> None
                | Some js \<Rightarrow>
                    let given = map (\<lambda>j. lower (str_json dk j)) js;
                        names = (if length given = 2 \<and> hd given \<in> set quals then tl given else given)
                    in Some (if length names \<noteq> 1 then None else map_option fst (map_of kinds (hd names)))))"

subsection \<open>One conjunct\<close>

definition MIRROR :: "(string \<times> string) list" where
  "MIRROR =
     [(''COMPARE_GREATERTHAN'', ''COMPARE_LESSTHAN''),
      (''COMPARE_GREATERTHANOREQUALTO'', ''COMPARE_LESSTHANOREQUALTO''),
      (''COMPARE_LESSTHAN'', ''COMPARE_GREATERTHAN''),
      (''COMPARE_LESSTHANOREQUALTO'', ''COMPARE_GREATERTHANOREQUALTO''),
      (''COMPARE_EQUAL'', ''COMPARE_EQUAL'')]"

definition OPERATOR :: "(string \<times> string) list" where
  "OPERATOR =
     [(''COMPARE_GREATERTHAN'', ''>''), (''COMPARE_GREATERTHANOREQUALTO'', ''>=''),
      (''COMPARE_LESSTHAN'', ''<''), (''COMPARE_LESSTHANOREQUALTO'', ''<=''), (''COMPARE_EQUAL'', ''=='')]"

definition value_for :: "duckdb \<Rightarrow> pa_schema \<Rightarrow> string \<Rightarrow> json \<Rightarrow> pyval option option" where
  "value_for dk schema column node =
     (case types_of schema column of None \<Rightarrow> None | Some t \<Rightarrow> value_of dk node t)"

text \<open>The term \<open>column op constant\<close>, none when the constant is not known.\<close>

definition bound_term :: "duckdb \<Rightarrow> pa_schema \<Rightarrow> string \<Rightarrow> string \<Rightarrow> json \<Rightarrow> prune_term list option" where
  "bound_term dk schema column operator node =
     map_option (\<lambda>v. case v of None \<Rightarrow> [] | Some x \<Rightarrow> [(column, operator, x)]) (value_for dk schema column node)"

definition comparison_terms :: "duckdb \<Rightarrow> pa_schema \<Rightarrow> kinds \<Rightarrow> string list \<Rightarrow> json \<Rightarrow> string \<Rightarrow> prune_term list option" where
  "comparison_terms dk schema kinds quals e kind =
     (case (index_key e ''left'', index_key e ''right'') of
        (Some l, Some r) \<Rightarrow>
          (case column_of dk kinds quals l of
             None \<Rightarrow> None
           | Some (Some column) \<Rightarrow> bound_term dk schema column (the (map_of OPERATOR kind)) r
           | Some None \<Rightarrow>
               (case column_of dk kinds quals r of
                  None \<Rightarrow> None
                | Some None \<Rightarrow> Some []
                | Some (Some column) \<Rightarrow> bound_term dk schema column (the (map_of OPERATOR (the (map_of MIRROR kind)))) l))
      | _ \<Rightarrow> None)"

definition between_terms :: "duckdb \<Rightarrow> pa_schema \<Rightarrow> kinds \<Rightarrow> string list \<Rightarrow> json \<Rightarrow> prune_term list option" where
  "between_terms dk schema kinds quals e =
     (case Option.bind (index_key e ''input'') (column_of dk kinds quals) of
        None \<Rightarrow> None
      | Some None \<Rightarrow> Some []
      | Some (Some column) \<Rightarrow>
          (case (Option.bind (index_key e ''lower'') (bound_term dk schema column ''>=''),
                 Option.bind (index_key e ''upper'') (bound_term dk schema column ''<='')) of
             (Some low, Some high) \<Rightarrow> Some (low @ high) | _ \<Rightarrow> None))"

text \<open>\<open>children[0]\<close> of something that is neither empty nor a list of dicts raises.\<close>

definition in_terms :: "duckdb \<Rightarrow> pa_schema \<Rightarrow> kinds \<Rightarrow> string list \<Rightarrow> json \<Rightarrow> prune_term list option" where
  "in_terms dk schema kinds quals e =
     (case get_or e ''children'' (JArr []) of
        None \<Rightarrow> None
      | Some children \<Rightarrow>
          if \<not> truthy children then Some []
          else (case children of
                  JArr (first # others) \<Rightarrow>
                    (case column_of dk kinds quals first of
                       None \<Rightarrow> None
                     | Some None \<Rightarrow> Some []
                     | Some (Some column) \<Rightarrow>
                         map_option (\<lambda>vs. if vs = [] \<or> None \<in> set vs then [] else [(column, ''in'', PList (map the vs))])
                           (each (value_for dk schema column) others))
                | _ \<Rightarrow> None))"

text \<open>\<open>kind in _MIRROR\<close> hashes \<open>kind\<close>, which a list or a dict refuses.\<close>

definition translate :: "duckdb \<Rightarrow> pa_schema \<Rightarrow> kinds \<Rightarrow> string list \<Rightarrow> json \<Rightarrow> prune_term list option" where
  "translate dk schema kinds quals e =
     (case (get_key e ''class'', get_key e ''type'') of
        (Some c, Some k) \<Rightarrow>
          if c = JStr ''COMPARISON''
          then (case k of
                  JStr kind \<Rightarrow> if map_of MIRROR kind \<noteq> None then comparison_terms dk schema kinds quals e kind else Some []
                | JArr _ \<Rightarrow> None | JObj _ \<Rightarrow> None | _ \<Rightarrow> Some [])
          else if c = JStr ''BETWEEN'' \<and> k = JStr ''COMPARE_BETWEEN'' then between_terms dk schema kinds quals e
          else if c = JStr ''OPERATOR'' \<and> k = JStr ''COMPARE_IN'' then in_terms dk schema kinds quals e
          else Some []
      | _ \<Rightarrow> None)"

subsection \<open>A query\<close>

text \<open>The WHERE of a query that is one SELECT over \<open>log\<close> alone and the names \<open>log\<close> goes by; the inner
  None is a query nothing is read from.\<close>

definition error_or_many :: "json \<Rightarrow> bool option" where
  "error_or_many parsed =
     (case get_key parsed ''error'' of
        None \<Rightarrow> None
      | Some e \<Rightarrow> if truthy e then Some True
                  else map_option (\<lambda>n. n \<noteq> 1) (Option.bind (get_or parsed ''statements'' (JArr [])) len_json))"

definition statement_node :: "json \<Rightarrow> json option" where
  "statement_node parsed =
     (case index_key parsed ''statements'' of
        Some (JArr (s # _)) \<Rightarrow> index_key s ''node'' | _ \<Rightarrow> None)"

definition not_a_plain_select :: "json \<Rightarrow> bool option" where
  "not_a_plain_select node =
     (case get_key node ''type'' of
        None \<Rightarrow> None
      | Some k \<Rightarrow> if k \<noteq> JStr ''SELECT_NODE'' then Some True
                  else map_option truthy (Option.bind (get_or node ''cte_map'' (JObj [])) (\<lambda>m. get_key m ''map'')))"

definition source_of :: "json \<Rightarrow> json option" where
  "source_of node = map_option (\<lambda>f. if truthy f then f else JObj []) (get_key node ''from_table'')"

definition not_the_log :: "duckdb \<Rightarrow> json \<Rightarrow> bool option" where
  "not_the_log dk source =
     (case (get_key source ''type'', get_or source ''table_name'' (JStr []), get_key source ''schema_name'', get_key source ''catalog_name'') of
        (Some k, Some n, Some s, Some c) \<Rightarrow>
          Some (k \<noteq> JStr ''BASE_TABLE'' \<or> lower (str_json dk n) \<noteq> ''log'' \<or> truthy s \<or> truthy c)
      | _ \<Rightarrow> None)"

definition qualifiers :: "duckdb \<Rightarrow> json \<Rightarrow> string list" where
  "qualifiers dk source =
     (case get_key source ''alias'' of
        Some a \<Rightarrow> if truthy a then [''log'', lower (str_json dk a)] else [''log'']
      | None \<Rightarrow> [''log''])"

definition where_of :: "duckdb \<Rightarrow> json \<Rightarrow> (json \<times> string list) option option" where
  "where_of dk parsed =
     (case error_or_many parsed of
        None \<Rightarrow> None
      | Some True \<Rightarrow> Some None
      | Some False \<Rightarrow>
          (case statement_node parsed of
             None \<Rightarrow> None
           | Some node \<Rightarrow>
               (case not_a_plain_select node of
                  None \<Rightarrow> None
                | Some True \<Rightarrow> Some None
                | Some False \<Rightarrow>
                    (case source_of node of
                       None \<Rightarrow> None
                     | Some source \<Rightarrow>
                         (case not_the_log dk source of
                            None \<Rightarrow> None
                          | Some True \<Rightarrow> Some None
                          | Some False \<Rightarrow>
                              if \<exists>item \<in> set (walk node). is_subquery item then Some None
                              else (case get_key node ''where_clause'' of
                                      None \<Rightarrow> None
                                    | Some JNull \<Rightarrow> Some None
                                    | Some w \<Rightarrow> Some (Some (w, qualifiers dk source))))))))"

text \<open>\<open>_terms\<close>; None when Python raises.\<close>

definition parse_terms :: "duckdb \<Rightarrow> string \<Rightarrow> pa_schema \<Rightarrow> prune_term list option" where
  "parse_terms dk query schema =
     (case dk_execute dk (''SELECT json_serialize_sql('' @ quoted query @ '')'') of
        None \<Rightarrow> Some []
      | Some v \<Rightarrow>
          (case Option.bind (py_loads dk (str_val dk v)) (where_of dk) of
             None \<Rightarrow> None
           | Some None \<Rightarrow> Some []
           | Some (Some (w, quals)) \<Rightarrow>
               Option.bind (conjuncts w) (\<lambda>cs. map_option concat (each (translate dk schema (kinds_of schema) quals) cs))))"

subsection \<open>The cache\<close>

definition CACHED :: nat where "CACHED = 256"

definition type_text :: "pa_type \<Rightarrow> string" where
  "type_text t = (case t of
     Pa_bool \<Rightarrow> ''bool''
   | Pa_int n \<Rightarrow> (if n = 32 then ''int32'' else ''int64'')
   | Pa_float n \<Rightarrow> (if n = 32 then ''float'' else ''double'')
   | _ \<Rightarrow> [])"

type_synonym cache_key = "string \<times> (string \<times> string) list"
type_synonym terms_cache = "(cache_key \<times> prune_term list) list"

definition cache_key_of :: "string \<Rightarrow> pa_schema \<Rightarrow> cache_key" where
  "cache_key_of query schema =
     (query, sort (map (\<lambda>(low, name, t). (low, type_text t)) (kinds_of schema)))"

text \<open>The oldest entry first: \<open>move_to_end\<close>, assignment (a key already there keeps its place),
  and \<open>popitem(last=False)\<close> while there are too many.\<close>

definition cache_hit :: "cache_key \<Rightarrow> terms_cache \<Rightarrow> (prune_term list \<times> terms_cache) option" where
  "cache_hit k cache =
     (case map_of cache k of
        None \<Rightarrow> None
      | Some ts \<Rightarrow> Some (ts, filter (\<lambda>(k', _). k' \<noteq> k) cache @ [(k, ts)]))"

definition cache_put :: "cache_key \<Rightarrow> prune_term list \<Rightarrow> terms_cache \<Rightarrow> terms_cache" where
  "cache_put k ts cache =
     (let kept = (if map_of cache k = None then cache @ [(k, ts)]
                  else map (\<lambda>(k', old). (k', if k' = k then ts else old)) cache)
      in drop (length kept - CACHED) kept)"

definition terms :: "duckdb \<Rightarrow> string \<Rightarrow> pa_schema \<Rightarrow> terms_cache \<Rightarrow> prune_term list option \<times> terms_cache" where
  "terms dk query schema cache =
     (let k = cache_key_of query schema
      in case cache_hit k cache of
           Some (ts, cache') \<Rightarrow> (Some ts, cache')
         | None \<Rightarrow> (case parse_terms dk query schema of
                     None \<Rightarrow> (None, cache)
                   | Some ts \<Rightarrow> (Some ts, cache_put k ts cache)))"

subsection \<open>What DuckDB's WHERE means\<close>

definition query_where :: "duckdb \<Rightarrow> string \<Rightarrow> (json \<times> string list) option" where
  "query_where dk query =
     (case dk_execute dk (''SELECT json_serialize_sql('' @ quoted query @ '')'') of
        None \<Rightarrow> None
      | Some v \<Rightarrow> (case Option.bind (py_loads dk (str_val dk v)) (where_of dk) of Some (Some q) \<Rightarrow> Some q | _ \<Rightarrow> None))"

definition is_constant :: "json \<Rightarrow> bool" where
  "is_constant e \<longleftrightarrow> Option.bind (under_casts e) (\<lambda>p. get_key p ''class'') = Some (JStr ''CONSTANT'')"

text \<open>A reference to the schema's column \<open>c\<close>: its name, or its name qualified, case aside.\<close>

definition names_column :: "duckdb \<Rightarrow> pa_schema \<Rightarrow> string list \<Rightarrow> json \<Rightarrow> string \<Rightarrow> bool" where
  "names_column dk schema quals e c \<longleftrightarrow>
     get_key e ''class'' = Some (JStr ''COLUMN_REF'') \<and> c \<in> fst ` set schema \<and> spelled schema (lower c) = 1 \<and>
     (\<exists>js. Option.bind (get_or e ''column_names'' (JArr [])) iter_json = Some js \<and>
        (map (\<lambda>j. lower (str_json dk j)) js = [lower c] \<or>
         (\<exists>q \<in> set quals. map (\<lambda>j. lower (str_json dk j)) js = [q, lower c])))"

text \<open>A comparison of two values that is true: numbers compare as numbers, of the rest nothing is said.\<close>

definition num_holds :: "string \<Rightarrow> pyval \<Rightarrow> pyval \<Rightarrow> bool" where
  "num_holds operator x y =
     (case (num_of x, num_of y) of (Some a, Some b) \<Rightarrow> compares operator a b | _ \<Rightarrow> True)"

text \<open>
  The documented behaviour pruning relies on. \<open>holds e r\<close>: the expression is true on the row, in a
  query over a relation with the schema's columns under their own names. \<open>bound t e\<close>: the value a
  constant is compared as against a column of type \<open>t\<close>, which selecting it, cast as \<open>_value\<close> casts
  it, gives back whenever the result is one that type compares exactly. Of a FLOAT column this last
  law says nothing: DuckDB compares it with a constant of type DOUBLE as a DOUBLE, and \<open>_value\<close> casts to
  FLOAT. And the laws are those of a query whose FROM gives the log's columns no other names
  (\<open>FROM log AS t(a, b)\<close>), which \<open>_terms\<close> does not look at.
\<close>

definition and_law :: "(json \<Rightarrow> row \<Rightarrow> bool) \<Rightarrow> bool" where
  "and_law holds \<longleftrightarrow>
     (\<forall>e r cs c. holds e r \<longrightarrow> is_and e \<longrightarrow> index_key e ''children'' = Some (JArr cs) \<longrightarrow> c \<in> set cs \<longrightarrow> holds c r)"

definition comparison_law :: "duckdb \<Rightarrow> pa_schema \<Rightarrow> string list \<Rightarrow> (json \<Rightarrow> row \<Rightarrow> bool) \<Rightarrow> (pa_type \<Rightarrow> json \<Rightarrow> pyval) \<Rightarrow> bool" where
  "comparison_law dk schema quals holds bound \<longleftrightarrow>
     (\<forall>e r kind operator x y. holds e r \<longrightarrow> get_key e ''class'' = Some (JStr ''COMPARISON'') \<longrightarrow>
        get_key e ''type'' = Some (JStr kind) \<longrightarrow> map_of OPERATOR kind = Some operator \<longrightarrow>
        index_key e ''left'' = Some x \<longrightarrow> index_key e ''right'' = Some y \<longrightarrow>
        (\<forall>c t. types_of schema c = Some t \<longrightarrow>
           (names_column dk schema quals x c \<longrightarrow> is_constant y \<longrightarrow> r c \<noteq> PNone \<and> num_holds operator (r c) (bound t y)) \<and>
           (names_column dk schema quals y c \<longrightarrow> is_constant x \<longrightarrow> r c \<noteq> PNone \<and> num_holds operator (bound t x) (r c))))"

definition between_law :: "duckdb \<Rightarrow> pa_schema \<Rightarrow> string list \<Rightarrow> (json \<Rightarrow> row \<Rightarrow> bool) \<Rightarrow> (pa_type \<Rightarrow> json \<Rightarrow> pyval) \<Rightarrow> bool" where
  "between_law dk schema quals holds bound \<longleftrightarrow>
     (\<forall>e r x. holds e r \<longrightarrow> get_key e ''class'' = Some (JStr ''BETWEEN'') \<longrightarrow>
        get_key e ''type'' = Some (JStr ''COMPARE_BETWEEN'') \<longrightarrow> index_key e ''input'' = Some x \<longrightarrow>
        (\<forall>c t. types_of schema c = Some t \<longrightarrow> names_column dk schema quals x c \<longrightarrow> r c \<noteq> PNone \<and>
           (\<forall>y. index_key e ''lower'' = Some y \<longrightarrow> is_constant y \<longrightarrow> num_holds ''>='' (r c) (bound t y)) \<and>
           (\<forall>y. index_key e ''upper'' = Some y \<longrightarrow> is_constant y \<longrightarrow> num_holds ''<='' (r c) (bound t y))))"

definition in_law :: "duckdb \<Rightarrow> pa_schema \<Rightarrow> string list \<Rightarrow> (json \<Rightarrow> row \<Rightarrow> bool) \<Rightarrow> (pa_type \<Rightarrow> json \<Rightarrow> pyval) \<Rightarrow> bool" where
  "in_law dk schema quals holds bound \<longleftrightarrow>
     (\<forall>e r x ys. holds e r \<longrightarrow> get_key e ''class'' = Some (JStr ''OPERATOR'') \<longrightarrow>
        get_key e ''type'' = Some (JStr ''COMPARE_IN'') \<longrightarrow> index_key e ''children'' = Some (JArr (x # ys)) \<longrightarrow>
        (\<forall>c t. types_of schema c = Some t \<longrightarrow> names_column dk schema quals x c \<longrightarrow> list_all is_constant ys \<longrightarrow>
           r c \<noteq> PNone \<and> (\<exists>y. y \<in> set ys \<and> num_holds ''=='' (r c) (bound t y))))"

definition bound_law :: "duckdb \<Rightarrow> (pa_type \<Rightarrow> json \<Rightarrow> pyval) \<Rightarrow> bool" where
  "bound_law dk bound \<longleftrightarrow> (\<forall>e t v. t \<noteq> Pa_float 32 \<longrightarrow> value_of dk e t = Some (Some v) \<longrightarrow> bound t e = v)"

definition engine_laws :: "duckdb \<Rightarrow> pa_schema \<Rightarrow> string list \<Rightarrow> (json \<Rightarrow> row \<Rightarrow> bool) \<Rightarrow> (pa_type \<Rightarrow> json \<Rightarrow> pyval) \<Rightarrow> bool" where
  "engine_laws dk schema quals holds bound \<longleftrightarrow>
     and_law holds \<and> comparison_law dk schema quals holds bound \<and> between_law dk schema quals holds bound \<and>
     in_law dk schema quals holds bound \<and> bound_law dk bound"

definition renames_columns :: "duckdb \<Rightarrow> string \<Rightarrow> bool" where
  "renames_columns dk query \<longleftrightarrow>
     (case Option.bind (dk_execute dk (''SELECT json_serialize_sql('' @ quoted query @ '')'')) (\<lambda>v.
        Option.bind (py_loads dk (str_val dk v)) (\<lambda>parsed. Option.bind (statement_node parsed) source_of)) of
        None \<Rightarrow> False
      | Some source \<Rightarrow> (case get_key source ''column_name_alias'' of None \<Rightarrow> False | Some names \<Rightarrow> truthy names))"

definition where_laws :: "duckdb \<Rightarrow> string \<Rightarrow> pa_schema \<Rightarrow> (json \<Rightarrow> row \<Rightarrow> bool) \<Rightarrow> (pa_type \<Rightarrow> json \<Rightarrow> pyval) \<Rightarrow> bool" where
  "where_laws dk query schema holds bound \<longleftrightarrow>
     (\<forall>w quals. query_where dk query = Some (w, quals) \<longrightarrow> \<not> renames_columns dk query \<longrightarrow>
        engine_laws dk schema quals holds bound)"

subsection \<open>Columns under one cache key\<close>

lemma kinds_of_entry:
  "(low, c, t) \<in> set (kinds_of schema) \<longleftrightarrow>
     low = lower c \<and> t \<in> set PRUNABLE \<and> spelled schema low = 1 \<and> (\<exists>n. (c, n, t) \<in> set schema)"
  by (force simp: kinds_of_def)

lemma spelled_unique:
  assumes "spelled schema low = 1" and "(c, n, t) \<in> set schema" and "(c', n', t') \<in> set schema"
    and "lower c = low" and "lower c' = low"
  shows "c' = c \<and> n' = n \<and> t' = t"
proof -
  let ?F = "filter (\<lambda>(name, _). lower name = low) schema"
  from assms(1) obtain f where f: "?F = [f]" by (auto simp: spelled_def length_Suc_conv)
  have "(c, n, t) \<in> set ?F" "(c', n', t') \<in> set ?F" using assms(2-5) by simp_all
  then show ?thesis unfolding f by (cases f) simp
qed

lemma types_of_unique:
  assumes "spelled schema (lower c) = 1" and "(c, n, t) \<in> set schema"
  shows "types_of schema c = Some t"
proof -
  have "(c, t) \<in> set (map (\<lambda>(name, _, t). (name, t)) schema)" using assms(2) by force
  then obtain t' where t': "types_of schema c = Some t'"
    unfolding types_of_def using weak_map_of_SomeI [of c t] by fastforce
  then have "(c, t') \<in> set (rev (map (\<lambda>(name, _, t). (name, t)) schema))"
    unfolding types_of_def by (rule map_of_SomeD)
  then obtain n' where "(c, n', t') \<in> set schema" by auto
  with spelled_unique [OF assms(1,2) this] t' show ?thesis by simp
qed

lemma type_text_inj: "t \<in> set PRUNABLE \<Longrightarrow> t' \<in> set PRUNABLE \<Longrightarrow> type_text t = type_text t' \<Longrightarrow> t = t'"
  by (auto simp: PRUNABLE_def type_text_def)

lemma kinds_map_of:
  assumes "map_of (kinds_of schema) low = Some (c, t)"
  shows "(low, c, t) \<in> set (kinds_of schema)"
  using assms by (rule map_of_SomeD)

text \<open>Two schemas of one key agree on a column both spell alike.\<close>

lemma same_key_column:
  assumes key: "cache_key_of query schema = cache_key_of query schema'"
    and c: "(low, c, t) \<in> set (kinds_of schema)" and here: "c \<in> fst ` set schema'"
  shows "spelled schema' low = 1 \<and> types_of schema' c = Some t"
proof -
  have "set (map (\<lambda>(low, name, t). (low, type_text t)) (kinds_of schema)) =
      set (map (\<lambda>(low, name, t). (low, type_text t)) (kinds_of schema'))"
    using key unfolding cache_key_of_def by (metis prod.inject set_sort)
  moreover have "(low, type_text t) \<in> set (map (\<lambda>(low, name, t). (low, type_text t)) (kinds_of schema))"
    using c by force
  ultimately obtain c' t' where c': "(low, c', t') \<in> set (kinds_of schema')" "type_text t' = type_text t" by auto
  from c c' have t: "t' = t" "low = lower c" "spelled schema' low = 1"
    using type_text_inj by (auto simp: kinds_of_entry)
  from here obtain n0 t0 where f: "(c, n0, t0) \<in> set schema'" by force
  from c'(1) obtain n' where "(c', n', t') \<in> set schema'" "lower c' = low" by (auto simp: kinds_of_entry)
  with spelled_unique [OF t(3) f, of c' n' t'] t have "(c, n0, t) \<in> set schema'" using f by simp
  with types_of_unique t show ?thesis by simp
qed

subsection \<open>A term selects every row its conjunct keeps\<close>

lemma column_of_SomeD:
  assumes "column_of dk (kinds_of schema) quals e = Some (Some c)"
  shows "\<exists>low t. (low, c, t) \<in> set (kinds_of schema) \<and> get_key e ''class'' = Some (JStr ''COLUMN_REF'') \<and>
    (\<exists>js. Option.bind (get_or e ''column_names'' (JArr [])) iter_json = Some js \<and>
       (map (\<lambda>j. lower (str_json dk j)) js = [low] \<or>
        (\<exists>q \<in> set quals. map (\<lambda>j. lower (str_json dk j)) js = [q, low])))"
proof -
  from assms obtain js where cls: "get_key e ''class'' = Some (JStr ''COLUMN_REF'')"
    and js: "Option.bind (get_or e ''column_names'' (JArr [])) iter_json = Some js"
    by (auto simp: column_of_def split: option.splits if_splits)
  define given where "given = map (\<lambda>j. lower (str_json dk j)) js"
  define names where "names = (if length given = 2 \<and> hd given \<in> set quals then tl given else given)"
  have "length names = 1" "map_option fst (map_of (kinds_of schema) (hd names)) = Some c"
    using assms cls js by (auto simp: column_of_def Let_def given_def names_def split: if_splits)
  then obtain low t where low: "names = [low]" "map_of (kinds_of schema) low = Some (c, t)"
    by (auto simp: length_Suc_conv)
  have "given = [low] \<or> (\<exists>q \<in> set quals. given = [q, low])"
    using low(1) by (cases given) (auto simp: names_def split: if_splits)
  with cls js kinds_map_of [OF low(2)] show ?thesis by (auto simp: given_def)
qed

lemma value_for_constant: "value_of dk e t = Some (Some v) \<Longrightarrow> is_constant e"
  by (auto simp: value_of_def constant_sql_def is_constant_def split: option.splits if_splits)

text \<open>What a schema of the same key says of a term's column, when the queried log spells it so.\<close>

lemma column_resolved:
  assumes key: "cache_key_of query schema = cache_key_of query live" and here: "c \<in> fst ` set live"
    and c: "column_of dk (kinds_of schema) quals e = Some (Some c)"
  shows "\<exists>t. names_column dk live quals e c \<and> types_of live c = Some t \<and> types_of schema c = Some t"
proof -
  from column_of_SomeD [OF c] obtain low t where k: "(low, c, t) \<in> set (kinds_of schema)"
    and n: "get_key e ''class'' = Some (JStr ''COLUMN_REF'')"
      "\<exists>js. Option.bind (get_or e ''column_names'' (JArr [])) iter_json = Some js \<and>
       (map (\<lambda>j. lower (str_json dk j)) js = [low] \<or>
        (\<exists>q \<in> set quals. map (\<lambda>j. lower (str_json dk j)) js = [q, low]))" by (elim exE) (erule conjE, erule conjE, rule that)
  from k have low: "low = lower c" "spelled schema (lower c) = 1" and "\<exists>n. (c, n, t) \<in> set schema"
    by (auto simp: kinds_of_entry)
  then have "types_of schema c = Some t" using types_of_unique by blast
  with same_key_column [OF key k here] n here show ?thesis by (auto simp: names_column_def low(1))
qed

definition TRUE_ELSEWHERE :: "string \<Rightarrow> pyval \<Rightarrow> pyval \<Rightarrow> bool" where
  "TRUE_ELSEWHERE operator v x = True"

lemma selects_num:
  assumes "r c \<noteq> PNone" and "num_holds operator (r c) v" and "operator \<noteq> ''in''" and "operator \<in> set OPERATORS"
  shows "selects TRUE_ELSEWHERE (c, operator, v) r"
  using assms by (auto simp: selects_def selects_one_def num_holds_def TRUE_ELSEWHERE_def split: option.splits)

lemma OPERATOR_ops: "map_of OPERATOR kind = Some operator \<Longrightarrow> operator \<in> set OPERATORS \<and> operator \<noteq> ''in''"
  by (auto simp: OPERATOR_def OPERATORS_def split: if_splits)

text \<open>Swapping the operands mirrors the operator.\<close>

lemma num_holds_swap:
  "num_holds ''>'' x y = num_holds ''<'' y x" "num_holds ''>='' x y = num_holds ''<='' y x"
  "num_holds ''=='' x y = num_holds ''=='' y x"
  by (cases "num_of x"; cases "num_of y"; auto simp: num_holds_def compares_def)+

lemma mirror_holds:
  assumes "map_of MIRROR kind = Some kind'"
  shows "\<exists>operator operator'. map_of OPERATOR kind = Some operator \<and> map_of OPERATOR kind' = Some operator' \<and>
    (\<forall>x y. num_holds operator x y = num_holds operator' y x)"
proof -
  from assms consider "kind = ''COMPARE_GREATERTHAN''" "kind' = ''COMPARE_LESSTHAN''"
    | "kind = ''COMPARE_GREATERTHANOREQUALTO''" "kind' = ''COMPARE_LESSTHANOREQUALTO''"
    | "kind = ''COMPARE_LESSTHAN''" "kind' = ''COMPARE_GREATERTHAN''"
    | "kind = ''COMPARE_LESSTHANOREQUALTO''" "kind' = ''COMPARE_GREATERTHANOREQUALTO''"
    | "kind = ''COMPARE_EQUAL''" "kind' = ''COMPARE_EQUAL''"
    unfolding MIRROR_def by (simp split: if_splits)
  then show ?thesis
    by cases (simp_all add: OPERATOR_def num_holds_swap)
qed

lemma bound_term_sound:
  assumes "bound_term dk schema c operator y = Some ts" and "(c', operator', v) \<in> set ts"
  shows "c' = c \<and> operator' = operator \<and> (\<exists>t. types_of schema c = Some t \<and> value_of dk y t = Some (Some v))"
  using assms by (auto simp: bound_term_def value_for_def split: option.splits)

text \<open>The laws, one conjunct at a time.\<close>

lemma law_and:
  "engine_laws dk live quals holds bound \<Longrightarrow> holds e r \<Longrightarrow> is_and e \<Longrightarrow>
   index_key e ''children'' = Some (JArr cs) \<Longrightarrow> c \<in> set cs \<Longrightarrow> holds c r"
  unfolding engine_laws_def and_law_def by (elim conjE) blast

lemma law_comparison:
  assumes "engine_laws dk live quals holds bound" and "holds e r" and "get_key e ''class'' = Some (JStr ''COMPARISON'')"
    and "get_key e ''type'' = Some (JStr kind)" and "map_of OPERATOR kind = Some operator"
    and "index_key e ''left'' = Some x" and "index_key e ''right'' = Some y" and "types_of live c = Some t"
  shows "names_column dk live quals x c \<Longrightarrow> is_constant y \<Longrightarrow> r c \<noteq> PNone \<and> num_holds operator (r c) (bound t y)"
    and "names_column dk live quals y c \<Longrightarrow> is_constant x \<Longrightarrow> r c \<noteq> PNone \<and> num_holds operator (bound t x) (r c)"
proof -
  from assms(1) have "comparison_law dk live quals holds bound" by (simp add: engine_laws_def)
  from this [unfolded comparison_law_def, rule_format, OF assms(2-8)]
  show "names_column dk live quals x c \<Longrightarrow> is_constant y \<Longrightarrow> r c \<noteq> PNone \<and> num_holds operator (r c) (bound t y)"
    and "names_column dk live quals y c \<Longrightarrow> is_constant x \<Longrightarrow> r c \<noteq> PNone \<and> num_holds operator (bound t x) (r c)"
    by simp_all
qed

lemma law_between:
  assumes "engine_laws dk live quals holds bound" and "holds e r" and "get_key e ''class'' = Some (JStr ''BETWEEN'')"
    and "get_key e ''type'' = Some (JStr ''COMPARE_BETWEEN'')" and "index_key e ''input'' = Some x"
    and "types_of live c = Some t" and "names_column dk live quals x c"
  shows "r c \<noteq> PNone \<and>
    (\<forall>y. index_key e ''lower'' = Some y \<longrightarrow> is_constant y \<longrightarrow> num_holds ''>='' (r c) (bound t y)) \<and>
    (\<forall>y. index_key e ''upper'' = Some y \<longrightarrow> is_constant y \<longrightarrow> num_holds ''<='' (r c) (bound t y))"
proof -
  from assms(1) have "between_law dk live quals holds bound" by (simp add: engine_laws_def)
  from this [unfolded between_law_def, rule_format, OF assms(2-7)] show ?thesis by simp
qed

lemma law_in:
  assumes "engine_laws dk live quals holds bound" and "holds e r" and "get_key e ''class'' = Some (JStr ''OPERATOR'')"
    and "get_key e ''type'' = Some (JStr ''COMPARE_IN'')" and "index_key e ''children'' = Some (JArr (x # ys))"
    and "types_of live c = Some t" and "names_column dk live quals x c" and "list_all is_constant ys"
  shows "r c \<noteq> PNone \<and> (\<exists>y. y \<in> set ys \<and> num_holds ''=='' (r c) (bound t y))"
proof -
  from assms(1) have "in_law dk live quals holds bound" by (simp add: engine_laws_def)
  from this [unfolded in_law_def, rule_format, OF assms(2-8)] show ?thesis .
qed

lemma law_bound: "engine_laws dk live quals holds bound \<Longrightarrow> t \<noteq> Pa_float 32 \<Longrightarrow> value_of dk e t = Some (Some v) \<Longrightarrow> bound t e = v"
  by (simp add: engine_laws_def bound_law_def)

lemma those_Some: "those xs = Some ys \<longleftrightarrow> map Some ys = xs"
  by (induction xs arbitrary: ys) (auto split: option.splits)

lemma eachD: "each f xs = Some ys \<Longrightarrow> map f xs = map Some ys"
  by (simp add: each_def those_Some)

text \<open>The column, resolved in the queried log's schema; the facts each kind of conjunct needs.\<close>

lemma comparison_sound:
  assumes laws: "engine_laws dk live quals holds bound" and key: "cache_key_of query schema = cache_key_of query live"
    and cls: "get_key e ''class'' = Some (JStr ''COMPARISON'')" "get_key e ''type'' = Some (JStr kind)"
    and k: "map_of MIRROR kind = Some kind'"
    and ts: "comparison_terms dk schema (kinds_of schema) quals e kind = Some ts"
    and h: "holds e r" and t: "(c, operator, v) \<in> set ts" and here: "c \<in> fst ` set live"
    and wide: "types_of live c \<noteq> Some (Pa_float 32)"
  shows "selects TRUE_ELSEWHERE (c, operator, v) r"
proof -
  from ts obtain x y where xy: "index_key e ''left'' = Some x" "index_key e ''right'' = Some y"
    by (auto simp: comparison_terms_def split: option.splits)
  from mirror_holds [OF k] obtain op1 op2 where ops: "map_of OPERATOR kind = Some op1" "map_of OPERATOR kind' = Some op2"
    and swap: "\<And>a b. num_holds op1 a b = num_holds op2 b a" by blast
  note law = law_comparison [OF laws h cls ops(1) xy]
  show ?thesis
  proof (cases "column_of dk (kinds_of schema) quals x")
    case None
    with ts xy show ?thesis by (simp add: comparison_terms_def)
  next
    case (Some found)
    show ?thesis
    proof (cases found)
      case (Some d)
      with \<open>column_of dk (kinds_of schema) quals x = Some found\<close> ts xy ops
      have "bound_term dk schema d op1 y = Some ts" by (simp add: comparison_terms_def)
      from bound_term_sound [OF this t] obtain t' where b: "d = c" "operator = op1"
        "types_of schema c = Some t'" "value_of dk y t' = Some (Some v)" by blast
      from column_resolved [OF key here] Some \<open>column_of dk (kinds_of schema) quals x = Some found\<close> b
      have n: "names_column dk live quals x c" "types_of live c = Some t'" by force+
      from law(1) [OF n(2,1) value_for_constant [OF b(4)]] law_bound [OF laws _ b(4)] wide n(2)
      have "r c \<noteq> PNone" "num_holds op1 (r c) v" by simp_all
      with selects_num OPERATOR_ops [OF ops(1)] show ?thesis by (simp add: b(2))
    next
      case None
      with \<open>column_of dk (kinds_of schema) quals x = Some found\<close> ts xy t
      obtain d where d: "column_of dk (kinds_of schema) quals y = Some (Some d)"
        by (auto simp: comparison_terms_def split: option.splits)
      with None \<open>column_of dk (kinds_of schema) quals x = Some found\<close> ts xy ops k
      have "bound_term dk schema d op2 x = Some ts" by (simp add: comparison_terms_def)
      from bound_term_sound [OF this t] obtain t' where b: "d = c" "operator = op2"
        "types_of schema c = Some t'" "value_of dk x t' = Some (Some v)" by blast
      from column_resolved [OF key here] d b
      have n: "names_column dk live quals y c" "types_of live c = Some t'" by force+
      from law(2) [OF n(2,1) value_for_constant [OF b(4)]] law_bound [OF laws _ b(4)] wide n(2)
      have "r c \<noteq> PNone" "num_holds op1 v (r c)" by simp_all
      then show ?thesis using selects_num OPERATOR_ops [OF ops(2)] by (simp add: b(2) swap)
    qed
  qed
qed

lemma bound_selects:
  assumes laws: "engine_laws dk live quals holds bound" and key: "cache_key_of query schema = cache_key_of query live"
    and d: "column_of dk (kinds_of schema) quals x = Some (Some d)"
    and b: "bound_term dk schema d operator y = Some ts" and t: "(c, operator', v) \<in> set ts" and here: "c \<in> fst ` set live"
    and wide: "types_of live c \<noteq> Some (Pa_float 32)"
  shows "\<exists>t. d = c \<and> operator' = operator \<and> names_column dk live quals x c \<and> types_of live c = Some t \<and>
    is_constant y \<and> bound t y = v"
proof -
  from bound_term_sound [OF b t] obtain t' where b: "d = c" "operator' = operator"
    "types_of schema c = Some t'" "value_of dk y t' = Some (Some v)" by blast
  with column_resolved [OF key here d [unfolded b(1)]] value_for_constant [OF b(4)] law_bound [OF laws _ b(4)] wide
  show ?thesis by auto
qed

lemma between_sound:
  assumes laws: "engine_laws dk live quals holds bound" and key: "cache_key_of query schema = cache_key_of query live"
    and cls: "get_key e ''class'' = Some (JStr ''BETWEEN'')" "get_key e ''type'' = Some (JStr ''COMPARE_BETWEEN'')"
    and ts: "between_terms dk schema (kinds_of schema) quals e = Some ts"
    and h: "holds e r" and t: "(c, operator, v) \<in> set ts" and here: "c \<in> fst ` set live"
    and wide: "types_of live c \<noteq> Some (Pa_float 32)"
  shows "selects TRUE_ELSEWHERE (c, operator, v) r"
proof -
  from ts t obtain x d where x: "index_key e ''input'' = Some x"
    and d: "column_of dk (kinds_of schema) quals x = Some (Some d)"
    by (auto simp: between_terms_def bind_eq_Some_conv split: option.splits)
  with ts obtain y z low high where yz: "index_key e ''lower'' = Some y" "index_key e ''upper'' = Some z"
    and b: "bound_term dk schema d ''>='' y = Some low" "bound_term dk schema d ''<='' z = Some high"
    and "ts = low @ high"
    by (auto simp: between_terms_def bind_eq_Some_conv split: option.splits)
  with t consider "(c, operator, v) \<in> set low" | "(c, operator, v) \<in> set high" by auto
  then show ?thesis
  proof cases
    case 1
    from bound_selects [OF laws key d b(1) this here wide] law_between [OF laws h cls x] yz
    show ?thesis by (auto intro!: selects_num simp: OPERATORS_def)
  next
    case 2
    from bound_selects [OF laws key d b(2) this here wide] law_between [OF laws h cls x] yz
    show ?thesis by (auto intro!: selects_num simp: OPERATORS_def)
  qed
qed

lemma in_sound:
  assumes laws: "engine_laws dk live quals holds bound" and key: "cache_key_of query schema = cache_key_of query live"
    and cls: "get_key e ''class'' = Some (JStr ''OPERATOR'')" "get_key e ''type'' = Some (JStr ''COMPARE_IN'')"
    and ts: "in_terms dk schema (kinds_of schema) quals e = Some ts"
    and h: "holds e r" and t: "(c, operator, v) \<in> set ts" and here: "c \<in> fst ` set live"
    and wide: "types_of live c \<noteq> Some (Pa_float 32)"
  shows "selects TRUE_ELSEWHERE (c, operator, v) r"
proof -
  from ts t obtain x ys d vs where ch: "get_or e ''children'' (JArr []) = Some (JArr (x # ys))"
    and d: "column_of dk (kinds_of schema) quals x = Some (Some d)"
    and vs: "each (value_for dk schema d) ys = Some vs"
    and ts': "ts = (if vs = [] \<or> None \<in> set vs then [] else [(d, ''in'', PList (map the vs))])"
    by (auto simp: in_terms_def split: option.splits if_splits json.splits list.splits)
  from t have c: "d = c" "operator = ''in''" "v = PList (map the vs)" "None \<notin> set vs"
    by (auto simp: ts' split: if_splits)
  from ch have children: "index_key e ''children'' = Some (JArr (x # ys))"
    by (auto simp: get_or_def index_key_def split: json.splits option.splits)
  from column_resolved [OF key here d [unfolded c(1)]] obtain ty where
    n: "names_column dk live quals x c" "types_of live c = Some ty" "types_of schema c = Some ty" by blast
  have val: "\<exists>w. w \<in> set (map the vs) \<and> value_of dk y ty = Some (Some w)" if "y \<in> set ys" for y
  proof -
    from eachD [OF vs] that have "value_for dk schema c y \<in> Some ` set vs" unfolding c(1) by (metis image_eqI set_map)
    with c(4) show ?thesis by (auto simp: value_for_def n(3)) (metis option.exhaust_sel rev_image_eqI)
  qed
  then have "list_all is_constant ys" using value_for_constant by (fastforce simp: list_all_iff)
  from law_in [OF laws h cls children n(2,1) this] obtain y where y: "r c \<noteq> PNone" "y \<in> set ys"
    "num_holds ''=='' (r c) (bound ty y)" by blast
  from val [OF y(2)] law_bound [OF laws, of ty] wide n(2) obtain w where w: "w \<in> set (map the vs)" "num_holds ''=='' (r c) w"
    using y(3) by metis
  then have "selects_one TRUE_ELSEWHERE ''=='' w (r c)"
    by (auto simp: selects_one_def num_holds_def TRUE_ELSEWHERE_def split: option.splits)
  with w(1) y(1) show ?thesis by (auto simp: c selects_def OPERATORS_def)
qed

lemma translate_sound:
  assumes laws: "engine_laws dk live quals holds bound" and key: "cache_key_of query schema = cache_key_of query live"
    and ts: "translate dk schema (kinds_of schema) quals e = Some ts"
    and h: "holds e r" and t: "(c, operator, v) \<in> set ts" and here: "c \<in> fst ` set live"
    and wide: "types_of live c \<noteq> Some (Pa_float 32)"
  shows "selects TRUE_ELSEWHERE (c, operator, v) r"
proof -
  from ts t obtain cls k where ck: "get_key e ''class'' = Some cls" "get_key e ''type'' = Some k"
    by (auto simp: translate_def split: option.splits)
  with ts t consider
      (comparison) kind kind' where "cls = JStr ''COMPARISON''" "k = JStr kind" "map_of MIRROR kind = Some kind'"
        "comparison_terms dk schema (kinds_of schema) quals e kind = Some ts"
    | (between) "cls = JStr ''BETWEEN''" "k = JStr ''COMPARE_BETWEEN''" "between_terms dk schema (kinds_of schema) quals e = Some ts"
    | (isin) "cls = JStr ''OPERATOR''" "k = JStr ''COMPARE_IN''" "in_terms dk schema (kinds_of schema) quals e = Some ts"
    by (auto simp: translate_def split: if_splits json.splits)
  then show ?thesis
  proof cases
    case comparison
    from comparison_sound [OF laws key _ _ comparison(3,4) h t here wide] ck comparison(1,2) show ?thesis by simp
  next
    case between
    from between_sound [OF laws key _ _ between(3) h t here wide] ck between(1,2) show ?thesis by simp
  next
    case isin
    from in_sound [OF laws key _ _ isin(3) h t here wide] ck isin(1,2) show ?thesis by simp
  qed
qed

text \<open>Every conjunct of a true WHERE is true.\<close>

lemma conjuncts_hold:
  "engine_laws dk live quals holds bound \<Longrightarrow> conjuncts e = Some cs \<Longrightarrow> holds e r \<Longrightarrow> c \<in> set cs \<Longrightarrow> holds c r"
proof (induction e arbitrary: cs rule: conjuncts.induct)
  case (1 e)
  from "1.prems"(2) obtain kvs where e: "e = JObj kvs"
    by (subst (asm) conjuncts.simps) (auto split: json.splits)
  show ?case
  proof (cases "is_and e")
    case False
    with "1.prems"(2-4) show ?thesis by (subst (asm) conjuncts.simps) (auto simp: e)
  next
    case True
    with "1.prems"(2,4) obtain xs yss where xs: "map_of kvs ''children'' = Some (JArr xs)"
      and those: "those (map conjuncts xs) = Some yss" and cs: "cs = concat yss"
      using "1.prems"(2) [unfolded conjuncts.simps [of e]] by (auto simp: e split: option.splits json.splits if_splits)
    from cs "1.prems"(4) obtain ys where ys: "ys \<in> set yss" "c \<in> set ys" by auto
    from those have "map conjuncts xs = map Some yss" by (simp add: those_Some)
    with ys(1) obtain x where x: "x \<in> set xs" "conjuncts x = Some ys" by (metis image_iff set_map)
    have "holds x r" using law_and [OF "1.prems"(1,3) True _ x(1)] xs by (simp add: index_key_def e)
    then show ?thesis using "1.IH" [OF e True xs refl x(1) "1.prems"(1) x(2) _ ys(2)] by simp
  qed
qed

lemma parse_sound:
  assumes laws: "engine_laws dk live quals holds bound" and key: "cache_key_of query schema = cache_key_of query live"
    and w: "query_where dk query = Some (w, quals)" and h: "holds w r"
    and ts: "parse_terms dk query schema = Some ts" and t: "(c, operator, v) \<in> set ts" and here: "c \<in> fst ` set live"
    and wide: "types_of live c \<noteq> Some (Pa_float 32)"
  shows "selects TRUE_ELSEWHERE (c, operator, v) r"
proof -
  from w ts obtain cs yss where cs: "conjuncts w = Some cs"
    and y: "each (translate dk schema (kinds_of schema) quals) cs = Some yss" and "ts = concat yss"
    by (auto simp: query_where_def parse_terms_def bind_eq_Some_conv split: option.splits)
  with t obtain ys where ys: "ys \<in> set yss" "(c, operator, v) \<in> set ys" by auto
  from eachD [OF y] ys(1) obtain e where "e \<in> set cs" "translate dk schema (kinds_of schema) quals e = Some ys"
    by (metis image_iff set_map)
  from translate_sound [OF laws key this(2) conjuncts_hold [OF laws cs h this(1)] ys(2) here wide] show ?thesis .
qed

subsection \<open>Every cache a process reaches\<close>

text \<open>The two locked sections, of any threads in any order, each with its own log's schema.\<close>

inductive cache_step :: "duckdb \<Rightarrow> terms_cache \<Rightarrow> terms_cache \<Rightarrow> bool" for dk where
  c_hit: "cache_hit (cache_key_of query schema) cache = Some (ts, cache') \<Longrightarrow> cache_step dk cache cache'"
| c_put: "parse_terms dk query schema = Some ts \<Longrightarrow>
    cache_step dk cache (cache_put (cache_key_of query schema) ts cache)"

definition cache_ok :: "duckdb \<Rightarrow> terms_cache \<Rightarrow> bool" where
  "cache_ok dk cache \<longleftrightarrow> length cache \<le> CACHED \<and> distinct (map fst cache) \<and>
     (\<forall>k ts. (k, ts) \<in> set cache \<longrightarrow> (\<exists>query schema. k = cache_key_of query schema \<and> parse_terms dk query schema = Some ts))"

lemma cache_hit_ok:
  assumes ok: "cache_ok dk cache" and h: "cache_hit k cache = Some (ts, cache')"
  shows "cache_ok dk cache' \<and> (k, ts) \<in> set cache"
proof -
  from h have k: "map_of cache k = Some ts" and c: "cache' = filter (\<lambda>(k', _). k' \<noteq> k) cache @ [(k, ts)]"
    by (auto simp: cache_hit_def split: option.splits)
  from map_of_SomeD [OF k] have kin: "(k, ts) \<in> set cache" .
  then have "length (filter (\<lambda>(k', _). k' \<noteq> k) cache) < length cache" by (rule length_filter_less) simp
  moreover have "distinct (map fst cache')"
    using ok by (auto simp: c cache_ok_def intro: distinct_map_filter)
  ultimately show ?thesis using ok kin by (auto simp: cache_ok_def c)
qed

lemma distinct_fst_replace: "map fst (map (\<lambda>(k', old). (k', if k' = k then ts else old)) cache) = map fst cache"
  by (induction cache) auto

lemma cache_put_ok:
  assumes ok: "cache_ok dk cache" and ts: "parse_terms dk query schema = Some ts"
  shows "cache_ok dk (cache_put (cache_key_of query schema) ts cache)"
proof -
  let ?k = "cache_key_of query schema"
  define kept where "kept = (if map_of cache ?k = None then cache @ [(?k, ts)]
    else map (\<lambda>(k', old). (k', if k' = ?k then ts else old)) cache)"
  have put: "cache_put ?k ts cache = drop (length kept - CACHED) kept"
    by (simp add: cache_put_def kept_def Let_def)
  have "distinct (map fst kept)"
    using ok by (simp only: kept_def cache_ok_def if_distrib [of "map fst"] distinct_fst_replace)
      (auto simp: map_of_eq_None_iff)
  then have d: "distinct (map fst (drop n kept))" for n by (simp add: drop_map [symmetric])
  have "\<exists>query schema. k = cache_key_of query schema \<and> parse_terms dk query schema = Some us"
    if "(k, us) \<in> set (drop n kept)" for k us n
  proof -
    from in_set_dropD [OF that] have "(k, us) \<in> set cache \<or> (k, us) = (?k, ts)"
      by (auto simp: kept_def split: if_splits)
    with ok ts show ?thesis unfolding cache_ok_def by blast
  qed
  with d show ?thesis by (simp add: cache_ok_def put)
qed

interpretation terms_cache: invariant_machine "\<lambda>c. c = []" "cache_step dk" "cache_ok dk" for dk
proof
  show "cache_ok dk cache" if "cache = []" for cache using that by (simp add: cache_ok_def)
  show "cache_ok dk cache'" if "cache_ok dk cache" "cache_step dk cache cache'" for cache cache'
    using that(2,1) by cases (auto dest: cache_hit_ok cache_put_ok)
qed

lemma terms_from:
  assumes ok: "cache_ok dk cache" and t: "terms dk query live cache = (Some ts, cache')"
  shows "cache_ok dk cache' \<and> (\<exists>schema. cache_key_of query schema = cache_key_of query live \<and> parse_terms dk query schema = Some ts)"
proof (cases "cache_hit (cache_key_of query live) cache")
  case (Some hit)
  with t have h: "cache_hit (cache_key_of query live) cache = Some (ts, cache')" by (cases hit) (auto simp: terms_def)
  from cache_hit_ok [OF ok this] have "cache_ok dk cache'" "(cache_key_of query live, ts) \<in> set cache" by simp_all
  with ok obtain query' schema where q: "cache_key_of query live = cache_key_of query' schema"
    "parse_terms dk query' schema = Some ts" unfolding cache_ok_def by blast
  from q(1) have "query' = query" by (simp add: cache_key_of_def)
  with q \<open>cache_ok dk cache'\<close> show ?thesis by metis
next
  case None
  with t have "parse_terms dk query live = Some ts" "cache' = cache_put (cache_key_of query live) ts cache"
    by (auto simp: terms_def split: option.splits)
  with cache_put_ok [OF ok this(1)] show ?thesis by auto
qed

subsection \<open>Pruning by a query's terms\<close>

text \<open>A term on a column the manifest does not have decides nothing.\<close>

lemma foreign_term: "c \<noteq> OFFSET \<Longrightarrow> map_of kinds c = None \<Longrightarrow> term_may_match kinds row (c, operator, v)"
  by (simp add: term_may_match_def may_match_def)

lemma prune_sound_known:
  assumes mf: "manifest_true mf contents" and n: "name \<in> set names" and r: "r \<in> set (contents name)"
    and s: "\<And>c operator v. (c, operator, v) \<in> set ts \<Longrightarrow>
      selects duck (c, operator, v) r \<or> c \<noteq> OFFSET \<and> map_of (mf_kinds mf) c = None"
  shows "name \<in> set (prune (Some mf) names ts)"
proof -
  let ?known = "filter (\<lambda>t. selects duck t r) ts"
  have "name \<in> set (prune (Some mf) names ?known)"
    by (rule prune_sound [OF mf n r, where duck = duck]) simp
  then have k: "case row_of mf name of None \<Rightarrow> True
      | Some row \<Rightarrow> mr_record_count row \<noteq> Some 0 \<and> (\<forall>t \<in> set ?known. term_may_match (mf_kinds mf) row t)"
    by (simp add: prune_def)
  have "term_may_match (mf_kinds mf) row t" if "t \<in> set ts" "row_of mf name = Some row" for t row
  proof (cases t)
    case (fields c operator v)
    from s [of c operator v] that k fields foreign_term [of c "mf_kinds mf" row operator v] show ?thesis by auto
  qed
  with k n show ?thesis by (auto simp: prune_def split: option.splits)
qed

text \<open>What a query's terms say of a row its WHERE is true on, parsed now or found in the cache.\<close>

lemma terms_hold:
  assumes "reach (\<lambda>c. c = []) (cache_step dk) cache" and "terms dk query schema cache = (Some ts, cache')"
    and laws: "where_laws dk query schema holds bound" and plain: "\<not> renames_columns dk query"
    and wide: "\<And>c operator v. (c, operator, v) \<in> set ts \<Longrightarrow> types_of schema c \<noteq> Some (Pa_float 32)"
    and h: "\<And>w quals. query_where dk query = Some (w, quals) \<Longrightarrow> holds w r"
    and t: "(c, operator, v) \<in> set ts" and c: "c \<in> fst ` set schema"
  shows "selects TRUE_ELSEWHERE (c, operator, v) r"
proof -
  have "cache_ok dk cache" by (rule terms_cache.inv_reach [OF assms(1)])
  from terms_from [OF this assms(2)] obtain from_schema where
    key: "cache_key_of query from_schema = cache_key_of query schema" and ts: "parse_terms dk query from_schema = Some ts" by blast
  have "query_where dk query \<noteq> None"
    using ts t by (auto simp: parse_terms_def query_where_def split: option.splits)
  then obtain w quals where w: "query_where dk query = Some (w, quals)" by fastforce
  with laws plain have "engine_laws dk schema quals holds bound" by (simp add: where_laws_def)
  from parse_sound [OF this key w h [OF w] ts t c wide [OF t]] show ?thesis .
qed

text \<open>C36. A query's terms never hide a row. Whatever queries of whatever logs a process has read before,
  pruning by the terms a query gets, parsed or cached, keeps every unit with a row the query's WHERE is
  true on; an unrecognised shape, an OR, a function of a column or a constant Python would not compare
  exactly only drop terms; and the cache stays within its bound. It holds of a query whose FROM gives the
  log's columns no other names and whose terms name no FLOAT column, DuckDB being what \<open>where_laws\<close> says of it;
  of the two exceptions \<open>_terms\<close> takes no note.\<close>

theorem query_terms_prune_soundly:
  assumes "reach (\<lambda>c. c = []) (cache_step dk) cache"
    and "terms dk query schema cache = (Some ts, cache')"
    and "where_laws dk query schema holds bound" and "\<not> renames_columns dk query"
    and "\<And>c operator v. (c, operator, v) \<in> set ts \<Longrightarrow> types_of schema c \<noteq> Some (Pa_float 32)"
    and "\<And>w quals. query_where dk query = Some (w, quals) \<Longrightarrow> holds w r"
    and "manifest_true mf contents" and "OFFSET \<in> fst ` set schema" and "fst ` set (mf_kinds mf) \<subseteq> fst ` set schema"
    and "name \<in> set names" and "r \<in> set (contents name)"
  shows "name \<in> set (prune (Some mf) names ts) \<and> length cache' \<le> CACHED"
proof -
  have "cache_ok dk cache" by (rule terms_cache.inv_reach [OF assms(1)])
  from terms_from [OF this assms(2)] have ok: "cache_ok dk cache'" ..
  have "selects TRUE_ELSEWHERE (c, operator, v) r \<or> c \<noteq> OFFSET \<and> map_of (mf_kinds mf) c = None"
    if t: "(c, operator, v) \<in> set ts" for c operator v
  proof (cases "c \<in> fst ` set schema")
    case True
    from terms_hold [OF assms(1-6) t True] show ?thesis ..
  next
    case False
    with assms(8,9) show ?thesis by (auto simp: map_of_eq_None_iff)
  qed
  from prune_sound_known [OF assms(7,10,11) this] ok show ?thesis by (simp add: cache_ok_def)
qed

subsection \<open>One query\<close>

text \<open>\<open>SELECT * FROM log WHERE X = 1\<close>, under an engine that knows nothing else.\<close>

definition sample_column :: json where
  "sample_column = JObj [(''class'', JStr ''COLUMN_REF''), (''type'', JStr ''COLUMN_REF''), (''column_names'', JArr [JStr ''X''])]"

definition sample_constant :: json where
  "sample_constant = JObj [(''class'', JStr ''CONSTANT''), (''type'', JStr ''VALUE_CONSTANT'')]"

definition sample_where :: json where
  "sample_where = JObj [(''class'', JStr ''COMPARISON''), (''type'', JStr ''COMPARE_EQUAL''),
     (''left'', sample_column), (''right'', sample_constant)]"

definition sample_parse :: json where
  "sample_parse = JObj [(''error'', JBool False), (''statements'', JArr [JObj [(''node'', JObj
     [(''type'', JStr ''SELECT_NODE''), (''cte_map'', JObj [(''map'', JArr [])]),
      (''from_table'', JObj [(''type'', JStr ''BASE_TABLE''), (''table_name'', JStr ''log''), (''alias'', JStr [])]),
      (''where_clause'', sample_where)])]])]"

definition sample_duck :: duckdb where
  "sample_duck =
     \<lparr>dk_execute = map_of
        [(''SELECT json_serialize_sql('' @ quoted ''Q'' @ '')'', PStr ''P''),
         (''SELECT json_deserialize_sql('' @ quoted ''T'' @ '')'', PStr ''SELECT 1''),
         (''SELECT 1'', PInt 1)],
      py_loads = (\<lambda>s. if s = ''P'' then Some sample_parse else None), py_dumps = (\<lambda>j. ''T''),
      json_repr = (\<lambda>j. []), val_repr = (\<lambda>v. [])\<rparr>"

definition sample_schema :: pa_schema where
  "sample_schema = [(OFFSET, False, Pa_int 64), (''x'', True, Pa_int 64)]"

definition sample_holds :: "json \<Rightarrow> row \<Rightarrow> bool" where
  "sample_holds e r \<longleftrightarrow> e = sample_where \<and> r ''x'' = PInt 1"

definition sample_bound :: "pa_type \<Rightarrow> json \<Rightarrow> pyval" where
  "sample_bound t e = (case value_of sample_duck e t of Some (Some v) \<Rightarrow> v | _ \<Rightarrow> PNone)"

lemma lower_samples: "lower ''X'' = ''x''" "lower ''x'' = ''x''" "lower OFFSET = OFFSET" "lower ''log'' = ''log''"
  by code_simp+

lemma sample_value: "value_of sample_duck sample_constant (Pa_int 64) = Some (Some (PInt 1))"
  by (simp add: value_of_def constant_sql_def sample_constant_def under_casts.simps get_or_def sample_duck_def
      quoted_def str_val_def starts_with_def remove_prefix_def cast_for_def comparable_def pa_floating_def)

lemma sample_names: "names_column sample_duck sample_schema quals sample_column c \<Longrightarrow> c = ''x''"
  by (auto simp: names_column_def sample_column_def get_or_def str_json_def sample_schema_def lower_samples)

lemma sample_laws: "engine_laws sample_duck sample_schema quals sample_holds sample_bound"
proof -
  have "and_law sample_holds"
    by (auto simp: and_law_def sample_holds_def is_and_def sample_where_def get_or_def)
  moreover have "comparison_law sample_duck sample_schema quals sample_holds sample_bound"
  proof -
    have "\<not> names_column sample_duck sample_schema quals sample_constant c" for c
      by (simp add: names_column_def sample_constant_def get_or_def)
    moreover have "types_of sample_schema ''x'' = Some (Pa_int 64)"
      by (simp add: types_of_def sample_schema_def OFFSET_def)
    moreover have "num_holds ''=='' (PInt 1) (sample_bound (Pa_int 64) sample_constant)"
      by (simp add: sample_bound_def sample_value num_holds_def compares_def)
    ultimately show ?thesis using sample_names
      unfolding comparison_law_def sample_holds_def
      by (auto simp: sample_where_def get_or_def index_key_def OPERATOR_def)
  qed
  moreover have "between_law sample_duck sample_schema quals sample_holds sample_bound"
    "in_law sample_duck sample_schema quals sample_holds sample_bound"
    by (auto simp: between_law_def in_law_def sample_holds_def sample_where_def get_or_def)
  ultimately show ?thesis by (simp add: engine_laws_def bound_law_def sample_bound_def)
qed

lemma sample_plain: "\<not> renames_columns sample_duck ''Q''"
  by (simp add: renames_columns_def sample_duck_def quoted_def str_val_def sample_parse_def
      get_or_def statement_node_def index_key_def source_of_def)

lemma sample_query: "query_where sample_duck ''Q'' = Some (sample_where, [''log''])"
  by (simp add: query_where_def sample_duck_def quoted_def str_val_def sample_parse_def where_of_def error_or_many_def
      get_or_def statement_node_def index_key_def not_a_plain_select_def source_of_def not_the_log_def str_json_def
      lower_samples sample_where_def is_subquery_def sample_column_def sample_constant_def qualifiers_def)

lemma sample_terms:
  "\<exists>cache. terms sample_duck ''Q'' sample_schema [] = (Some [(''x'', ''=='', PInt 1)], cache)"
proof -
  have kinds: "kinds_of sample_schema = [(OFFSET, OFFSET, Pa_int 64), (''x'', ''x'', Pa_int 64)]"
    by (simp add: kinds_of_def sample_schema_def PRUNABLE_def spelled_def lower_samples) (simp_all add: OFFSET_def)
  have col: "column_of sample_duck (kinds_of sample_schema) [''log''] sample_column = Some (Some ''x'')"
    unfolding kinds by (simp add: column_of_def sample_column_def get_or_def str_json_def lower_samples OFFSET_def)
  have b: "bound_term sample_duck sample_schema ''x'' ''=='' sample_constant = Some [(''x'', ''=='', PInt 1)]"
    by (simp add: bound_term_def value_for_def types_of_def sample_schema_def OFFSET_def sample_value)
  have "translate sample_duck sample_schema (kinds_of sample_schema) [''log''] sample_where = Some [(''x'', ''=='', PInt 1)]"
    by (simp add: translate_def sample_where_def get_or_def comparison_terms_def index_key_def col MIRROR_def OPERATOR_def b)
  moreover have "conjuncts sample_where = Some [sample_where]"
    by (subst conjuncts.simps) (simp add: sample_where_def is_and_def get_or_def)
  moreover have "dk_execute sample_duck (''SELECT json_serialize_sql('' @ quoted ''Q'' @ '')'') = Some (PStr ''P'')"
    by (simp add: sample_duck_def)
  moreover have "where_of sample_duck sample_parse = Some (Some (sample_where, [''log'']))" "py_loads sample_duck ''P'' = Some sample_parse"
    using sample_query by (auto simp: query_where_def sample_duck_def str_val_def split: option.splits)
  ultimately have "parse_terms sample_duck ''Q'' sample_schema = Some [(''x'', ''=='', PInt 1)]"
    by (simp add: parse_terms_def str_val_def each_def)
  then show ?thesis by (simp add: terms_def cache_hit_def Let_def)
qed

lemma sample_where_laws: "where_laws sample_duck sql sample_schema sample_holds sample_bound"
  by (simp add: where_laws_def sample_laws)

lemma sample_x: "types_of sample_schema ''x'' \<noteq> Some (Pa_float 32)"
  by (simp add: types_of_def sample_schema_def OFFSET_def)

theorem query_terms_prune_soundly_witness:
  "\<exists>cache. terms sample_duck ''Q'' sample_schema [] = (Some [(''x'', ''=='', PInt 1)], cache) \<and>
     ''staging'' \<in> set (prune (Some (build [example_entry 2])) [''staging''] [(''x'', ''=='', PInt 1)]) \<and>
     length cache \<le> CACHED"
proof -
  from sample_terms obtain cache where t: "terms sample_duck ''Q'' sample_schema [] = (Some [(''x'', ''=='', PInt 1)], cache)" ..
  have kinds: "mf_kinds (build [example_entry 2]) = [(''x'', Pa_int 64)]"
    by (simp add: build_def Let_def columns_def example_entry_def add_column_def PRUNABLE_def OFFSET_def)
  have r: "offset_row 1 ''x'' = PInt 1" "offset_row 1 \<in> set example_rows"
    by (simp_all add: offset_row_def example_rows_def)
  have "''staging'' \<in> set (prune (Some (build [example_entry 2])) [''staging''] [(''x'', ''=='', PInt 1)]) \<and>
     length cache \<le> CACHED"
    by (rule query_terms_prune_soundly [OF _ t, where r = "offset_row 1" and contents = "\<lambda>_. example_rows"
          and holds = sample_holds and bound = sample_bound])
      (simp_all add: reach_init sample_query sample_where_laws sample_plain sample_x sample_holds_def r example_manifest_true kinds,
       simp_all add: sample_schema_def)
  with t show ?thesis by blast
qed

end
