(* ===== verification/Read_Query.thy ===== *)
theory Read_Query
  imports Tail_Cache Seal_Pass Tiers Prune_Terms
begin

text \<open>
  The read path (\<^verbatim>\<open>src/litelink/_read.py\<close>: \<open>Reader.query\<close>, \<open>_buffer_could_match\<close>, \<open>_tiers\<close>, \<open>_prepare_remote\<close>,
  \<open>_union\<close>). A table scanned is the list of its data files, its extent the span of their offsets; a
  projected row is its offset and its columns, \<open>look sh r\<close>. What each read of a query sees is an
  argument of its own, so that other operations may come between any two. The manifest row of the
  staging tier is the stored one of the very version read, else the one computed from it, \<open>own\<close>.
\<close>

definition STAGING :: string where "STAGING = ''staging''"
definition BUFFER :: string where "BUFFER = ''buffer''"
definition TIERS :: "string list" where "TIERS = [STAGING, PUBLISHED]"

type_synonym 'r table_files = "(path \<times> (offset \<times> 'r) list) list"

subsection \<open>Which tiers a query reads\<close>

definition buffer_could_match ::
  "pa_schema \<Rightarrow> (string \<rightharpoonup> stored) \<Rightarrow> prune_term list \<Rightarrow> offset option \<Rightarrow> offset option \<Rightarrow> bool" where
  "buffer_could_match schema known found seen lowest =
     (case known BUFFER of
        Some gone \<Rightarrow>
          BUFFER \<in> set (prune (Some (build [tier_entry BUFFER (fst (so_offsets gone), Some (snd (so_offsets gone)))
            schema (so_statistics gone)])) [BUFFER] found)
      | None \<Rightarrow>
          if \<not> (\<exists>t \<in> set found. fst t = OFFSET) then True
          else (case lowest of
                  None \<Rightarrow> True
                | Some low \<Rightarrow>
                    let bottom = (case seen of None \<Rightarrow> low | Some b \<Rightarrow> max low b)
                    in BUFFER \<in> set (prune (Some (build [tier_entry BUFFER (bottom, None) schema UNKNOWN])) [BUFFER] found)))"

definition published_entry :: "pa_schema \<Rightarrow> (string \<rightharpoonup> stored) \<Rightarrow> entry list" where
  "published_entry schema known =
     (case known PUBLISHED of
        None \<Rightarrow> []
      | Some p \<Rightarrow> [tier_entry PUBLISHED (fst (so_offsets p), Some (snd (so_offsets p))) schema (so_statistics p)])"

definition staging_statistics :: "(string \<rightharpoonup> stored) \<Rightarrow> string \<Rightarrow> tier_statistics option \<Rightarrow> tier_statistics option" where
  "staging_statistics known location own =
     (case known STAGING of
        None \<Rightarrow> own
      | Some c \<Rightarrow> if so_version c = Some location then Some (so_statistics c) else own)"

definition staging_entry ::
  "pa_schema \<Rightarrow> prune_term list \<Rightarrow> (offset \<times> offset) option \<Rightarrow> tier_statistics option \<Rightarrow> entry list" where
  "staging_entry schema found extent stats =
     (case (extent, stats) of
        (Some (lo, hi), Some st) \<Rightarrow> if found = [] then [] else [tier_entry STAGING (lo, Some hi) schema st]
      | _ \<Rightarrow> [])"

definition tiers_needed ::
  "pa_schema \<Rightarrow> (string \<rightharpoonup> stored) \<Rightarrow> prune_term list \<Rightarrow> string \<Rightarrow> (offset \<times> offset) option \<Rightarrow> tier_statistics option
     \<Rightarrow> bool \<times> bool" where
  "tiers_needed schema known found location extent own =
     (let entries = published_entry schema known @ staging_entry schema found extent (staging_statistics known location own);
          kept = prune (if entries = [] then None else Some (build entries)) TIERS found
      in (STAGING \<in> set kept, PUBLISHED \<in> set kept))"

subsection \<open>The legs of the union\<close>

text \<open>\<open>_prepare_remote\<close>: no published table, or one that holds nothing, is no leg.\<close>

definition prepare_remote :: "'r table_files option \<Rightarrow> 'r table_files option" where
  "prepare_remote published =
     (case published of None \<Rightarrow> None | Some fs \<Rightarrow> if table_span fs = None then None else Some fs)"

definition union_rows ::
  "('s \<Rightarrow> 'r \<Rightarrow> 'v) \<Rightarrow> 's \<Rightarrow> (offset \<times> 'v) list \<Rightarrow> 'r table_files \<Rightarrow> 'r table_files option \<Rightarrow> bool
     \<Rightarrow> (offset \<times> 'v) list" where
  "union_rows look sh buffered staging far local =
     (case table_span staging of
        None \<Rightarrow>
          (case far of
             None \<Rightarrow> buffered
           | Some fs \<Rightarrow>
               (case table_span fs of
                  None \<Rightarrow> buffered
                | Some (_, past) \<Rightarrow>
                    view look sh (table_rows fs) @ filter (\<lambda>(i, v). past \<le> i) buffered))
      | Some (lo, hi) \<Rightarrow>
          (case far of None \<Rightarrow> [] | Some fs \<Rightarrow> filter (\<lambda>(i, v). i < lo) (view look sh (table_rows fs))) @
          (if local then view look sh (table_rows staging) else []) @
          filter (\<lambda>(i, v). hi \<le> i) buffered)"

subsection \<open>One query\<close>

text \<open>The first look at the staging table, which only bounds how much of the buffer is read.\<close>

definition read_bound :: "'r table_files \<Rightarrow> offset option" where
  "read_bound fs = map_option snd (table_span fs)"

definition read_tail ::
  "('s \<Rightarrow> 'r \<Rightarrow> 'v) \<Rightarrow> 's \<Rightarrow> bool \<Rightarrow> offset option \<Rightarrow> 'r db \<Rightarrow> ('s, 'v) tail \<Rightarrow> (offset \<times> 'v) list \<times> ('s, 'v) tail" where
  "read_tail look sh could seen d t =
     (if could then rows_from look sh seen d t else (no_rows look sh d, t))"

text \<open>What the reads of a query see, in their order.\<close>

record ('s, 'v, 'r) sightings =
  at_first :: "'r table_files"                  \<comment> \<open>the staging table's span\<close>
  at_stored :: "string \<rightharpoonup> stored"                  \<comment> \<open>the stored tiers, for the buffer\<close>
  at_lowest :: "'r db"                             \<comment> \<open>the buffer's lowest offset\<close>
  at_buffer :: "'r db"                             \<comment> \<open>the buffer's rows\<close>
  at_tail :: "('s, 'v) tail"                       \<comment> \<open>the tail cached before them\<close>
  at_staging :: "'r table_files"                \<comment> \<open>the staging snapshot\<close>
  at_location :: string
  at_own :: "tier_statistics option"
  at_tiers :: "string \<rightharpoonup> stored"                   \<comment> \<open>the stored tiers again\<close>
  at_published :: "'r table_files option"       \<comment> \<open>the published snapshot\<close>

definition query_buffered :: "('s \<Rightarrow> 'r \<Rightarrow> 'v) \<Rightarrow> 's \<Rightarrow> pa_schema \<Rightarrow> prune_term list \<Rightarrow> ('s, 'v, 'r) sightings \<Rightarrow> (offset \<times> 'v) list" where
  "query_buffered look sh schema found q =
     (let seen = read_bound (at_first q);
          could = buffer_could_match schema (at_stored q) found seen (lowest_offset (at_lowest q))
      in fst (read_tail look sh could seen (at_buffer q) (at_tail q)))"

definition query_rows ::
  "('s \<Rightarrow> 'r \<Rightarrow> 'v) \<Rightarrow> 's \<Rightarrow> pa_schema \<Rightarrow> prune_term list \<Rightarrow> bool \<Rightarrow> ('s, 'v, 'r) sightings \<Rightarrow> (offset \<times> 'v) list" where
  "query_rows look sh schema found published q =
     (case tiers_needed schema (at_tiers q) found (at_location q) (table_span (at_staging q)) (at_own q) of
        (local, needed) \<Rightarrow>
          union_rows look sh (query_buffered look sh schema found q) (at_staging q)
            (if published \<and> needed then prepare_remote (at_published q) else None) local)"

end
