(* ===== verification/Stored_Tiers.thy ===== *)
theory Stored_Tiers
  imports Read_Query
begin

text \<open>
  The published tier's stored row between the processes that write it and a reader
  (\<^verbatim>\<open>src/litelink/_tiers.py\<close>: \<open>PublishedTier\<close>, \<open>StoredTiers\<close>; \<^verbatim>\<open>src/litelink/_read.py\<close>: \<open>_tiers\<close>): the tier
  tables of \<^verbatim>\<open>buffer.db\<close>, the reader's cache of them, and the rows the published table holds below the staging
  table. An eviction widens the row in one transaction and moves the rows in a later one, or stops between
  them; a publish writes the row exactly, of files that may hold more than those rows, which the whole-log
  claim allows only while no eviction is between its two; the row may be dropped; everything else stored leaves it
  as it reads; rows may go (a truncation); and a reader may load at any point.
\<close>

subsection \<open>The machine\<close>

record 'r stored_sys =
  ss_db :: "'r db"
  ss_cache :: tier_cache
  ss_below :: "row list"   \<comment> \<open>what the published table holds below the staging table\<close>
  ss_leaving :: "row list"   \<comment> \<open>what an eviction has widened the row for and not moved yet\<close>

definition describes_rows :: "tier_statistics \<Rightarrow> row list \<Rightarrow> bool" where
  "describes_rows st rows \<longleftrightarrow> tier_true st rows \<and> spans_rows (offsets_of st) rows \<and> distinct (map fst (ts_columns st))"

text \<open>Rows with an offset, and no NaN: the log accepts none.\<close>

definition proper_rows :: "row list \<Rightarrow> bool" where
  "proper_rows rows \<longleftrightarrow> (\<forall>r \<in> set rows. (\<exists>i. r OFFSET = PInt i) \<and> (\<forall>name. \<not> is_nan (r name)))"

inductive stored_step :: "'r stored_sys \<Rightarrow> 'r stored_sys \<Rightarrow> bool" where
  st_replace: "replace_published schema st (ss_db s) = Some d \<Longrightarrow> ss_leaving s = [] \<Longrightarrow> describes_rows st rows \<Longrightarrow>
    proper_rows rows \<Longrightarrow> set (ss_below s) \<subseteq> set rows \<Longrightarrow> stored_step s (s\<lparr>ss_db := d\<rparr>)"
| st_widen: "widen_published schema st (ss_db s) = Some d \<Longrightarrow> describes_rows st rows \<Longrightarrow> proper_rows rows \<Longrightarrow>
    stored_step s (s\<lparr>ss_db := d, ss_leaving := ss_leaving s @ rows\<rparr>)"
| st_move: "stored_step s (s\<lparr>ss_below := ss_below s @ ss_leaving s, ss_leaving := []\<rparr>)"
| st_stop: "stored_step s (s\<lparr>ss_leaving := []\<rparr>)"
| st_gone: "set rows \<subseteq> set (ss_below s) \<Longrightarrow> stored_step s (s\<lparr>ss_below := rows\<rparr>)"
| st_drop: "drop_published (ss_db s) = Some d \<Longrightarrow> stored_step s (s\<lparr>ss_db := d\<rparr>)"
| st_staging: "store_staging_statistics version sp stats (ss_db s) = (wrote, d) \<Longrightarrow> stored_step s (s\<lparr>ss_db := d\<rparr>)"
| st_adopt: "tier_tables_ok (ss_db s) \<Longrightarrow> stored_step s (s\<lparr>ss_db := adopt_current_names (ss_db s)\<rparr>)"
| st_close: "stored_step s (s\<lparr>ss_db := close_buffer stats (ss_db s)\<rparr>)"
| st_empty: "empty_buffer_range stats (ss_db s) = Some d \<Longrightarrow> stored_step s (s\<lparr>ss_db := d\<rparr>)"
| st_other: "db_tier_offsets d = db_tier_offsets (ss_db s) \<Longrightarrow> db_tier_stats d = db_tier_stats (ss_db s) \<Longrightarrow>
    db_meta d TIER_GENERATION = db_meta (ss_db s) TIER_GENERATION \<Longrightarrow> stored_step s (s\<lparr>ss_db := d\<rparr>)"
| st_load: "load_tiers (ss_cache s) (ss_db s) = (known, cache) \<Longrightarrow> stored_step s (s\<lparr>ss_cache := cache\<rparr>)"
| st_open: "stored_step s (s\<lparr>ss_cache := None\<rparr>)"   \<comment> \<open>another reader\<close>

definition stored_init :: "'r stored_sys \<Rightarrow> bool" where
  "stored_init s \<longleftrightarrow> tier_row (ss_db s) PUBLISHED = None \<and> ss_cache s = None \<and> ss_leaving s = []"

subsection \<open>The invariant\<close>

text \<open>The stored row is true of rows among which are all it must describe; it may overstate.\<close>

definition row_holds :: "'r stored_sys \<Rightarrow> bool" where
  "row_holds s \<longleftrightarrow> (\<forall>sp j v. tier_row (ss_db s) PUBLISHED = Some (sp, j, v) \<longrightarrow>
     (\<exists>kept rows. decode j = Some kept \<and> tier_true kept rows \<and> spans_rows sp rows \<and> proper_rows rows \<and>
        set (ss_below s) \<union> set (ss_leaving s) \<subseteq> set rows))"

definition cache_holds :: "'r stored_sys \<Rightarrow> bool" where
  "cache_holds s \<longleftrightarrow> (\<forall>g c. ss_cache s = Some (g, c) \<longrightarrow>
     (\<exists>d. steps tier_step d (ss_db s) \<and> db_meta d TIER_GENERATION = Some g \<and> c = decode_tiers (snd (tiers d))))"

definition stored_inv :: "'r stored_sys \<Rightarrow> bool" where
  "stored_inv s \<longleftrightarrow> row_holds s \<and> cache_holds s"

lemma cache_holds_step:
  "cache_holds s \<Longrightarrow> tier_step (ss_db s) d \<Longrightarrow> cache_holds (s\<lparr>ss_db := d\<rparr>)"
  unfolding cache_holds_def by (simp add: ) (blast intro: steps_step)

lemma loaded:
  assumes c: "cache_holds s" and l: "load_tiers (ss_cache s) (ss_db s) = (known, cache)"
  shows "known = decode_tiers (snd (tiers (ss_db s))) \<and> cache_holds (s\<lparr>ss_cache := cache\<rparr>)"
proof -
  have same: "c = decode_tiers (snd (tiers (ss_db s)))"
    if "ss_cache s = Some (g, c)" "db_meta (ss_db s) TIER_GENERATION = Some g" for g c
  proof -
    from c that(1) obtain d where "steps tier_step d (ss_db s)" "db_meta d TIER_GENERATION = Some g"
      "c = decode_tiers (snd (tiers d))" unfolding cache_holds_def by blast
    with same_generation [of d "ss_db s"] that(2) show ?thesis by simp
  qed
  from load_tiers_fresh [OF l same] have known: "known = decode_tiers (snd (tiers (ss_db s)))" .
  have "\<exists>d. steps tier_step d (ss_db s) \<and> db_meta d TIER_GENERATION = Some g \<and> c' = decode_tiers (snd (tiers d))"
    if g: "cache = Some (g, c')" for g c'
  proof (cases "cache = ss_cache s")
    case True
    with g have "ss_cache s = Some (g, c')" by simp
    with c show ?thesis unfolding cache_holds_def by blast
  next
    case False
    from load_tiers_caches [OF l g False] show ?thesis by (blast intro: steps_refl)
  qed
  with known show ?thesis unfolding cache_holds_def by simp
qed

text \<open>Each write that is not of the published row leaves it as it reads.\<close>

lemma tier_row_published:
  "tier_row d PUBLISHED = (case joined_row d PUBLISHED of Some r \<Rightarrow> Some r | None \<Rightarrow> joined_row d ''archive'')"
  by (cases "joined_row d PUBLISHED") (simp_all add: tier_row_def PUBLISHED_legacy)

lemma published_as_before:
  "joined_row d' PUBLISHED = joined_row d PUBLISHED \<Longrightarrow> joined_row d' ''archive'' = joined_row d ''archive'' \<Longrightarrow>
     tier_row d' PUBLISHED = tier_row d PUBLISHED"
  by (cases "joined_row d PUBLISHED") (simp_all add: tier_row_published)

lemma staging_keeps_published:
  assumes "store_staging_statistics version sp stats d = (wrote, d')"
  shows "tier_row d' PUBLISHED = tier_row d PUBLISHED"
proof -
  have "db_tier_offsets d' name = db_tier_offsets d name \<and> db_tier_stats d' name = db_tier_stats d name"
    if "name = PUBLISHED \<or> name = ''archive''" for name
    using assms that
    by (auto simp: store_staging_statistics_def Let_def bump_tiers_def drop_legacy_tier_def LEGACY_TIERS_if PUBLISHED_def
        split: if_splits)
  then show ?thesis by (intro published_as_before) (simp_all add: joined_row_def)
qed

lemma adopt_keeps_published:
  assumes "tier_tables_ok d"
  shows "tier_row (adopt_current_names d) PUBLISHED = tier_row d PUBLISHED"
proof -
  have "joined_row (adopt_current_names d) ''archive'' = None" by (simp add: joined_row_def adopted_tables adopt_keys)
  moreover have "joined_row (adopt_current_names d) PUBLISHED = tier_row d PUBLISHED"
    using adopted_joined [OF assms, of PUBLISHED] by (simp add: tier_row_def) (simp add: PUBLISHED_def)
  ultimately show ?thesis by (simp add: tier_row_published [of "adopt_current_names d"] split: option.splits)
qed

lemma buffer_row_keeps_published: "tier_row (write_buffer_row a b stats d) PUBLISHED = tier_row d PUBLISHED"
  by (rule published_as_before) (simp_all add: joined_row_def write_buffer_row_def put_tier_def bump_tiers_def PUBLISHED_def)

lemma quiet_step:
  assumes "stored_inv s" and "tier_step (ss_db s) d" and "tier_row d PUBLISHED = tier_row (ss_db s) PUBLISHED"
  shows "stored_inv (s\<lparr>ss_db := d\<rparr>)"
  using assms cache_holds_step [OF _ assms(2)] by (simp add: stored_inv_def row_holds_def)

lemma stored_step_inv:
  assumes inv: "stored_inv s" and st: "stored_step s t"
  shows "stored_inv t"
  using st
proof cases
  case (st_replace schema st d rows)
  from st_replace(2) obtain j where j: "encode schema st = Some j"
    and u: "update_tier PUBLISHED (\<lambda>_ _. Some (Some (offsets_of st, j))) (ss_db s) = Some d"
    by (auto simp: replace_published_def split: option.splits)
  from st_replace(4) have st: "tier_true st rows" "spans_rows (offsets_of st) rows"
    "distinct (map fst (ts_columns st))" by (simp_all add: describes_rows_def)
  from stored_true [OF j st(3,1)] obtain kept where kept: "decode j = Some kept" "tier_true kept rows" by blast
  have "map_option (\<lambda>(sp, j, _). (sp, j)) (tier_row d PUBLISHED) = Some (offsets_of st, j)"
    by (rule update_published [OF u]) simp
  with kept st(2) st_replace(3,5,6) have "row_holds t"
    by (auto simp: st_replace(1) row_holds_def intro!: exI [of _ rows])
  moreover have "cache_holds t"
    using inv cache_holds_step [OF _ step_update [OF u]] by (simp add: st_replace(1) stored_inv_def)
  ultimately show ?thesis by (simp add: stored_inv_def)
next
  case (st_widen schema st d rows)
  have u: "tier_step (ss_db s) d" using st_widen(2) unfolding widen_published_def by (rule step_update)
  have "row_holds t"
  proof (cases "tier_row (ss_db s) PUBLISHED")
    case None
    with widen_missing [OF st_widen(2)] show ?thesis by (simp add: st_widen(1) row_holds_def)
  next
    case (Some a)
    then obtain sp j v where row: "tier_row (ss_db s) PUBLISHED = Some (sp, j, v)" by (cases a) auto
    with inv obtain kept old where old: "decode j = Some kept" "tier_true kept old" "spans_rows sp old" "proper_rows old"
      "set (ss_below s) \<union> set (ss_leaving s) \<subseteq> set old"
      unfolding stored_inv_def row_holds_def by blast
    from st_widen(3) have "tier_true st rows" "spans_rows (offsets_of st) rows" by (simp_all add: describes_rows_def)
    from widen_keeps_true [OF st_widen(2) this row old(1-3)] obtain sp' j' v' st' where
      new: "tier_row d PUBLISHED = Some (sp', j', v')" "decode j' = Some st'" "tier_true st' (old @ rows)"
        "spans_rows sp' (old @ rows)" by blast
    have "proper_rows (old @ rows)" using old(4) st_widen(4) by (auto simp: proper_rows_def)
    moreover have "set (ss_below t) \<union> set (ss_leaving t) \<subseteq> set (old @ rows)" using old(5) by (auto simp: st_widen(1))
    moreover have "tier_row (ss_db t) PUBLISHED = Some (sp', j', v')" using new(1) by (simp add: st_widen(1))
    ultimately show ?thesis using new(2-4) by (auto simp: row_holds_def intro!: exI [of _ "old @ rows"])
  qed
  moreover have "cache_holds t"
    using inv cache_holds_step [OF _ u] by (simp add: st_widen(1) stored_inv_def cache_holds_def)
  ultimately show ?thesis by (simp add: stored_inv_def)
next
  case st_move
  with inv show ?thesis by (simp add: stored_inv_def row_holds_def cache_holds_def Un_ac)
next
  case st_stop
  with inv show ?thesis by (auto simp: stored_inv_def row_holds_def cache_holds_def) blast
next
  case st_gone
  with inv show ?thesis by (simp add: stored_inv_def row_holds_def cache_holds_def) blast
next
  case (st_drop d)
  from st_drop(2) have u: "update_tier PUBLISHED (\<lambda>_ _. Some None) (ss_db s) = Some d" by (simp add: drop_published_def)
  have "map_option (\<lambda>(sp, j, _). (sp, j)) (tier_row d PUBLISHED) = None" by (rule update_published [OF u]) simp
  then have "row_holds t" by (simp add: st_drop(1) row_holds_def)
  with inv cache_holds_step [OF _ step_update [OF u]] show ?thesis by (simp add: st_drop(1) stored_inv_def)
next
  case (st_staging version sp stats wrote d)
  then show ?thesis using quiet_step [OF inv step_staging] staging_keeps_published by blast
next
  case st_adopt
  then show ?thesis using quiet_step [OF inv step_adopt] adopt_keeps_published by blast
next
  case (st_close stats)
  have "tier_row (close_buffer stats (ss_db s)) PUBLISHED = tier_row (ss_db s) PUBLISHED"
    by (simp add: close_buffer_def Let_def buffer_row_keeps_published)
  with st_close show ?thesis using quiet_step [OF inv step_close] by blast
next
  case (st_empty stats d)
  then have "tier_row d PUBLISHED = tier_row (ss_db s) PUBLISHED"
    by (auto simp: empty_buffer_range_def buffer_row_keeps_published split: option.splits)
  with st_empty show ?thesis using quiet_step [OF inv step_empty] by blast
next
  case (st_other d)
  then have "tier_row d PUBLISHED = tier_row (ss_db s) PUBLISHED"
    by (intro published_as_before) (simp_all add: joined_row_def)
  with st_other show ?thesis using quiet_step [OF inv step_other] by blast
next
  case (st_load known cache)
  with loaded [of s known cache] inv show ?thesis by (simp add: stored_inv_def row_holds_def)
next
  case st_open
  with inv show ?thesis by (simp add: stored_inv_def row_holds_def cache_holds_def)
qed

interpretation stored_machine: invariant_machine stored_init stored_step stored_inv
proof
  show "stored_inv s" if "stored_init s" for s :: "'r stored_sys"
    using that by (simp add: stored_init_def stored_inv_def row_holds_def cache_holds_def)
  show "stored_inv t" if "stored_inv s" "stored_step s t" for s t :: "'r stored_sys"
    using that by (rule stored_step_inv)
qed

subsection \<open>What a reader finds\<close>

lemma published_loaded: "snd (tiers d) PUBLISHED = tier_row d PUBLISHED"
  by (simp add: tiers_def tier_row_def CURRENT_TIER_def PUBLISHED_def split: option.splits)

lemma prune_member: "name \<in> set (prune m [name] ts) \<Longrightarrow> name \<in> set names \<Longrightarrow> name \<in> set (prune m names ts)"
  by (auto simp: prune_def split: option.splits if_splits)

text \<open>C40. The stored row never hides a published row. After any run of exact writes of the published tier's
  row, of evictions that widen it before they move rows, stopped between the two or not, of drops, of every other
  tier write and of loads, what a reader loads, from the tables or from what it kept, never makes it leave the
  published table out of a query while that table holds below the staging table a row the query's terms
  select, whatever else its manifest says; and the row's range, where there is one, covers that row. The
  condition, which the whole-log claim keeps: no exact write between an eviction's widening and its move.\<close>

theorem published_row_never_hides_a_row:
  assumes "reach stored_init stored_step s" and "load_tiers (ss_cache s) (ss_db s) = (known, cache)"
    and "r \<in> set (ss_below s)" and "\<And>t. t \<in> set found \<Longrightarrow> selects duck t r"
  shows "snd (tiers_needed schema known found location extent own) \<and>
    (case load_published (ss_cache s) (ss_db s) of
       None \<Rightarrow> True
     | Some p \<Rightarrow> in_span (fst (so_offsets p)) (snd (so_offsets p)) (row_offset r))"
proof -
  have inv: "stored_inv s" by (rule stored_machine.inv_reach [OF assms(1)])
  then have known: "known = decode_tiers (snd (tiers (ss_db s)))" using loaded [OF _ assms(2)] by (simp add: stored_inv_def)
  let ?S = "staging_entry schema found extent (staging_statistics known location own)"
  have other: "\<forall>e \<in> set ?S. en_name e \<noteq> PUBLISHED"
    by (auto simp: staging_entry_def tier_entry_def STAGING_def PUBLISHED_def split: option.splits if_splits)
  have load: "load_published (ss_cache s) (ss_db s) = known PUBLISHED" by (simp add: load_published_def assms(2))
  have in_tiers: "PUBLISHED \<in> set TIERS" by (simp add: TIERS_def)
  show ?thesis
  proof (cases "known PUBLISHED")
    case None
    have "row_of (build ?S) PUBLISHED = None"
      using other by (auto simp: row_of_def build_def Let_def find_None_iff build_row_def)
    with in_tiers None load show ?thesis
      by (auto simp: tiers_needed_def Let_def published_entry_def prune_def)
  next
    case (Some p)
    then obtain sp j v st where row: "tier_row (ss_db s) PUBLISHED = Some (sp, j, v)" and dec: "decode j = Some st"
      and p: "p = \<lparr>so_offsets = sp, so_statistics = st, so_version = v\<rparr>"
      by (auto simp: known decode_tiers_def published_loaded split: option.splits)
    with inv obtain rows where st: "tier_true st rows" "spans_rows sp rows" and proper: "proper_rows rows"
      and r: "r \<in> set rows"
      using assms(3) unfolding stored_inv_def row_holds_def by force
    from proper have proper: "\<forall>r \<in> set rows. \<exists>i. r OFFSET = PInt i" "\<forall>r \<in> set rows. \<forall>name. \<not> is_nan (r name)"
      by (auto simp: proper_rows_def)
    have es: "published_entry schema known @ ?S = tier_entry PUBLISHED (fst sp, Some (snd sp)) schema st # ?S"
      by (simp add: published_entry_def Some p)
    from prune_member [OF published_entry_kept [OF st proper r assms(4) other] in_tiers]
    have "snd (tiers_needed schema known found location extent own)" unfolding tiers_needed_def Let_def es by simp
    moreover have "in_span (fst sp) (snd sp) (row_offset r)" using st(2) r by (simp add: spans_rows_def)
    ultimately show ?thesis by (simp add: load Some p)
  qed
qed

subsection \<open>One row written, one evicted\<close>

definition sample_stored :: "nat stored_sys" where
  "sample_stored = \<lparr>ss_db = empty_db, ss_cache = None, ss_below = [offset_row 0], ss_leaving = []\<rparr>"

lemma sample_replaced:
  "replace_published x_schema (x_tier [offset_row 0]) (empty_db :: nat db) = Some (bump_tiers (put_tier PUBLISHED (0, 1)
     (the (encode x_schema (x_tier [offset_row 0]))) empty_db))"
  by (simp add: replace_published_def x_encode update_tier_def tier_row_def joined_row_def empty_db_def PUBLISHED_def
      drop_legacy_tier_def LEGACY_TIERS_if fun_upd_idem)
    (simp add: offsets_of_def x_tier_def from_rows_def column_from_rows_def OFFSET_def
        extreme_def non_null_def offset_row_def bounded_type_def py_int_def)

lemma sample_widened:
  "widen_published x_schema (x_tier [offset_row 1]) (bump_tiers (put_tier PUBLISHED (0, 1)
     (the (encode x_schema (x_tier [offset_row 0]))) (empty_db :: nat db))) \<noteq> None"
  by (simp add: widen_published_def update_tier_def put_tier_def bump_tiers_def empty_db_def x_encode tier_row_def
      joined_row_def PUBLISHED_def widen_change_def decode_def)
    (simp add: encode_def union_tier_def merge_parts_def merge_result_def merge_step_def merge_start_def
      x_columns x_tier_def from_rows_def encode_column_def column_from_rows_def json_bound_def
      widen_low_def widen_high_def extreme_def non_null_def offset_row_def bounded_type_def py_min_def
      py_max_def py_lt_def less_ext_def OFFSET_def json_count_def)

lemma sample_describes: "describes_rows (x_tier [offset_row i]) [offset_row i]" "proper_rows [offset_row i]"
proof -
  have "spans_rows (offsets_of (x_tier [offset_row i])) [offset_row i]"
    by (simp add: spans_rows_def offsets_of_def x_tier_def from_rows_def column_from_rows_def OFFSET_def
        extreme_def non_null_def offset_row_def bounded_type_def row_offset_def in_span_def py_int_def)
  moreover have "distinct (map fst (ts_columns (x_tier [offset_row i])))"
    by (simp add: x_tier_def from_rows_def OFFSET_def)
  ultimately show "describes_rows (x_tier [offset_row i]) [offset_row i]"
    using x_tier_true [of "[i]"] by (simp add: describes_rows_def)
  show "proper_rows [offset_row i]" by (simp add: proper_rows_def offset_row_def is_nan_def)
qed

lemma published_row_never_hides_a_row_witness:
  "\<exists>s :: nat stored_sys. reach stored_init stored_step s \<and> ss_below s = [offset_row 0, offset_row 1] \<and>
     snd (tiers_needed x_schema (fst (load_tiers (ss_cache s) (ss_db s))) [(''x'', ''>'', PInt 0)] [] None None)"
proof -
  let ?d = "bump_tiers (put_tier PUBLISHED (0, 1) (the (encode x_schema (x_tier [offset_row 0]))) (empty_db :: nat db))"
  from sample_widened obtain d' where d': "widen_published x_schema (x_tier [offset_row 1]) ?d = Some d'" by auto
  have "reach stored_init stored_step sample_stored"
    by (rule reach_init) (simp add: stored_init_def sample_stored_def sample_describes tier_row_def joined_row_def
        empty_db_def PUBLISHED_legacy)
  moreover have "stored_step sample_stored (sample_stored\<lparr>ss_db := ?d\<rparr>)"
    by (rule st_replace [where rows = "[offset_row 0]"]) (use sample_replaced sample_describes in \<open>simp_all add: sample_stored_def\<close>)
  ultimately have "reach stored_init stored_step (sample_stored\<lparr>ss_db := ?d\<rparr>)" by (rule reach_step)
  moreover have "stored_step (sample_stored\<lparr>ss_db := ?d\<rparr>)
      ((sample_stored\<lparr>ss_db := ?d\<rparr>)\<lparr>ss_db := d', ss_leaving := ss_leaving (sample_stored\<lparr>ss_db := ?d\<rparr>) @ [offset_row 1]\<rparr>)"
    by (rule st_widen) (use d' sample_describes in simp_all)
  ultimately have "reach stored_init stored_step
      ((sample_stored\<lparr>ss_db := ?d\<rparr>)\<lparr>ss_db := d', ss_leaving := ss_leaving (sample_stored\<lparr>ss_db := ?d\<rparr>) @ [offset_row 1]\<rparr>)"
    by (rule reach_step)
  from reach_step [OF this st_move]
  have r: "reach stored_init stored_step
      \<lparr>ss_db = d', ss_cache = None, ss_below = [offset_row 0, offset_row 1], ss_leaving = []\<rparr>"
    by (simp add: sample_stored_def)
  have "snd (tiers_needed x_schema known [(''x'', ''>'', PInt 0)] [] None None)"
    if "load_tiers None d' = (known, cache)" for known cache
    using published_row_never_hides_a_row [OF r, where r = "offset_row 1" and found = "[(''x'', ''>'', PInt 0)]"
        and duck = "\<lambda>_ _ _. False" and known = known and cache = cache] that
    by (simp add: sample_stored_def offset_row_def selects_def selects_one_def compares_def OPERATORS_def less_ext_def)
  from this [OF surjective_pairing] r show ?thesis
    by (intro exI [of _ "\<lparr>ss_db = d', ss_cache = None, ss_below = [offset_row 0, offset_row 1], ss_leaving = []\<rparr>"])
      simp
qed

end
