(* ===== verification/Nested_Columns.thy ===== *)
theory Nested_Columns
  imports Column_Types
begin

text \<open>
  The nested columns (\<^verbatim>\<open>src/litelink/_types.py\<close>: \<open>_encoder\<close> and the functions it builds, \<open>_decoder\<close>,
  \<open>Nested\<close>): a \<open>struct\<close>, \<open>map\<close> or \<open>list\<close> value is checked against its declared type and stored as
  JSON. \<open>json.loads\<close> of what \<open>json\<close> printed is the tree itself; a JSON object read back is a dict
  with string keys, an array a list.
\<close>

subsection \<open>Refusals\<close>

datatype segment = Seg_field string | Seg_key pyval | Seg_index nat

datatype refusal = Wrong_type | Out_of_range | Not_finite | Overflows | Inexact | Wrong_width nat
  | Unknown_fields "pyval list" | Null_field | Null_key | Null_value | Null_item | Not_a_pair
  | Duplicate_key

text \<open>\<open>NestedValueError\<close>: the path, assembled on the way out by \<open>within\<close>, and the reason.\<close>

type_synonym nested_error = "segment list \<times> refusal"

definition refuse :: "refusal \<Rightarrow> nested_error + 'a" where
  "refuse r = Inl ([], r)"

definition add_segment :: "segment \<Rightarrow> (nested_error + 'a) \<Rightarrow> (nested_error + 'a)" where
  "add_segment s r = (case r of Inl (p, e) \<Rightarrow> Inl (s # p, e) | Inr x \<Rightarrow> Inr x)"

text \<open>The results of a loop that stops at the first refusal.\<close>

fun collect :: "('e + 'a) list \<Rightarrow> 'e + 'a list" where
  "collect [] = Inr []"
| "collect (Inl e # rs) = Inl e"
| "collect (Inr x # rs) = (case collect rs of Inl e \<Rightarrow> Inl e | Inr xs \<Rightarrow> Inr (x # xs))"

subsection \<open>Encoding\<close>

fun encode_bool :: "pyval \<Rightarrow> nested_error + json" where
  "encode_bool (PBool b) = Inr (JBool b)"
| "encode_bool v = refuse Wrong_type"

fun encode_int :: "int \<times> int \<Rightarrow> pyval \<Rightarrow> nested_error + json" where
  "encode_int (lo, hi) (PInt i) = (if \<not> (lo \<le> i \<and> i \<le> hi) then refuse Out_of_range else Inr (JInt i))"
| "encode_int b v = refuse Wrong_type"

fun encode_float :: "int \<Rightarrow> rat option \<Rightarrow> pyval \<Rightarrow> nested_error + json" where
  "encode_float exact limit (PFloat f) =
     (case f of
        FVal (Fin x) \<Rightarrow> (if (case limit of None \<Rightarrow> False | Some l \<Rightarrow> l < \<bar>x\<bar>) then refuse Overflows
                         else Inr (JFloat f))
      | _ \<Rightarrow> refuse Not_finite)"
| "encode_float exact limit (PInt i) =
     (if \<not> (- exact \<le> i \<and> i \<le> exact) then refuse Inexact else Inr (JFloat (FVal (Fin (of_int i)))))"
| "encode_float exact limit v = refuse Wrong_type"

fun encode_str :: "pyval \<Rightarrow> nested_error + json" where
  "encode_str (PStr s) = Inr (JStr s)"
| "encode_str v = refuse Wrong_type"

fun encode_bytes :: "nat option \<Rightarrow> pyval \<Rightarrow> nested_error + json" where
  "encode_bytes width (PBytes b) =
     (if (case width of None \<Rightarrow> False | Some w \<Rightarrow> length b \<noteq> w) then refuse (Wrong_width (length b))
      else Inr (JStr (b64encode b)))"
| "encode_bytes width v = refuse Wrong_type"

text \<open>A child that may be None: \<open>absent\<close> is the refusal of one that may not.\<close>

definition encode_child ::
  "bool \<Rightarrow> refusal \<Rightarrow> (pyval \<Rightarrow> nested_error + json) \<Rightarrow> pyval \<Rightarrow> nested_error + json" where
  "encode_child nullable absent enc v =
     (if v = PNone then (if nullable then Inr JNull else refuse absent) else enc v)"

text \<open>The entries of a map: of a dict as they come, of a sequence with the pairs and the duplicates
  checked in the order of the source.\<close>

definition encode_entry ::
  "bool \<Rightarrow> (pyval \<Rightarrow> nested_error + json) \<Rightarrow> (pyval \<Rightarrow> nested_error + json) \<Rightarrow> pyval \<Rightarrow> pyval
     \<Rightarrow> nested_error + json \<times> json" where
  "encode_entry nullable enck encv key v =
     (case add_segment (Seg_key key) (if key = PNone then refuse Null_key else enck key) of
        Inl e \<Rightarrow> Inl e
      | Inr k \<Rightarrow> (case add_segment (Seg_key key) (encode_child nullable Null_value encv v) of
            Inl e \<Rightarrow> Inl e | Inr j \<Rightarrow> Inr (k, j)))"

fun encode_pairs ::
  "(pyval \<Rightarrow> pyval \<Rightarrow> nested_error + json \<times> json) \<Rightarrow> json list \<Rightarrow> pyval list
     \<Rightarrow> nested_error + (json \<times> json) list" where
  "encode_pairs entry seen [] = Inr []"
| "encode_pairs entry seen (p # ps) =
     (case pair_of p of
        None \<Rightarrow> refuse Not_a_pair
      | Some (key, v) \<Rightarrow> (case entry key v of
          Inl e \<Rightarrow> Inl e
        | Inr (k, j) \<Rightarrow>
            if k \<in> set seen then add_segment (Seg_key key) (refuse Duplicate_key)
            else (case encode_pairs entry (k # seen) ps of
                    Inl e \<Rightarrow> Inl e | Inr kjs \<Rightarrow> Inr ((k, j) # kjs))))"

definition pair_json :: "json \<times> json \<Rightarrow> json" where
  "pair_json kj = JArr [fst kj, snd kj]"

definition unknown_keys :: "string list \<Rightarrow> (pyval \<times> pyval) list \<Rightarrow> pyval list" where
  "unknown_keys names kv = filter (\<lambda>k. k \<notin> PStr ` set names) (map fst kv)"

fun encode_value :: "pa_type \<Rightarrow> pyval \<Rightarrow> nested_error + json" where
  "encode_value Pa_bool v = encode_bool v"
| "encode_value (Pa_int n) v = encode_int (if n = 32 then INT32 else INT64) v"
| "encode_value (Pa_float n) v =
     (if n = 32 then encode_float (2 ^ 24) (Some (snd FLOAT32)) v else encode_float (2 ^ 53) None v)"
| "encode_value Pa_string v = encode_str v"
| "encode_value Pa_large_string v = encode_str v"
| "encode_value Pa_binary v = encode_bytes None v"
| "encode_value (Pa_fixed_binary w) v = encode_bytes (Some w) v"
| "encode_value (Pa_struct fs) v =
     (case v of
        PDict kv \<Rightarrow>
          if unknown_keys (map fst fs) kv \<noteq> [] then refuse (Unknown_fields (unknown_keys (map fst fs) kv))
          else (case collect (map (\<lambda>(n, b, t). case add_segment (Seg_field n)
                        (encode_child b Null_field (encode_value t) (dict_get n kv)) of
                      Inl e \<Rightarrow> Inl e | Inr j \<Rightarrow> Inr (n, j)) fs) of
                  Inl e \<Rightarrow> Inl e | Inr kjs \<Rightarrow> Inr (JObj kjs))
      | _ \<Rightarrow> refuse Wrong_type)"
| "encode_value (Pa_map k b t) v =
     (case v of
        PDict kv \<Rightarrow> (case collect (map (\<lambda>(key, item). encode_entry b (encode_value k) (encode_value t) key item) kv) of
            Inl e \<Rightarrow> Inl e | Inr kjs \<Rightarrow> Inr (JArr (map pair_json kjs)))
      | PList ps \<Rightarrow> (case encode_pairs (encode_entry b (encode_value k) (encode_value t)) [] ps of
            Inl e \<Rightarrow> Inl e | Inr kjs \<Rightarrow> Inr (JArr (map pair_json kjs)))
      | _ \<Rightarrow> refuse Wrong_type)"
| "encode_value (Pa_list b t) v =
     (case v of
        PList vs \<Rightarrow> (case collect (map (\<lambda>(i, item). add_segment (Seg_index i)
                        (encode_child b Null_item (encode_value t) item)) (enumerate 0 vs)) of
            Inl e \<Rightarrow> Inl e | Inr js \<Rightarrow> Inr (JArr js))
      | _ \<Rightarrow> refuse Wrong_type)"
| "encode_value _ v = refuse Wrong_type"

subsection \<open>Decoding\<close>

fun loads :: "json \<Rightarrow> pyval" where
  "loads JNull = PNone"
| "loads (JBool b) = PBool b"
| "loads (JInt i) = PInt i"
| "loads (JFloat f) = PFloat f"
| "loads (JStr s) = PStr s"
| "loads (JArr js) = PList (map loads js)"
| "loads (JObj kjs) = PDict (map (\<lambda>(k, j). (PStr k, loads j)) kjs)"

text \<open>\<open>_decoder\<close>: None where \<open>json.loads\<close> already gave the value. The function built is partial: a
  missing key or a wrong shape raises.\<close>

fun decode_b64 :: "pyval \<Rightarrow> pyval option" where
  "decode_b64 (PStr s) = map_option PBytes (b64decode s)"
| "decode_b64 v = None"

definition unless_null :: "(pyval \<Rightarrow> pyval option) \<Rightarrow> pyval \<Rightarrow> pyval option" where
  "unless_null f v = (if v = PNone then Some PNone else f v)"

fun update_key :: "string \<Rightarrow> (pyval \<Rightarrow> pyval option) \<Rightarrow> (pyval \<times> pyval) list \<Rightarrow> (pyval \<times> pyval) list option" where
  "update_key n f [] = None"
| "update_key n f ((k, v) # kv) =
     (if k = PStr n then map_option (\<lambda>w. (k, w) # kv) (unless_null f v)
      else map_option (\<lambda>kv'. (k, v) # kv') (update_key n f kv))"

definition update_keys ::
  "(string \<times> (pyval \<Rightarrow> pyval option)) list \<Rightarrow> (pyval \<times> pyval) list \<Rightarrow> (pyval \<times> pyval) list option" where
  "update_keys parts kv = fold (\<lambda>(n, f) o1. Option.bind o1 (update_key n f)) parts (Some kv)"

text \<open>The fields that need decoding, with what decodes them.\<close>

definition needing :: "(string \<times> (pyval \<Rightarrow> pyval option) option) list \<Rightarrow> (string \<times> (pyval \<Rightarrow> pyval option)) list" where
  "needing parts = List.map_filter (\<lambda>(n, o1). map_option (Pair n) o1) parts"

fun decode_pair :: "(pyval \<Rightarrow> pyval option) \<Rightarrow> pyval \<Rightarrow> pyval option" where
  "decode_pair f (PList [k, v]) = map_option (\<lambda>w. PList [k, w]) (unless_null f v)"
| "decode_pair f v = None"

fun decoder :: "pa_type \<Rightarrow> (pyval \<Rightarrow> pyval option) option" where
  "decoder Pa_binary = Some decode_b64"
| "decoder (Pa_fixed_binary w) = Some decode_b64"
| "decoder (Pa_struct fs) =
     (let parts = map (\<lambda>(n, b, t). (n, decoder t)) fs in
      if needing parts = [] then None
      else Some (\<lambda>v. case v of PDict kv \<Rightarrow> map_option PDict (update_keys (needing parts) kv) | _ \<Rightarrow> None))"
| "decoder (Pa_map k b t) =
     Some (\<lambda>v. case v of
         PList ps \<Rightarrow> (case decoder t of
             None \<Rightarrow> Some (PList ps)
           | Some f \<Rightarrow> map_option PList (those (map (decode_pair f) ps)))
       | _ \<Rightarrow> None)"
| "decoder (Pa_list b t) =
     (case decoder t of
        None \<Rightarrow> None
      | Some f \<Rightarrow> Some (\<lambda>v. case v of PList vs \<Rightarrow> map_option PList (those (map (unless_null f) vs)) | _ \<Rightarrow> None))"
| "decoder t = None"

definition decode_value :: "pa_type \<Rightarrow> json \<Rightarrow> pyval option" where
  "decode_value t j = (case decoder t of None \<Rightarrow> Some (loads j) | Some f \<Rightarrow> f (loads j))"

text \<open>\<open>Nested.variable_bits\<close>.\<close>

definition variable_bits :: "pa_type \<Rightarrow> pyval \<Rightarrow> nat" where
  "variable_bits t v = (if sized t then size_bits t v else 0)"

end
