(* ===== verification/Nested_Roundtrip.thy ===== *)
theory Nested_Roundtrip
  imports Nested_Columns
begin

text \<open>
  What the codec of a nested column promises: it stores exactly the values that conform to the
  declared type, and reads back the value Arrow builds the column from, of the size the append
  measured, which stores to the same JSON again.
\<close>

subsection \<open>Conforming values\<close>

definition float_fits :: "int \<Rightarrow> rat option \<Rightarrow> pyval \<Rightarrow> bool" where
  "float_fits exact limit v \<longleftrightarrow>
     (\<exists>x. v = PFloat (FVal (Fin x)) \<and> (case limit of None \<Rightarrow> True | Some l \<Rightarrow> \<bar>x\<bar> \<le> l)) \<or>
     (\<exists>i. v = PInt i \<and> - exact \<le> i \<and> i \<le> exact)"

fun conforms :: "pa_type \<Rightarrow> pyval \<Rightarrow> bool" where
  "conforms Pa_bool v \<longleftrightarrow> (\<exists>b. v = PBool b)"
| "conforms (Pa_int n) v \<longleftrightarrow> (\<exists>i. v = PInt i \<and>
     (if n = 32 then - (2 ^ 31) \<le> i \<and> i < 2 ^ 31 else - (2 ^ 63) \<le> i \<and> i < 2 ^ 63))"
| "conforms (Pa_float n) v \<longleftrightarrow>
     (if n = 32 then float_fits (2 ^ 24) (Some (snd FLOAT32)) v else float_fits (2 ^ 53) None v)"
| "conforms Pa_string v \<longleftrightarrow> (\<exists>s. v = PStr s)"
| "conforms Pa_large_string v \<longleftrightarrow> (\<exists>s. v = PStr s)"
| "conforms Pa_binary v \<longleftrightarrow> (\<exists>b. v = PBytes b)"
| "conforms (Pa_fixed_binary w) v \<longleftrightarrow> (\<exists>b. v = PBytes b \<and> length b = w)"
| "conforms (Pa_struct fs) v \<longleftrightarrow> (\<exists>kv. v = PDict kv \<and> fst ` set kv \<subseteq> PStr ` fst ` set fs \<and>
     (\<forall>(n, b, t) \<in> set fs. if dict_get n kv = PNone then b else conforms t (dict_get n kv)))"
| "conforms (Pa_map k b t) v \<longleftrightarrow>
     ((\<exists>kv. v = PDict kv) \<or> (\<exists>ps. v = PList ps \<and> (\<forall>p \<in> set ps. pair_of p \<noteq> None) \<and>
        distinct (map fst (entries_of v)))) \<and>
     (\<forall>(key, item) \<in> set (entries_of v). key \<noteq> PNone \<and> conforms k key \<and>
        (if item = PNone then b else conforms t item))"
| "conforms (Pa_list b t) v \<longleftrightarrow> (\<exists>vs. v = PList vs \<and>
     (\<forall>item \<in> set vs. if item = PNone then b else conforms t item))"
| "conforms t v \<longleftrightarrow> False"

text \<open>What Arrow builds the column from.\<close>

fun arrow_value :: "pa_type \<Rightarrow> pyval \<Rightarrow> pyval" where
  "arrow_value (Pa_float n) v = (case v of PInt i \<Rightarrow> PFloat (FVal (Fin (of_int i))) | _ \<Rightarrow> v)"
| "arrow_value (Pa_struct fs) v =
     PDict (map (\<lambda>(n, b, t). (PStr n, if dict_get n (dict_of v) = PNone then PNone
                                      else arrow_value t (dict_get n (dict_of v)))) fs)"
| "arrow_value (Pa_map k b t) v =
     PList (map (\<lambda>(key, item). PList [key, if item = PNone then PNone else arrow_value t item]) (entries_of v))"
| "arrow_value (Pa_list b t) v =
     PList (map (\<lambda>item. if item = PNone then PNone else arrow_value t item) (items_of v))"
| "arrow_value t v = v"

fun bytes_ok :: "pyval \<Rightarrow> bool" where
  "bytes_ok (PBytes b) = is_bytes b"
| "bytes_ok (PList vs) = list_all bytes_ok vs"
| "bytes_ok (PDict kv) = list_all (\<lambda>(k, v). bytes_ok k \<and> bytes_ok v) kv"
| "bytes_ok v = True"

subsection \<open>Induction over types and loops that stop\<close>

lemma pa_type_induct:
  assumes "\<And>fs. (\<And>n b t. (n, b, t) \<in> set fs \<Longrightarrow> P t) \<Longrightarrow> P (Pa_struct fs)"
    and "\<And>k b t. P k \<Longrightarrow> P t \<Longrightarrow> P (Pa_map k b t)"
    and "\<And>b t. P t \<Longrightarrow> P (Pa_list b t)"
    and "\<And>t. \<not> nested_type t \<Longrightarrow> P t"
  shows "P t"
proof (induction t)
  case (Pa_struct fs)
  then show ?case by (intro assms(1)) fastforce
qed (auto intro: assms(2,3,4))

lemma collect_map [simp]: "collect (map Inr xs) = Inr xs"
  by (induction xs) auto

lemma collect_InrD: "collect rs = Inr xs \<Longrightarrow> rs = map Inr xs"
  by (induction rs arbitrary: xs rule: collect.induct) (auto split: sum.splits)

lemma collect_Inr: "collect rs = Inr xs \<longleftrightarrow> rs = map Inr xs"
  by (auto dest: collect_InrD)

lemma collect_map_Inr: "collect (map f xs) = Inr ys \<longleftrightarrow> map f xs = map Inr ys"
  by (simp add: collect_Inr)

lemma collect_ok: "(\<exists>ys. collect (map f xs) = Inr ys) \<longleftrightarrow> (\<forall>x \<in> set xs. \<exists>y. f x = Inr y)"
proof -
  have "(\<exists>ys. map f xs = map Inr ys) \<longleftrightarrow> (\<forall>x \<in> set xs. \<exists>y. f x = Inr y)"
  proof (induction xs)
    case (Cons x xs)
    have "(\<exists>ys. map f (x # xs) = map Inr ys) \<longleftrightarrow> (\<exists>y. f x = Inr y) \<and> (\<exists>ys. map f xs = map Inr ys)"
      by (auto simp: Cons_eq_map_conv)
    with Cons show ?case by simp
  qed simp
  then show ?thesis by (simp add: collect_Inr)
qed

lemma add_segment_Inr [simp]: "add_segment s r = Inr x \<longleftrightarrow> r = Inr x"
  by (auto simp: add_segment_def split: sum.splits prod.splits)

lemma add_segment_ok [simp]: "add_segment s (Inr x) = Inr x"
  by (simp add: add_segment_def)

lemma refuse_Inr [simp]: "refuse r \<noteq> Inr x" "Inr x \<noteq> refuse r"
  by (simp_all add: refuse_def)

lemma encode_child_Inr: "encode_child b r f v = Inr j \<longleftrightarrow>
    (if v = PNone then b \<and> j = JNull else f v = Inr j)"
  by (auto simp: encode_child_def)

lemma tag_Inr: "(case r of Inl e \<Rightarrow> Inl e | Inr j \<Rightarrow> Inr (n, j)) = Inr y \<longleftrightarrow> (\<exists>j. r = Inr j \<and> y = (n, j))"
  by (auto split: sum.splits)

lemma encode_entry_Inr: "encode_entry b fk fv key v = Inr (k, j) \<longleftrightarrow>
    key \<noteq> PNone \<and> fk key = Inr k \<and> encode_child b Null_value fv v = Inr j"
  by (auto simp: encode_entry_def split: sum.splits if_splits)

lemma encode_scalar_conforms:
  assumes "\<not> nested_type t"
  shows "(\<exists>j. encode_value t v = Inr j) \<longleftrightarrow> conforms t v"
proof (cases t)
  case (Pa_float n)
  have "(\<exists>j. encode_float e l v = Inr j) \<longleftrightarrow> float_fits e l v" for e l
    by (cases "(e, l, v)" rule: encode_float.cases)
      (auto simp: float_fits_def split: pyfloat.splits ext.splits option.splits)
  with Pa_float show ?thesis by simp
next
  case (Pa_int n)
  then show ?thesis by (cases v) (auto simp: INT32_def INT64_def)
qed (use assms in \<open>cases v; auto split: if_splits\<close>)+

text \<open>Map keys are strings or integers, which are stored apart.\<close>

lemma key_encode_inj:
  assumes "map_key_type k" and "encode_value k a = Inr x" and "encode_value k b = Inr x"
  shows "a = b"
  using assms
  by (cases k; cases a; cases b) (auto simp: map_key_type_def pa_integer_def INT32_def INT64_def split: if_splits)

lemma encode_pairs_Inr:
  assumes "\<And>a b x. fk a = Inr x \<Longrightarrow> fk b = Inr x \<Longrightarrow> a = b"
  shows "encode_pairs (encode_entry n fk fv) seen ps = Inr kjs \<longleftrightarrow>
    (\<forall>p \<in> set ps. pair_of p \<noteq> None) \<and>
    map (\<lambda>(key, item). encode_entry n fk fv key item) (List.map_filter pair_of ps) = map Inr kjs \<and>
    distinct (map fst kjs) \<and> fst ` set kjs \<inter> set seen = {}"
proof (induction ps arbitrary: seen kjs)
  case Nil
  then show ?case by (auto simp: map_filter_simps)
next
  case (Cons p ps)
  show ?case
  proof (cases "pair_of p")
    case None
    then show ?thesis by auto
  next
    case (Some kv)
    obtain key v where kv: "kv = (key, v)" by fastforce
    show ?thesis
    proof (cases "encode_entry n fk fv key v")
      case (Inl e)
      with Some kv show ?thesis by (auto simp: map_filter_simps)
    next
      case (Inr kj)
      obtain k j where kj: "kj = (k, j)" by fastforce
      note step = Some kv Inr kj
      show ?thesis
      proof (cases "k \<in> set seen")
        case True
        with step show ?thesis by (auto simp: map_filter_simps)
      next
        case False
        then have rec: "encode_pairs (encode_entry n fk fv) seen (p # ps) = Inr kjs \<longleftrightarrow>
            (\<exists>kjs'. encode_pairs (encode_entry n fk fv) (k # seen) ps = Inr kjs' \<and> kjs = (k, j) # kjs')"
          using step by (auto split: sum.splits)
        have "map (\<lambda>(key, item). encode_entry n fk fv key item) (List.map_filter pair_of (p # ps)) = map Inr kjs
          \<longleftrightarrow> (\<exists>kjs'. kjs = (k, j) # kjs' \<and>
            map (\<lambda>(key, item). encode_entry n fk fv key item) (List.map_filter pair_of ps) = map Inr kjs')"
          using step by (cases kjs) (auto simp: map_filter_simps)
        moreover have "fst ` set kjs' \<inter> set (k # seen) = {} \<longleftrightarrow>
            k \<notin> fst ` set kjs' \<and> fst ` set kjs' \<inter> set seen = {}" for kjs' :: "(json \<times> json) list"
          by auto
        moreover have "pair_of p \<noteq> None" using Some by simp
        ultimately show ?thesis
          unfolding rec Cons.IH using False by (auto simp del: map_eq_conv) force
      qed
    qed
  qed
qed

subsection \<open>Accepted exactly when it conforms\<close>

lemma encoder_error_struct:
  assumes "encoder_error loc (Pa_struct fs) = None" and "(n, b, t) \<in> set fs"
  shows "distinct (map fst fs) \<and> encoder_error (sub_field loc n) t = None"
proof -
  have d: "distinct (map fst fs)" using assms(1) by (auto simp: Let_def split: if_splits)
  have "first_error (map (\<lambda>(n, b, t). encoder_error (sub_field loc n) t) fs) = None"
    using assms(1) by (auto simp: Let_def split: if_splits)
  then have "\<forall>e \<in> set (map (\<lambda>(n, b, t). encoder_error (sub_field loc n) t) fs). e = None"
    by (auto simp: first_error_def find_None_all split: option.splits dest: find_SomeD)
  with assms(2) d show ?thesis by auto
qed

lemma entries_map_filter: "(\<forall>p \<in> set ps. pair_of p \<noteq> None) \<Longrightarrow> length (List.map_filter pair_of ps) = length ps"
  by (induction ps) (auto simp: map_filter_simps)

lemma entry_ok:
  "(\<exists>kj. encode_entry b (encode_value k) (encode_value t) key item = Inr kj) \<longleftrightarrow>
     key \<noteq> PNone \<and> (\<exists>j. encode_value k key = Inr j) \<and>
     (if item = PNone then b else (\<exists>j. encode_value t item = Inr j))"
  by (auto simp: encode_entry_Inr encode_child_Inr)

lemma stored_keys_distinct:
  assumes "map (\<lambda>(key, item). encode_entry b (encode_value k) (encode_value t) key item) kv = map Inr kjs"
    and "map_key_type k"
  shows "distinct (map fst kjs) \<longleftrightarrow> distinct (map fst kv)"
  using assms(1)
proof (induction kv arbitrary: kjs)
  case (Cons e kv)
  obtain key item where e: "e = (key, item)" by fastforce
  from Cons.prems e obtain x j kjs' where kjs: "kjs = (x, j) # kjs'" and x: "encode_value k key = Inr x"
    and rest: "map (\<lambda>(key, item). encode_entry b (encode_value k) (encode_value t) key item) kv = map Inr kjs'"
    by (auto simp: Cons_eq_map_conv encode_entry_Inr)
  have "x \<in> fst ` set kjs' \<longleftrightarrow> key \<in> fst ` set kv"
    using rest
  proof (induction kv arbitrary: kjs')
    case (Cons f kv)
    obtain key' item' where f: "f = (key', item')" by fastforce
    from Cons.prems f obtain y i kjs'' where y: "kjs' = (y, i) # kjs''" "encode_value k key' = Inr y"
      and rest: "map (\<lambda>(key, item). encode_entry b (encode_value k) (encode_value t) key item) kv = map Inr kjs''"
      by (auto simp: Cons_eq_map_conv encode_entry_Inr)
    have "x = y \<longleftrightarrow> key = key'" using x y(2) key_encode_inj [OF assms(2) x, of key'] by auto
    with Cons.IH [OF rest] f y(1) show ?case by simp
  qed auto
  with Cons.IH [OF rest] kjs e show ?case by simp
qed simp

lemma accepts_iff_conforms:
  "encoder_error loc t = None \<Longrightarrow> (\<exists>j. encode_value t v = Inr j) \<longleftrightarrow> conforms t v"
proof (induction t arbitrary: loc v rule: pa_type_induct)
  case (1 fs)
  have ih: "(\<exists>j. encode_value t w = Inr j) \<longleftrightarrow> conforms t w" if "(n, b, t) \<in> set fs" for n b t w
    using 1(1) [OF that] encoder_error_struct [OF 1(2) that] by blast
  show ?case
  proof (cases v)
    case (PDict kv)
    let ?f = "\<lambda>(n, b, t). case add_segment (Seg_field n)
        (encode_child b Null_field (encode_value t) (dict_get n kv)) of Inl e \<Rightarrow> Inl e | Inr j \<Rightarrow> Inr (n, j)"
    have f: "(\<exists>y. ?f (n, b, t) = Inr y) \<longleftrightarrow>
        (if dict_get n kv = PNone then b else conforms t (dict_get n kv))" if "(n, b, t) \<in> set fs" for n b t
      using ih [OF that] by (simp add: tag_Inr encode_child_Inr)
    have all: "(\<forall>x \<in> set fs. \<exists>y. ?f x = Inr y) \<longleftrightarrow>
        (\<forall>(n, b, t) \<in> set fs. if dict_get n kv = PNone then b else conforms t (dict_get n kv))"
    proof (rule ball_cong [OF refl])
      fix x assume "x \<in> set fs"
      then show "(\<exists>y. ?f x = Inr y) \<longleftrightarrow>
          (case x of (n, b, t) \<Rightarrow> if dict_get n kv = PNone then b else conforms t (dict_get n kv))"
        using f by (cases x rule: prod_cases3) simp
    qed
    have u: "unknown_keys (map fst fs) kv = [] \<longleftrightarrow> fst ` set kv \<subseteq> PStr ` fst ` set fs"
      by (auto simp: unknown_keys_def filter_empty_conv)
    have "(\<exists>j. encode_value (Pa_struct fs) v = Inr j) \<longleftrightarrow>
        unknown_keys (map fst fs) kv = [] \<and> (\<exists>ys. collect (map ?f fs) = Inr ys)"
      using PDict by (auto split: sum.splits)
    also have "\<dots> \<longleftrightarrow> conforms (Pa_struct fs) v"
      unfolding collect_ok all u using PDict by simp
    finally show ?thesis .
  qed auto
next
  case (2 k b t)
  have key: "map_key_type k" and errs: "encoder_error (loc @ ''[key]'') k = None" "encoder_error (loc @ ''[]'') t = None"
    using 2(3) by (auto split: if_splits option.splits)
  note ih = 2(1) [OF errs(1)] 2(2) [OF errs(2)]
  let ?e = "\<lambda>(key, item). encode_entry b (encode_value k) (encode_value t) key item"
  have ok: "(\<exists>kjs. map ?e kv = map Inr kjs) \<longleftrightarrow>
      (\<forall>(key, item) \<in> set kv. key \<noteq> PNone \<and> conforms k key \<and> (if item = PNone then b else conforms t item))" for kv
  proof -
    have "(\<exists>kjs. map ?e kv = map Inr kjs) \<longleftrightarrow> (\<forall>x \<in> set kv. \<exists>y. ?e x = Inr y)"
      using collect_ok [of ?e kv] unfolding collect_Inr .
    also have "\<dots> \<longleftrightarrow> (\<forall>(key, item) \<in> set kv. key \<noteq> PNone \<and> conforms k key \<and>
        (if item = PNone then b else conforms t item))"
    proof (rule ball_cong [OF refl])
      fix x :: "pyval \<times> pyval"
      obtain key item where x: "x = (key, item)" by fastforce
      show "(\<exists>y. ?e x = Inr y) \<longleftrightarrow> (case x of (key, item) \<Rightarrow> key \<noteq> PNone \<and> conforms k key \<and>
          (if item = PNone then b else conforms t item))"
        unfolding x prod.case entry_ok ih ..
    qed
    finally show ?thesis .
  qed
  show ?case
  proof (cases v)
    case (PDict kv)
    then have "(\<exists>j. encode_value (Pa_map k b t) v = Inr j) \<longleftrightarrow> (\<exists>kjs. map ?e kv = map Inr kjs)"
      by (auto simp: collect_Inr split: sum.splits)
    with ok [of kv] PDict show ?thesis by auto
  next
    case (PList ps)
    let ?kv = "List.map_filter pair_of ps"
    have "(\<exists>j. encode_value (Pa_map k b t) v = Inr j) \<longleftrightarrow>
        (\<exists>kjs. encode_pairs (encode_entry b (encode_value k) (encode_value t)) [] ps = Inr kjs)"
      using PList by (auto split: sum.splits)
    also have "\<dots> \<longleftrightarrow> (\<forall>p \<in> set ps. pair_of p \<noteq> None) \<and> (\<exists>kjs. map ?e ?kv = map Inr kjs \<and> distinct (map fst kjs))"
      by (subst encode_pairs_Inr [OF key_encode_inj [OF key]]) auto
    also have "\<dots> \<longleftrightarrow> (\<forall>p \<in> set ps. pair_of p \<noteq> None) \<and> distinct (map fst ?kv) \<and> (\<exists>kjs. map ?e ?kv = map Inr kjs)"
      using stored_keys_distinct [OF _ key] by blast
    finally show ?thesis using ok [of ?kv] PList by auto
  qed auto
next
  case (3 b t)
  have "encoder_error (loc @ ''[]'') t = None" using 3(2) by simp
  note ih = 3(1) [OF this]
  show ?case
  proof (cases v)
    case (PList vs)
    let ?f = "\<lambda>(i, item). add_segment (Seg_index i) (encode_child b Null_item (encode_value t) item)"
    have "(\<exists>j. encode_value (Pa_list b t) v = Inr j) \<longleftrightarrow> (\<exists>ys. collect (map ?f (enumerate 0 vs)) = Inr ys)"
      using PList by (auto split: sum.splits)
    also have "\<dots> \<longleftrightarrow> (\<forall>p \<in> set (enumerate 0 vs). if snd p = PNone then b else conforms t (snd p))"
      unfolding collect_ok by (rule ball_cong [OF refl]) (auto simp: encode_child_Inr ih split: prod.splits)
    also have "\<dots> \<longleftrightarrow> (\<forall>item \<in> set vs. if item = PNone then b else conforms t item)"
    proof -
      have "set vs = snd ` set (enumerate 0 vs)" by (metis list.set_map map_snd_enumerate)
      then show ?thesis by simp
    qed
    finally show ?thesis using PList by simp
  qed auto
qed (rule encode_scalar_conforms)

subsection \<open>Reading back\<close>

definition apply_decoder :: "(pyval \<Rightarrow> pyval option) option \<Rightarrow> pyval \<Rightarrow> pyval option" where
  "apply_decoder o1 x = (case o1 of None \<Rightarrow> Some x | Some f \<Rightarrow> unless_null f x)"

definition arrow_child :: "pa_type \<Rightarrow> pyval \<Rightarrow> pyval" where
  "arrow_child t v = (if v = PNone then PNone else arrow_value t v)"

lemma loads_none: "loads j = PNone \<longleftrightarrow> j = JNull"
  by (cases j) auto

lemma encode_not_null: "encode_value t v = Inr j \<Longrightarrow> j \<noteq> JNull"
proof (induction t arbitrary: v j rule: pa_type_induct)
  case (4 t)
  then show ?case
    by (cases t; cases v; auto simp: INT32_def INT64_def split: if_splits pyfloat.splits ext.splits option.splits)
qed (auto split: pyval.splits if_splits sum.splits)

lemma decode_child:
  assumes "encode_child b a (encode_value t) v = Inr j"
    and "\<And>j. encode_value t v = Inr j \<Longrightarrow> decode_value t j = Some (arrow_value t v)"
  shows "apply_decoder (decoder t) (loads j) = Some (arrow_child t v)"
proof (cases "v = PNone")
  case True
  with assms(1) have "j = JNull" by (simp add: encode_child_Inr)
  with True show ?thesis by (simp add: apply_decoder_def arrow_child_def unless_null_def split: option.splits)
next
  case False
  with assms(1) have j: "encode_value t v = Inr j" by (simp add: encode_child_Inr)
  with encode_not_null have "loads j \<noteq> PNone" by (simp add: loads_none)
  with assms(2) [OF j] False show ?thesis
    by (auto simp: apply_decoder_def arrow_child_def unless_null_def decode_value_def split: option.splits)
qed

lemma update_key_at:
  "PStr n \<notin> fst ` set pre \<Longrightarrow>
     update_key n f (pre @ (PStr n, x) # rest) = map_option (\<lambda>w. pre @ (PStr n, w) # rest) (unless_null f x)"
  by (induction pre) (auto simp: option.map_comp comp_def)

lemma update_keys_all:
  assumes "distinct (map fst qs)" and "\<forall>(n, o1, x, y) \<in> set qs. apply_decoder o1 x = Some y"
    and "\<forall>q \<in> set qs. PStr (fst q) \<notin> fst ` set pre"
  shows "update_keys (needing (map (\<lambda>(n, o1, x, y). (n, o1)) qs)) (pre @ map (\<lambda>(n, o1, x, y). (PStr n, x)) qs) =
    Some (pre @ map (\<lambda>(n, o1, x, y). (PStr n, y)) qs)"
  using assms
proof (induction qs arbitrary: pre)
  case (Cons q qs)
  obtain n o1 x y where q: "q = (n, o1, x, y)" by (metis prod_cases4)
  let ?rest = "map (\<lambda>(n, o1, x, y). (PStr n, x)) qs"
  have ih: "update_keys (needing (map (\<lambda>(n, o1, x, y). (n, o1)) qs)) ((pre @ [(PStr n, y)]) @ ?rest) =
      Some ((pre @ [(PStr n, y)]) @ map (\<lambda>(n, o1, x, y). (PStr n, y)) qs)"
    by (rule Cons.IH) (use Cons.prems q in \<open>auto simp: image_iff\<close>)
  have y: "apply_decoder o1 x = Some y" using Cons.prems(2) q by auto
  show ?case
  proof (cases o1)
    case None
    with y ih show ?thesis by (simp add: q needing_def map_filter_simps apply_decoder_def case_prod_unfold)
  next
    case (Some f)
    with y have "update_key n f (pre @ (PStr n, x) # ?rest) = Some (pre @ (PStr n, y) # ?rest)"
      using Cons.prems(3) q by (subst update_key_at) (auto simp: apply_decoder_def)
    with Some ih show ?thesis
      by (simp add: q needing_def map_filter_simps update_keys_def case_prod_unfold)
  qed
qed (simp add: needing_def map_filter_simps update_keys_def)

lemma needing_none:
  assumes "needing (map (\<lambda>(n, o1, x, y). (n, o1)) qs) = []"
    and "\<forall>(n, o1, x, y) \<in> set qs. apply_decoder o1 x = Some y"
  shows "map (\<lambda>(n, o1, x, y). (PStr n, x)) qs = map (\<lambda>(n, o1, x, y). (PStr n, y)) qs"
  using assms
  by (induction qs) (auto simp: needing_def map_filter_simps apply_decoder_def split: option.splits)

lemma those_map_all: "(\<forall>x \<in> set xs. f x = Some (g x)) \<Longrightarrow> those (map f xs) = Some (map g xs)"
  by (induction xs) auto

lemma dict_get_bytes_ok: "list_all (\<lambda>(k, v). bytes_ok k \<and> bytes_ok v) kv \<Longrightarrow> bytes_ok (dict_get n kv)"
  by (auto simp: dict_get_def list_all_iff split: option.splits dest: map_of_SomeD)

lemma entries_bytes_ok: "bytes_ok v \<Longrightarrow> (key, item) \<in> set (entries_of v) \<Longrightarrow> bytes_ok key \<and> bytes_ok item"
proof (cases v)
  case (PList ps)
  assume v: "bytes_ok v" "(key, item) \<in> set (entries_of v)"
  with PList obtain p where p: "p \<in> set ps" "pair_of p = Some (key, item)" by (auto simp: map_filter_def)
  then have "p = PList [key, item]" by (cases p rule: pair_of.cases) auto
  with p(1) v(1) PList show ?thesis by (auto simp: list_all_iff)
qed (auto simp: list_all_iff)

lemma encode_entries:
  assumes "encode_value (Pa_map k b t) v = Inr j" and "map_key_type k"
  shows "\<exists>kjs. j = JArr (map pair_json kjs) \<and>
    map (\<lambda>(key, item). encode_entry b (encode_value k) (encode_value t) key item) (entries_of v) = map Inr kjs"
  using assms(1) encode_pairs_Inr [OF key_encode_inj [OF assms(2)]]
  by (auto simp: collect_Inr split: pyval.splits sum.splits)

lemma load_key: "map_key_type k \<Longrightarrow> encode_value k key = Inr x \<Longrightarrow> loads x = key"
  by (cases k; cases key) (auto simp: map_key_type_def pa_integer_def INT32_def INT64_def split: if_splits)

lemma map_Inr_projr: "map f xs = map Inr ys \<Longrightarrow> ys = map (projr \<circ> f) xs \<and> (\<forall>x \<in> set xs. f x = Inr (projr (f x)))"
  by (induction xs arbitrary: ys) (auto simp: Cons_eq_map_conv)

lemma decode_scalar:
  assumes "\<not> nested_type t" and "bytes_ok v" and "encode_value t v = Inr j"
  shows "decode_value t j = Some (arrow_value t v)"
proof (cases t)
  case (Pa_float n)
  have "encode_float e l v = Inr j \<Longrightarrow> loads j = arrow_value (Pa_float n) v" for e l
    by (cases "(e, l, v)" rule: encode_float.cases) (auto split: pyfloat.splits ext.splits if_splits)
  with Pa_float assms(3) show ?thesis by (auto simp: decode_value_def split: if_splits)
next
  case (Pa_int n)
  with assms(3) show ?thesis
    by (cases v) (auto simp: decode_value_def INT32_def INT64_def split: if_splits)
qed (use assms in \<open>cases v; auto simp: decode_value_def b64_roundtrip split: if_splits\<close>)+

lemma decode_encoded:
  "encoder_error loc t = None \<Longrightarrow> bytes_ok v \<Longrightarrow> encode_value t v = Inr j \<Longrightarrow>
     decode_value t j = Some (arrow_value t v)"
proof (induction t arbitrary: loc v j rule: pa_type_induct)
  case (1 fs)
  from 1(4) obtain kv kjs where v: "v = PDict kv" and j: "j = JObj kjs"
    and c: "map (\<lambda>(n, b, t). case add_segment (Seg_field n)
        (encode_child b Null_field (encode_value t) (dict_get n kv)) of Inl e \<Rightarrow> Inl e | Inr j \<Rightarrow> Inr (n, j)) fs
      = map Inr kjs"
    by (auto simp: collect_Inr split: pyval.splits if_splits sum.splits)
  let ?j = "\<lambda>(n, b, t). projr (encode_child b Null_field (encode_value t) (dict_get n kv))"
  let ?q = "\<lambda>(n, b, t). (n, decoder t, loads (?j (n, b, t)), arrow_child t (dict_get n kv))"
  have field: "encode_child b Null_field (encode_value t) (dict_get n kv) = Inr (?j (n, b, t))"
    if "(n, b, t) \<in> set fs" for n b t
    using map_Inr_projr [OF c] that by (fastforce simp: tag_Inr)
  have kjs: "kjs = map (\<lambda>(n, b, t). (n, ?j (n, b, t))) fs"
  proof -
    have "projr (case add_segment (Seg_field n) (encode_child b Null_field (encode_value t) (dict_get n kv)) of
        Inl e \<Rightarrow> Inl e | Inr j \<Rightarrow> Inr (n, j)) = (n, ?j (n, b, t))" if "(n, b, t) \<in> set fs" for n b t
      by (subst field [OF that]) simp
    then show ?thesis using map_Inr_projr [OF c] by auto
  qed
  have dec: "apply_decoder (decoder t) (loads (?j (n, b, t))) = Some (arrow_child t (dict_get n kv))"
    if f: "(n, b, t) \<in> set fs" for n b t
  proof (rule decode_child [OF field [OF f]])
    fix i assume "encode_value t (dict_get n kv) = Inr i"
    with 1(1) [OF f] encoder_error_struct [OF 1(2) f] dict_get_bytes_ok [of kv n] 1(3) v
    show "decode_value t i = Some (arrow_value t (dict_get n kv))" by auto
  qed
  have names: "distinct (map fst (map ?q fs))"
  proof (cases fs)
    case (Cons f fs')
    then have "distinct (map fst fs)" using encoder_error_struct [OF 1(2), of "fst f" "fst (snd f)" "snd (snd f)"] by simp
    then show ?thesis by (simp add: comp_def case_prod_beta)
  qed simp
  have all: "\<forall>(n, o1, x, y) \<in> set (map ?q fs). apply_decoder o1 x = Some y" using dec by auto
  have parts: "map (\<lambda>(n, o1, x, y). (n, o1)) (map ?q fs) = map (\<lambda>(n, b, t). (n, decoder t)) fs"
    and before: "loads j = PDict (map (\<lambda>(n, o1, x, y). (PStr n, x)) (map ?q fs))"
    and after: "arrow_value (Pa_struct fs) v = PDict (map (\<lambda>(n, o1, x, y). (PStr n, y)) (map ?q fs))"
    by (auto simp: j kjs v arrow_child_def)
  show ?case
  proof (cases "needing (map (\<lambda>(n, b, t). (n, decoder t)) fs) = []")
    case True
    with needing_none [OF _ all] show ?thesis
      unfolding decode_value_def decoder.simps Let_def before after parts by simp
  next
    case False
    with update_keys_all [OF names all, of "[]"] show ?thesis
      unfolding decode_value_def decoder.simps Let_def before after parts by simp
  qed
next
  case (2 k b t)
  have key: "map_key_type k" and errs: "encoder_error (loc @ ''[]'') t = None"
    using 2(3) by (auto split: if_splits option.splits)
  let ?e = "\<lambda>(key, item). encode_entry b (encode_value k) (encode_value t) key item"
  from encode_entries [OF 2(5) key] obtain kjs where j: "j = JArr (map pair_json kjs)"
    and m: "map ?e (entries_of v) = map Inr kjs" by blast
  have kjs: "kjs = map (projr \<circ> ?e) (entries_of v)" and ok: "\<forall>x \<in> set (entries_of v). ?e x = Inr (projr (?e x))"
    using map_Inr_projr [OF m] by auto
  let ?p = "\<lambda>x. PList [fst x, loads (snd (projr (?e x)))]"
  let ?r = "\<lambda>x. PList [fst x, arrow_child t (snd x)]"
  have elem: "loads (pair_json (projr (?e x))) = ?p x \<and>
      apply_decoder (decoder t) (loads (snd (projr (?e x)))) = Some (arrow_child t (snd x))"
    if x: "x \<in> set (entries_of v)" for x
  proof -
    obtain kk item where xx: "x = (kk, item)" by fastforce
    from ok x obtain y i where e: "encode_entry b (encode_value k) (encode_value t) kk item = Inr (y, i)"
      by (metis prod.case surj_pair xx)
    then have y: "encode_value k kk = Inr y" "encode_child b Null_value (encode_value t) item = Inr i"
      by (simp_all add: encode_entry_Inr)
    have "apply_decoder (decoder t) (loads i) = Some (arrow_child t item)"
      by (rule decode_child [OF y(2)]) (use 2(2) [OF errs] entries_bytes_ok [OF 2(4)] x xx in auto)
    with e load_key [OF key y(1)] show ?thesis by (simp add: xx pair_json_def)
  qed
  have loads: "loads j = PList (map ?p (entries_of v))"
    using elem by (simp add: j kjs)
  have after: "arrow_value (Pa_map k b t) v = PList (map ?r (entries_of v))"
    by (simp add: arrow_child_def case_prod_beta)
  show ?case
  proof (cases "decoder t")
    case None
    then have "map ?p (entries_of v) = map ?r (entries_of v)" using elem by (auto simp: apply_decoder_def)
    with None show ?thesis unfolding decode_value_def loads after by simp
  next
    case (Some f)
    then have "\<forall>x \<in> set (entries_of v). decode_pair f (?p x) = Some (?r x)"
      using elem by (auto simp: apply_decoder_def)
    then have "those (map (decode_pair f \<circ> ?p) (entries_of v)) = Some (map ?r (entries_of v))"
      by (intro those_map_all) auto
    with Some show ?thesis unfolding decode_value_def loads after by simp
  qed
next
  case (3 b t)
  have errs: "encoder_error (loc @ ''[]'') t = None" using 3(2) by simp
  from 3(4) obtain vs js where v: "v = PList vs" and j: "j = JArr js"
    and c: "map (\<lambda>(i, item). add_segment (Seg_index i) (encode_child b Null_item (encode_value t) item)) (enumerate 0 vs)
      = map Inr js"
    by (auto simp: collect_Inr split: pyval.splits sum.splits)
  let ?f = "\<lambda>(i, item). add_segment (Seg_index i) (encode_child b Null_item (encode_value t) item)"
  have js: "js = map (projr \<circ> ?f) (enumerate 0 vs)" and ok: "\<forall>x \<in> set (enumerate 0 vs). ?f x = Inr (projr (?f x))"
    using map_Inr_projr [OF c] by auto
  have elem: "apply_decoder (decoder t) (loads (projr (?f x))) = Some (arrow_child t (snd x))"
    if x: "x \<in> set (enumerate 0 vs)" for x
  proof -
    obtain i item where xx: "x = (i, item)" by fastforce
    then have item: "item \<in> set vs" using x set_zip_rightD [of i item "[0..<length vs]" vs] by (simp add: enumerate_eq_zip)
    from ok x obtain w where w: "?f x = Inr w" by blast
    then have child: "encode_child b Null_item (encode_value t) item = Inr w" by (simp add: xx)
    have "apply_decoder (decoder t) (loads w) = Some (arrow_child t item)"
      by (rule decode_child [OF child]) (use 3(1) [OF errs] 3(3) item v in \<open>auto simp: list_all_iff\<close>)
    then show ?thesis unfolding w by (simp add: xx)
  qed
  have after: "arrow_value (Pa_list b t) v = PList (map (\<lambda>x. arrow_child t (snd x)) (enumerate 0 vs))"
  proof -
    have "map (\<lambda>x. arrow_child t (snd x)) (enumerate 0 vs) = map (arrow_child t) (map snd (enumerate 0 vs))"
      by (simp only: list.map_comp comp_def)
    then show ?thesis by (simp add: v arrow_child_def)
  qed
  have loads: "loads j = PList (map (\<lambda>x. loads (projr (?f x))) (enumerate 0 vs))" by (simp add: j js)
  show ?case
  proof (cases "decoder t")
    case None
    then have "\<forall>x \<in> set (enumerate 0 vs). loads (projr (?f x)) = arrow_child t (snd x)"
      using elem by (auto simp: apply_decoder_def)
    then show ?thesis unfolding decode_value_def loads after using None by simp
  next
    case (Some f)
    then have "those (map (\<lambda>x. unless_null f (loads (projr (?f x)))) (enumerate 0 vs)) =
        Some (map (\<lambda>x. arrow_child t (snd x)) (enumerate 0 vs))"
      using elem by (intro those_map_all) (auto simp: apply_decoder_def)
    with Some show ?thesis unfolding decode_value_def loads after by (simp add: comp_def)
  qed
next
  case (4 t)
  then show ?case by (intro decode_scalar)
qed

subsection \<open>Measured the same\<close>

lemma arrow_not_none: "encode_value t v = Inr j \<Longrightarrow> arrow_value t v \<noteq> PNone"
  by (cases t; cases v) (auto split: if_splits)

lemma size_child:
  assumes "encode_child b a (encode_value t) v = Inr j"
    and "\<And>j. encode_value t v = Inr j \<Longrightarrow> size_bits t (arrow_value t v) = size_bits t v"
  shows "unless_none (size_bits t) (arrow_child t v) = unless_none (size_bits t) v"
  using assms by (auto simp: encode_child_Inr unless_none_def arrow_child_def dest: arrow_not_none split: if_splits)

lemma dict_get_map:
  assumes "distinct (map fst fs)" and "(n, b, t) \<in> set fs"
  shows "dict_get n (map (\<lambda>(n, b, t). (PStr n, f n b t)) fs) = f n b t"
proof -
  have "map_of (map (\<lambda>(n, b, t). (PStr n, f n b t)) fs) (PStr n) = Some (f n b t)"
    using assms by (intro map_of_is_SomeI) (force simp: distinct_map inj_on_def comp_def case_prod_beta)+
  then show ?thesis by (simp add: dict_get_def)
qed

lemma map_filter_pairs: "List.map_filter pair_of (map (\<lambda>(k, x). PList [k, f k x]) es) = map (\<lambda>(k, x). (k, f k x)) es"
  by (induction es) (auto simp: map_filter_simps)

lemma size_arrow:
  "encoder_error loc t = None \<Longrightarrow> encode_value t v = Inr j \<Longrightarrow> size_bits t (arrow_value t v) = size_bits t v"
proof (induction t arbitrary: loc v j rule: pa_type_induct)
  case (1 fs)
  from 1(3) obtain kv kjs where v: "v = PDict kv"
    and c: "map (\<lambda>(n, b, t). case add_segment (Seg_field n)
        (encode_child b Null_field (encode_value t) (dict_get n kv)) of Inl e \<Rightarrow> Inl e | Inr j \<Rightarrow> Inr (n, j)) fs
      = map Inr kjs"
    by (auto simp: collect_Inr split: pyval.splits if_splits sum.splits)
  let ?a = "map (\<lambda>(n, b, t). (PStr n, arrow_child t (dict_get n kv))) fs"
  have a: "arrow_value (Pa_struct fs) v = PDict ?a" by (simp add: v arrow_child_def case_prod_unfold)
  have per: "unless_none (size_bits t) (dict_get n ?a) = unless_none (size_bits t) (dict_get n kv)"
    if f: "(n, b, t) \<in> set fs" for n b t
  proof -
    from encoder_error_struct [OF 1(2) f] have d: "distinct (map fst fs)"
      and e: "encoder_error (sub_field loc n) t = None" by auto
    from c f obtain i where "encode_child b Null_field (encode_value t) (dict_get n kv) = Inr i"
      using map_Inr_projr [OF c] by (fastforce simp: tag_Inr)
    then have "unless_none (size_bits t) (arrow_child t (dict_get n kv)) = unless_none (size_bits t) (dict_get n kv)"
      by (rule size_child) (rule 1(1) [OF f e])
    with dict_get_map [OF d f, of "\<lambda>n b t. arrow_child t (dict_get n kv)"] show ?thesis by simp
  qed
  then have "map (\<lambda>(n, b, t). unless_none (size_bits t) (dict_get n ?a)) fs =
      map (\<lambda>(n, b, t). unless_none (size_bits t) (dict_get n kv)) fs"
    by (intro map_cong [OF refl]) (use per in \<open>auto split: prod.splits\<close>)
  then show ?case unfolding v size_bits.simps a [unfolded v] dict_of.simps by (rule arg_cong [where f = sum_list])
next
  case (2 k b t)
  have key: "map_key_type k" and e: "encoder_error (loc @ ''[]'') t = None"
    using 2(3) by (auto split: if_splits option.splits)
  let ?e = "\<lambda>(key, item). encode_entry b (encode_value k) (encode_value t) key item"
  from encode_entries [OF 2(4) key] obtain kjs where m: "map ?e (entries_of v) = map Inr kjs" by blast
  have s: "unless_none (size_bits t) (arrow_child t item) = unless_none (size_bits t) item"
    if x: "(kk, item) \<in> set (entries_of v)" for kk item
  proof -
    from map_Inr_projr [OF m] x obtain y where "encode_entry b (encode_value k) (encode_value t) kk item = Inr y"
      by fastforce
    then obtain w i where "encode_entry b (encode_value k) (encode_value t) kk item = Inr (w, i)" by (cases y) auto
    then have "encode_child b Null_value (encode_value t) item = Inr i" by (simp add: encode_entry_Inr)
    then show ?thesis by (rule size_child) (rule 2(2) [OF e])
  qed
  have "entries_of (arrow_value (Pa_map k b t) v) = map (\<lambda>(kk, item). (kk, arrow_child t item)) (entries_of v)"
    by (simp add: map_filter_pairs arrow_child_def)
  then have "size_bits (Pa_map k b t) (arrow_value (Pa_map k b t) v) =
      sum_list (map (\<lambda>(kk, item). the (slot_bits k) + the (slot_bits t) + 1 + size_bits k kk
        + unless_none (size_bits t) (arrow_child t item)) (entries_of v))"
    by (simp add: comp_def case_prod_unfold)
  also have "\<dots> = size_bits (Pa_map k b t) v"
    unfolding size_bits.simps by (intro arg_cong [where f = sum_list] map_cong [OF refl]) (auto simp: s)
  finally show ?case .
next
  case (3 b t)
  have e: "encoder_error (loc @ ''[]'') t = None" using 3(2) by simp
  from 3(3) obtain vs js where v: "v = PList vs"
    and c: "map (\<lambda>(i, item). add_segment (Seg_index i) (encode_child b Null_item (encode_value t) item)) (enumerate 0 vs)
      = map Inr js"
    by (auto simp: collect_Inr split: pyval.splits sum.splits)
  have s: "unless_none (size_bits t) (arrow_child t item) = unless_none (size_bits t) item"
    if item: "item \<in> set vs" for item
  proof -
    from item have "item \<in> snd ` set (enumerate 0 vs)" by (metis list.set_map map_snd_enumerate)
    then obtain i where "(i, item) \<in> set (enumerate 0 vs)" by auto
    then obtain w where "encode_child b Null_item (encode_value t) item = Inr w"
      using map_Inr_projr [OF c] by fastforce
    then show ?thesis by (rule size_child) (rule 3(1) [OF e])
  qed
  have sums: "map (unless_none (size_bits t)) (map (arrow_child t) vs) = map (unless_none (size_bits t)) vs"
    unfolding list.map_comp by (rule map_cong [OF refl]) (simp add: s)
  have "items_of (arrow_value (Pa_list b t) v) = map (arrow_child t) vs" by (simp add: v arrow_child_def)
  then show ?case unfolding size_bits.simps by (simp only: sums length_map) (simp add: v)
next
  case (4 t)
  then show ?case by (cases t; cases v) auto
qed

subsection \<open>What a nested column promises\<close>

lemma nested_encoder:
  "column_type t = Inr k \<Longrightarrow> ct_nested k \<Longrightarrow> encoder_error [] t = None"
  by (cases t) (auto simp: column_type_def column_kind_of_def split: option.splits if_splits)

text \<open>C22. A nested column stores exactly the values that conform to its declared type: nothing of a wrong
  type, out of range, inexact, of an undeclared field, null where it may not be or keyed twice is
  accepted, and no conforming value is refused.\<close>

theorem nested_accepts_exactly:
  assumes "column_type t = Inr k" and "ct_nested k"
  shows "(\<exists>j. encode_value t v = Inr j) \<longleftrightarrow> conforms t v"
  by (rule accepts_iff_conforms [OF nested_encoder [OF assms]])

text \<open>C23. What a nested column stored reads back as the value Arrow builds the column from, bytes and
  map order included, and the recount on open measures it exactly as the append did.\<close>

theorem nested_roundtrip:
  assumes "column_type t = Inr k" and "ct_nested k" and "bytes_ok v" and "encode_value t v = Inr j"
  shows "decode_value t j = Some (arrow_value t v) \<and> variable_bits t (arrow_value t v) = variable_bits t v"
  using decode_encoded [OF nested_encoder [OF assms(1,2)] assms(3,4)]
    size_arrow [OF nested_encoder [OF assms(1,2)] assms(4)]
  by (simp add: variable_bits_def)

text \<open>A struct of an optional int32 and a map of bytes.\<close>

definition sample_type :: pa_type where
  "sample_type = Pa_struct [(''a'', True, Pa_int 32), (''m'', False, Pa_map Pa_string False Pa_binary)]"

definition sample_value :: pyval where
  "sample_value = PDict [(PStr ''m'', PDict [(PStr ''x'', PBytes [1, 2, 3, 4])])]"

lemma sample_column: "\<exists>k. column_type sample_type = Inr k \<and> ct_nested k"
  by (simp add: column_type_def sample_type_def first_error_def sub_field_def map_key_type_def Let_def)

lemma sample_encoded: "encode_value sample_type sample_value =
    Inr (JObj [(''a'', JNull), (''m'', JArr [JArr [JStr ''x'', JStr ''AQIDBA=='']])])"
  by (simp add: sample_type_def sample_value_def unknown_keys_def encode_child_def dict_get_def
      encode_entry_def pair_json_def b64_char_def char_of_def bit_0)

lemma nested_accepts_exactly_witness:
  "conforms sample_type sample_value \<and> \<not> conforms sample_type (PDict [(PStr ''b'', PInt 1)])"
proof -
  obtain k where k: "column_type sample_type = Inr k" "ct_nested k" using sample_column by blast
  from nested_accepts_exactly [OF k, of sample_value] sample_encoded
    nested_accepts_exactly [OF k, of "PDict [(PStr ''b'', PInt 1)]"]
  show ?thesis by (simp add: sample_type_def unknown_keys_def refuse_def)
qed

lemma nested_roundtrip_witness:
  "decode_value sample_type (JObj [(''a'', JNull), (''m'', JArr [JArr [JStr ''x'', JStr ''AQIDBA=='']])]) =
     Some (PDict [(PStr ''a'', PNone), (PStr ''m'', PList [PList [PStr ''x'', PBytes [1, 2, 3, 4]]])])"
proof -
  obtain k where k: "column_type sample_type = Inr k" "ct_nested k" using sample_column by blast
  have "bytes_ok sample_value" by (simp add: sample_value_def is_bytes_def)
  from nested_roundtrip [OF k this sample_encoded] show ?thesis
    by (simp add: sample_type_def sample_value_def dict_get_def)
qed

end
