(* ===== verification/Row_Check.thy ===== *)
theory Row_Check
  imports Nested_Roundtrip Seal_Queue "HOL-Library.List_Lexorder" "HOL-Library.Char_ord"
begin

text \<open>
  What a row must be for the buffer to take it (\<^verbatim>\<open>src/litelink/_buffer.py\<close>: \<open>Shape\<close>, \<open>column_ddl\<close>,
  the rows \<open>_insert\<close> prepares, \<open>_encode_nested\<close>, \<open>_measurer\<close>, \<open>_explain\<close> and the refusals,
  \<open>RowProbe\<close>). A row is a dict of named Python values. SQLite is modelled by what it is used for:
  binding a value, \<open>typeof\<close>, \<open>NOT NULL\<close> and the \<open>CHECK\<close> of each column; a NaN binds as NULL. The JSON text
  of a nested value is the JSON it prints.
\<close>

subsection \<open>Rows, cells and what SQLite stores\<close>

type_synonym row = "(string \<times> pyval) list"

datatype cell = Plain pyval | Json_text json

datatype sql = SNull | SInt int | SReal ext | SText string | SJson json | SBlob "nat list"

datatype row_error =
    Offset_supplied
  | Unknown_columns "string list"
  | Nested_refused string nested_error
  | Not_bindable
  | Non_finite string
  | Missing_columns "string list" "string list"
  | Wrong_types "string list"
  | Inexact_integer string
  | Outside_range string
  | Constraint_failed
  | Not_measured string

definition OFFSET :: string where
  "OFFSET = ''litelink_offset''"

definition row_get :: "string \<Rightarrow> row \<Rightarrow> pyval" where
  "row_get c r = (case map_of r c of None \<Rightarrow> PNone | Some v \<Rightarrow> v)"

text \<open>What the driver makes of a value; None where it raises before any SQL runs.\<close>

fun bind_value :: "cell \<Rightarrow> sql option" where
  "bind_value (Json_text j) = Some (SJson j)"
| "bind_value (Plain PNone) = Some SNull"
| "bind_value (Plain (PBool b)) = Some (SInt (if b then 1 else 0))"
| "bind_value (Plain (PInt i)) = (if fst INT64 \<le> i \<and> i \<le> snd INT64 then Some (SInt i) else None)"
| "bind_value (Plain (PFloat NaN)) = Some SNull"
| "bind_value (Plain (PFloat (FVal x))) = Some (SReal x)"
| "bind_value (Plain (PStr s)) = Some (SText s)"
| "bind_value (Plain (PBytes b)) = Some (SBlob b)"
| "bind_value (Plain v) = None"

subsection \<open>The constraints of a column\<close>

definition kind_of :: "pa_type \<Rightarrow> column_kind" where
  "kind_of t = projr (column_type t)"

definition real_in :: "(rat \<times> rat) option \<Rightarrow> ext \<Rightarrow> bool" where
  "real_in bounds x = (case x of Fin r \<Rightarrow> (case bounds of None \<Rightarrow> True | Some (lo, hi) \<Rightarrow> \<bar>r\<bar> \<le> hi) | _ \<Rightarrow> False)"

text \<open>The test of \<open>column_ddl\<close>, of a value that is not NULL.\<close>

definition column_test :: "pa_type \<Rightarrow> sql \<Rightarrow> bool" where
  "column_test t v =
     (let k = kind_of t in
      if t = Pa_bool then (case v of SInt i \<Rightarrow> i = 0 \<or> i = 1 | _ \<Rightarrow> False)
      else if pa_floating t then
        (case v of
           SInt i \<Rightarrow> (case ct_exact_int k of None \<Rightarrow> False | Some e \<Rightarrow> - e \<le> i \<and> i \<le> e)
         | SReal x \<Rightarrow> real_in (ct_bounds k) x
         | _ \<Rightarrow> False)
      else if ct_sqlite k = BLOB_column then
        (case v of SBlob b \<Rightarrow> (case ct_width k of None \<Rightarrow> True | Some w \<Rightarrow> length b = w) | _ \<Rightarrow> False)
      else if ct_sqlite k = INTEGER_column then
        (case v of SInt i \<Rightarrow> (case ct_bounds k of None \<Rightarrow> True | Some (lo, hi) \<Rightarrow> lo \<le> of_int i \<and> of_int i \<le> hi)
                 | _ \<Rightarrow> False)
      else (case v of SText s \<Rightarrow> True | SJson j \<Rightarrow> True | _ \<Rightarrow> False))"

text \<open>\<open>NOT NULL\<close> unless nullable, and \<open>CHECK (q IS NULL OR (test))\<close>.\<close>

definition column_allows :: "pa_field \<Rightarrow> sql \<Rightarrow> bool" where
  "column_allows f v = (case f of (n, nullable, t) \<Rightarrow> (v = SNull \<longrightarrow> nullable) \<and> (v = SNull \<or> column_test t v))"

subsection \<open>Preparing a row\<close>

text \<open>The unknown-column test, skipped when the row proves it cannot have one.\<close>

definition names_unknown :: "pa_schema \<Rightarrow> row \<Rightarrow> pyval list \<Rightarrow> bool" where
  "names_unknown fs r values \<longleftrightarrow>
     (length r \<noteq> length fs \<or> PNone \<in> set values) \<and>
     \<not> (set (map fst r) \<subseteq> insert OFFSET (set (map fst fs)))"

definition unknown_names :: "pa_schema \<Rightarrow> row \<Rightarrow> string list" where
  "unknown_names fs r = sort (filter (\<lambda>c. c \<notin> insert OFFSET (set (map fst fs))) (map fst r))"

text \<open>\<open>_encode_nested\<close>: the cells, and the variable bits of the nested values.\<close>

fun encode_nested :: "pa_schema \<Rightarrow> pyval list \<Rightarrow> row_error + cell list \<times> nat" where
  "encode_nested ((n, b, t) # fs) (v # vs) =
     (if ct_nested (kind_of t) \<and> v \<noteq> PNone then
        (case encode_value t v of
           Inl e \<Rightarrow> Inl (Nested_refused n e)
         | Inr j \<Rightarrow> (case encode_nested fs vs of
             Inl e \<Rightarrow> Inl e | Inr (cs, bits) \<Rightarrow> Inr (Json_text j # cs, variable_bits t v + bits)))
      else (case encode_nested fs vs of Inl e \<Rightarrow> Inl e | Inr (cs, bits) \<Rightarrow> Inr (Plain v # cs, bits)))"
| "encode_nested _ _ = Inr ([], 0)"

definition bytes_of_bits :: "nat \<Rightarrow> nat" where
  "bytes_of_bits n = (n + 7) div 8"

subsection \<open>Explaining a refusal\<close>

fun accepts_value :: "pa_type \<Rightarrow> cell \<Rightarrow> bool" where
  "accepts_value t (Json_text j) = True"
| "accepts_value t (Plain v) =
     (case t of
        Pa_bool \<Rightarrow> (case v of PBool b \<Rightarrow> True | _ \<Rightarrow> False)
      | Pa_int n \<Rightarrow> (case v of PInt i \<Rightarrow> True | _ \<Rightarrow> False)
      | Pa_float n \<Rightarrow> (case v of PInt i \<Rightarrow> True | PFloat f \<Rightarrow> True | _ \<Rightarrow> False)
      | Pa_binary \<Rightarrow> (case v of PBytes b \<Rightarrow> True | _ \<Rightarrow> False)
      | Pa_fixed_binary w \<Rightarrow> (case v of PBytes b \<Rightarrow> length b = w | _ \<Rightarrow> False)
      | _ \<Rightarrow> (case v of PStr s \<Rightarrow> True | _ \<Rightarrow> False))"

definition non_finite_cell :: "cell \<Rightarrow> bool" where
  "non_finite_cell c = (case c of Plain (PFloat f) \<Rightarrow> \<not> isfinite f | _ \<Rightarrow> False)"

definition inexact_cell :: "pa_type \<Rightarrow> cell \<Rightarrow> bool" where
  "inexact_cell t c = (case (ct_exact_int (kind_of t), c) of
     (Some e, Plain (PInt i)) \<Rightarrow> \<not> (- e \<le> i \<and> i \<le> e) | _ \<Rightarrow> False)"

definition outside_cell :: "pa_type \<Rightarrow> cell \<Rightarrow> bool" where
  "outside_cell t c = (case (ct_bounds (kind_of t), c) of
     (Some (lo, hi), Plain v) \<Rightarrow> (case num_of v of Some x \<Rightarrow> \<not> (Fin lo \<le> x \<and> x \<le> Fin hi) | None \<Rightarrow> False)
   | _ \<Rightarrow> False)"

definition names_where :: "(pa_field \<times> cell \<Rightarrow> bool) \<Rightarrow> (pa_field \<times> cell) list \<Rightarrow> string list" where
  "names_where P fcs = map (fst \<circ> fst) (filter P fcs)"

definition explain :: "row \<Rightarrow> (pa_field \<times> cell) list \<Rightarrow> row_error" where
  "explain r fcs =
     (case names_where (\<lambda>(f, c). non_finite_cell c) fcs of
        n # _ \<Rightarrow> Non_finite n
      | [] \<Rightarrow>
          let offending = sort (names_where (\<lambda>((n, b, t), c). \<not> b \<and> c = Plain PNone) fcs) in
          if offending \<noteq> [] then Missing_columns (filter (\<lambda>c. c \<notin> fst ` set r) offending)
                                   (filter (\<lambda>c. c \<in> fst ` set r) offending)
          else (case names_where (\<lambda>((n, b, t), c). c \<noteq> Plain PNone \<and> \<not> accepts_value t c) fcs of
              _ # _ \<Rightarrow> Wrong_types (names_where (\<lambda>((n, b, t), c). c \<noteq> Plain PNone \<and> \<not> accepts_value t c) fcs)
            | [] \<Rightarrow> (case names_where (\<lambda>((n, b, t), c). inexact_cell t c) fcs of
                n # _ \<Rightarrow> Inexact_integer n
              | [] \<Rightarrow> (case names_where (\<lambda>((n, b, t), c). outside_cell t c) fcs of
                  n # _ \<Rightarrow> Outside_range n
                | [] \<Rightarrow> Constraint_failed))))"

subsection \<open>Measuring\<close>

definition fixed_bytes :: "pa_schema \<Rightarrow> nat" where
  "fixed_bytes fs = bytes_of_bits (64 + sum_list (map (\<lambda>(n, b, t). the (slot_bits t)) fs))"

definition text_column :: "pa_type \<Rightarrow> bool" where
  "text_column t \<longleftrightarrow> t = Pa_string \<or> t = Pa_large_string"

text \<open>The length of a value the source takes \<open>len\<close> or \<open>encode\<close> of; None where it has none and Python
  raises.\<close>

fun cell_length :: "cell \<Rightarrow> nat option" where
  "cell_length (Plain PNone) = Some 0"
| "cell_length (Plain (PStr s)) = Some (length s)"
| "cell_length (Plain (PBytes b)) = Some (length b)"
| "cell_length c = None"

definition measure_row :: "pa_schema \<Rightarrow> cell list \<Rightarrow> row_error + nat" where
  "measure_row fs cs =
     (let fcs = zip fs cs;
          texts = filter (\<lambda>((n, b, t), c). text_column t) fcs;
          blobs = filter (\<lambda>((n, b, t), c). t = Pa_binary) fcs;
          lengths = map (\<lambda>((n, b, t), c). cell_length c) (texts @ blobs)
      in case those lengths of
           None \<Rightarrow> Inl (Not_measured (hd (names_where (\<lambda>(f, c). cell_length c = None) (texts @ blobs))))
         | Some ls \<Rightarrow>
             (case names_where (\<lambda>((n, b, t), c). pa_floating t \<and> c = Plain (PFloat NaN)) fcs of
                n # _ \<Rightarrow> Inl (Non_finite n)
              | [] \<Rightarrow> Inr (fixed_bytes fs + sum_list ls)))"

subsection \<open>The append's answer and the probe's\<close>

text \<open>A stored row and what it counts in its group.\<close>

type_synonym stored_row = "sql list \<times> nat"

text \<open>One row of an append, as the loop of \<open>_insert\<close> takes it: what is raised while it is prepared or
  bound is early, what is raised at the insert or after it is late.\<close>

definition prepare_row :: "pa_schema \<Rightarrow> row \<Rightarrow> row_error + cell list \<times> nat" where
  "prepare_row fs r =
     (let values = map (\<lambda>(c, b, t). row_get c r) fs in
      if OFFSET \<in> set (map fst r) then Inl Offset_supplied
      else if names_unknown fs r values then Inl (Unknown_columns (unknown_names fs r))
      else encode_nested fs values)"

definition insert_cells :: "pa_schema \<Rightarrow> row \<Rightarrow> cell list \<Rightarrow> (bool \<times> row_error) + sql list" where
  "insert_cells fs r cs =
     (case those (map bind_value cs) of
        None \<Rightarrow> Inl (False, Not_bindable)
      | Some vs \<Rightarrow> if list_all2 column_allows fs vs then Inr vs else Inl (True, explain r (zip fs cs)))"

definition admit :: "pa_schema \<Rightarrow> row \<Rightarrow> (bool \<times> row_error) + stored_row" where
  "admit fs r =
     (case prepare_row fs r of
        Inl e \<Rightarrow> Inl (False, e)
      | Inr (cs, extra) \<Rightarrow>
          (case insert_cells fs r cs of
             Inl e \<Rightarrow> Inl e
           | Inr vs \<Rightarrow> (case measure_row fs cs of
               Inl e \<Rightarrow> Inl (True, e)
             | Inr n \<Rightarrow> Inr (vs, n + bytes_of_bits extra))))"

text \<open>\<open>RowProbe.check\<close>: the checks in its own order, against its own table; None where it returns.\<close>

definition probe_check :: "pa_schema \<Rightarrow> row \<Rightarrow> row_error option" where
  "probe_check fs r =
     (if OFFSET \<in> set (map fst r) then Some Offset_supplied
      else let values = map (\<lambda>(c, b, t). row_get c r) fs in
      if (length r \<noteq> length fs \<or> PNone \<in> set values) \<and>
         \<not> (set (map fst r) \<subseteq> insert OFFSET (set (map fst fs)))
      then Some (Unknown_columns (unknown_names fs r))
      else (case (if list_ex (\<lambda>(n, b, t). ct_nested (kind_of t)) fs then encode_nested fs values
                  else Inr (map Plain values, 0)) of
          Inl e \<Rightarrow> Some e
        | Inr (cs, _) \<Rightarrow>
            (case those (map bind_value cs) of
               None \<Rightarrow> Some Not_bindable
             | Some vs \<Rightarrow>
                 if \<not> list_all2 column_allows fs vs then Some (explain r (zip fs cs))
                 else (case measure_row fs cs of Inl e \<Rightarrow> Some e | Inr n \<Rightarrow> None))))"

text \<open>A batch of rows as the buffer takes it.\<close>

definition extend_log ::
  "seal_limits \<Rightarrow> pa_schema \<Rightarrow> row list \<Rightarrow> stored_row db \<Rightarrow> (row_error append_error + offset list) \<times> stored_row db" where
  "extend_log c fs rows d = append_rows c (int \<circ> snd) (map (admit fs) rows) d"

end
