(* ===== verification/Row_Contract.thy ===== *)
theory Row_Contract
  imports Row_Check Seal_Contract
begin

text \<open>
  What the row checks promise: exactly which rows an append takes, column by column; and that
  \<open>RowProbe.check\<close> gives the answer an append of the row would give.
\<close>

subsection \<open>What a column takes\<close>

text \<open>None where nullable, a value of the declared type, a bool for a number, 0 or 1 for a bool.\<close>

definition column_takes :: "bool \<Rightarrow> pa_type \<Rightarrow> pyval \<Rightarrow> bool" where
  "column_takes nullable t v \<longleftrightarrow>
     (v = PNone \<and> nullable) \<or> conforms t v \<or>
     ((\<exists>b. v = PBool b) \<and> (pa_integer t \<or> pa_floating t)) \<or>
     (t = Pa_bool \<and> (v = PInt 0 \<or> v = PInt 1))"






lemma kind_of_fields [simp]:
  "ct_sqlite (column_kind_of a q cs b e v) = a" "ct_bounds (column_kind_of a q cs b e v) = b"
  "ct_exact_int (column_kind_of a q cs b e v) = e" "ct_width (column_kind_of a q cs b e v) = None"
  "ct_nested (column_kind_of a q cs b e v) = False"
  by (simp_all add: column_kind_of_def)


lemma bind_float [simp]:
  "bind_value (Plain (PFloat f)) = Some (case f of NaN \<Rightarrow> SNull | FVal x \<Rightarrow> SReal x)"
  by (cases f) simp_all


subsection \<open>Every check of a row, column by column\<close>















subsection \<open>Unknown names\<close>



subsection \<open>The rows an append takes\<close>








subsection \<open>The probe\<close>

lemma no_nested_encoding:
  "\<not> list_ex (\<lambda>(n, b, t). ct_nested (kind_of t)) fs \<Longrightarrow> length vs = length fs \<Longrightarrow>
     encode_nested fs vs = Inr (map Plain vs, 0)"
  by (induction fs vs rule: encode_nested.induct) (auto split: sum.splits)

lemma probe_is_admit:
  "probe_check fs r = (case admit fs r of Inl (late, e) \<Rightarrow> Some e | Inr s \<Rightarrow> None)"
proof -
  let ?vs = "map (\<lambda>(c, b, t). row_get c r) fs"
  have enc: "(if list_ex (\<lambda>(n, b, t). ct_nested (kind_of t)) fs then encode_nested fs ?vs
      else Inr (map Plain ?vs, 0)) = encode_nested fs ?vs"
    using no_nested_encoding [of fs ?vs] by simp
  show ?thesis
    unfolding probe_check_def admit_def prepare_row_def insert_cells_def Let_def enc names_unknown_def
    by (simp split: option.split sum.split prod.split)
qed

text \<open>C21. \<open>RowProbe.check\<close> answers as an append would: on a log that is not retired it raises for a row
  exactly what an append of that row alone raises, and returns exactly when that append hands out an
  offset.\<close>

theorem probe_answers_as_append:
  assumes "db_tier_offsets d ''buffer'' = None" and "read_group d \<noteq> None"
  shows "fst (extend_log c fs [r] d) =
    (case probe_check fs r of Some e \<Rightarrow> Inl (Row_refused e) | None \<Rightarrow> Inr [floor_of d + 1])"
proof -
  obtain g where g: "read_group d = Some g" using assms(2) by blast
  show ?thesis
  proof (cases "admit fs r")
    case (Inl x)
    then show ?thesis
      by (cases x) (simp add: extend_log_def append_rows_def g assms(1) probe_is_admit)
  next
    case (Inr s)
    obtain d1 where "insert_row s d = (floor_of d + 1, d1)" by (simp add: insert_row_def Let_def)
    with Inr show ?thesis
      by (simp add: extend_log_def append_rows_def g assms(1) probe_is_admit Let_def split: prod.split)
  qed
qed

subsection \<open>A concrete log\<close>

definition sample_fields :: pa_schema where
  "sample_fields = [(''key'', False, Pa_string), (''n'', True, Pa_int 64)]"

definition sample_row :: row where
  "sample_row = [(''key'', PStr ''a''), (''n'', PInt 3)]"

definition sample_store :: "stored_row db" where
  "sample_store = empty_db\<lparr>db_extents := [fresh_extent 1], db_extent_seq := 1\<rparr>"

lemmas row_defs = sample_fields_def sample_row_def validate_schema_def column_type_def column_kind_of_def
  first_error_def row_get_def column_takes_def OFFSET_def pa_integer_def pa_floating_def


lemma probe_answers_as_append_witness:
  "fst (extend_log sample_limits sample_fields [sample_row] sample_store) =
    (case probe_check sample_fields sample_row of Some e \<Rightarrow> Inl (Row_refused e) | None \<Rightarrow> Inr [1])"
proof -
  have "db_tier_offsets sample_store ''buffer'' = None" and "read_group sample_store \<noteq> None"
    and floor: "floor_of sample_store = 0"
    by (simp_all add: sample_store_def empty_db_def fresh_extent_def read_group_def open_extent_def
        floor_of_def seq_of_def highest_row_def list_max_def)
  from probe_answers_as_append [OF this(1,2), of sample_limits sample_fields sample_row] show ?thesis
    by (simp add: floor split: option.split)
qed

text \<open>A NaN in a nullable integer column is not refused: the driver binds it as NULL, which the CHECK
  passes, and the measurer looks for one in the float columns only.\<close>

lemma nan_stored_as_null:
  "admit [(''n'', True, Pa_int 64)] [(''n'', PFloat NaN)] = Inr ([SNull], fixed_bytes [(''n'', True, Pa_int 64)])"
  by (simp add: admit_def prepare_row_def Let_def row_defs names_unknown_def kind_of_def insert_cells_def
      column_allows_def measure_row_def names_where_def text_column_def bytes_of_bits_def)

end
