(* ===== verification/Eviction.thy ===== *)
theory Eviction
  imports Compaction Tiers
begin

text \<open>
  Dropping what the published table already holds, cutting history off, and deleting superseded files
  (\<^verbatim>\<open>src/litelink/_maintenance.py\<close>: \<open>_key\<close>, \<open>_written\<close>, \<open>_retention_boundary\<close>, \<open>evict_buffer\<close>, \<open>evict\<close>,
  \<open>truncate\<close>, \<open>drain\<close>). A pass that writes in several transactions is the list of its steps, so that the
  states a crash can leave behind are its prefixes. Times are microseconds, and what a pass reads of the
  clock, the manifests and the disk is an argument. A table names no file outside its log's root.
\<close>

subsection \<open>Names and ages\<close>

definition file_key :: "layout \<Rightarrow> path \<Rightarrow> path option" where
  "file_key l p = (if remote p then Some p else relative l p)"

definition keyed :: "layout \<Rightarrow> path \<Rightarrow> path" where
  "keyed l p = the (file_key l p)"

text \<open>The log's own record of when a file was named, then the snapshot that added it, then now.\<close>

definition file_written :: "layout \<Rightarrow> (path \<times> int) list \<Rightarrow> (path \<rightharpoonup> int) \<Rightarrow> int \<Rightarrow> staged_file \<Rightarrow> int" where
  "file_written l ages snapshots now f =
     (case map_of (rev ages) (keyed l (sf_path f)) of
        Some t \<Rightarrow> t * second
      | None \<Rightarrow> (case snapshots (sf_path f) of Some t \<Rightarrow> t | None \<Rightarrow> now))"

subsection \<open>The retention boundary\<close>

text \<open>The newest files that fit: the loop over the files by descending end.\<close>

fun size_boundary :: "int \<Rightarrow> int \<Rightarrow> staged_file list \<Rightarrow> offset \<Rightarrow> offset" where
  "size_boundary limit used [] b = b"
| "size_boundary limit used (f # fs) b =
     (if limit < used + sf_size f then max b (sf_end f) else size_boundary limit (used + sf_size f) fs b)"

definition retention_boundary ::
  "log_config \<Rightarrow> layout \<Rightarrow> (path \<rightharpoonup> int) \<Rightarrow> int \<Rightarrow> staged_file list \<Rightarrow> 'r db \<Rightarrow> offset" where
  "retention_boundary c l snapshots now fs d =
     (let aged = (case staging_retention c of None \<Rightarrow> 0
            | Some keep \<Rightarrow> fold (\<lambda>f. max (sf_end f))
                (filter (\<lambda>f. file_written l (file_ages d) snapshots now f < now - keep) fs) 0)
      in case staging_max_bytes c of None \<Rightarrow> aged
         | Some limit \<Rightarrow> size_boundary limit 0 (rev (sort_key sf_end (rev fs))) aged)"

text \<open>\<open>max((f.end for f in files if f.end <= boundary), default=0)\<close>.\<close>

definition snapped :: "staged_file list \<Rightarrow> offset \<Rightarrow> offset" where
  "snapped fs b = (case list_max (map sf_end (filter (\<lambda>f. sf_end f \<le> b) fs)) of None \<Rightarrow> 0 | Some x \<Rightarrow> x)"

subsection \<open>Evicting the buffer\<close>

definition evict_buffer :: "offset option \<Rightarrow> offset option \<Rightarrow> staged_file list \<Rightarrow> 'r db \<Rightarrow> nat \<times> 'r db" where
  "evict_buffer first end_offset fs d =
     (let landed = published_prefix fs False d;
          b = (case end_offset of None \<Rightarrow> landed | Some e \<Rightarrow> min landed e);
          a = (case first of None \<Rightarrow> 0 | Some x \<Rightarrow> x)
      in if b \<le> a then (0, d) else evict_rows a b d)"

subsection \<open>Evicting the staging table\<close>

text \<open>What a pass works on: the buffer's tables, the staging files and the published table's, if one is
  open.\<close>

record 'r log =
  lg_db :: "'r db"
  lg_staging :: "staged_file list"
  lg_published :: "staged_file list option"

text \<open>What it reads beside them: \<open>se_commit\<close> is the clock once the commit has landed.\<close>

record 'b seen =
  se_config :: log_config
  se_layout :: layout
  se_now :: int
  se_commit :: int
  se_snapshots :: "path \<rightharpoonup> int"
  se_schema :: pa_schema
  se_ice :: ice_schema
  se_live :: "'b Statistics.data_file list"

text \<open>The range to claim, decided before the claim; not positive when there is nothing to do.\<close>

definition evict_claims :: "'b seen \<Rightarrow> bool \<Rightarrow> offset option \<Rightarrow> 'r log \<Rightarrow> offset" where
  "evict_claims v everything end_offset s =
     (let fs = lg_staging s;
          b = (if everything then (case list_max (map sf_end fs) of None \<Rightarrow> 0 | Some x \<Rightarrow> x)
               else retention_boundary (se_config v) (se_layout v) (se_snapshots v) (se_now v) fs (lg_db s));
          b' = (case end_offset of None \<Rightarrow> b | Some e \<Rightarrow> min b e)
      in snapped fs b')"

text \<open>The boundary acted on: everything that decides it, read again under the claim on \<open>claimed\<close>.\<close>

definition evict_boundary :: "'b seen \<Rightarrow> bool \<Rightarrow> offset \<Rightarrow> 'r log \<Rightarrow> offset" where
  "evict_boundary v everything claimed s =
     (let fs = lg_staging s; d = lg_db s; c = se_config v;
          b1 = (if everything then claimed
                else min claimed (retention_boundary c (se_layout v) (se_snapshots v) (se_now v) fs d));
          b2 = min b1 (published_prefix fs False d);
          u = unsettled_from c fs;
          b3 = (if u < length fs then min b2 (sf_start (fs ! u)) else b2);
          owed = filter (\<lambda>f. keyed (se_layout v) (sf_path f) \<in> awaiting_swaps d) fs;
          b4 = fold (\<lambda>f. min (sf_start f)) owed b3
      in snapped fs (if everything then b2 else b4))"

type_synonym 'r pass_step = "'r log \<Rightarrow> 'r log option"

definition on_db :: "('r db \<Rightarrow> 'r db) \<Rightarrow> 'r pass_step" where
  "on_db f s = Some (s\<lparr>lg_db := f (lg_db s)\<rparr>)"

text \<open>Widening the published table's row by the files about to leave; None where it raises.\<close>

definition widen_step :: "(icetype \<Rightarrow> 'b \<Rightarrow> pyval) \<Rightarrow> 'b seen \<Rightarrow> path list \<Rightarrow> 'r pass_step" where
  "widen_step fb v leaving s =
     map_option (\<lambda>d. s\<lparr>lg_db := d\<rparr>)
       (widen_published (se_schema v)
          (rollup fb None (se_ice v)
             (filter (\<lambda>f. remove_prefix (Statistics.df_path f) ''file://'' \<in> set leaving) (se_live v))) (lg_db s))"

definition seconds :: "int \<Rightarrow> int" where
  "seconds t = t div second"

definition dropped_below :: "offset \<Rightarrow> staged_file list \<Rightarrow> path list" where
  "dropped_below b fs = map sf_path (filter (\<lambda>f. sf_end f \<le> b) fs)"

definition below_removed :: "offset \<Rightarrow> staged_file list \<Rightarrow> staged_file list" where
  "below_removed b fs = filter (\<lambda>f. \<not> sf_end f \<le> b) fs"

definition evict_steps :: "(icetype \<Rightarrow> 'b \<Rightarrow> pyval) \<Rightarrow> 'b seen \<Rightarrow> offset \<Rightarrow> staged_file list \<Rightarrow> 'r pass_step list" where
  "evict_steps fb v b fs =
     (let paths = dropped_below b fs; keys = map (keyed (se_layout v)) paths in
      [widen_step fb v paths,
       on_db (enqueue_deletions keys (seconds (se_now v))),
       (\<lambda>s. Some (s\<lparr>lg_staging := below_removed b (lg_staging s)\<rparr>)),
       on_db (restamp_deletions keys (seconds (se_commit v)))])"

fun run_steps :: "'r pass_step list \<Rightarrow> 'r log \<Rightarrow> 'r log option" where
  "run_steps [] s = Some s"
| "run_steps (f # fs) s = (case f s of None \<Rightarrow> None | Some s' \<Rightarrow> run_steps fs s')"

text \<open>The steps of one eviction, under its claim; none where the boundary is not positive.\<close>

definition evict_plan :: "(icetype \<Rightarrow> 'b \<Rightarrow> pyval) \<Rightarrow> 'b seen \<Rightarrow> bool \<Rightarrow> offset \<Rightarrow> 'r log \<Rightarrow> 'r pass_step list" where
  "evict_plan fb v everything claimed s =
     (let b = evict_boundary v everything claimed s in
      if b \<le> 0 then [] else evict_steps fb v b (lg_staging s))"

subsection \<open>Truncating\<close>

text \<open>One pass of the \<open>for\<close> loop, and the \<open>while\<close> loop: it ends because each move lands on the start of a
  file below the last.\<close>

definition floor_pass :: "staged_file list \<Rightarrow> offset \<Rightarrow> offset" where
  "floor_pass fs b = fold (\<lambda>f x. if sf_start f < x \<and> x < sf_end f then sf_start f else x) fs b"

lemma floor_fold_le: "fold (\<lambda>f x. if sf_start f < x \<and> x < sf_end f then sf_start f else x) fs b \<le> b"
proof (induction fs arbitrary: b)
  case (Cons f fs)
  show ?case using Cons [of "sf_start f"] Cons [of b] by (auto intro: order_trans)
qed simp

lemma floor_fold_start:
  "fold (\<lambda>f x. if sf_start f < x \<and> x < sf_end f then sf_start f else x) fs b \<noteq> b \<Longrightarrow>
     \<exists>f \<in> set fs. sf_start f < b \<and> fold (\<lambda>f x. if sf_start f < x \<and> x < sf_end f then sf_start f else x) fs b \<le> sf_start f"
proof (induction fs arbitrary: b)
  case (Cons f fs)
  show ?case
  proof (cases "sf_start f < b \<and> b < sf_end f")
    case True
    then show ?thesis using floor_fold_le [of fs "sf_start f"] by auto
  next
    case False
    with Cons show ?thesis by auto
  qed
qed simp

function truncate_floor :: "staged_file list \<Rightarrow> offset \<Rightarrow> offset" where
  "truncate_floor fs b = (if floor_pass fs b = b then b else truncate_floor fs (floor_pass fs b))"
  by auto
termination
proof (relation "measure (\<lambda>(fs, b). card {f \<in> set fs. sf_start f < b})")
  fix fs :: "staged_file list" and b
  assume "floor_pass fs b \<noteq> b"
  then obtain f where f: "f \<in> set fs" "sf_start f < b" "floor_pass fs b \<le> sf_start f"
    using floor_fold_start unfolding floor_pass_def by blast
  then have "f \<in> {g \<in> set fs. sf_start g < b} - {g \<in> set fs. sf_start g < floor_pass fs b}"
    and "{g \<in> set fs. sf_start g < floor_pass fs b} \<subseteq> {g \<in> set fs. sf_start g < b}" by auto
  then have "{g \<in> set fs. sf_start g < floor_pass fs b} \<subset> {g \<in> set fs. sf_start g < b}" by blast
  then show "((fs, floor_pass fs b), fs, b) \<in> measure (\<lambda>(fs, b). card {f \<in> set fs. sf_start f < b})"
    by (simp add: psubset_card_mono)
qed simp

declare truncate_floor.simps [simp del]

definition published_files :: "'r log \<Rightarrow> staged_file list" where
  "published_files s = (case lg_published s of None \<Rightarrow> [] | Some fs \<Rightarrow> fs)"

definition truncate_steps :: "(icetype \<Rightarrow> 'b \<Rightarrow> pyval) \<Rightarrow> 'b seen \<Rightarrow> offset \<Rightarrow> 'r log \<Rightarrow> 'r pass_step list" where
  "truncate_steps fb v b s =
     (let leaving = dropped_below b (lg_staging s);
          keys = map (keyed (se_layout v)) leaving;
          doomed = dropped_below b (published_files s);
          far = map (keyed (se_layout v)) doomed
      in [on_db (\<lambda>d. snd (evict_rows 0 b d))] @
         (if leaving = [] then []
          else evict_steps fb v b (lg_staging s) @
            [on_db (\<lambda>d. fold clear_swap (filter (\<lambda>k. k \<in> awaiting_swaps d) keys) d)]) @
         (if lg_published s = None \<or> doomed = [] then []
          else [on_db (enqueue_deletions far (seconds (se_now v))),
                (\<lambda>s. Some (s\<lparr>lg_published := map_option (below_removed b) (lg_published s)\<rparr>)),
                on_db (restamp_deletions far (seconds (se_commit v)))]))"

definition truncate :: "(icetype \<Rightarrow> 'b \<Rightarrow> pyval) \<Rightarrow> 'b seen \<Rightarrow> offset \<Rightarrow> 'r log \<Rightarrow> (offset \<times> 'r pass_step list) option" where
  "truncate fb v below s =
     map_option (\<lambda>through.
       let b = truncate_floor (lg_staging s @ published_files s) (min below (through + 1))
       in (b, truncate_steps fb v b s)) (published_through (lg_db s))"

subsection \<open>Draining\<close>

text \<open>One due name: kept where a live snapshot references it, otherwise unlinked and forgotten.\<close>

definition drain_one :: "layout \<Rightarrow> parts set \<Rightarrow> path \<Rightarrow> parts set \<times> 'r db \<Rightarrow> parts set \<times> 'r db" where
  "drain_one l referenced p w =
     (let f = absolute l p in
      if f \<in> referenced then w else (fst w - {f}, forget_deletion p (snd w)))"

definition drain :: "duration \<Rightarrow> int \<Rightarrow> layout \<Rightarrow> parts set \<Rightarrow> parts set \<times> 'r db \<Rightarrow> parts set \<times> 'r db" where
  "drain wait now l referenced w =
     fold (drain_one l referenced) (filter (\<lambda>p. \<not> remote p) (due_deletions (seconds (now - wait)) (snd w))) w"

end
