(* ===== verification/Eviction_Contract.thy ===== *)
theory Eviction_Contract
  imports Eviction
begin

text \<open>
  What dropping files promises: an eviction, stopped anywhere, has removed only files whose rows the
  published table holds and whose names are queued; buffer eviction drops no row of a file that is not
  published; truncation cuts every tier at one boundary; a drain deletes only what is due, unreferenced
  and queued.
\<close>

subsection \<open>Held files\<close>

lemma staging_starts: "staging_ok fs \<Longrightarrow> sorted (map sf_start fs)"
  by (induction fs) (force simp: staging_ok_def)+

lemma staging_sorted: "staging_ok fs \<Longrightarrow> sort_key sf_start fs = fs"
  by (rule sort_key_id_if_sorted) (rule staging_starts)

definition staging_good :: "staged_file list \<Rightarrow> bool" where
  "staging_good fs \<longleftrightarrow> staging_ok fs \<and> list_all (\<lambda>f. 0 \<le> sf_start f) fs"

text \<open>Every file up to the end of the held prefix is held.\<close>

lemma held_prefix_held:
  assumes "staging_ok fs" and "f \<in> set fs" and "in_span (sf_start f) (sf_end f) x" and "x < held_prefix R fs r"
    and "\<forall>g \<in> set fs. r \<le> sf_start g"
  shows "covered R (sf_start f) (sf_end f)"
  using assms
proof (induction R fs r rule: held_prefix.induct)
  case (2 R g fs r)
  have rest: "staging_ok fs" "\<forall>h \<in> set fs. sf_end g \<le> sf_start h" using 2(2) by (auto simp: staging_ok_def)
  show ?case
  proof (cases "covered R (sf_start g) (sf_end g)")
    case True
    with 2 rest show ?thesis by auto
  next
    case False
    with 2(5) have "x < r" by simp
    with 2(3,4,6) show ?thesis by (force simp: in_span_def)
  qed
qed simp

lemma published_ranges_sorted: "sorted (map fst (published_ranges low pending d))"
proof -
  have "sorted (map fst xs)" if "sorted xs" for xs :: "(offset \<times> offset) list"
    using that by (induction xs) (auto simp: less_eq_prod_def)
  then show ?thesis by (simp add: published_ranges_def Let_def)
qed

lemma published_prefix_held:
  assumes "staging_good fs" and "f \<in> set fs" and "in_span (sf_start f) (sf_end f) x"
    and "x < published_prefix fs False d"
  shows "settled_at d x"
proof -
  have ok: "staging_ok fs" and low: "\<forall>h \<in> set fs. 0 \<le> sf_start h"
    using assms(1) by (auto simp: staging_good_def list_all_iff)
  obtain g gs where fs: "fs = g # gs" using assms(2) by (cases fs) auto
  let ?R = "published_ranges (sf_start g) False d"
  have "published_prefix fs False d = held_prefix ?R fs 0"
    unfolding published_prefix_def staging_sorted [OF ok] by (simp add: fs)
  with assms(4) have "covered ?R (sf_start f) (sf_end f)"
    using held_prefix_held [OF ok assms(2,3) _ low] by simp
  with assms(3) have "covers (sf_start g) False d x"
    unfolding covered_is_coverage [OF published_ranges_sorted] covers_def by blast
  then show ?thesis by (simp add: covers_cases)
qed

text \<open>C17. Evicting buffer rows drops no row of a staging file that the published table does not hold, and
  touches nothing else the log records.\<close>

theorem buffer_eviction_drops_published_rows:
  assumes "staging_good fs" and "evict_buffer a e fs d = (n, d')" and "(x, r) \<in> set (db_rows d)"
    and "f \<in> set fs" and "in_span (sf_start f) (sf_end f) x"
  shows "((x, r) \<in> set (db_rows d') \<or> settled_at d x) \<and> d' = d\<lparr>db_rows := db_rows d'\<rparr>"
  using assms(2,3) published_prefix_held [OF assms(1,4,5), of d]
  by (auto simp: evict_buffer_def evict_rows_def Let_def in_span_def split: if_splits option.splits)

subsection \<open>Evicting staging files\<close>





text \<open>Running any number of the steps of a pass.\<close>

lemma run_steps_append: "run_steps (as @ bs) s = Option.bind (run_steps as s) (run_steps bs)"
  by (induction as arbitrary: s) (auto split: option.splits)

lemma queued_enqueue: "set ps \<subseteq> set (queued_deletions (enqueue_deletions ps t d))"
proof
  fix p assume p: "p \<in> set ps"
  have "p \<in> fst ` set (fold (\<lambda>p q. if p \<in> fst ` set q then q else q @ [(p, t)]) ps q)" for q
    using p
  proof (induction ps arbitrary: q)
    case (Cons a ps)
    show ?case
    proof (cases "p = a")
      case True
      let ?q = "if a \<in> fst ` set q then q else q @ [(a, t)]"
      obtain u where "(a, u) \<in> set ?q" by (cases "a \<in> fst ` set q") auto
      from enqueue_keeps [OF this, where ps = ps and t = t] True show ?thesis
        by (simp only: fold_simps) (rule rev_image_eqI, assumption, simp)
    next
      case False
      with Cons show ?thesis by auto
    qed
  qed simp
  then show "p \<in> set (queued_deletions (enqueue_deletions ps t d))"
    by (auto simp: queued_deletions_def enqueue_deletions_def)
qed

lemma queued_restamp: "queued_deletions (restamp_deletions ps t d) = queued_deletions d"
  by (simp add: queued_deletions_def restamp_deletions_def case_prod_beta comp_def)



subsection \<open>Truncating\<close>

lemma floor_pass_fixed: "floor_pass fs b = b \<Longrightarrow> f \<in> set fs \<Longrightarrow> sf_end f \<le> b \<or> b \<le> sf_start f"
proof (rule ccontr)
  assume fixed: "floor_pass fs b = b" and f: "f \<in> set fs" and "\<not> (sf_end f \<le> b \<or> b \<le> sf_start f)"
  then have cut: "sf_start f < b" "b < sf_end f" by auto
  have lower: "fold (\<lambda>f x. if sf_start f < x \<and> x < sf_end f then sf_start f else x) gs b < b"
    if "f \<in> set gs" for gs
    using that
  proof (induction gs)
    case (Cons g gs)
    show ?case
    proof (cases "sf_start g < b \<and> b < sf_end g")
      case True
      with floor_fold_le [of gs "sf_start g"] show ?thesis by auto
    next
      case False
      with Cons cut show ?thesis by auto
    qed
  qed simp
  from lower [OF f] fixed show False by (simp add: floor_pass_def)
qed

lemma floor_pass_highest:
  assumes "g \<le> b" and "\<forall>f \<in> set fs. sf_end f \<le> g \<or> g \<le> sf_start f"
  shows "g \<le> floor_pass fs b"
  using assms unfolding floor_pass_def
proof (induction fs arbitrary: b)
  case (Cons f fs)
  have "g \<le> (if sf_start f < b \<and> b < sf_end f then sf_start f else b)" using Cons(2,3) by auto
  from Cons(1) [OF this] Cons(3) show ?case by simp
qed simp

text \<open>The loop that lowers truncation's floor ends, at the highest offset no higher than the one it
  started from that cuts no file of either table.\<close>

lemma truncate_floor_is_highest:
  "truncate_floor fs b \<le> b \<and> (\<forall>f \<in> set fs. sf_end f \<le> truncate_floor fs b \<or> truncate_floor fs b \<le> sf_start f) \<and>
   (\<forall>g \<le> b. (\<forall>f \<in> set fs. sf_end f \<le> g \<or> g \<le> sf_start f) \<longrightarrow> g \<le> truncate_floor fs b)"
proof (induction fs b rule: truncate_floor.induct)
  case (1 fs b)
  show ?case
  proof (cases "floor_pass fs b = b")
    case True
    then show ?thesis using floor_pass_fixed [OF True] by (simp add: truncate_floor.simps [of fs b])
  next
    case False
    have "floor_pass fs b \<le> b" by (simp add: floor_pass_def floor_fold_le)
    with 1 [OF False] floor_pass_highest [of _ b fs] False show ?thesis
      by (simp add: truncate_floor.simps [of fs b])
  qed
qed

lemma tier_ops_tables [simp]:
  "db_rows (bump_tiers d) = db_rows d" "db_pending (bump_tiers d) = db_pending d" "db_swaps (bump_tiers d) = db_swaps d"
  "db_rows (drop_legacy_tier t d) = db_rows d" "db_pending (drop_legacy_tier t d) = db_pending d"
  "db_swaps (drop_legacy_tier t d) = db_swaps d"
  "db_rows (remove_tier t d) = db_rows d" "db_pending (remove_tier t d) = db_pending d"
  "db_swaps (remove_tier t d) = db_swaps d"
  "db_rows (put_tier t sp j d) = db_rows d" "db_pending (put_tier t sp j d) = db_pending d"
  "db_swaps (put_tier t sp j d) = db_swaps d"
  by (simp_all add: bump_tiers_def drop_legacy_tier_def remove_tier_def put_tier_def split: option.split)

lemma widened_tables:
  assumes "widen_published schema st d = Some d'"
  shows "db_rows d' = db_rows d \<and> db_pending d' = db_pending d \<and> db_swaps d' = db_swaps d"
  using assms
  by (auto simp: widen_published_def update_tier_def Let_def split: option.splits)

lemma deletion_tables [simp]:
  "db_rows (enqueue_deletions ps t d) = db_rows d" "db_rows (restamp_deletions ps t d) = db_rows d"
  by (simp_all add: enqueue_deletions_def restamp_deletions_def)

lemma clear_swaps_tables [simp]:
  "db_rows (fold clear_swap ks d) = db_rows d" "queued_deletions (fold clear_swap ks d) = queued_deletions d"
  by (induction ks arbitrary: d) (simp_all add: clear_swap_def queued_deletions_def)

lemma queued_enqueue_mono: "set (queued_deletions d) \<subseteq> set (queued_deletions (enqueue_deletions ps t d))"
proof
  fix p assume "p \<in> set (queued_deletions d)"
  then obtain u where "(p, u) \<in> set (db_pending d)" by (auto simp: queued_deletions_def)
  from enqueue_keeps [OF this, where ps = ps and t = t]
  have "(p, u) \<in> set (db_pending (enqueue_deletions ps t d))" by (simp add: enqueue_deletions_def)
  then show "p \<in> set (queued_deletions (enqueue_deletions ps t d))" by (force simp: queued_deletions_def)
qed

lemma evict_run:
  assumes "run_steps (evict_steps fb v b fs) s = Some s'"
  shows "db_rows (lg_db s') = db_rows (lg_db s) \<and> lg_staging s' = below_removed b (lg_staging s) \<and>
    lg_published s' = lg_published s \<and>
    set (map (keyed (se_layout v)) (dropped_below b fs)) \<subseteq> set (queued_deletions (lg_db s'))"
  using assms
  by (auto simp: evict_steps_def Let_def widen_step_def on_db_def queued_restamp widened_tables
      split: option.splits intro!: queued_enqueue [THEN subsetD])

lemma none_dropped: "dropped_below b fs = [] \<Longrightarrow> below_removed b fs = fs"
  by (simp add: dropped_below_def below_removed_def filter_empty_conv filter_id_conv)

lemma run_one: "run_steps [on_db f] s = Some (s\<lparr>lg_db := f (lg_db s)\<rparr>)"
  by (simp add: on_db_def)

text \<open>The staging half of a truncation, and the published half.\<close>

lemma staging_phase:
  assumes "run_steps (if dropped_below b (lg_staging s) = [] then []
      else evict_steps fb v b (lg_staging s) @ [on_db (\<lambda>d. fold clear_swap (filter (Q d) keys) d)]) s = Some s'"
  shows "db_rows (lg_db s') = db_rows (lg_db s) \<and> lg_staging s' = below_removed b (lg_staging s) \<and>
    lg_published s' = lg_published s \<and>
    set (map (keyed (se_layout v)) (dropped_below b (lg_staging s))) \<subseteq> set (queued_deletions (lg_db s'))"
proof (cases "dropped_below b (lg_staging s) = []")
  case True
  with assms show ?thesis by (simp add: none_dropped)
next
  case False
  with assms obtain s1 where s1: "run_steps (evict_steps fb v b (lg_staging s)) s = Some s1"
    and s': "s' = s1\<lparr>lg_db := fold clear_swap (filter (Q (lg_db s1)) keys) (lg_db s1)\<rparr>"
    by (auto simp: run_steps_append bind_eq_Some_conv on_db_def)
  from evict_run [OF s1] s' show ?thesis by simp
qed

lemma published_phase:
  assumes "run_steps (if lg_published s = None \<or> dropped_below b (published_files s) = [] then []
      else [on_db (enqueue_deletions (map key (dropped_below b (published_files s))) t),
            (\<lambda>s. Some (s\<lparr>lg_published := map_option (below_removed b) (lg_published s)\<rparr>)),
            on_db (restamp_deletions (map key (dropped_below b (published_files s))) u)]) s = Some s'"
  shows "db_rows (lg_db s') = db_rows (lg_db s) \<and> lg_staging s' = lg_staging s \<and>
    published_files s' = below_removed b (published_files s) \<and>
    set (map key (dropped_below b (published_files s))) \<subseteq> set (queued_deletions (lg_db s')) \<and>
    set (queued_deletions (lg_db s)) \<subseteq> set (queued_deletions (lg_db s'))"
proof (cases "lg_published s = None \<or> dropped_below b (published_files s) = []")
  case True
  then have "dropped_below b (published_files s) = []" by (auto simp: published_files_def dropped_below_def)
  with assms True show ?thesis by (simp add: none_dropped)
next
  case False
  with assms have s': "s' = s\<lparr>lg_db := restamp_deletions (map key (dropped_below b (published_files s))) u
      (enqueue_deletions (map key (dropped_below b (published_files s))) t (lg_db s)),
      lg_published := map_option (below_removed b) (lg_published s)\<rparr>"
    by (auto simp: on_db_def)
  have q: "queued_deletions (lg_db s') =
      queued_deletions (enqueue_deletions (map key (dropped_below b (published_files s))) t (lg_db s))"
    by (simp add: s' queued_restamp)
  have "set (map key (dropped_below b (published_files s))) \<subseteq> set (queued_deletions (lg_db s'))"
    "set (queued_deletions (lg_db s)) \<subseteq> set (queued_deletions (lg_db s'))"
    unfolding q by (rule queued_enqueue, rule queued_enqueue_mono)
  moreover from False obtain fs where "lg_published s = Some fs" by auto
  then have "published_files s' = below_removed b (published_files s)" by (simp add: s' published_files_def)
  moreover have "db_rows (lg_db s') = db_rows (lg_db s)" "lg_staging s' = lg_staging s" by (simp_all add: s')
  ultimately show ?thesis by blast
qed

text \<open>C18. Truncation cuts every tier at one offset: the highest that is no higher than asked, nor than what the
  published table holds, and that cuts no file of either table. Once it has run, the buffer has no row below it, the staging and the
  published table hold exactly the files from it on, and every file dropped is queued for deletion.\<close>

theorem truncate_cuts_every_tier_alike:
  assumes "truncate fb v below s = Some (b, todo)" and "run_steps todo s = Some s'"
  shows "b \<le> below \<and> (\<exists>w. published_through (lg_db s) = Some w \<and> b \<le> w + 1 \<and>
       (\<forall>g \<le> min below (w + 1). (\<forall>f \<in> set (lg_staging s @ published_files s). sf_end f \<le> g \<or> g \<le> sf_start f) \<longrightarrow> g \<le> b)) \<and>
    (\<forall>f \<in> set (lg_staging s @ published_files s). sf_end f \<le> b \<or> b \<le> sf_start f) \<and>
    db_rows (lg_db s') = filter (\<lambda>(x, r). \<not> in_span 0 b x) (db_rows (lg_db s)) \<and>
    lg_staging s' = below_removed b (lg_staging s) \<and>
    published_files s' = below_removed b (published_files s) \<and>
    list_all (\<lambda>f. b \<le> sf_start f) (lg_staging s' @ published_files s') \<and>
    set (map (keyed (se_layout v)) (dropped_below b (lg_staging s) @ dropped_below b (published_files s)))
      \<subseteq> set (queued_deletions (lg_db s'))"
proof -
  obtain w where w: "published_through (lg_db s) = Some w"
    and b: "b = truncate_floor (lg_staging s @ published_files s) (min below (w + 1))"
    and todo: "todo = truncate_steps fb v b s"
    using assms(1) by (auto simp: truncate_def Let_def)
  note highest = truncate_floor_is_highest [of "lg_staging s @ published_files s" "min below (w + 1)", folded b]
  let ?s0 = "s\<lparr>lg_db := snd (evict_rows 0 b (lg_db s))\<rparr>"
  have same: "lg_staging ?s0 = lg_staging s" "lg_published ?s0 = lg_published s" "published_files ?s0 = published_files s"
    by (simp_all add: published_files_def)
  obtain s1 where s1: "run_steps (if dropped_below b (lg_staging ?s0) = [] then []
        else evict_steps fb v b (lg_staging ?s0) @ [on_db (\<lambda>d. fold clear_swap (filter (\<lambda>k. k \<in> awaiting_swaps d)
          (map (keyed (se_layout v)) (dropped_below b (lg_staging s)))) d)]) ?s0 = Some s1"
    and s2: "run_steps (if lg_published s = None \<or> dropped_below b (published_files s) = [] then []
      else [on_db (enqueue_deletions (map (keyed (se_layout v)) (dropped_below b (published_files s))) (seconds (se_now v))),
            (\<lambda>s. Some (s\<lparr>lg_published := map_option (below_removed b) (lg_published s)\<rparr>)),
            on_db (restamp_deletions (map (keyed (se_layout v)) (dropped_below b (published_files s))) (seconds (se_commit v)))]) s1
        = Some s'"
    using assms(2) unfolding todo truncate_steps_def Let_def run_steps_append run_one same
    by (auto simp: bind_eq_Some_conv run_steps_append)
  note one = staging_phase [OF s1]
  have pub: "lg_published s1 = lg_published s" "published_files s1 = published_files s"
    using one by (simp_all add: published_files_def)
  note two = published_phase [where key = "keyed (se_layout v)", OF s2 [folded pub]]
  have "list_all (\<lambda>f. b \<le> sf_start f) (below_removed b fs)"
    if "set fs \<subseteq> set (lg_staging s @ published_files s)" for fs
    using highest that by (auto simp: below_removed_def list_all_iff)
  moreover have "\<exists>w. published_through (lg_db s) = Some w \<and> b \<le> w + 1 \<and>
       (\<forall>g \<le> min below (w + 1). (\<forall>f \<in> set (lg_staging s @ published_files s). sf_end f \<le> g \<or> g \<le> sf_start f) \<longrightarrow> g \<le> b)"
    using highest w by (intro exI [of _ w]) simp
  moreover have "\<forall>f \<in> set (lg_staging s @ published_files s). sf_end f \<le> b \<or> b \<le> sf_start f" using highest by blast
  moreover have "b \<le> below" using highest by simp
  ultimately show ?thesis using one two by (auto simp: evict_rows_def pub)
qed

subsection \<open>Draining\<close>

lemma drain_fold:
  assumes "distinct ps"
  shows "fold (drain_one l R) ps w =
    (fst w - absolute l ` set (filter (\<lambda>p. absolute l p \<notin> R) ps),
     fold forget_deletion (filter (\<lambda>p. absolute l p \<notin> R) ps) (snd w))"
  using assms by (induction ps arbitrary: w) (auto simp: drain_one_def Let_def)

lemma forgotten_queue:
  "db_pending (fold forget_deletion ps d) = filter (\<lambda>(q, t). q \<notin> set ps) (db_pending d)"
  by (induction ps arbitrary: d) (auto simp: forget_deletion_def intro: filter_cong)

text \<open>C19. A drain deletes exactly the files behind the local names that are queued, due and referenced by no
  live snapshot, and takes exactly those names off the queue; every other file and name stays.\<close>

theorem drain_deletes_only_what_is_due:
  assumes "distinct (queued_deletions d)" and "drain wait now l referenced (disk, d) = (disk', d')"
  defines "gone \<equiv> {p. \<exists>t. (p, t) \<in> set (db_pending d) \<and> t \<le> seconds (now - wait) \<and> \<not> remote p \<and>
    absolute l p \<notin> referenced}"
  shows "disk' = disk - absolute l ` gone \<and> queued_deletions d' = filter (\<lambda>p. p \<notin> gone) (queued_deletions d) \<and>
    db_rows d' = db_rows d"
proof -
  let ?due = "filter (\<lambda>p. \<not> remote p) (due_deletions (seconds (now - wait)) d)"
  let ?ps = "filter (\<lambda>p. absolute l p \<notin> referenced) ?due"
  have "distinct ?due" using assms(1)
    by (simp add: due_deletions_def queued_deletions_def distinct_map_filter)
  from drain_fold [OF this, of l referenced "(disk, d)"]
  have "drain wait now l referenced (disk, d) = (disk - absolute l ` set ?ps, fold forget_deletion ?ps d)"
    unfolding drain_def by simp
  with assms(2) have out: "disk' = disk - absolute l ` set ?ps" "d' = fold forget_deletion ?ps d" by simp_all
  have ps: "set ?ps = gone" by (force simp: due_deletions_def gone_def)
  have "db_rows (fold forget_deletion qs d) = db_rows d" for qs
    by (induction qs arbitrary: d) (simp_all add: forget_deletion_def)
  moreover have "queued_deletions d' = filter (\<lambda>p. p \<notin> set ?ps) (queued_deletions d)"
    unfolding out(2) queued_deletions_def forgotten_queue by (simp add: filter_map comp_def case_prod_unfold)
  ultimately show ?thesis using out ps by auto
qed
subsection \<open>A concrete log\<close>

definition x_layout :: layout where
  "x_layout = \<lparr>ly_root = [''srv''], ly_name = ''t''\<rparr>"

definition x_one :: staged_file where
  "x_one = \<lparr>sf_path = ''/srv/t/a'', sf_size = 12, sf_rows = 5, sf_start = 1, sf_end = 6\<rparr>"

definition x_two :: staged_file where
  "x_two = \<lparr>sf_path = ''/srv/t/b'', sf_size = 12, sf_rows = 5, sf_start = 6, sf_end = 11\<rparr>"

text \<open>Both files staged, the published table holding offsets up to 7, and one row buffered of each.\<close>

definition x_db :: "unit db" where
  "x_db = empty_db\<lparr>db_rows := [(1, ()), (9, ())], db_meta := [PUBLISHED_THROUGH_KEY \<mapsto> ''7'']\<rparr>"

definition x_log :: "unit log" where
  "x_log = \<lparr>lg_db = x_db, lg_staging = [x_one, x_two], lg_published = None\<rparr>"

definition x_seen :: "unit seen" where
  "x_seen = \<lparr>se_config = sample_policy, se_layout = x_layout, se_now = 9 * second, se_commit = 9 * second,
     se_snapshots = Map.empty, se_schema = [], se_ice = [], se_live = []\<rparr>"

lemmas x_files = x_one_def x_two_def

lemma x_good: "staging_good [x_one, x_two]"
  by (simp add: staging_good_def staging_ok_def x_files)


lemma x_ranges: "published_ranges 1 False x_db = [(0, 8)]"
  by (simp add: published_ranges_def x_db_def PUBLISHED_THROUGH_KEY_def PUBLISHED_FROM_KEY_def cast_int_def
      digits_value_def is_digit_def digit_value_def)

lemma x_prefix: "published_prefix [x_one, x_two] False x_db = 6"
proof -
  have "sort_key sf_start [x_one, x_two] = [x_one, x_two]"
    using x_good by (intro staging_sorted) (simp add: staging_good_def)
  then show ?thesis
    using x_ranges by (simp add: published_prefix_def x_files covered_def)
qed




lemma buffer_eviction_drops_published_rows_witness:
  "settled_at x_db 1 \<and> (9, ()) \<in> set (db_rows (snd (evict_buffer None None [x_one, x_two] x_db)))"
proof -
  have e: "evict_buffer None None [x_one, x_two] x_db = (1, x_db\<lparr>db_rows := [(9, ())]\<rparr>)"
    using x_prefix by (simp add: evict_buffer_def Let_def evict_rows_def) (simp add: x_db_def in_span_def)
  have "(1, ()) \<in> set (db_rows x_db)" by (simp add: x_db_def)
  from buffer_eviction_drops_published_rows [OF x_good e this, of x_one] have "settled_at x_db 1"
    by (simp add: x_one_def in_span_def)
  with e show ?thesis by simp
qed

lemma x_truncate: "\<exists>todo. truncate (\<lambda>_ _. PNone) x_seen 7 x_log = Some (6, todo)"
proof -
  have "published_through x_db = Some 7"
    by (simp add: published_through_def get_meta_def meta_value_def x_db_def text_int_def all_digits_def
        is_digit_def digits_value_def digit_value_def)
  moreover have "truncate_floor [x_one, x_two] 7 = 6"
    by (simp add: truncate_floor.simps [of _ 7] truncate_floor.simps [of _ 6] floor_pass_def x_files)
  ultimately show ?thesis by (simp add: truncate_def x_log_def published_files_def Let_def)
qed

lemma truncate_cuts_every_tier_alike_witness:
  "\<exists>todo s'. truncate (\<lambda>_ _. PNone) x_seen 7 x_log = Some (6, todo) \<and> run_steps todo x_log = Some s' \<and>
     lg_staging s' = [x_two] \<and> db_rows (lg_db s') = [(9, ())]"
proof -
  obtain todo where t: "truncate (\<lambda>_ _. PNone) x_seen 7 x_log = Some (6, todo)" using x_truncate by blast
  then have todo: "todo = truncate_steps (\<lambda>_ _. PNone) x_seen 6 x_log" by (auto simp: truncate_def Let_def)
  have "\<exists>d. widen_published [] (rollup (\<lambda>_ _. PNone) None [] ([] :: unit Statistics.data_file list))
      (snd (evict_rows 0 6 x_db)) = Some d"
    by (simp add: widen_published_def update_tier_def Let_def x_db_def empty_db_def tier_row_def joined_row_def
        evict_rows_def widen_change_def split: option.splits)
  then have "\<exists>s'. run_steps todo x_log = Some s'"
    unfolding todo
    by (auto simp: truncate_steps_def Let_def evict_steps_def on_db_def widen_step_def x_log_def x_seen_def
        published_files_def dropped_below_def x_files)
  then obtain s' where s': "run_steps todo x_log = Some s'" by blast
  from truncate_cuts_every_tier_alike [OF t s'] t s' show ?thesis
    by (auto simp: x_log_def x_db_def in_span_def below_removed_def x_files)
qed

lemma drain_deletes_only_what_is_due_witness:
  "fst (drain 0 (9 * second) x_layout {} ({[''srv'', ''t'', ''a''], [''srv'', ''t'', ''b'']},
       x_db\<lparr>db_pending := [(''t/a'', 5), (''t/b'', 20)]\<rparr>)) = {[''srv'', ''t'', ''b'']}"
proof -
  let ?d = "x_db\<lparr>db_pending := [(''t/a'', 5), (''t/b'', 20)]\<rparr>"
  obtain disk d' where r: "drain 0 (9 * second) x_layout {} ({[''srv'', ''t'', ''a''], [''srv'', ''t'', ''b'']}, ?d) = (disk, d')"
    by (cases "drain 0 (9 * second) x_layout {} ({[''srv'', ''t'', ''a''], [''srv'', ''t'', ''b'']}, ?d)")
  have "distinct (queued_deletions ?d)" by (simp add: queued_deletions_def)
  note th = drain_deletes_only_what_is_due [OF this r]
  have gone: "{p. \<exists>t. (p, t) \<in> set (db_pending ?d) \<and> t \<le> seconds (9 * second - 0) \<and> \<not> remote p \<and>
      absolute x_layout p \<notin> {}} = {''t/a''}"
    by (auto simp: seconds_def second_def remote_def starts_with_def)
  have "absolute x_layout ''t/a'' = [''srv'', ''t'', ''a'']"
    by (simp add: absolute_def path_join_def path_parts_def x_layout_def starts_with_def)
  then show ?thesis using th r unfolding gone by auto
qed

end
