(* ===== verification/Row_Groups.thy ===== *)
theory Row_Groups
  imports Compaction "HOL-Library.Product_Lexorder"
begin

text \<open>
  The row groups a merge writes (\<^verbatim>\<open>src/litelink/_maintenance.py\<close>: \<open>chunks\<close>, \<open>input_slices\<close>,
  \<open>row_groups\<close>, \<open>_Tally\<close>, \<open>_output\<close>). A batch or a table is the list of its rows; \<open>nbytes\<close>, Arrow's
  in-memory size of one, is a parameter. The generators are lists. The loop over a batch may not end in
  the source when its row cap is not positive, so \<open>chunk_batch\<close> is a partial function, and what ends is
  proved.
\<close>

subsection \<open>Chunks\<close>

definition take_rows :: "int \<Rightarrow> int option \<Rightarrow> int \<Rightarrow> int \<Rightarrow> int \<Rightarrow> int \<Rightarrow> int" where
  "take_rows budget cap per left measured counted =
     (let t = (case cap of None \<Rightarrow> left | Some k \<Rightarrow> min left (k - counted))
      in min t (max 1 ((budget - measured) div per)))"

definition group_full :: "int \<Rightarrow> int option \<Rightarrow> int \<Rightarrow> int \<Rightarrow> bool" where
  "group_full budget cap measured counted \<longleftrightarrow>
     budget \<le> measured \<or> (case cap of None \<Rightarrow> False | Some k \<Rightarrow> k \<le> counted)"

text \<open>The loop over the rest of one batch, with the group being gathered: the groups it yields, and the
  group it leaves.\<close>

partial_function (option) chunk_batch ::
  "int \<Rightarrow> int option \<Rightarrow> int \<Rightarrow> 'r list \<Rightarrow> 'r list \<Rightarrow> int \<Rightarrow> int \<Rightarrow> ('r list list \<times> 'r list \<times> int \<times> int) option" where
  "chunk_batch budget cap per rows gathered measured counted =
     (if rows = [] then Some ([], gathered, measured, counted)
      else let n = nat (take_rows budget cap per (int (length rows)) measured counted);
               piece = List.take n rows;
               g = gathered @ piece;
               m = measured + per * int (length piece);
               c = counted + int (length piece)
           in if group_full budget cap m c
              then Option.bind (chunk_batch budget cap per (drop n rows) [] 0 0)
                     (\<lambda>(out, left). Some (g # out, left))
              else chunk_batch budget cap per (drop n rows) g m c)"

fun chunks_loop ::
  "('r list \<Rightarrow> int) \<Rightarrow> int \<Rightarrow> int option \<Rightarrow> 'r list list \<Rightarrow> 'r list \<Rightarrow> int \<Rightarrow> int \<Rightarrow> 'r list list option" where
  "chunks_loop nbytes budget cap [] gathered measured counted = Some (if gathered = [] then [] else [gathered])"
| "chunks_loop nbytes budget cap (b # bs) gathered measured counted =
     (if b = [] then chunks_loop nbytes budget cap bs gathered measured counted
      else Option.bind (chunk_batch budget cap (max 1 (nbytes b div int (length b))) b gathered measured counted)
             (\<lambda>(out, g, m, c). map_option (\<lambda>rest. out @ rest) (chunks_loop nbytes budget cap bs g m c)))"

definition chunks :: "('r list \<Rightarrow> int) \<Rightarrow> 'r list list \<Rightarrow> int \<Rightarrow> int option \<Rightarrow> 'r list list option" where
  "chunks nbytes batches budget cap = chunks_loop nbytes budget cap batches [] 0 0"

subsection \<open>Row groups\<close>

definition rows_limit :: "int option \<Rightarrow> int" where
  "rows_limit rows = (case rows of None \<Rightarrow> NO_ROW_LIMIT | Some n \<Rightarrow> if n = 0 then NO_ROW_LIMIT else n)"

definition flagged :: "'r list list \<Rightarrow> ('r list \<times> bool) list" where
  "flagged pieces = map (\<lambda>p. (p, False)) (butlast pieces) @ [(last pieces, True)]"

definition flush_group :: "'r list \<Rightarrow> ('r list \<times> bool) list" where
  "flush_group gathered = (if gathered = [] then [] else [(gathered, True)])"

text \<open>The loop over the inputs, with the whole inputs being gathered.\<close>

fun groups_loop ::
  "('r list \<Rightarrow> int) \<Rightarrow> int \<Rightarrow> int option \<Rightarrow> 'r list list list \<Rightarrow> 'r list \<Rightarrow> int \<Rightarrow> int
     \<Rightarrow> ('r list \<times> bool) list option" where
  "groups_loop nbytes budget rows [] gathered measured counted = Some (flush_group gathered)"
| "groups_loop nbytes budget rows (source # sources) gathered measured counted =
     Option.bind (chunks nbytes source budget rows) (\<lambda>pieces.
       case pieces of
         [] \<Rightarrow> groups_loop nbytes budget rows sources gathered measured counted
       | [piece] \<Rightarrow>
           if gathered \<noteq> [] \<and> (budget < measured + nbytes piece \<or> rows_limit rows < counted + int (length piece))
           then map_option (\<lambda>rest. (gathered, True) # rest)
                  (groups_loop nbytes budget rows sources piece (nbytes piece) (int (length piece)))
           else groups_loop nbytes budget rows sources (gathered @ piece) (measured + nbytes piece)
                  (counted + int (length piece))
       | _ \<Rightarrow> map_option (\<lambda>rest. flush_group gathered @ flagged pieces @ rest)
                (groups_loop nbytes budget rows sources [] 0 0))"

definition row_groups ::
  "('r list \<Rightarrow> int) \<Rightarrow> 'r list list list \<Rightarrow> int \<Rightarrow> int option \<Rightarrow> ('r list \<times> bool) list option" where
  "row_groups nbytes inputs budget rows = groups_loop nbytes budget rows inputs [] 0 0"

subsection \<open>The slices of an input\<close>

text \<open>The extent of each row group from the file's footer: None where it cannot be read, or for a row
  group without statistics.\<close>

definition pairwise :: "('a \<Rightarrow> 'a \<Rightarrow> bool) \<Rightarrow> 'a list \<Rightarrow> bool" where
  "pairwise P xs = list_all (\<lambda>(a, b). P a b) (zip xs (tl xs))"

definition stretch_ends :: "offset \<Rightarrow> offset \<Rightarrow> (offset \<times> offset) list \<Rightarrow> (offset \<times> offset) list" where
  "stretch_ends a b rs =
     (let s = rs[0 := (a, snd (hd rs))] in s[length s - 1 := (fst (last s), b)])"

definition input_slices :: "(offset \<times> offset) option list option \<Rightarrow> staged_file \<Rightarrow> (offset \<times> offset) list" where
  "input_slices stats f =
     (let whole = [(sf_start f, sf_end f)] in
      case Option.bind stats those of
        None \<Rightarrow> whole
      | Some extents \<Rightarrow>
          let rs = sort (map (\<lambda>(lo, hi). (lo, hi + 1)) extents) in
          if length rs < 2 \<or> \<not> pairwise (\<lambda>x y. snd x \<le> fst y) rs then whole
          else stretch_ends (sf_start f) (sf_end f) rs)"

subsection \<open>Counting what was written\<close>

record tally =
  ta_rows :: nat
  ta_low :: "offset option"
  ta_high :: "offset option"

definition empty_tally :: tally where
  "empty_tally = \<lparr>ta_rows = 0, ta_low = None, ta_high = None\<rparr>"

definition tally_add :: "offset list \<Rightarrow> tally \<Rightarrow> tally" where
  "tally_add offsets t =
     (case (list_min offsets, list_max offsets) of
        (Some lo, Some hi) \<Rightarrow>
          t\<lparr>ta_rows := ta_rows t + length offsets, ta_low := Some (opt_min (ta_low t) lo),
            ta_high := Some (opt_max (ta_high t) hi)\<rparr>
      | _ \<Rightarrow> t)"

datatype verify_error = Rows_lost | Extent_changed

definition tally_verify :: "staged_file list \<Rightarrow> offset \<Rightarrow> offset \<Rightarrow> tally \<Rightarrow> verify_error option" where
  "tally_verify run a b t =
     (if int (ta_rows t) \<noteq> sum_list (map sf_rows run) then Some Rows_lost
      else if ta_low t \<noteq> Some a \<or> ta_high t \<noteq> Some (b - 1) then Some Extent_changed
      else None)"

text \<open>None where the assertion fails: nothing was written to the file.\<close>

definition merge_output :: "path \<Rightarrow> tally \<Rightarrow> int \<Rightarrow> (path \<times> offset \<times> offset \<times> int) option" where
  "merge_output p t n = (case (ta_low t, ta_high t) of (Some lo, Some hi) \<Rightarrow> Some (p, lo, hi + 1, n) | _ \<Rightarrow> None)"

end
