(* ===== verification/Row_Groups_Contract.thy ===== *)
theory Row_Groups_Contract
  imports Row_Groups
begin

text \<open>
  What the row groups of a merge promise: under an accepted configuration the streaming ends and keeps
  every row in order, a group is never over the row cap, and a group flagged as an input's end is one;
  the slices an input is read in are disjoint and cover it; and a tally that verifies has seen every row.
\<close>

subsection \<open>Chunks\<close>

definition cap_ok :: "int option \<Rightarrow> bool" where
  "cap_ok cap \<longleftrightarrow> (case cap of None \<Rightarrow> True | Some k \<Rightarrow> 1 \<le> k)"

definition fits :: "int option \<Rightarrow> 'r list \<Rightarrow> bool" where
  "fits cap g \<longleftrightarrow> (case cap of None \<Rightarrow> True | Some k \<Rightarrow> int (length g) \<le> k)"

lemma take_rows_bounds:
  assumes "1 \<le> n" and "\<not> group_full b cap m c"
  shows "1 \<le> take_rows b cap per n m c \<and> take_rows b cap per n m c \<le> n \<and>
    (case cap of None \<Rightarrow> True | Some k \<Rightarrow> c + take_rows b cap per n m c \<le> k)"
  using assms by (auto simp: take_rows_def group_full_def Let_def split: option.splits)

lemma not_full_fresh: "1 \<le> b \<Longrightarrow> cap_ok cap \<Longrightarrow> \<not> group_full b cap 0 0"
  by (auto simp: group_full_def cap_ok_def split: option.splits)

lemma chunk_batch_ends:
  assumes "1 \<le> b" and "cap_ok cap" and "\<not> group_full b cap m c" and "c = int (length g)"
  shows "\<exists>out g' m' c'. chunk_batch b cap per rows g m c = Some (out, g', m', c') \<and>
    concat out @ g' = g @ rows \<and> (\<forall>p \<in> set out. p \<noteq> [] \<and> fits cap p) \<and>
    \<not> group_full b cap m' c' \<and> c' = int (length g')"
  using assms(3,4)
proof (induction "length rows" arbitrary: rows g m c rule: less_induct)
  case less
  show ?case
  proof (cases "rows = []")
    case True
    with less show ?thesis by (subst chunk_batch.simps) auto
  next
    case False
    define n where "n = nat (take_rows b cap per (int (length rows)) m c)"
    have len: "1 \<le> int (length rows)" using False by (cases rows) auto
    note tr = take_rows_bounds [OF len less(2), of per]
    have n: "1 \<le> n" "n \<le> length rows" using tr by (auto simp: n_def)
    have short: "length (drop n rows) < length rows" using n by simp
    define g1 where "g1 = g @ take n rows"
    define m1 where "m1 = m + per * int n"
    define c1 where "c1 = c + int n"
    have c1: "c1 = int (length g1)" using n less(3) by (simp add: c1_def g1_def)
    have g1: "g1 \<noteq> []" using n by (auto simp: g1_def)
    have fit: "fits cap g1" using tr n c1 less(3) by (auto simp: fits_def c1_def g1_def n_def split: option.splits)
    have step: "chunk_batch b cap per rows g m c =
        (if group_full b cap m1 c1
         then Option.bind (chunk_batch b cap per (drop n rows) [] 0 0) (\<lambda>(out, left). Some (g1 # out, left))
         else chunk_batch b cap per (drop n rows) g1 m1 c1)"
      by (subst chunk_batch.simps) (use False n in \<open>simp add: n_def g1_def m1_def c1_def Let_def\<close>)
    have all: "g1 @ drop n rows = g @ rows" by (simp add: g1_def)
    show ?thesis
    proof (cases "group_full b cap m1 c1")
      case True
      from less(1) [OF short not_full_fresh [OF assms(1,2)]] obtain out g' m' c' where
        "chunk_batch b cap per (drop n rows) [] 0 0 = Some (out, g', m', c')" "concat out @ g' = drop n rows"
        "\<forall>p \<in> set out. p \<noteq> [] \<and> fits cap p" "\<not> group_full b cap m' c'" "c' = int (length g')"
        by auto
      with True step fit g1 all show ?thesis by simp
    next
      case False
      from less(1) [OF short False c1] step False all show ?thesis by simp
    qed
  qed
qed

lemma chunks_loop_ends:
  assumes "1 \<le> b" and "cap_ok cap" and "\<not> group_full b cap m c" and "c = int (length g)"
  shows "\<exists>out. chunks_loop nbytes b cap bs g m c = Some out \<and> concat out = g @ concat bs \<and>
    (\<forall>p \<in> set out. p \<noteq> [] \<and> fits cap p)"
  using assms(3,4)
proof (induction bs arbitrary: g m c)
  case Nil
  have "fits cap g" using Nil by (auto simp: fits_def group_full_def split: option.splits)
  then show ?case by simp
next
  case (Cons x bs)
  show ?case
  proof (cases "x = []")
    case True
    with Cons show ?thesis by simp
  next
    case False
    from chunk_batch_ends [OF assms(1,2) Cons(2,3), of "max 1 (nbytes x div int (length x))" x]
    obtain out g' m' c' where c: "chunk_batch b cap (max 1 (nbytes x div int (length x))) x g m c = Some (out, g', m', c')"
      "concat out @ g' = g @ x" "\<forall>p \<in> set out. p \<noteq> [] \<and> fits cap p" "\<not> group_full b cap m' c'" "c' = int (length g')"
      by blast
    from Cons(1) [OF c(4,5)] obtain rest where
      "chunks_loop nbytes b cap bs g' m' c' = Some rest" "concat rest = g' @ concat bs"
      "\<forall>p \<in> set rest. p \<noteq> [] \<and> fits cap p" by blast
    moreover from c(2) have "concat out @ g' @ concat bs = g @ x @ concat bs" by (metis append.assoc)
    ultimately show ?thesis using False c(1,3) by auto
  qed
qed

lemma chunks_end:
  assumes "1 \<le> b" and "cap_ok cap"
  shows "\<exists>out. chunks nbytes bs b cap = Some out \<and> concat out = concat bs \<and> (\<forall>p \<in> set out. p \<noteq> [] \<and> fits cap p)"
  using chunks_loop_ends [OF assms not_full_fresh [OF assms], of "[]"] by (simp add: chunks_def)

subsection \<open>Row groups\<close>

text \<open>A group flagged as the end of an input is: up to it, the groups hold whole inputs.\<close>

definition ends_are_inputs :: "'r list \<Rightarrow> 'r list list list \<Rightarrow> ('r list \<times> bool) list \<Rightarrow> bool" where
  "ends_are_inputs gathered sources out \<longleftrightarrow>
     (\<forall>i < length out. snd (out ! i) \<longrightarrow>
        (\<exists>k. concat (map fst (take (Suc i) out)) = gathered @ concat (map concat (take k sources))))"

lemma ends_Nil [simp]: "ends_are_inputs g ss []"
  by (simp add: ends_are_inputs_def)

lemma ends_later:
  assumes "ends_are_inputs (g @ concat s) ss out"
  shows "ends_are_inputs g (s # ss) out"
  unfolding ends_are_inputs_def
proof (intro allI impI)
  fix i assume "i < length out" "snd (out ! i)"
  with assms obtain k where "concat (map fst (take (Suc i) out)) = (g @ concat s) @ concat (map concat (take k ss))"
    unfolding ends_are_inputs_def by blast
  then show "\<exists>k. concat (map fst (take (Suc i) out)) = g @ concat (map concat (take k (s # ss)))"
    by (intro exI [of _ "Suc k"]) simp
qed

text \<open>Groups put before others, none flagged but perhaps the last, which ends after \<open>j\<close> inputs.\<close>

lemma ends_before:
  assumes "ends_are_inputs [] (drop j ss) out" and "concat (map fst front) = g @ concat (map concat (take j ss))"
    and "\<forall>i < length front. snd (front ! i) \<longrightarrow>
      (\<exists>k. concat (map fst (take (Suc i) front)) = g @ concat (map concat (take k ss)))"
  shows "ends_are_inputs g ss (front @ out)"
  unfolding ends_are_inputs_def
proof (intro allI impI)
  fix i assume i: "i < length (front @ out)" and flag: "snd ((front @ out) ! i)"
  show "\<exists>k. concat (map fst (take (Suc i) (front @ out))) = g @ concat (map concat (take k ss))"
  proof (cases "i < length front")
    case True
    with flag assms(3) show ?thesis by (simp add: nth_append)
  next
    case False
    define i' where "i' = i - length front"
    from False i flag have "i' < length out" "snd (out ! i')" by (auto simp: i'_def nth_append)
    with assms(1) obtain k where "concat (map fst (take (Suc i') out)) = concat (map concat (take k (drop j ss)))"
      unfolding ends_are_inputs_def by auto
    moreover have "take (Suc i) (front @ out) = front @ take (Suc i') out"
      using False by (simp add: i'_def Suc_diff_le)
    moreover have "take j ss @ take k (drop j ss) = take (j + k) ss" by (simp add: take_add)
    ultimately show ?thesis using assms(2) by (metis append.assoc concat_append map_append)
  qed
qed

lemma flagged_simps:
  assumes "ps \<noteq> []"
  shows "concat (map fst (flagged ps)) = concat ps" and "set (map fst (flagged ps)) = set ps"
    and "length (flagged ps) = length ps" and "i < length ps \<Longrightarrow> snd (flagged ps ! i) \<longleftrightarrow> Suc i = length ps"
    and "snd (last (flagged ps))"
proof -
  have fst: "map fst (flagged ps) = ps" using assms by (simp add: flagged_def comp_def)
  then show "concat (map fst (flagged ps)) = concat ps" "set (map fst (flagged ps)) = set ps" by simp_all
  show len: "length (flagged ps) = length ps" using assms by (cases ps rule: rev_cases) (simp_all add: flagged_def)
  show "snd (flagged ps ! i) \<longleftrightarrow> Suc i = length ps" if "i < length ps"
    using that assms by (auto simp: flagged_def nth_append)
  show "snd (last (flagged ps))" by (simp add: flagged_def)
qed

lemma groups_loop_ends:
  assumes "1 \<le> b" and "cap_ok cap" and "c = int (length g)" and "fits cap g"
  shows "\<exists>out. groups_loop nbytes b cap ss g m c = Some out \<and>
    concat (map fst out) = g @ concat (map concat ss) \<and>
    (\<forall>(p, e) \<in> set out. p \<noteq> [] \<and> fits cap p) \<and> ends_are_inputs g ss out \<and> (out \<noteq> [] \<longrightarrow> snd (last out))"
  using assms(3,4)
proof (induction ss arbitrary: g m c)
  case Nil
  then show ?case by (auto simp: flush_group_def ends_are_inputs_def)
next
  case (Cons s ss)
  obtain ps where ps: "chunks nbytes s b cap = Some ps" "concat ps = concat s" "\<forall>p \<in> set ps. p \<noteq> [] \<and> fits cap p"
    using chunks_end [OF assms(1,2)] by blast
  have fresh: "fits cap []" using assms(2) by (auto simp: fits_def cap_ok_def split: option.splits)
  consider "ps = []" | p where "ps = [p]" | p q rest where "ps = p # q # rest" by (metis list.exhaust)
  then show ?case
  proof cases
    case 1
    from Cons(1) [OF Cons(2,3), of m] obtain out where
      "groups_loop nbytes b cap ss g m c = Some out"
      "concat (map fst out) = g @ concat (map concat ss)" "\<forall>(p, e) \<in> set out. p \<noteq> [] \<and> fits cap p"
      "ends_are_inputs g ss out" "out \<noteq> [] \<longrightarrow> snd (last out)" by blast
    note out = this
    have none: "concat s = []" using ps(2) 1 by simp
    have "ends_are_inputs g (s # ss) out"
      by (rule ends_later) (simp only: none append_Nil2 out(4))
    then show ?thesis using 1 ps(1) none out by simp
  next
    case (2 p)
    have p: "p \<noteq> []" "fits cap p" "p = concat s" using ps 2 by auto
    show ?thesis
    proof (cases "g \<noteq> [] \<and> (b < m + nbytes p \<or> rows_limit cap < c + int (length p))")
      case True
      from Cons(1) [OF refl p(2), of "nbytes p"] obtain out where out:
        "groups_loop nbytes b cap ss p (nbytes p) (int (length p)) = Some out"
        "concat (map fst out) = p @ concat (map concat ss)" "\<forall>(p, e) \<in> set out. p \<noteq> [] \<and> fits cap p"
        "ends_are_inputs p ss out" "out \<noteq> [] \<longrightarrow> snd (last out)" by blast
      have "ends_are_inputs [] (s # ss) out" using out(4) ends_later [of "[]" s ss out] p(3) by simp
      then have "ends_are_inputs g (s # ss) ([(g, True)] @ out)"
        by (intro ends_before [where j = 0]) (auto intro: exI [of _ 0])
      with True 2 ps out p Cons(3) show ?thesis by simp
    next
      case False
      have fit: "fits cap (g @ p)"
      proof (cases "g = []")
        case True
        with p show ?thesis by simp
      next
        case False
        with \<open>\<not> (g \<noteq> [] \<and> _)\<close> have "c + int (length p) \<le> rows_limit cap" by simp
        with Cons(2) assms(2) show ?thesis
          by (auto simp: fits_def rows_limit_def cap_ok_def split: option.splits)
      qed
      have len: "c + int (length p) = int (length (g @ p))" using Cons(2) by simp
      from Cons(1) [OF len fit, of "m + nbytes p"] obtain out where
        "groups_loop nbytes b cap ss (g @ p) (m + nbytes p) (c + int (length p)) = Some out"
        "concat (map fst out) = (g @ p) @ concat (map concat ss)" "\<forall>(p, e) \<in> set out. p \<noteq> [] \<and> fits cap p"
        "ends_are_inputs (g @ p) ss out" "out \<noteq> [] \<longrightarrow> snd (last out)" by blast
      with False 2 ps p(3) ends_later [of g s ss out] show ?thesis by auto
    qed
  next
    case (3 p q rest)
    have ne: "ps \<noteq> []" using 3 by simp
    from Cons(1) [of 0 "[]" 0] fresh obtain out where out: "groups_loop nbytes b cap ss [] 0 0 = Some out"
      "concat (map fst out) = concat (map concat ss)" "\<forall>(p, e) \<in> set out. p \<noteq> [] \<and> fits cap p"
      "ends_are_inputs [] ss out" "out \<noteq> [] \<longrightarrow> snd (last out)" by auto
    have front: "ends_are_inputs [] (s # ss) (flagged ps @ out)"
    proof (rule ends_before [where j = 1])
      show "\<forall>i < length (flagged ps). snd (flagged ps ! i) \<longrightarrow>
          (\<exists>k. concat (map fst (take (Suc i) (flagged ps))) = [] @ concat (map concat (take k (s # ss))))"
        using flagged_simps [OF ne] ps(2) by (auto intro!: exI [of _ 1])
    qed (use out(4) flagged_simps [OF ne] ps(2) in auto)
    have all: "ends_are_inputs g (s # ss) (flush_group g @ flagged ps @ out)"
    proof (rule ends_before [where j = 0])
      show "ends_are_inputs [] (drop 0 (s # ss)) (flagged ps @ out)" using front by simp
    qed (auto simp: flush_group_def intro: exI [of _ 0])
    have eq: "groups_loop nbytes b cap (s # ss) g m c = Some (flush_group g @ flagged ps @ out)"
      using 3 ps(1) out(1) by simp
    have "p' \<noteq> [] \<and> fits cap p'" if "(p', e) \<in> set (flagged ps)" for p' e
    proof -
      have "p' \<in> set (map fst (flagged ps))" using that by (auto intro: rev_image_eqI)
      then show ?thesis using ps(3) unfolding flagged_simps(2) [OF ne] by blast
    qed
    then have each: "\<forall>(p, e) \<in> set (flush_group g @ flagged ps @ out). p \<noteq> [] \<and> fits cap p"
      using out(3) Cons(3) by (auto simp: flush_group_def)
    have rows: "concat (map fst (flush_group g @ flagged ps @ out)) = g @ concat (map concat (s # ss))"
      using out(2) ps(2) flagged_simps(1) [OF ne] by (simp add: flush_group_def)
    have "flagged ps \<noteq> []" by (simp add: flagged_def)
    then have "snd (last (flush_group g @ flagged ps @ out))"
      using out(5) flagged_simps [OF ne] by (cases "out = []") simp_all
    with eq rows each all show ?thesis by blast
  qed
qed

text \<open>C15. Under a configuration the log accepts, a merge's stream of row groups ends, holds every row of
  every input in order and nothing else, has no empty group and none over the row cap; a group is flagged
  as an input's end only where the groups so far hold whole inputs, and the last group is so flagged.\<close>

theorem row_groups_keep_every_row:
  assumes "validate fs sb c published = None"
  shows "\<exists>out. row_groups nbytes inputs (target_row_group_size c) (target_row_group_rows c) = Some out \<and>
    concat (map fst out) = concat (map concat inputs) \<and>
    (\<forall>(p, e) \<in> set out. p \<noteq> [] \<and> fits (target_row_group_rows c) p) \<and>
    ends_are_inputs [] inputs out \<and> (out \<noteq> [] \<longrightarrow> snd (last out))"
proof -
  have "1 \<le> target_row_group_size c" and cap: "cap_ok (target_row_group_rows c)"
    using validated_row_groups [OF assms] by (auto simp: cap_ok_def split: option.splits)
  moreover have "fits (target_row_group_rows c) []" using cap by (auto simp: fits_def cap_ok_def split: option.splits)
  ultimately have "\<exists>out. groups_loop nbytes (target_row_group_size c) (target_row_group_rows c) inputs [] 0 0 = Some out \<and>
    concat (map fst out) = [] @ concat (map concat inputs) \<and>
    (\<forall>(p, e) \<in> set out. p \<noteq> [] \<and> fits (target_row_group_rows c) p) \<and>
    ends_are_inputs [] inputs out \<and> (out \<noteq> [] \<longrightarrow> snd (last out))"
    by (intro groups_loop_ends) simp_all
  then show ?thesis by (simp add: row_groups_def)
qed

definition sample_groups :: log_config where
  "sample_groups = defaults\<lparr>target_row_group_size := 25, target_row_group_rows := Some 2\<rparr>"

lemma sample_groups_valid: "validate [] [] sample_groups None = None"
  by (simp add: validate_def validate_schema_def first_error_def first_broken_def config_rules_def sample_groups_def
      defaults_def compact_size_def compact_step_def CODECS_def DEFAULT_COMPACT_SIZE_def
      DEFAULT_STAGING_MAX_BYTES_def second_def)

text \<open>Three rows, then one, then one more, in groups of at most two: the first input alone fills its groups.\<close>

lemma row_groups_keep_every_row_witness:
  "\<exists>out. row_groups (\<lambda>g. 10 * int (length g)) [[[1::nat, 2, 3]], [[4]], [[5]]] 25 (Some 2) = Some out \<and>
    concat (map fst out) = [1, 2, 3, 4, 5]"
  using row_groups_keep_every_row [OF sample_groups_valid, of "\<lambda>g. 10 * int (length g)" "[[[1::nat, 2, 3]], [[4]], [[5]]]"]
  by (auto simp: sample_groups_def)

subsection \<open>Slices\<close>

text \<open>Slices follow one another without overlap, from one end to the other.\<close>

definition ordered_slices :: "(offset \<times> offset) list \<Rightarrow> bool" where
  "ordered_slices rs \<longleftrightarrow> pairwise (\<lambda>x y. snd x \<le> fst y) rs"

lemma pairwise_nth: "pairwise P xs \<longleftrightarrow> (\<forall>i. Suc i < length xs \<longrightarrow> P (xs ! i) (xs ! Suc i))"
  by (auto simp: pairwise_def list_all_length nth_tl less_diff_conv)

lemma stretch_ends_simps:
  assumes "2 \<le> length rs"
  shows "length (stretch_ends a b rs) = length rs" and "fst (hd (stretch_ends a b rs)) = a"
    and "snd (last (stretch_ends a b rs)) = b"
    and "Suc i < length rs \<Longrightarrow> snd (stretch_ends a b rs ! i) = snd (rs ! i)"
    and "0 < i \<Longrightarrow> i < length rs \<Longrightarrow> fst (stretch_ends a b rs ! i) = fst (rs ! i)"
proof -
  have ne: "rs \<noteq> []" using assms by auto
  show "length (stretch_ends a b rs) = length rs" by (simp add: stretch_ends_def Let_def)
  show "fst (hd (stretch_ends a b rs)) = a"
    using assms ne by (simp add: stretch_ends_def Let_def hd_conv_nth nth_list_update)
  show "snd (last (stretch_ends a b rs)) = b"
    using assms ne by (simp add: stretch_ends_def Let_def last_conv_nth)
  show "Suc i < length rs \<Longrightarrow> snd (stretch_ends a b rs ! i) = snd (rs ! i)"
    using assms ne by (simp add: stretch_ends_def Let_def nth_list_update hd_conv_nth)
  show "0 < i \<Longrightarrow> i < length rs \<Longrightarrow> fst (stretch_ends a b rs ! i) = fst (rs ! i)"
    using assms ne by (simp add: stretch_ends_def Let_def nth_list_update last_conv_nth)
qed

text \<open>Whatever the footer of an input says, the slices it is read in start where its record says the
  file starts, end where it ends, and follow one another in order without overlap, so that no row is
  read twice.\<close>

theorem input_slices_partition_the_extent:
  "let rs = input_slices stats f in
     rs \<noteq> [] \<and> fst (hd rs) = sf_start f \<and> snd (last rs) = sf_end f \<and> ordered_slices rs"
proof (cases "Option.bind stats those")
  case None
  then show ?thesis by (simp add: input_slices_def ordered_slices_def pairwise_def)
next
  case (Some extents)
  define rs where "rs = sort (map (\<lambda>(lo, hi). (lo, hi + 1)) extents)"
  show ?thesis
  proof (cases "length rs < 2 \<or> \<not> pairwise (\<lambda>x y. snd x \<le> fst y) rs")
    case True
    with Some show ?thesis by (simp add: input_slices_def ordered_slices_def pairwise_def rs_def Let_def)
  next
    case False
    then have len: "2 \<le> length rs" and ord: "pairwise (\<lambda>x y. snd x \<le> fst y) rs" by auto
    have eq: "input_slices stats f = stretch_ends (sf_start f) (sf_end f) rs"
      using Some False by (simp add: input_slices_def rs_def Let_def)
    have "ordered_slices (stretch_ends (sf_start f) (sf_end f) rs)"
      using ord unfolding ordered_slices_def pairwise_nth
      by (simp add: stretch_ends_simps [OF len])
    moreover have "stretch_ends (sf_start f) (sf_end f) rs \<noteq> []"
      using stretch_ends_simps(1) [OF len, of "sf_start f" "sf_end f"] len by auto
    ultimately show ?thesis using eq stretch_ends_simps(2,3) [OF len] by simp
  qed
qed

end
