(* ===== verification/Publishing.thy ===== *)
theory Publishing
  imports Eviction Seal_Pass
begin

text \<open>
  Publishing (\<^verbatim>\<open>src/litelink/_handle.py\<close>: \<open>_publish_lease\<close>, \<open>_settled\<close>, \<open>_push\<close>, \<open>_swap_merged\<close>,
  \<open>_record_published_row\<close>; \<^verbatim>\<open>src/litelink/_table.py\<close>: \<open>data_files\<close>, \<open>put\<close>, \<open>uri\<close>, \<open>register\<close> with a start,
  \<open>_refuse_straddle\<close>, \<open>replace_range\<close>). A push is the list of its transactions, uploads and commits, so
  that the states a crash, a lost claim or an error can leave are those after its prefixes. A later
  phase of a push is decided on the state the earlier ones leave. Stamping the log's shape and the
  metadata settings on the published table is left out: no other step reads them.

  Both tables are the lists of their data files with the rows registered; a file once written is
  not changed, so uploading a staged file copies the rows its table has for it.
\<close>

subsection \<open>What a push works on\<close>

record 'r push_world =
  pw_db :: "'r db"
  pw_staging :: "'r Seal_Pass.data_file list"
  pw_published :: "'r Seal_Pass.data_file list"
  pw_objects :: "path \<rightharpoonup> (offset \<times> 'r) list"   \<comment> \<open>uploaded files\<close>
  pw_issued :: "int option"                      \<comment> \<open>the published table's issued property\<close>

text \<open>Its arguments, and what it is given from outside: the location of the published table, the size of
  a file, and the name pyiceberg gives the rest of a file it rewrites.\<close>

record 'b pushing =
  pu_seen :: "'b seen"
  pu_bounds :: "icetype \<Rightarrow> 'b \<Rightarrow> pyval"
  pu_home :: path
  pu_size :: "path \<Rightarrow> int"
  pu_rewritten :: "path \<Rightarrow> path"
  pu_flush :: bool
  pu_finish :: bool
  pu_bound :: "offset option"

definition described :: "(path \<Rightarrow> int) \<Rightarrow> 'r Seal_Pass.data_file \<Rightarrow> staged_file" where
  "described bytes f =
     \<lparr>sf_path = fst f, sf_size = bytes (fst f), sf_rows = int (length (snd f)),
      sf_start = the (list_min (map fst (snd f))), sf_end = the (list_max (map fst (snd f))) + 1\<rparr>"

definition data_files :: "(path \<Rightarrow> int) \<Rightarrow> 'r Seal_Pass.data_file list \<Rightarrow> staged_file list" where
  "data_files bytes fs = sort_key sf_start (map (described bytes) fs)"

definition staging_files :: "'b pushing \<Rightarrow> 'r push_world \<Rightarrow> staged_file list" where
  "staging_files pu w = data_files (pu_size pu) (pw_staging w)"

definition file_uri :: "path \<Rightarrow> path \<Rightarrow> path" where
  "file_uri home rel = boundary home @ rel"

definition file_rel :: "'b pushing \<Rightarrow> staged_file \<Rightarrow> path" where
  "file_rel pu f = the (relative (se_layout (pu_seen pu)) (sf_path f))"

definition copy_of :: "'b pushing \<Rightarrow> staged_file \<Rightarrow> path" where
  "copy_of pu f = file_uri (pu_home pu) (file_rel pu f)"

definition published_floor :: "'r Seal_Pass.data_file list \<Rightarrow> offset" where
  "published_floor fs = (case table_span fs of None \<Rightarrow> 0 | Some (lo, hi) \<Rightarrow> hi)"

text \<open>What a file holds uncompressed, as far as it was recorded.\<close>

definition memory :: "layout \<Rightarrow> 'r db \<Rightarrow> (path \<times> int) list" where
  "memory l d = map (\<lambda>(key, n). (if remote key then key else absolute_text (absolute l key), n)) (file_bytes d)"

definition memory_of :: "(path \<times> int) list \<Rightarrow> staged_file \<Rightarrow> int" where
  "memory_of known f = (case map_of (rev known) (sf_path f) of None \<Rightarrow> sf_size f | Some n \<Rightarrow> n)"

subsection \<open>Steps\<close>

type_synonym 'r push_step = "'r push_world \<Rightarrow> 'r push_world option"

definition do_db :: "('r db \<Rightarrow> 'r db) \<Rightarrow> 'r push_step" where
  "do_db f w = Some (w\<lparr>pw_db := f (pw_db w)\<rparr>)"

definition try_db :: "('r db \<Rightarrow> 'r db option) \<Rightarrow> 'r push_step" where
  "try_db f w = map_option (\<lambda>d. w\<lparr>pw_db := d\<rparr>) (f (pw_db w))"

fun run_push :: "'r push_step list \<Rightarrow> 'r push_world \<Rightarrow> 'r push_world option" where
  "run_push [] w = Some w"
| "run_push (s # ss) w = (case s w of None \<Rightarrow> None | Some w' \<Rightarrow> run_push ss w')"

definition and_then ::
  "'r push_step list \<Rightarrow> ('r push_world \<Rightarrow> 'r push_step list) \<Rightarrow> 'r push_world \<Rightarrow> 'r push_step list" where
  "and_then ss f w = ss @ (case run_push ss w of None \<Rightarrow> [] | Some w' \<Rightarrow> f w')"

text \<open>\<open>put\<close>; None where the local file is gone.\<close>

definition put_step :: "path \<Rightarrow> path \<Rightarrow> 'r push_step" where
  "put_step u p w =
     map_option (\<lambda>rows. w\<lparr>pw_objects := (pw_objects w)(u \<mapsto> rows)\<rparr>) (map_of (pw_staging w) p)"

text \<open>\<open>add_files\<close>: each file read where it was uploaded; None for one that is missing or in the table
  already.\<close>

definition add_files ::
  "(path \<rightharpoonup> (offset \<times> 'r) list) \<Rightarrow> path list \<Rightarrow> 'r Seal_Pass.data_file list \<Rightarrow> 'r Seal_Pass.data_file list option" where
  "add_files objects us fs =
     (if (\<exists>u \<in> set us. u \<in> fst ` set fs \<or> objects u = None) \<or> \<not> distinct us then None
      else Some (fs @ map (\<lambda>u. (u, the (objects u))) us))"

definition straddles_span :: "offset \<Rightarrow> 'r Seal_Pass.data_file list \<Rightarrow> bool" where
  "straddles_span start fs \<longleftrightarrow> (case table_span fs of None \<Rightarrow> False | Some (lo, hi) \<Rightarrow> start < hi)"

text \<open>What the log has issued, recorded with the rows that land.\<close>

definition issued_now :: "'r push_world \<Rightarrow> int option" where
  "issued_now w = Some (next_offset (pw_db w) - 1)"

definition declined :: "offset \<Rightarrow> 'r Seal_Pass.data_file list \<Rightarrow> bool" where
  "declined past fs \<longleftrightarrow> covers fs past \<or> past \<le> 1"

definition register_step :: "offset \<Rightarrow> offset \<Rightarrow> path list \<Rightarrow> 'r push_step" where
  "register_step start past us w =
     (if declined past (pw_published w) then Some w
      else if straddles_span start (pw_published w) then None
      else map_option (\<lambda>fs. w\<lparr>pw_published := fs, pw_issued := issued_now w\<rparr>)
             (add_files (pw_objects w) us (pw_published w)))"

text \<open>The delete half of \<open>replace_range\<close>: whole files go, and one cut by the range is rewritten.\<close>

definition rows_out :: "(path \<Rightarrow> path) \<Rightarrow> offset \<Rightarrow> offset \<Rightarrow> 'r Seal_Pass.data_file \<Rightarrow> 'r Seal_Pass.data_file list" where
  "rows_out rewritten a b f =
     (let kept = filter (\<lambda>(i, r). \<not> in_span a b i) (snd f) in
      if kept = snd f then [f] else if kept = [] then [] else [(rewritten (fst f), kept)])"

definition replace_step :: "(path \<Rightarrow> path) \<Rightarrow> offset \<Rightarrow> offset \<Rightarrow> path \<Rightarrow> 'r push_step" where
  "replace_step rewritten a b u w =
     map_option (\<lambda>fs. w\<lparr>pw_published := fs, pw_issued := issued_now w\<rparr>)
       (add_files (pw_objects w) [u] (concat (map (rows_out rewritten a b) (pw_published w))))"

subsection \<open>The tier row\<close>

definition has_row :: "'r db \<Rightarrow> bool" where
  "has_row d \<longleftrightarrow> load_published None d \<noteq> None"

definition record_row :: "'b pushing \<Rightarrow> 'r push_step" where
  "record_row pu w =
     (let v = pu_seen pu;
          below = (\<lambda>f. case table_span (pw_staging w) of None \<Rightarrow> True
            | Some (lo, hi) \<Rightarrow> fst (the (file_span (pu_bounds pu) (se_ice v) f)) < lo)
      in try_db (replace_published (se_schema v) (rollup (pu_bounds pu) None (se_ice v) (filter below (se_live v)))) w)"

subsection \<open>Reconciling\<close>

definition confirm_step :: "int \<Rightarrow> path list \<Rightarrow> 'r push_step" where
  "confirm_step through landed = try_db (confirm_published through landed)"

definition reconcile_steps :: "'b pushing \<Rightarrow> 'r push_world \<Rightarrow> 'r push_step list" where
  "reconcile_steps pu w =
     (let base = (case list_min (map sf_start (staging_files pu w)) of None \<Rightarrow> 0 | Some b \<Rightarrow> b);
          held = sf_path ` set (filter (\<lambda>f. base < sf_end f) (data_files (pu_size pu) (pw_published w)));
          intended = map fst (intents (pu_home pu) (pw_db w))
      in confirm_step (published_floor (pw_published w) - 1) (filter (\<lambda>p. p \<in> held) intended) #
         map (\<lambda>p. do_db (forget_intent p)) (filter (\<lambda>p. p \<notin> held) intended))"

subsection \<open>Swapping merged files in\<close>

definition straddles :: "offset \<Rightarrow> staged_file \<Rightarrow> bool" where
  "straddles b f \<longleftrightarrow> sf_start f < b \<and> b < sf_end f"

definition swap_candidates :: "'b pushing \<Rightarrow> offset \<Rightarrow> 'r push_world \<Rightarrow> staged_file list" where
  "swap_candidates pu b w =
     (let fs = staging_files pu w; owed = awaiting_swaps (pw_db w);
          u = unsettled_from (se_config (pu_seen pu)) fs
      in map snd (filter (\<lambda>(i, f). (file_rel pu f \<in> owed \<or> straddles b f) \<and>
           (pu_finish pu \<or> i < u \<or> pu_flush pu \<and> straddles b f)) (enumerate 0 fs)))"

definition replaced_by :: "staged_file list \<Rightarrow> staged_file \<Rightarrow> staged_file list" where
  "replaced_by old f = filter (\<lambda>g. sf_start f < sf_end g \<and> sf_start g < sf_end f) old"

definition lines_up :: "staged_file \<Rightarrow> staged_file list \<Rightarrow> bool" where
  "lines_up f gs \<longleftrightarrow> gs \<noteq> [] \<and> \<not> (\<exists>g \<in> set gs. sf_start g < sf_start f \<or> sf_end f < sf_end g)"

text \<open>Whether a candidate is swapped in, rather than let off because it is in already or does not line up.\<close>

definition swaps_in :: "'b pushing \<Rightarrow> staged_file list \<Rightarrow> staged_file \<Rightarrow> bool" where
  "swaps_in pu old f \<longleftrightarrow> copy_of pu f \<notin> sf_path ` set (replaced_by old f) \<and> lines_up f (replaced_by old f)"

definition swap_steps :: "'b pushing \<Rightarrow> (path \<times> int) list \<Rightarrow> staged_file list \<Rightarrow> staged_file \<Rightarrow> 'r push_step list" where
  "swap_steps pu known old f =
     (let u = copy_of pu f; gone = map sf_path (replaced_by old f) in
      if \<not> swaps_in pu old f then [do_db (clear_swap (file_rel pu f))]
      else [do_db (intend_file u (sf_start f) (sf_end f) (memory_of known f)),
            put_step u (sf_path f),
            do_db (enqueue_deletions gone (seconds (se_now (pu_seen pu)))),
            replace_step (pu_rewritten pu) (sf_start f) (sf_end f) u,
            do_db (restamp_deletions gone (seconds (se_commit (pu_seen pu)))),
            confirm_step (sf_end f - 1) [u],
            do_db (clear_swap (file_rel pu f))])"

definition swap_floor :: "'b pushing \<Rightarrow> staged_file list \<Rightarrow> staged_file list \<Rightarrow> offset \<Rightarrow> offset" where
  "swap_floor pu old fs b = fold (\<lambda>f x. if swaps_in pu old f then max x (sf_end f) else x) fs b"

subsection \<open>Pushing what is above the floor\<close>

definition settled_count :: "'b pushing \<Rightarrow> staged_file list \<Rightarrow> 'r push_world \<Rightarrow> nat" where
  "settled_count pu todo w =
     (if pu_flush pu then length todo
      else let fs = staging_files pu w;
               u = unsettled_from (se_config (pu_seen pu)) fs;
               frozen = published_prefix todo True (pw_db w)
           in length (takeWhile (\<lambda>f. sf_end f \<le> frozen \<or> length fs \<le> u \<or> sf_end f \<le> sf_start (fs ! u)) todo))"

definition above_floor :: "'b pushing \<Rightarrow> offset \<Rightarrow> 'r push_world \<Rightarrow> staged_file list" where
  "above_floor pu b w = filter (\<lambda>f. b < sf_end f) (staging_files pu w)"

definition to_push :: "'b pushing \<Rightarrow> offset \<Rightarrow> 'r push_world \<Rightarrow> staged_file list" where
  "to_push pu b w =
     (let todo = above_floor pu b w; taken = take (settled_count pu todo w) todo
      in case pu_bound pu of None \<Rightarrow> taken | Some past \<Rightarrow> takeWhile (\<lambda>f. sf_end f \<le> past) taken)"

definition upload_steps :: "'b pushing \<Rightarrow> (path \<times> int) list \<Rightarrow> staged_file \<Rightarrow> 'r push_step list" where
  "upload_steps pu known f =
     [do_db (intend_file (copy_of pu f) (sf_start f) (sf_end f) (memory_of known f)),
      put_step (copy_of pu f) (sf_path f)]"

definition push_files :: "'b pushing \<Rightarrow> (path \<times> int) list \<Rightarrow> offset \<Rightarrow> 'r push_world \<Rightarrow> 'r push_step list" where
  "push_files pu known b w =
     (case to_push pu b w of
        [] \<Rightarrow> []
      | f # fs \<Rightarrow>
          let us = map (copy_of pu) (f # fs); past = sf_end (last (f # fs))
          in concat (map (upload_steps pu known) (f # fs)) @ [register_step (sf_start f) past us] @
             (if declined past (pw_published w) then [] else [confirm_step (past - 1) us]))"

subsection \<open>The push\<close>

definition push :: "'b pushing \<Rightarrow> 'r push_world \<Rightarrow> 'r push_step list" where
  "push pu w =
     (if \<not> has_row (pw_db w) \<and> pu_bound pu \<noteq> None then []
      else and_then (if has_row (pw_db w) then [] else [record_row pu]) (\<lambda>w1.
        and_then (reconcile_steps pu w1) (\<lambda>w2.
          let b = published_floor (pw_published w2);
              known = memory (se_layout (pu_seen pu)) (pw_db w2);
              old = data_files (pu_size pu) (pw_published w2);
              fs = swap_candidates pu b w2
          in and_then (concat (map (swap_steps pu known old) fs))
               (push_files pu known (swap_floor pu old fs b)) w2) w1) w)"

text \<open>The claim a publish takes and the bound of its push. \<open>opens\<close>: the published table could be opened.\<close>

definition publish_claim :: "'b pushing \<Rightarrow> bool \<Rightarrow> 'r push_world \<Rightarrow> (offset \<times> offset) \<times> offset option" where
  "publish_claim pu opens w =
     (if \<not> has_row (pw_db w) \<or> \<not> opens then ((0, EVERYTHING), None)
      else let b = published_floor (pw_published w);
               todo = above_floor pu b w;
               n = settled_count pu todo w;
               e0 = (if n = 0 then b + 1 else sf_end (todo ! (n - 1)));
               e = fold (\<lambda>f. max (sf_end f)) (filter (\<lambda>f. sf_start f < b) todo) e0
           in ((b, max e (b + 1)), Some e))"

end
