(* ===== verification/Seal_Order.thy ===== *)
theory Seal_Order
  imports Seal_Contract
begin

text \<open>
  The order of the seal queue: groups wait in the order of their offsets, each ends right after a row it
  holds, and every operation only adds groups behind the others or takes some out.
\<close>

definition queued :: "'r db \<Rightarrow> extent list" where
  "queued d = filter queued_extent (db_extents d)"

definition queue_sorted :: "extent list \<Rightarrow> bool" where
  "queue_sorted C \<longleftrightarrow> sorted_wrt (\<lambda>x y. snd (range_of x) \<le> fst (range_of y)) C"

definition ends_on_row :: "(offset \<times> 'r) set \<Rightarrow> offset \<times> offset \<Rightarrow> bool" where
  "ends_on_row L g \<longleftrightarrow> (\<exists>r. (snd g - 1, r) \<in> L)"

lemma ends_on_row_mono: "ends_on_row L g \<Longrightarrow> L \<subseteq> L' \<Longrightarrow> ends_on_row L' g"
  by (auto simp: ends_on_row_def)

lemma queue_sorted_filter: "queue_sorted C \<Longrightarrow> queue_sorted (filter P C)"
  by (simp add: queue_sorted_def sorted_wrt_filter)

lemma queue_sorted_snoc:
  "queue_sorted C \<Longrightarrow> \<forall>y \<in> set C. snd (range_of y) \<le> fst (range_of x) \<Longrightarrow> queue_sorted (C @ [x])"
  by (auto simp: queue_sorted_def sorted_wrt_append)

text \<open>The operations that cut groups: what they add.\<close>

definition queue_grows :: "'r db \<Rightarrow> 'r db \<Rightarrow> bool" where
  "queue_grows d d' \<longleftrightarrow> (\<exists>N. queued d' = queued d @ N \<and>
     (queue_sorted (queued d) \<longrightarrow> queue_sorted (queued d')) \<and>
     (\<forall>x \<in> set N. ends_on_row (set (db_rows d')) (range_of x)))"

lemma queue_grows_refl: "queued d' = queued d \<Longrightarrow> queue_grows d d'"
  unfolding queue_grows_def by (intro exI [of _ "[]"]) simp

lemma queued_shape: "queue_shape d C e \<Longrightarrow> queued d = C"
  by (simp add: queued_def filter_open_shape)

lemma start_above:
  assumes "queue_good rows hi (F @ map range_of C) (Some s)" and "y \<in> set C"
  shows "snd (range_of y) \<le> s"
proof -
  obtain a b where y: "range_of y = (a, b)" by fastforce
  then have "(a, b) \<in> set (F @ map range_of C)" using assms(2) by (auto intro: rev_image_eqI)
  with assms(1) y show ?thesis unfolding queue_good_def by auto
qed

lemma row_step_order:
  assumes a: "appending F C g d" and r: "row_step c sz r g d = (i, g2, d2)"
  shows "\<exists>N. appending F (C @ N) g2 d2 \<and> db_rows d2 = db_rows d @ [(i, r)] \<and>
    (queue_sorted C \<longrightarrow> queue_sorted (C @ N)) \<and> (\<forall>x \<in> set N. ends_on_row (set (db_rows d2)) (range_of x))"
proof -
  obtain j d1 where ins: "insert_row r d = (j, d1)" by fastforce
  let ?g = "grow sz j r g"
  let ?s = "started j (gr_start g)"
  from appending_row [OF a ins, of sz] have a1: "appending F C ?g d1"
    and j: "seq_of d1 = j" "db_rows d1 = db_rows d @ [(j, r)]"
    by auto
  from r ins have ij: "i = j" by (auto simp: row_step_def)
  show ?thesis
  proof (cases "full c j ?g")
    case False
    with r ins have "g2 = ?g" "d2 = d1" by (auto simp: row_step_def)
    then show ?thesis using a1 j ij by (intro exI [of _ "[]"]) simp
  next
    case True
    with r ins have "cut_group ?g (seq_of d1) d1 = (g2, d2)" by (auto simp: row_step_def j)
    from appending_cut [OF a1 _ this, of ?s] obtain x where
      x: "appending F (C @ [x]) g2 d2" "range_of x = (?s, j + 1)" "db_rows d2 = db_rows d1"
      by (auto simp: j)
    have "queue_good (db_rows d1) (seq_of d1) (F @ map range_of C) (Some ?s)"
      using a1 by (simp add: appending_def)
    then have "\<forall>y \<in> set C. snd (range_of y) \<le> fst (range_of x)" using x(2) by (auto dest: start_above)
    moreover have "ends_on_row (set (db_rows d2)) (range_of x)" using x j by (auto simp: ends_on_row_def)
    ultimately show ?thesis using x j ij by (intro exI [of _ "[x]"]) (simp add: queue_sorted_snoc)
  qed
qed

lemma append_loop_order:
  assumes "append_loop c sz rows g d = Inr (os, g', d')" and "appending F C g d"
  shows "\<exists>N. appending F (C @ N) g' d' \<and> set (db_rows d) \<subseteq> set (db_rows d') \<and>
    (queue_sorted C \<longrightarrow> queue_sorted (C @ N)) \<and> (\<forall>x \<in> set N. ends_on_row (set (db_rows d')) (range_of x))"
  using assms
proof (induction rows arbitrary: g d os C)
  case Nil
  then show ?case by (intro exI [of _ "[]"]) auto
next
  case (Cons x rows)
  then obtain r where x: "x = Inr r" by (cases x) (auto split: if_splits)
  obtain i g2 d2 where step: "row_step c sz r g d = (i, g2, d2)" by (metis prod_cases3)
  from Cons.prems(1) x step obtain os' where loop: "append_loop c sz rows g2 d2 = Inr (os', g', d')"
    by (auto simp: append_loop_Inr simp del: append_loop.simps(3) split: if_splits sum.splits)
  from row_step_order [OF Cons.prems(2) step] obtain N where
    N: "appending F (C @ N) g2 d2" "db_rows d2 = db_rows d @ [(i, r)]"
      "queue_sorted C \<longrightarrow> queue_sorted (C @ N)" "\<forall>x \<in> set N. ends_on_row (set (db_rows d2)) (range_of x)"
    by blast
  from Cons.IH [OF loop N(1)] obtain M where
    M: "appending F ((C @ N) @ M) g' d'" "set (db_rows d2) \<subseteq> set (db_rows d')"
      "queue_sorted (C @ N) \<longrightarrow> queue_sorted ((C @ N) @ M)"
      "\<forall>x \<in> set M. ends_on_row (set (db_rows d')) (range_of x)"
    by blast
  have "\<forall>x \<in> set (N @ M). ends_on_row (set (db_rows d')) (range_of x)"
    using N(4) M(2,4) unfolding ends_on_row_def set_append by blast
  with N M show ?case by (intro exI [of _ "N @ M"]) auto
qed

lemma appending_queued: "appending F C g d \<Longrightarrow> queued (write_group g None d) = C"
  using shape_write_open queued_shape by (fastforce simp: appending_def)

lemma append_order:
  assumes inv: "queue_inv (d, F)" and a: "append_rows c sz rows d = (res, d')"
  shows "queue_grows d d'"
proof (cases res)
  case (Inl e)
  with a have "d' = d" by (simp add: append_Inl)
  then show ?thesis by (simp add: queue_grows_refl)
next
  case (Inr os)
  from inv obtain C e where s: "queue_shape d C e"
    and good: "queue_good (db_rows d) (seq_of d) (F @ map range_of C) (ex_start e)"
    by (auto simp: queue_inv_def)
  have app: "appending F C (group_of e) d" using s good by (auto simp: appending_def group_of_def)
  from a Inr read_group_shape [OF s] obtain g' d1 where
    loop: "append_loop c sz rows (group_of e) d = Inr (os, g', d1)" and d': "d' = write_group g' None d1"
    by (auto simp: append_rows_def split: sum.splits)
  from append_loop_order [OF loop app] obtain N where
    N: "appending F (C @ N) g' d1" "queue_sorted C \<longrightarrow> queue_sorted (C @ N)"
      "\<forall>x \<in> set N. ends_on_row (set (db_rows d1)) (range_of x)" by blast
  have "db_rows d' = db_rows d1" by (simp add: d' write_group_def)
  with N appending_queued [OF N(1)] queued_shape [OF s] show ?thesis
    unfolding queue_grows_def by (intro exI [of _ N]) (simp add: d')
qed

lemma close_order:
  assumes inv: "queue_inv (d, F)" and c: "close_open_group d = (ok, d')"
  shows "queue_grows d d'"
proof (cases "\<exists>x \<in> set (db_extents d). closable d x")
  case False
  with c have "d' = d" by (simp add: close_open_group_def)
  then show ?thesis by (simp add: queue_grows_refl)
next
  case True
  from inv obtain C e where s: "queue_shape d C e"
    and good: "queue_good (db_rows d) (seq_of d) (F @ map range_of C) (ex_start e)"
    by (auto simp: queue_inv_def)
  from True closable_only [OF s] have e: "closable d e" by blast
  then obtain st i r where st: "ex_start e = Some st" "(i, r) \<in> set (db_rows d)"
    by (auto simp: closable_def split: option.splits)
  then have "highest_row d \<noteq> None" by (auto simp: highest_row_def)
  then obtain h where h: "highest_row d = Some h" by auto
  then have top: "h \<in> set (map fst (db_rows d))" unfolding highest_row_def by (rule list_max_in)
  obtain g' d1 where cut: "cut_group (group_of e) h d = (g', d1)" by fastforce
  with close_is_cut [OF s e h] c have d1: "d1 = d'" by simp
  let ?x = "with_group (group_of e) (Some (h + 1)) e"
  from shape_cut [OF s _ cut] have sh: "queue_shape d' (C @ [?x]) (fresh_extent (gr_id g'))"
    and same: "db_rows d' = db_rows d"
    by (simp_all add: group_of_def d1)
  have x: "range_of ?x = (st, h + 1)" by (simp add: range_of_def with_group_def group_of_def st(1))
  have "queue_good (db_rows d) (seq_of d) (F @ map range_of C) (Some st)" using good st(1) by simp
  then have "\<forall>y \<in> set C. snd (range_of y) \<le> fst (range_of ?x)" using x by (auto dest: start_above)
  moreover have "ends_on_row (set (db_rows d')) (range_of ?x)" using x top same by (auto simp: ends_on_row_def)
  ultimately show ?thesis
    unfolding queue_grows_def queued_shape [OF s] queued_shape [OF sh]
    by (intro exI [of _ "[?x]"]) (simp add: queue_sorted_snoc)
qed

lemma ends_at_queued: "ends_at b x \<Longrightarrow> queued_extent x \<and> snd (range_of x) = b"
  by (simp add: ends_at_def queued_extent_def range_of_def)

lemma filed_by_queued: "filed_by b d = map range_of (filter (ends_at b) (queued d))"
  unfolding filed_by_def queued_def filter_filter
  by (rule arg_cong [where f = "map range_of"], rule filter_cong) (auto dest: ends_at_queued)

lemma finish_queued:
  assumes "finish_seal now b p d = Some (True, d')"
  shows "queued d' = filter (\<lambda>x. \<not> ends_at b x) (queued d)"
proof -
  have "filter queued_extent (map (\<lambda>e. if ends_at b e then e\<lparr>ex_path := Some p, ex_named := Some now\<rparr> else e) xs) =
      filter (\<lambda>x. \<not> ends_at b x) (filter queued_extent xs)" for xs
    by (induction xs) (auto simp: ends_at_def queued_extent_def)
  then show ?thesis using finish_simps [OF assms] by (simp add: queued_def)
qed

lemma finish_False:
  assumes "finish_seal now b p d = Some (False, d')"
  shows "d' = d"
proof -
  have same: "length (filter P xs) = length xs \<Longrightarrow> filter P xs = xs" for P and xs :: "(offset \<times> offset \<times> path) list"
    by (metis filter_id_conv length_filter_less less_irrefl)
  from assms show ?thesis by (auto simp: finish_seal_def Let_def dest: same split: if_splits)
qed

text \<open>The head of the queue.\<close>

lemma pending_group_head:
  assumes "pending_group d = Some g"
  obtains x C where "queued d = x # C" and "range_of x = g"
proof -
  obtain x where x: "find queued_extent (db_extents d) = Some x" "g = range_of x"
    using assms by (auto simp: pending_group_def range_of_def split: option.splits)
  have "find queued_extent xs = Some x \<Longrightarrow> \<exists>C. filter queued_extent xs = x # C" for xs
    by (induction xs) (auto split: if_splits)
  with x(1) obtain C where "queued d = x # C" unfolding queued_def by blast
  with x(2) show thesis by (intro that) simp_all
qed

lemma pending_group_None: "pending_group d = None \<longleftrightarrow> queued d = []"
proof (cases "find queued_extent (db_extents d)")
  case None
  then have "\<forall>x \<in> set (db_extents d). \<not> queued_extent x" by (simp add: find_None_all)
  with None show ?thesis by (simp add: pending_group_def queued_def filter_empty_conv)
next
  case (Some x)
  then show ?thesis by (auto simp: pending_group_def queued_def filter_empty_conv dest: find_SomeD)
qed

end
