(* ===== verification/Seal_System.thy ===== *)
theory Seal_System
  imports Seal_Pass Seal_Order
begin

text \<open>
  Any number of sealers at once, in any processes, with every other operation of a running log between
  any two of their transactions: appends and cuts, reserved offsets, publishing in its two commits (the
  published table first, the watermark in a transaction of its own after it, a crash between them
  included), evicting from the buffer and from the staging table, merging, draining the deletion queue. A sealer may stop anywhere and never return,
  with or without releasing its claim. Nothing is assumed of the clocks, so a lapsed claim may be taken
  over while its owner goes on. A bulk \<open>ingest\<close>, which claims the whole log and refuses any
  sealer, and \<open>truncate\<close>, which takes rows away by design, are not among them. The published table is its rows,
  \<open>sy_pub\<close>; the ghosts are every row ever appended (\<open>sy_log\<close>),
  the ranges of the groups whose seal finished, and the range each chosen path was chosen for.
\<close>

subsection \<open>The machine\<close>

record 'r seal_sys =
  sy_w :: "'r seal_world"
  sy_pc :: "nat \<Rightarrow> seal_pc"
  sy_log :: "(offset \<times> 'r) set"
  sy_pub :: "(offset \<times> 'r) set"
  sy_filed :: "(offset \<times> offset) list"
  sy_names :: "path \<rightharpoonup> offset \<times> offset"

abbreviation sy_db :: "'r seal_sys \<Rightarrow> 'r db" where "sy_db s \<equiv> sw_db (sy_w s)"
abbreviation sy_files :: "'r seal_sys \<Rightarrow> 'r data_file list" where "sy_files s \<equiv> sw_table (sy_w s)"

text \<open>The offsets below which everything is staged or published, for a published watermark \<open>k\<close>.\<close>

definition reached :: "'r data_file list \<Rightarrow> int \<Rightarrow> offset" where
  "reached fs k = (case table_span fs of None \<Rightarrow> k + 1 | Some (lo, hi) \<Rightarrow> max (k + 1) hi)"

fun chosen :: "seal_pc \<Rightarrow> (path \<times> offset \<times> offset) option" where
  "chosen (Naming c a b p) = Some (p, a, b)"
| "chosen (Renaming c r a b p) = Some (p, a, b)"
| "chosen _ = None"

text \<open>The token of a new path is random: the path is nobody's.\<close>

definition unused_name :: "seal_pc \<Rightarrow> 'r seal_sys \<Rightarrow> bool" where
  "unused_name pc s = (case chosen pc of None \<Rightarrow> True
     | Some (p, _) \<Rightarrow> sy_names s p = None \<and> p \<notin> fst ` set (sy_files s))"

definition note_name :: "seal_pc \<Rightarrow> (path \<rightharpoonup> offset \<times> offset) \<Rightarrow> path \<rightharpoonup> offset \<times> offset" where
  "note_name pc m = (case chosen pc of None \<Rightarrow> m | Some (p, g) \<Rightarrow> m(p \<mapsto> g))"

text \<open>The groups a step files: those \<open>finish_seal\<close> names.\<close>

definition files_now :: "seal_pc \<Rightarrow> tick \<Rightarrow> 'r db \<Rightarrow> (offset \<times> offset) list" where
  "files_now pc t d = (case pc of
     Finishing c r b p \<Rightarrow> (case finish_seal (tk_seconds t) b p d of Some (True, _) \<Rightarrow> filed_by b d | _ \<Rightarrow> [])
   | _ \<Rightarrow> [])"

inductive seal_step ::
  "layout \<Rightarrow> ((offset \<times> 'r) list \<Rightarrow> (offset \<times> 'r) list) \<Rightarrow> 'r seal_sys \<Rightarrow> 'r seal_sys \<Rightarrow> bool"
  for l arrange where
  s_seal: "seal_next l arrange t (sy_pc s i) (sy_w s) = (pc, w) \<Longrightarrow> unused_name pc s \<Longrightarrow>
    seal_step l arrange s (s\<lparr>sy_w := w, sy_pc := (sy_pc s)(i := pc),
      sy_filed := sy_filed s @ files_now (sy_pc s i) t (sy_db s), sy_names := note_name pc (sy_names s)\<rparr>)"
| s_stop: "pc \<in> {Ready, Opening, Returned Seal_raised} \<union> {Releasing c Seal_raised | c. True} \<Longrightarrow>
    seal_step l arrange s (s\<lparr>sy_pc := (sy_pc s)(i := pc)\<rparr>)"
| s_append: "append_rows c sz (rows :: ((bool \<times> string) + 'r) list) (sy_db s) = (res, d) \<Longrightarrow>
    seal_step l arrange s (s\<lparr>sy_w := (sy_w s)\<lparr>sw_db := d\<rparr>, sy_log := sy_log s \<union> set (db_rows d)\<rparr>)"
| s_close: "close_open_group (sy_db s) = (ok, d) \<Longrightarrow>
    seal_step l arrange s (s\<lparr>sy_w := (sy_w s)\<lparr>sw_db := d\<rparr>\<rparr>)"
| s_reserve: "reserve n (sy_db s) = Some (sp, d) \<Longrightarrow>
    seal_step l arrange s (s\<lparr>sy_w := (sy_w s)\<lparr>sw_db := d\<rparr>\<rparr>)"
| s_register: "published_through (sy_db s) = Some m \<Longrightarrow> k < reached (sy_files s) m \<Longrightarrow>
    seal_step l arrange s (s\<lparr>sy_pub := sy_pub s \<union> {(i, r) \<in> set (table_rows (sy_files s)). i \<le> k}\<rparr>)"
| s_confirm: "published_through (sy_db s) = Some k \<Longrightarrow> published_through d = Some k' \<Longrightarrow>
    k \<le> k' \<Longrightarrow> k' = k \<or> k' \<in> fst ` sy_pub s \<Longrightarrow>
    db_rows d = db_rows (sy_db s) \<Longrightarrow> db_seq d = db_seq (sy_db s) \<Longrightarrow> unnamed d = unnamed (sy_db s) \<Longrightarrow>
    ids_ok d \<Longrightarrow> db_sealing d = db_sealing (sy_db s) \<Longrightarrow>
    seal_step l arrange s (s\<lparr>sy_w := (sy_w s)\<lparr>sw_db := d\<rparr>\<rparr>)"
| s_evict_rows: "evict_rows a b (sy_db s) = (n, d) \<Longrightarrow> published_through (sy_db s) = Some k \<Longrightarrow> b \<le> k + 1 \<Longrightarrow>
    seal_step l arrange s (s\<lparr>sy_w := (sy_w s)\<lparr>sw_db := d\<rparr>\<rparr>)"
| s_evict_files: "published_through (sy_db s) = Some k \<Longrightarrow>
    \<forall>(i, r) \<in> set (table_rows (filter (\<lambda>f. \<not> K f) (sy_files s))). i \<le> k \<Longrightarrow>
    seal_step l arrange s (s\<lparr>sy_w := (sy_w s)\<lparr>sw_table := filter K (sy_files s)\<rparr>\<rparr>)"
| s_merge: "sy_names s p = None \<Longrightarrow> mset rows = mset (table_rows (filter (\<lambda>f. \<not> K f) (sy_files s))) \<Longrightarrow>
    seal_step l arrange s (s\<lparr>sy_w := (sy_w s)\<lparr>sw_table := filter K (sy_files s) @ [(p, rows)]\<rparr>\<rparr>)"
| s_drain: "seal_step l arrange s (s\<lparr>sy_w := (sy_w s)\<lparr>sw_disk := (sw_disk (sy_w s))(p := None)\<rparr>\<rparr>)"

text \<open>A log as it is created, with nothing under way.\<close>

definition seal_init :: "'r seal_sys \<Rightarrow> bool" where
  "seal_init s \<longleftrightarrow> queue_init (sy_db s, []) \<and> published_through (sy_db s) = Some 0 \<and>
     db_sealing (sy_db s) = [] \<and> sy_files s = [] \<and> (\<forall>i. sy_pc s i = Returned Nothing_sealed) \<and>
     sy_log s = {} \<and> sy_pub s = {} \<and> sy_filed s = [] \<and> sy_names s = Map.empty"

subsection \<open>The invariant\<close>

definition ranges :: "'r seal_sys \<Rightarrow> (offset \<times> offset) list" where
  "ranges s = sy_filed s @ map range_of (queued (sy_db s))"

definition mark :: "'r seal_sys \<Rightarrow> int" where
  "mark s = the (published_through (sy_db s))"

definition edge :: "'r seal_sys \<Rightarrow> offset" where
  "edge s = reached (sy_files s) (mark s)"

definition log_ok :: "'r seal_sys \<Rightarrow> bool" where
  "log_ok s \<longleftrightarrow> published_through (sy_db s) \<noteq> None \<and> mark s \<le> seq_of (sy_db s) \<and>
     (\<forall>i r. (i, r) \<in> sy_log s \<longrightarrow> i \<le> seq_of (sy_db s)) \<and>
     (\<forall>i r r'. (i, r) \<in> sy_log s \<longrightarrow> (i, r') \<in> sy_log s \<longrightarrow> r = r') \<and>
     set (db_rows (sy_db s)) \<subseteq> sy_log s \<and>
     (\<forall>i r. (i, r) \<in> sy_log s \<longrightarrow> i \<le> mark s \<longrightarrow> (i, r) \<in> sy_pub s) \<and>
     (\<forall>i r. (i, r) \<in> sy_log s \<longrightarrow> mark s < i \<longrightarrow> (i, r) \<in> set (db_rows (sy_db s)))"

text \<open>The published table holds every appended row up to its last one, and none past what is staged or
  published; the watermark may trail it.\<close>

definition pub_ok :: "'r seal_sys \<Rightarrow> bool" where
  "pub_ok s \<longleftrightarrow> sy_pub s \<subseteq> sy_log s \<and> (\<forall>i r. (i, r) \<in> sy_pub s \<longrightarrow> i < edge s) \<and>
     (\<forall>i r j q. (i, r) \<in> sy_log s \<longrightarrow> (j, q) \<in> sy_pub s \<longrightarrow> i \<le> j \<longrightarrow> (i, r) \<in> sy_pub s)"

definition queue_ok :: "'r seal_sys \<Rightarrow> bool" where
  "queue_ok s \<longleftrightarrow> queue_inv (sy_db s, sy_filed s) \<and> queue_sorted (queued (sy_db s)) \<and>
     (\<forall>g \<in> set (ranges s). ends_on_row (sy_log s) g)"

text \<open>A file holds whole groups, as far as their last rows go.\<close>

definition whole_groups :: "(offset \<times> offset) list \<Rightarrow> (offset \<times> 'r) list \<Rightarrow> bool" where
  "whole_groups R rows \<longleftrightarrow>
     (\<forall>i \<in> fst ` set rows. \<exists>(a, b) \<in> set R. in_span a b i \<and> b - 1 \<in> fst ` set rows)"

definition table_ok :: "'r seal_sys \<Rightarrow> bool" where
  "table_ok s \<longleftrightarrow> set (table_rows (sy_files s)) \<subseteq> sy_log s \<and> distinct (map fst (table_rows (sy_files s))) \<and>
     (\<forall>p rows. (p, rows) \<in> set (sy_files s) \<longrightarrow> whole_groups (ranges s) rows) \<and>
     (\<forall>i r. (i, r) \<in> sy_log s \<longrightarrow> i < edge s \<longrightarrow> i \<le> mark s \<or> (i, r) \<in> set (table_rows (sy_files s))) \<and>
     (\<forall>a b. (a, b) \<in> set (sy_filed s) \<longrightarrow> b \<le> edge s)"

definition sealable :: "'r seal_sys \<Rightarrow> offset \<Rightarrow> offset \<Rightarrow> bool" where
  "sealable s a b \<longleftrightarrow> (a, b) \<in> set (ranges s) \<and> (\<forall>i r. (i, r) \<in> sy_log s \<longrightarrow> i < a \<longrightarrow> i < edge s)"

definition names_ok :: "'r seal_sys \<Rightarrow> bool" where
  "names_ok s \<longleftrightarrow>
     (\<forall>a b p. (a, b, p) \<in> set (db_sealing (sy_db s)) \<longrightarrow> sy_names s p = Some (a, b) \<and> sealable s a b) \<and>
     (\<forall>p a b. p \<in> fst ` set (sy_files s) \<longrightarrow> sy_names s p = Some (a, b) \<longrightarrow> b \<le> edge s)"

text \<open>A file written for \<open>[a, b)\<close> holds every row of it that was not published by \<open>k\<close>.\<close>

definition written :: "'r seal_sys \<Rightarrow> offset \<Rightarrow> offset \<Rightarrow> path \<Rightarrow> int \<Rightarrow> bool" where
  "written s a b p k \<longleftrightarrow> (\<forall>rows. sw_disk (sy_w s) p = Some rows \<longrightarrow>
     set rows \<subseteq> sy_log s \<and> distinct (map fst rows) \<and> (\<forall>i \<in> fst ` set rows. in_span a b i) \<and>
     (\<forall>i r. (i, r) \<in> sy_log s \<longrightarrow> in_span a b i \<longrightarrow> k < i \<longrightarrow> (i, r) \<in> set rows))"

fun pc_ok :: "'r seal_sys \<Rightarrow> seal_pc \<Rightarrow> bool" where
  "pc_ok s (Peeked a b) = sealable s a b"
| "pc_ok s (Leased c a b) = sealable s a b"
| "pc_ok s (Headed c a b) = sealable s a b"
| "pc_ok s (Naming c a b p) = (sealable s a b \<and> sy_names s p = Some (a, b))"
| "pc_ok s (Renew_first c a b p) = (sealable s a b \<and> sy_names s p = Some (a, b))"
| "pc_ok s (Resolving c r a b p) = (sealable s a b \<and> sy_names s p = Some (a, b))"
| "pc_ok s (Requeueing c r a b p) = (sealable s a b \<and> sy_names s p = Some (a, b))"
| "pc_ok s (Renaming c r a b p) = (sealable s a b \<and> sy_names s p = Some (a, b))"
| "pc_ok s (Writing c r a b p) = (sealable s a b \<and> sy_names s p = Some (a, b))"
| "pc_ok s (Renew_second c r a b p) = (sealable s a b \<and> sy_names s p = Some (a, b) \<and> written s a b p (mark s))"
| "pc_ok s (Committing c r a b p) = (sealable s a b \<and> sy_names s p = Some (a, b) \<and> written s a b p (mark s))"
| "pc_ok s (Registering c r a b p k) =
     (sealable s a b \<and> sy_names s p = Some (a, b) \<and> written s a b p k \<and> k \<le> mark s)"
| "pc_ok s (Declined c r b p) = (b \<le> edge s)"
| "pc_ok s (Finishing c r b p) = (b \<le> edge s)"
| "pc_ok s _ = True"

text \<open>The path a sealer is writing to or has written: no two have the same.\<close>

fun writes_to :: "seal_pc \<Rightarrow> path option" where
  "writes_to (Naming c a b p) = Some p"
| "writes_to (Renew_first c a b p) = Some p"
| "writes_to (Renaming c r a b p) = Some p"
| "writes_to (Writing c r a b p) = Some p"
| "writes_to (Renew_second c r a b p) = Some p"
| "writes_to (Committing c r a b p) = Some p"
| "writes_to (Registering c r a b p k) = Some p"
| "writes_to _ = None"

definition writers_ok :: "'r seal_sys \<Rightarrow> bool" where
  "writers_ok s \<longleftrightarrow> (\<forall>i. pc_ok s (sy_pc s i)) \<and>
     (\<forall>i j p. writes_to (sy_pc s i) = Some p \<longrightarrow> writes_to (sy_pc s j) = Some p \<longrightarrow> i = j)"

definition seal_inv :: "'r seal_sys \<Rightarrow> bool" where
  "seal_inv s \<longleftrightarrow> log_ok s \<and> pub_ok s \<and> queue_ok s \<and> table_ok s \<and> names_ok s \<and> writers_ok s"

subsection \<open>What changes leave alone\<close>

text \<open>Two states with the same rows, queue, watermark, files and ghosts.\<close>

definition same_view :: "'r seal_sys \<Rightarrow> 'r seal_sys \<Rightarrow> bool" where
  "same_view s t \<longleftrightarrow> db_rows (sy_db t) = db_rows (sy_db s) \<and> seq_of (sy_db t) = seq_of (sy_db s) \<and>
     unnamed (sy_db t) = unnamed (sy_db s) \<and> ids_ok (sy_db t) \<and>
     published_through (sy_db t) = published_through (sy_db s) \<and> sy_files t = sy_files s \<and>
     sy_log t = sy_log s \<and> sy_pub t = sy_pub s \<and> sy_filed t = sy_filed s"

text \<open>A later state: rows are only appended, and nothing that was sealed or staged is taken back.\<close>

definition later_sys :: "'r seal_sys \<Rightarrow> 'r seal_sys \<Rightarrow> bool" where
  "later_sys s t \<longleftrightarrow> sy_log s \<subseteq> sy_log t \<and> (\<forall>i r. (i, r) \<in> sy_log t \<longrightarrow> (i, r) \<notin> sy_log s \<longrightarrow> seq_of (sy_db s) < i) \<and>
     set (ranges s) \<subseteq> set (ranges t) \<and> edge s \<le> edge t \<and> mark s \<le> mark t \<and> sy_names s \<subseteq>\<^sub>m sy_names t \<and>
     seq_of (sy_db s) \<le> seq_of (sy_db t) \<and> sy_pub s \<subseteq> sy_pub t"

text \<open>What every step keeps: the invariant, and that the new state is a later one.\<close>

definition keeps :: "'r seal_sys \<Rightarrow> 'r seal_sys \<Rightarrow> bool" where
  "keeps s t \<longleftrightarrow> seal_inv t \<and> later_sys s t"

lemma queued_unnamed: "queued d = filter queued_extent (unnamed d)"
  unfolding queued_def unnamed_def filter_filter by (rule filter_cong) (auto simp: queued_extent_def)

lemma same_view_simps:
  assumes "same_view s t"
  shows "queued (sy_db t) = queued (sy_db s)" "ranges t = ranges s" "mark t = mark s" "edge t = edge s"
  using assms by (simp_all add: same_view_def queued_unnamed ranges_def mark_def edge_def)

lemma same_view_later:
  assumes "same_view s t" and "sy_names s \<subseteq>\<^sub>m sy_names t"
  shows "later_sys s t"
  using assms same_view_simps [OF assms(1)] by (auto simp: later_sys_def same_view_def)

lemma same_view_log: "same_view s t \<Longrightarrow> log_ok s \<Longrightarrow> log_ok t"
  unfolding log_ok_def mark_def same_view_def by (elim conjE) (simp split del: if_split)

lemma same_view_queue:
  assumes v: "same_view s t" and q: "queue_ok s"
  shows "queue_ok t"
proof -
  from q obtain C e where "queue_shape (sy_db s) C e"
    and "queue_good (db_rows (sy_db s)) (seq_of (sy_db s)) (sy_filed s @ map range_of C) (ex_start e)"
    by (auto simp: queue_ok_def queue_inv_def)
  with v have "queue_inv (sy_db t, sy_filed t)" by (auto simp: queue_inv_def queue_shape_def same_view_def)
  with q same_view_simps [OF v] v show ?thesis by (simp add: queue_ok_def same_view_def)
qed

lemma same_view_table: "same_view s t \<Longrightarrow> table_ok s \<Longrightarrow> table_ok t"
  using same_view_simps [of s t] by (simp add: table_ok_def same_view_def)

subsection \<open>Facts of the queue\<close>

lemma range_bounds:
  assumes "queue_ok s" and "(a, b) \<in> set (ranges s)"
  shows "0 < a \<and> a < b \<and> b \<le> seq_of (sy_db s) + 1"
proof -
  from assms(1) obtain C e where sh: "queue_shape (sy_db s) C e"
    and g: "queue_good (db_rows (sy_db s)) (seq_of (sy_db s)) (sy_filed s @ map range_of C) (ex_start e)"
    by (auto simp: queue_ok_def queue_inv_def)
  from assms(2) have "(a, b) \<in> set (sy_filed s @ map range_of C)" by (simp add: ranges_def queued_shape [OF sh])
  with g show ?thesis unfolding queue_good_def by fast
qed

lemma disjoint_member:
  assumes "sorted_wrt (\<lambda>(a, b) (c, d). b \<le> c \<or> d \<le> a) R" and "(a, b) \<in> set R" and "(c, d) \<in> set R"
    and "in_span a b i" and "in_span c d i"
  shows "(a, b) = (c, d)"
  using assms
proof (induction R)
  case (Cons x R)
  obtain u v where x: "x = (u, v)" by fastforce
  from Cons.prems(1) x have ap: "\<forall>(c, d) \<in> set R. v \<le> c \<or> d \<le> u" by auto
  have no: False if "in_span u v i" "(c', d') \<in> set R" "in_span c' d' i" for c' d'
    using ap that by (fastforce simp: in_span_def)
  from Cons.prems x show ?case using no Cons.IH by auto
qed simp

lemma same_range:
  assumes "queue_ok s" and "(a, b) \<in> set (ranges s)" and "(c, d) \<in> set (ranges s)"
    and "in_span a b i" and "in_span c d i"
  shows "(a, b) = (c, d)"
proof -
  from assms(1) obtain C e where sh: "queue_shape (sy_db s) C e"
    and g: "queue_good (db_rows (sy_db s)) (seq_of (sy_db s)) (sy_filed s @ map range_of C) (ex_start e)"
    by (auto simp: queue_ok_def queue_inv_def)
  from g have "sorted_wrt (\<lambda>(a, b) (c, d). b \<le> c \<or> d \<le> a) (ranges s)"
    by (simp add: ranges_def queued_shape [OF sh] queue_good_def)
  from disjoint_member [OF this assms(2-5)] show ?thesis .
qed

text \<open>The head of the queue may be sealed: every row below it is staged or published.\<close>

lemma head_sealable:
  assumes l: "log_ok s" and q: "queue_ok s" and t: "table_ok s" and p: "pending_group (sy_db s) = Some (a, b)"
  shows "sealable s a b"
proof -
  from pending_group_head [OF p] obtain x C where x: "queued (sy_db s) = x # C" "range_of x = (a, b)" .
  have "i < edge s" if row: "(i, r) \<in> sy_log s" and i: "i < a" for i r
  proof (cases "i \<le> mark s")
    case True
    then show ?thesis by (auto simp: edge_def reached_def split: option.splits prod.splits)
  next
    case False
    with l row have row: "(i, r) \<in> set (db_rows (sy_db s))" by (auto simp: log_ok_def)
    from q obtain D e where sh: "queue_shape (sy_db s) D e"
      and g: "queue_good (db_rows (sy_db s)) (seq_of (sy_db s)) (sy_filed s @ map range_of D) (ex_start e)"
      by (auto simp: queue_ok_def queue_inv_def)
    have D: "D = x # C" using queued_shape [OF sh] x by simp
    from g row have "owed (sy_filed s @ map range_of D) (ex_start e) i" by (auto simp: queue_good_def)
    then consider (filed) u v where "(u, v) \<in> set (sy_filed s)" "in_span u v i"
      | (group) y where "y \<in> set D" "in_span (fst (range_of y)) (snd (range_of y)) i"
      | (open_group) st where "ex_start e = Some st" "st \<le> i"
      unfolding owed_def case_prod_beta by auto
    then show ?thesis
    proof cases
      case filed
      with t show ?thesis by (fastforce simp: table_ok_def in_span_def)
    next
      case group
      have "a < b" using range_bounds [OF q] x(1,2) by (auto simp: ranges_def)
      with q group x i show ?thesis by (auto simp: D queue_ok_def queue_sorted_def in_span_def)
    next
      case open_group
      with g have "queue_good (db_rows (sy_db s)) (seq_of (sy_db s)) (sy_filed s @ map range_of D) (Some st)" by simp
      from start_above [OF this, of x] x(2) D open_group(2) have "b \<le> i" by simp
      moreover have "a < b" using range_bounds [OF q] x(1,2) by (auto simp: ranges_def)
      ultimately show ?thesis using i by simp
    qed
  qed
  then show ?thesis using x by (auto simp: sealable_def ranges_def)
qed

subsection \<open>What later states keep\<close>

lemma sealable_later:
  assumes "queue_ok s" and "later_sys s t" and "sealable s a b"
  shows "sealable t a b"
proof -
  have ab: "(a, b) \<in> set (ranges s)" using assms(3) by (simp add: sealable_def)
  have "i < edge t" if "(i, r) \<in> sy_log t" "i < a" for i r
  proof (cases "(i, r) \<in> sy_log s")
    case True
    with that assms(2,3) show ?thesis by (force simp: sealable_def later_sys_def)
  next
    case False
    with that(1) assms(2) have "seq_of (sy_db s) < i" by (auto simp: later_sys_def)
    with range_bounds [OF assms(1) ab] that(2) show ?thesis by simp
  qed
  with ab assms(2) show ?thesis by (auto simp: sealable_def later_sys_def)
qed

lemma written_later:
  assumes "queue_ok s" and "later_sys s t" and "(a, b) \<in> set (ranges s)" and "written s a b p k" and "k \<le> k'"
    and "sw_disk (sy_w t) p = sw_disk (sy_w s) p \<or> sw_disk (sy_w t) p = None"
  shows "written t a b p k'"
  unfolding written_def
proof (intro allI impI)
  fix rows assume "sw_disk (sy_w t) p = Some rows"
  with assms(6) have "sw_disk (sy_w s) p = Some rows" by auto
  with assms(4) have w: "set rows \<subseteq> sy_log s" "distinct (map fst rows)" "\<forall>i \<in> fst ` set rows. in_span a b i"
    "\<forall>i r. (i, r) \<in> sy_log s \<longrightarrow> in_span a b i \<longrightarrow> k < i \<longrightarrow> (i, r) \<in> set rows"
    by (auto simp: written_def)
  have "(i, r) \<in> set rows" if "(i, r) \<in> sy_log t" "in_span a b i" "k' < i" for i r
  proof (cases "(i, r) \<in> sy_log s")
    case True
    with w(4) that assms(5) show ?thesis by auto
  next
    case False
    with that(1) assms(2) have "seq_of (sy_db s) < i" by (auto simp: later_sys_def)
    with range_bounds [OF assms(1,3)] that(2) show ?thesis by (simp add: in_span_def)
  qed
  with w assms(2) show "set rows \<subseteq> sy_log t \<and> distinct (map fst rows) \<and> (\<forall>i \<in> fst ` set rows. in_span a b i) \<and>
     (\<forall>i r. (i, r) \<in> sy_log t \<longrightarrow> in_span a b i \<longrightarrow> k' < i \<longrightarrow> (i, r) \<in> set rows)"
    by (auto simp: later_sys_def)
qed

lemma names_later: "later_sys s t \<Longrightarrow> sy_names s p = Some g \<Longrightarrow> sy_names t p = Some g"
  by (auto simp: later_sys_def map_le_def dom_def)

lemma seal_pc_later:
  assumes q: "queue_ok s" and l: "later_sys s t" and ok: "pc_ok s pc"
    and disk: "\<And>p. writes_to pc = Some p \<Longrightarrow>
      sw_disk (sy_w t) p = sw_disk (sy_w s) p \<or> sw_disk (sy_w t) p = None"
  shows "pc_ok t pc"
proof -
  have m: "mark s \<le> mark t" "edge s \<le> edge t" using l by (simp_all add: later_sys_def)
  note stable = sealable_later [OF q l] names_later [OF l]
  have w: "written t a b p k'" if "written s a b p k" "sealable s a b" "k \<le> k'" "writes_to pc = Some p" for a b p k k'
    using written_later [OF q l _ that(1,3) disk [OF that(4)]] that(2) by (simp add: sealable_def)
  from ok m show ?thesis
    by (cases pc) (auto intro: stable w)
qed

subsection \<open>The edge of what is staged or published\<close>

lemma table_rows_simps [simp]:
  "table_rows [] = []" "table_rows (f # fs) = snd f @ table_rows fs" "table_rows (fs @ gs) = table_rows fs @ table_rows gs"
  by (simp_all add: table_rows_def)

lemma table_span_cases:
  "table_span fs = (if table_rows fs = [] then None
     else Some (Min (fst ` set (table_rows fs)), Max (fst ` set (table_rows fs)) + 1))"
  by (simp add: table_span_def list_min_Some list_max_Some)

lemma covers_iff: "covers fs b \<longleftrightarrow> (\<exists>i \<in> fst ` set (table_rows fs). b \<le> i + 1)"
proof (cases "table_rows fs = []")
  case True
  then show ?thesis by (simp add: covers_def table_span_cases)
next
  case False
  let ?A = "fst ` set (table_rows fs)"
  have "finite ?A" "?A \<noteq> {}" using False by auto
  then have "b - 1 \<le> Max ?A \<longleftrightarrow> (\<exists>i \<in> ?A. b - 1 \<le> i)" by (rule Max_ge_iff)
  with False show ?thesis by (simp add: covers_def table_span_cases diff_le_eq)
qed

lemma le_reached: "b \<le> reached fs k \<longleftrightarrow> b \<le> k + 1 \<or> covers fs b"
  by (auto simp: reached_def covers_def split: option.splits prod.splits)

lemma reached_mono:
  assumes "k \<le> k'" and "\<And>i. i \<in> fst ` set (table_rows fs) \<Longrightarrow> i \<in> fst ` set (table_rows fs') \<or> i \<le> k'"
  shows "reached fs k \<le> reached fs' k'"
proof -
  have "reached fs k \<le> k + 1 \<or> covers fs (reached fs k)" by (simp flip: le_reached)
  then show ?thesis using assms unfolding le_reached covers_iff by fastforce
qed

lemma edge_bound:
  assumes "log_ok s" and "table_ok s"
  shows "edge s \<le> seq_of (sy_db s) + 1"
proof -
  have "edge s \<le> mark s + 1 \<or> covers (sy_files s) (edge s)" unfolding edge_def by (simp flip: le_reached)
  then show ?thesis
  proof
    assume "covers (sy_files s) (edge s)"
    then obtain i r where "(i, r) \<in> set (table_rows (sy_files s))" "edge s \<le> i + 1" unfolding covers_iff by auto
    with assms show ?thesis by (fastforce simp: table_ok_def log_ok_def)
  qed (use assms in \<open>simp add: log_ok_def\<close>)
qed

lemma whole_groups_mono: "whole_groups R rows \<Longrightarrow> set R \<subseteq> set R' \<Longrightarrow> whole_groups R' rows"
  unfolding whole_groups_def by blast

subsection \<open>The other operations of the log\<close>

lemma pub_later:
  assumes "pub_ok s" and "log_ok s" and l: "later_sys s t" and "sy_pub t = sy_pub s"
  shows "pub_ok t"
proof -
  have old: "(i, r) \<in> sy_log s" if "(i, r) \<in> sy_log t" "(j, q) \<in> sy_pub s" "i \<le> j" for i r j q
  proof (rule ccontr)
    assume "(i, r) \<notin> sy_log s"
    with that(1) l have "seq_of (sy_db s) < i" unfolding later_sys_def by blast
    moreover have "j \<le> seq_of (sy_db s)" using assms(1,2) that(2) unfolding pub_ok_def log_ok_def by blast
    ultimately show False using that(3) by simp
  qed
  have "sy_log s \<subseteq> sy_log t" "edge s \<le> edge t" using l by (simp_all add: later_sys_def)
  with assms(1) show ?thesis
    unfolding pub_ok_def assms(4) by (meson old order_less_le_trans subset_trans)
qed

text \<open>A step that leaves every sealer where it is.\<close>

lemma inv_env:
  assumes inv: "seal_inv s" and l: "later_sys s t" and ok: "log_ok t" "queue_ok t" "table_ok t"
    and pub: "sy_pub t = sy_pub s \<or> pub_ok t" and pc: "sy_pc t = sy_pc s" and names: "sy_names t = sy_names s"
    and disk: "\<And>p. sw_disk (sy_w t) p = sw_disk (sy_w s) p \<or> sw_disk (sy_w t) p = None"
    and sealing: "db_sealing (sy_db t) = db_sealing (sy_db s)"
    and files: "\<And>p. p \<in> fst ` set (sy_files t) \<Longrightarrow> p \<in> fst ` set (sy_files s) \<or> sy_names s p = None"
  shows "keeps s t"
proof -
  have q: "queue_ok s" and n: "names_ok s" and w: "writers_ok s" using inv by (simp_all add: seal_inv_def)
  have "pc_ok t (sy_pc t i)" for i
    using seal_pc_later [OF q l, of "sy_pc s i"] w disk by (simp add: writers_ok_def pc)
  with w have "writers_ok t" by (simp add: writers_ok_def pc)
  moreover have "names_ok t"
    unfolding names_ok_def
  proof (intro conjI allI impI)
    fix a b p assume "(a, b, p) \<in> set (db_sealing (sy_db t))"
    with n sealing have "sy_names s p = Some (a, b)" "sealable s a b" by (auto simp: names_ok_def)
    then show "sy_names t p = Some (a, b)" "sealable t a b"
      using names sealable_later [OF q l] by simp_all
  next
    fix p a b assume "p \<in> fst ` set (sy_files t)" "sy_names t p = Some (a, b)"
    with files [of p] names have "p \<in> fst ` set (sy_files s)" "sy_names s p = Some (a, b)" by auto
    with n have "b \<le> edge s" unfolding names_ok_def by blast
    with l show "b \<le> edge t" by (simp add: later_sys_def)
  qed
  moreover have "pub_ok t" using pub pub_later [OF _ _ l] inv by (auto simp: seal_inv_def)
  ultimately show ?thesis using ok l by (simp add: seal_inv_def keeps_def)
qed

text \<open>Rows appended, groups cut, offsets reserved.\<close>

lemma inv_grow:
  assumes inv: "seal_inv s" and g: "queue_inv (d, sy_filed s)" "queue_grows (sy_db s) d"
    and rows: "db_rows d = db_rows (sy_db s) @ new" "distinct (map fst new)" "seq_of (sy_db s) \<le> seq_of d"
      "\<And>i r. (i, r) \<in> set new \<Longrightarrow> seq_of (sy_db s) < i \<and> i \<le> seq_of d"
    and same: "db_meta d = db_meta (sy_db s)" "db_sealing d = db_sealing (sy_db s)"
    and t: "t = s\<lparr>sy_w := (sy_w s)\<lparr>sw_db := d\<rparr>, sy_log := sy_log s \<union> set (db_rows d)\<rparr>"
  shows "keeps s t"
proof (rule inv_env [OF inv])
  have l: "log_ok s" and q: "queue_ok s" and tb: "table_ok s" using inv by (simp_all add: seal_inv_def)
  have m: "mark t = mark s" "published_through d = published_through (sy_db s)"
    using same by (simp_all add: t mark_def published_through_def get_meta_def)
  then have e: "edge t = edge s" by (simp add: edge_def t)
  have log: "sy_log t = sy_log s \<union> set new" using l by (auto simp: t rows(1) log_ok_def)
  obtain N where N: "queued d = queued (sy_db s) @ N" "queue_sorted (queued (sy_db s)) \<longrightarrow> queue_sorted (queued d)"
    "\<forall>x \<in> set N. ends_on_row (set (db_rows d)) (range_of x)" using g(2) by (auto simp: queue_grows_def)
  have r: "ranges t = ranges s @ map range_of N" by (simp add: ranges_def t N(1))
  show "later_sys s t"
    unfolding later_sys_def r m e log using rows(3,4) by (auto simp: t)
  have one: "r = r'" if "(i, r) \<in> sy_log t" "(i, r') \<in> sy_log t" for i r r'
  proof -
    have old: "(i, x) \<in> sy_log s \<Longrightarrow> (i, y) \<notin> set new" for x y using l rows(4) by (fastforce simp: log_ok_def)
    from that old consider "(i, r) \<in> sy_log s" "(i, r') \<in> sy_log s" | "(i, r) \<in> set new" "(i, r') \<in> set new"
      unfolding log by blast
    then show ?thesis
    proof cases
      case 1
      with l show ?thesis by (auto simp: log_ok_def)
    next
      case 2
      with rows(2) distinct_map_eqD [of fst new "(i, r)" "(i, r')"] show ?thesis by simp
    qed
  qed
  show "log_ok t"
    unfolding log_ok_def
  proof (intro conjI allI impI)
    show "published_through (sy_db t) \<noteq> None" using l m by (simp add: t log_ok_def)
    show "mark t \<le> seq_of (sy_db t)" using l m rows(3) by (simp add: t log_ok_def)
    show "set (db_rows (sy_db t)) \<subseteq> sy_log t" by (simp add: t)
    show "i \<le> seq_of (sy_db t)" if "(i, r) \<in> sy_log t" for i r
      using that l rows(3,4) unfolding log by (force simp: t log_ok_def)
    show "r = r'" if "(i, r) \<in> sy_log t" "(i, r') \<in> sy_log t" for i r r' using that by (rule one)
    show "(i, r) \<in> sy_pub t" if "(i, r) \<in> sy_log t" "i \<le> mark t" for i r
      using that l rows(4) unfolding log m by (force simp: t log_ok_def)
    show "(i, r) \<in> set (db_rows (sy_db t))" if "(i, r) \<in> sy_log t" "mark t < i" for i r
      using that l unfolding log m by (force simp: t log_ok_def rows(1))
  qed
  show "queue_ok t"
    unfolding queue_ok_def r
  proof (intro conjI ballI)
    show "queue_inv (sy_db t, sy_filed t)" using g(1) by (simp add: t)
    show "queue_sorted (queued (sy_db t))" using q N(2) by (simp add: t queue_ok_def)
    fix x assume "x \<in> set (ranges s @ map range_of N)"
    then have "ends_on_row (sy_log s) x \<or> ends_on_row (set (db_rows d)) x" using q N(3) by (auto simp: queue_ok_def)
    then show "ends_on_row (sy_log t) x" by (auto simp: t intro: ends_on_row_mono)
  qed
  have new: "edge s \<le> i" if "(i, r) \<in> set new" for i r using rows(4) [OF that] edge_bound [OF l tb] by simp
  show "table_ok t"
    unfolding table_ok_def e r
  proof (intro conjI allI impI)
    show "set (table_rows (sy_files t)) \<subseteq> sy_log t" using tb by (auto simp: t table_ok_def)
    show "distinct (map fst (table_rows (sy_files t)))" using tb by (simp add: t table_ok_def)
    show "whole_groups (ranges s @ map range_of N) rs" if "(p, rs) \<in> set (sy_files t)" for p rs
    proof (rule whole_groups_mono)
      have "(p, rs) \<in> set (sy_files s)" using that by (simp add: t)
      with tb show "whole_groups (ranges s) rs" unfolding table_ok_def by blast
    qed simp
    show "i \<le> mark t \<or> (i, r) \<in> set (table_rows (sy_files t))" if "(i, r) \<in> sy_log t" "i < edge s" for i r
    proof -
      have "(i, r) \<in> sy_log s" using that new [of i r] unfolding log by auto
      with that(2) tb have "i \<le> mark s \<or> (i, r) \<in> set (table_rows (sy_files s))"
        unfolding table_ok_def by blast
      then show ?thesis unfolding m by (simp add: t)
    qed
    show "b \<le> edge s" if "(a, b) \<in> set (sy_filed t)" for a b using that tb by (simp add: t table_ok_def)
  qed
qed (use same in \<open>simp_all add: t\<close>)

lemma insert_row_meta: "insert_row r d = (i, d') \<Longrightarrow> db_meta d' = db_meta d \<and> db_sealing d' = db_sealing d"
  by (auto simp: insert_row_def Let_def)

lemma cut_group_meta: "cut_group g i d = (g', d') \<Longrightarrow> db_meta d' = db_meta d \<and> db_sealing d' = db_sealing d"
  by (auto simp: cut_group_def insert_extent_def write_group_def Let_def)

lemma row_step_meta:
  assumes "row_step c sz r g d = (i, g', d')"
  shows "db_meta d' = db_meta d \<and> db_sealing d' = db_sealing d"
proof -
  obtain j d1 where ins: "insert_row r d = (j, d1)" by fastforce
  let ?g = "grow sz j r g"
  have "cut_group ?g j d1 = (g', d') \<or> d' = d1"
    using assms ins by (auto simp: row_step_def split: if_splits)
  with insert_row_meta [OF ins] cut_group_meta show ?thesis by metis
qed

lemma append_loop_meta:
  "append_loop c sz rows g d = Inr (os, g', d') \<Longrightarrow> db_meta d' = db_meta d \<and> db_sealing d' = db_sealing d"
proof (induction rows arbitrary: g d os)
  case (Cons x rows)
  then obtain r where x: "x = Inr r" by (cases x) (auto split: if_splits)
  obtain i g2 d2 where step: "row_step c sz r g d = (i, g2, d2)" by (metis prod_cases3)
  note row_step_meta [OF step]
  moreover from Cons.prems x step obtain os' where "append_loop c sz rows g2 d2 = Inr (os', g', d')"
    by (auto simp: append_loop_Inr simp del: append_loop.simps(3) split: if_splits sum.splits)
  ultimately show ?case using Cons.IH by simp
qed simp

lemma append_meta:
  "append_rows c sz rows d = (res, d') \<Longrightarrow> db_meta d' = db_meta d \<and> db_sealing d' = db_sealing d"
  by (auto simp: append_rows_def write_group_def split: option.splits sum.splits dest: append_loop_meta)

lemma log_rows: "log_ok s \<Longrightarrow> sy_log s \<union> set (db_rows (sy_db s)) = sy_log s"
  by (auto simp: log_ok_def)

lemma inv_s_append:
  assumes inv: "seal_inv s" and a: "append_rows c sz rows (sy_db s) = (res, d)"
  shows "keeps s (s\<lparr>sy_w := (sy_w s)\<lparr>sw_db := d\<rparr>, sy_log := sy_log s \<union> set (db_rows d)\<rparr>)"
proof -
  have q: "queue_inv (sy_db s, sy_filed s)" using inv by (simp add: seal_inv_def queue_ok_def)
  note grow = inv_grow [OF inv inv_append [OF q a] append_order [OF q a]] append_meta [OF a]
  show ?thesis
  proof (cases res)
    case (Inl e)
    with a have "d = sy_db s" by (simp add: append_Inl)
    with grow(1) [of "[]"] show ?thesis by simp
  next
    case (Inr os)
    with append_Inr [OF q, of c sz rows os d] a obtain new where os: "os = [seq_of (sy_db s) + 1..seq_of d]"
      "seq_of d = seq_of (sy_db s) + int (length rows)" "db_rows d = db_rows (sy_db s) @ new" "map fst new = os"
      by auto
    have "seq_of (sy_db s) < i \<and> i \<le> seq_of d" if "(i, r) \<in> set new" for i r
    proof -
      have "i \<in> set (map fst new)" using that by (force intro: rev_image_eqI)
      then show ?thesis unfolding os(4,1) by simp
    qed
    moreover have "distinct (map fst new)" unfolding os(4,1) by simp
    ultimately show ?thesis using grow os(2,3) by simp
  qed
qed

lemma inv_s_close:
  assumes inv: "seal_inv s" and c: "close_open_group (sy_db s) = (ok, d)"
  shows "keeps s (s\<lparr>sy_w := (sy_w s)\<lparr>sw_db := d\<rparr>\<rparr>)"
proof -
  have q: "queue_inv (sy_db s, sy_filed s)" and l: "log_ok s" using inv by (simp_all add: seal_inv_def queue_ok_def)
  have same: "db_rows d = db_rows (sy_db s)" "seq_of d = seq_of (sy_db s)" "db_meta d = db_meta (sy_db s)"
    "db_sealing d = db_sealing (sy_db s)"
    using c by (auto simp: close_open_group_def insert_extent_def Let_def seq_of_def split: if_splits)
  from inv_grow [OF inv inv_close [OF q c] close_order [OF q c], of "[]"] same log_rows [OF l]
  show ?thesis by simp
qed

lemma inv_s_reserve:
  assumes inv: "seal_inv s" and r: "reserve n (sy_db s) = Some (sp, d)"
  shows "keeps s (s\<lparr>sy_w := (sy_w s)\<lparr>sw_db := d\<rparr>\<rparr>)"
proof -
  have q: "queue_inv (sy_db s, sy_filed s)" and l: "log_ok s" using inv by (simp_all add: seal_inv_def queue_ok_def)
  from r have n: "0 < n" and adv: "advance n (sy_db s) = Some (sp, d)" by (auto simp: reserve_def split: if_splits)
  from advance_simps [OF adv] have d: "d = (sy_db s)\<lparr>db_seq := Some (floor_of (sy_db s) + n)\<rparr>" by simp
  have "seq_of (sy_db s) \<le> seq_of d" using n by (simp add: d seq_of_def floor_of_def)
  moreover have "queue_grows (sy_db s) d" by (rule queue_grows_refl) (simp add: d queued_def)
  ultimately show ?thesis
    using inv_grow [OF inv inv_reserve [OF q r], of "[]"] log_rows [OF l] by (simp add: d)
qed

text \<open>Publishing, and whatever else leaves the rows and the queue alone.\<close>

lemma inv_s_register:
  assumes inv: "seal_inv s" and m: "published_through (sy_db s) = Some m"
    and k: "k < reached (sy_files s) m"
  shows "keeps s (s\<lparr>sy_pub := sy_pub s \<union> {(i, r) \<in> set (table_rows (sy_files s)). i \<le> k}\<rparr>)" (is "keeps s ?t")
proof (rule inv_env [OF inv])
  have l: "log_ok s" and q: "queue_ok s" and tb: "table_ok s" and p: "pub_ok s" using inv by (simp_all add: seal_inv_def)
  have view: "mark ?t = mark s" "ranges ?t = ranges s" "edge ?t = edge s" by (simp_all add: mark_def ranges_def edge_def)
  have k: "k < edge s" using k m by (simp add: edge_def mark_def)
  show "later_sys s ?t" unfolding later_sys_def view by simp
  show "log_ok ?t" using l unfolding log_ok_def view by simp
  show "queue_ok ?t" using q unfolding queue_ok_def view by simp
  show "table_ok ?t" using tb unfolding table_ok_def view by simp
  have closed: "(i, r) \<in> sy_pub s \<or> (i, r) \<in> set (table_rows (sy_files s)) \<and> i \<le> k"
    if "(i, r) \<in> sy_log s" "i \<le> k" for i r
  proof -
    have "i < edge s" using that(2) k by simp
    with that(1) tb have "i \<le> mark s \<or> (i, r) \<in> set (table_rows (sy_files s))" unfolding table_ok_def by blast
    with that l show ?thesis unfolding log_ok_def by blast
  qed
  have "set (table_rows (sy_files s)) \<subseteq> sy_log s" using tb by (simp add: table_ok_def)
  moreover have "(i, r) \<in> sy_pub ?t" if "(i, r) \<in> sy_log s" "(j, q) \<in> sy_pub ?t" "i \<le> j" for i r j q
  proof (cases "(j, q) \<in> sy_pub s")
    case True
    with p that(1,3) have "(i, r) \<in> sy_pub s" unfolding pub_ok_def by blast
    then show ?thesis by simp
  next
    case False
    with that(2,3) have "i \<le> k" by auto
    with closed [OF that(1)] show ?thesis by auto
  qed
  moreover have "i < edge s" if "(i, r) \<in> sy_pub ?t" for i r
    using that p k unfolding pub_ok_def by auto
  ultimately have "pub_ok ?t" using p unfolding pub_ok_def view by auto
  then show "sy_pub ?t = sy_pub s \<or> pub_ok ?t" ..
qed simp_all

lemma inv_s_confirm:
  assumes inv: "seal_inv s" and k: "published_through (sy_db s) = Some k" "published_through d = Some k'"
      "k \<le> k'" "k' = k \<or> k' \<in> fst ` sy_pub s"
    and same: "db_rows d = db_rows (sy_db s)" "db_seq d = db_seq (sy_db s)" "unnamed d = unnamed (sy_db s)"
      "ids_ok d" "db_sealing d = db_sealing (sy_db s)"
    and t: "t = s\<lparr>sy_w := (sy_w s)\<lparr>sw_db := d\<rparr>\<rparr>"
  shows "keeps s t"
proof (rule inv_env [OF inv])
  have l: "log_ok s" and q: "queue_ok s" and tb: "table_ok s" and p: "pub_ok s" using inv by (simp_all add: seal_inv_def)
  have m: "mark s = k" "mark t = k'" using k by (simp_all add: mark_def t)
  have "mark s < edge s" by (simp add: edge_def less_iff_succ_less_eq le_reached)
  then have k': "k' < edge s" using k(4) p unfolding pub_ok_def m by auto
  have qd: "queued d = queued (sy_db s)" by (simp add: queued_unnamed same(3))
  then have r: "ranges t = ranges s" by (simp add: ranges_def t)
  have e: "edge s = edge t"
  proof (rule antisym)
    show "edge s \<le> edge t" unfolding edge_def m by (rule reached_mono) (use k(3) in \<open>simp_all add: t\<close>)
    have et: "edge t = reached (sy_files s) k'" unfolding edge_def m by (simp add: t)
    have "edge t \<le> k' + 1 \<or> covers (sy_files s) (edge t)" by (simp add: et flip: le_reached)
    moreover have "covers (sy_files s) x \<Longrightarrow> x \<le> edge s" for x by (simp add: edge_def le_reached)
    ultimately show "edge t \<le> edge s" using k' by fastforce
  qed
  have sq: "seq_of d = seq_of (sy_db s)" using same(2) by (simp add: seq_of_def)
  show "later_sys s t"
    unfolding later_sys_def r m e [symmetric] using k(3) sq by (simp add: t)
  from k' edge_bound [OF l tb] have mk: "k' \<le> seq_of d" using sq by simp
  show "log_ok t"
    unfolding log_ok_def m
  proof (intro conjI allI impI)
    show "(i, r) \<in> sy_pub t" if "(i, r) \<in> sy_log t" "i \<le> k'" for i r
    proof (cases "k' = k")
      case True
      with that l show ?thesis unfolding log_ok_def m by (simp add: t)
    next
      case False
      with k(4) obtain x where "(k', x) \<in> sy_pub s" by auto
      with p that show ?thesis unfolding pub_ok_def by (simp add: t) blast
    qed
  qed (use l k same sq mk m in \<open>auto simp: t log_ok_def\<close>)
  show "queue_ok t"
  proof -
    from q obtain C e where "queue_shape (sy_db s) C e"
      and "queue_good (db_rows (sy_db s)) (seq_of (sy_db s)) (sy_filed s @ map range_of C) (ex_start e)"
      by (auto simp: queue_ok_def queue_inv_def)
    then have "queue_inv (d, sy_filed s)" using same sq by (auto simp: queue_inv_def queue_shape_def)
    with q qd r show ?thesis by (simp add: queue_ok_def t)
  qed
  show "table_ok t" using tb k(3) unfolding table_ok_def r e [symmetric] m by (fastforce simp: t)
qed (use same in \<open>simp_all add: t\<close>)

lemma inv_s_evict_rows:
  assumes inv: "seal_inv s" and ev: "evict_rows a b (sy_db s) = (n, d)"
    and k: "published_through (sy_db s) = Some k" "b \<le> k + 1"
  shows "keeps s (s\<lparr>sy_w := (sy_w s)\<lparr>sw_db := d\<rparr>\<rparr>)"
proof -
  let ?t = "s\<lparr>sy_w := (sy_w s)\<lparr>sw_db := d\<rparr>\<rparr>"
  have l: "log_ok s" and q: "queue_ok s" and tb: "table_ok s" using inv by (simp_all add: seal_inv_def)
  have d: "d = (sy_db s)\<lparr>db_rows := filter (\<lambda>(i, r). \<not> in_span a b i) (db_rows (sy_db s))\<rparr>"
    using ev by (simp add: evict_rows_def)
  have qd: "queued d = queued (sy_db s)" by (simp add: d queued_def)
  then have r: "ranges ?t = ranges s" by (simp add: ranges_def)
  have m: "mark ?t = mark s" "mark s = k" using k by (simp_all add: mark_def d published_through_def get_meta_def)
  have e: "edge ?t = edge s" by (simp add: edge_def m)
  show ?thesis
  proof (rule inv_env [OF inv])
    show "later_sys s ?t" unfolding later_sys_def r m e by (simp add: d seq_of_def)
    show "log_ok ?t"
      using l k(2) unfolding log_ok_def m
      by (auto simp: d seq_of_def in_span_def published_through_def get_meta_def)
    have "queue_inv (d, sy_filed s)"
      using inv_step [OF q_evict [OF ev]] q by (simp add: queue_ok_def)
    then show "queue_ok ?t" using q qd r by (simp add: queue_ok_def)
    show "table_ok ?t" using tb unfolding table_ok_def r e m(1) by simp
  qed (simp_all add: d)
qed

text \<open>Files leaving the table once published, and files merged into one.\<close>

lemma mset_split: "mset (table_rows fs) = mset (table_rows (filter K fs)) + mset (table_rows (filter (\<lambda>f. \<not> K f) fs))"
  by (induction fs) (auto simp: ac_simps)

lemma table_split: "set (table_rows fs) = set (table_rows (filter K fs)) \<union> set (table_rows (filter (\<lambda>f. \<not> K f) fs))"
  by (metis mset_split set_mset_mset set_mset_union)

lemma kept_rows: "set (table_rows (filter K fs)) \<subseteq> set (table_rows fs)"
  by (subst (2) table_split [of _ K]) blast

lemma distinct_kept: "distinct (map fst (table_rows fs)) \<Longrightarrow> distinct (map fst (table_rows (filter K fs)))"
proof (induction fs)
  case (Cons f fs)
  have "fst ` set (table_rows (filter K fs)) \<subseteq> fst ` set (table_rows fs)" using kept_rows by (rule image_mono)
  with Cons show ?case by auto
qed simp

lemma inv_s_evict_files:
  assumes inv: "seal_inv s" and k: "published_through (sy_db s) = Some k"
    and gone: "\<forall>(i, r) \<in> set (table_rows (filter (\<lambda>f. \<not> K f) (sy_files s))). i \<le> k"
    and t: "t = s\<lparr>sy_w := (sy_w s)\<lparr>sw_table := filter K (sy_files s)\<rparr>\<rparr>"
  shows "keeps s t"
proof (rule inv_env [OF inv])
  have l: "log_ok s" and q: "queue_ok s" and tb: "table_ok s" using inv by (simp_all add: seal_inv_def)
  have m: "mark t = mark s" "mark s = k" using k by (simp_all add: mark_def t)
  have r: "ranges t = ranges s" by (simp add: ranges_def t)
  have files: "sy_files t = filter K (sy_files s)" by (simp add: t)
  have split: "set (table_rows (sy_files s)) =
      set (table_rows (sy_files t)) \<union> set (table_rows (filter (\<lambda>f. \<not> K f) (sy_files s)))"
    unfolding files by (rule table_split)
  have "edge s \<le> edge t"
    unfolding edge_def m by (rule reached_mono) (use gone split in auto)
  moreover have "edge t \<le> edge s"
    unfolding edge_def m by (rule reached_mono) (use split in auto)
  ultimately have e: "edge t = edge s" by simp
  show "later_sys s t" unfolding later_sys_def r m e by (simp add: t)
  show "log_ok t" using l unfolding log_ok_def m by (simp add: t)
  show "queue_ok t" using q unfolding queue_ok_def r by (simp add: t)
  show "table_ok t"
    unfolding table_ok_def r e
  proof (intro conjI allI impI)
    show "set (table_rows (sy_files t)) \<subseteq> sy_log t" using tb split by (simp add: table_ok_def t)
    show "distinct (map fst (table_rows (sy_files t)))" unfolding files using tb by (simp add: distinct_kept table_ok_def)
    show "whole_groups (ranges s) rs" if "(p, rs) \<in> set (sy_files t)" for p rs
    proof -
      have "(p, rs) \<in> set (sy_files s)" using that files by simp
      with tb show ?thesis unfolding table_ok_def by blast
    qed
    show "i \<le> mark t \<or> (i, r) \<in> set (table_rows (sy_files t))" if i: "(i, r) \<in> sy_log t" "i < edge s" for i r
    proof -
      have log: "(i, r) \<in> sy_log s" using i by (simp add: t)
      with i tb have "i \<le> mark s \<or> (i, r) \<in> set (table_rows (sy_files s))" unfolding table_ok_def by blast
      then consider "i \<le> mark s" | "(i, r) \<in> set (table_rows (sy_files t))"
        | "(i, r) \<in> set (table_rows (filter (\<lambda>f. \<not> K f) (sy_files s)))"
        using split by blast
      then show ?thesis
      proof cases
        case 3
        with gone have "i \<le> mark s" unfolding m by blast
        then show ?thesis by (simp add: m)
      qed (simp_all add: m)
    qed
    show "b \<le> edge s" if "(a, b) \<in> set (sy_filed t)" for a b using that tb by (simp add: t table_ok_def)
  qed
qed (auto simp: t)

lemma inv_s_merge:
  assumes inv: "seal_inv s" and p: "sy_names s p = None"
    and rows: "mset rows = mset (table_rows (filter (\<lambda>f. \<not> K f) (sy_files s)))"
    and t: "t = s\<lparr>sy_w := (sy_w s)\<lparr>sw_table := filter K (sy_files s) @ [(p, rows)]\<rparr>\<rparr>"
  shows "keeps s t"
proof (rule inv_env [OF inv])
  have l: "log_ok s" and q: "queue_ok s" and tb: "table_ok s" using inv by (simp_all add: seal_inv_def)
  have m: "mark t = mark s" by (simp add: mark_def t)
  have r: "ranges t = ranges s" by (simp add: ranges_def t)
  have "mset (table_rows (sy_files t)) = mset (table_rows (sy_files s))"
    unfolding mset_split [of "sy_files s" K] by (simp add: t rows)
  then have same: "set (table_rows (sy_files t)) = set (table_rows (sy_files s))"
    and dist: "distinct (map fst (table_rows (sy_files t))) \<longleftrightarrow> distinct (map fst (table_rows (sy_files s)))"
    by (auto dest: mset_eq_setD intro!: mset_eq_imp_distinct_iff)
  have e: "edge t = edge s"
    unfolding edge_def m by (intro antisym reached_mono) (simp_all add: same)
  show "later_sys s t" unfolding later_sys_def r m e by (simp add: t)
  show "log_ok t" using l unfolding log_ok_def m by (simp add: t)
  show "queue_ok t" using q unfolding queue_ok_def r by (simp add: t)
  have whole: "whole_groups (ranges s) rs" if "(p', rs) \<in> set (sy_files t)" for p' rs
  proof (cases "(p', rs) \<in> set (sy_files s)")
    case True
    with tb show ?thesis unfolding table_ok_def by blast
  next
    case False
    with that have rs: "rs = rows" by (auto simp: t)
    show ?thesis
      unfolding whole_groups_def
    proof
      fix i assume "i \<in> fst ` set rs"
      then obtain x where "(i, x) \<in> set (table_rows (filter (\<lambda>f. \<not> K f) (sy_files s)))"
        using mset_eq_setD [OF rows] rs by auto
      then obtain f fr where f: "(f, fr) \<in> set (sy_files s)" "\<not> K (f, fr)" "(i, x) \<in> set fr"
        by (auto simp: table_rows_def)
      with tb have "whole_groups (ranges s) fr" unfolding table_ok_def by blast
      then obtain a b where ab: "(a, b) \<in> set (ranges s)" "in_span a b i" "b - 1 \<in> fst ` set fr"
        using f(3) unfolding whole_groups_def by force
      have "set fr \<subseteq> set rs" using f(1,2) mset_eq_setD [OF rows] rs by (force simp: table_rows_def)
      with ab show "\<exists>(a, b) \<in> set (ranges s). in_span a b i \<and> b - 1 \<in> fst ` set rs" by fast
    qed
  qed
  show "table_ok t" using tb whole unfolding table_ok_def r e same dist m by (simp add: t)
qed (use p in \<open>auto simp: t\<close>)

subsection \<open>One step of a sealer\<close>

lemma writes_named: "pc_ok s pc \<Longrightarrow> writes_to pc = Some p \<Longrightarrow> sy_names s p \<noteq> None"
  by (cases pc) auto

lemma chosen_writes: "chosen pc = Some (p, g) \<Longrightarrow> writes_to pc = Some p"
  by (cases pc) auto

lemma inv_sealer:
  assumes inv: "seal_inv s" and fresh: "unused_name pc s"
    and t: "t = s\<lparr>sy_w := w, sy_pc := (sy_pc s)(i := pc), sy_filed := F, sy_names := note_name pc (sy_names s)\<rparr>"
    and l: "later_sys s t" and ok: "log_ok t" "queue_ok t" "table_ok t" "pc_ok t pc"
    and writes: "\<And>p. writes_to pc = Some p \<Longrightarrow> writes_to (sy_pc s i) = Some p \<or> sy_names s p = None"
    and disk: "\<And>p. writes_to (sy_pc s i) \<noteq> Some p \<Longrightarrow> sw_disk w p = sw_disk (sy_w s) p"
    and sealing: "\<And>a b p. (a, b, p) \<in> set (db_sealing (sw_db w)) \<Longrightarrow>
      (a, b, p) \<in> set (db_sealing (sy_db s)) \<or> sy_names s p = Some (a, b) \<and> sealable s a b"
    and files: "\<And>p a b. p \<in> fst ` set (sw_table w) \<Longrightarrow> p \<notin> fst ` set (sy_files s) \<Longrightarrow>
      sy_names t p = Some (a, b) \<Longrightarrow> b \<le> edge t"
  shows "keeps s t"
proof -
  have q: "queue_ok s" and n: "names_ok s" and wr: "writers_ok s" using inv by (simp_all add: seal_inv_def)
  have other: "writes_to (sy_pc s i) \<noteq> Some p" if "j \<noteq> i" "writes_to (sy_pc s j) = Some p" for j p
    using that wr unfolding writers_ok_def by blast
  have named: "sy_names s p \<noteq> None" if "writes_to (sy_pc s j) = Some p" for j p
    using writes_named [OF _ that, of s] wr by (simp add: writers_ok_def)
  have "pc_ok t (sy_pc t j)" for j
  proof (cases "j = i")
    case True
    with ok(4) show ?thesis by (simp add: t)
  next
    case False
    have "pc_ok s (sy_pc s j)" using wr by (simp add: writers_ok_def)
    from seal_pc_later [OF q l this] other [OF False] disk have "pc_ok t (sy_pc s j)" by (simp add: t)
    with False show ?thesis by (simp add: t)
  qed
  moreover have "j = k" if "writes_to (sy_pc t j) = Some p" "writes_to (sy_pc t k) = Some p" for j k p
  proof -
    have clash: "x = i" if "writes_to (sy_pc s x) = Some p" "writes_to pc = Some p" for x
      using writes [OF that(2)] named [OF that(1)] other [of x p] that(1) by blast
    have "x = y" if "writes_to (sy_pc s x) = Some p" "writes_to (sy_pc s y) = Some p" for x y
      using that wr unfolding writers_ok_def by blast
    with that clash show ?thesis by (auto simp: t split: if_splits)
  qed
  ultimately have "writers_ok t" unfolding writers_ok_def by blast
  moreover have "names_ok t"
    unfolding names_ok_def
  proof (intro conjI allI impI)
    fix a b p assume "(a, b, p) \<in> set (db_sealing (sy_db t))"
    then have "(a, b, p) \<in> set (db_sealing (sw_db w))" by (simp add: t)
    from sealing [OF this] n have "sy_names s p = Some (a, b) \<and> sealable s a b" unfolding names_ok_def by blast
    then show "sy_names t p = Some (a, b)" "sealable t a b"
      using names_later [OF l] sealable_later [OF q l] by simp_all
  next
    fix p a b assume p: "p \<in> fst ` set (sy_files t)" "sy_names t p = Some (a, b)"
    show "b \<le> edge t"
    proof (cases "p \<in> fst ` set (sy_files s)")
      case True
      have "chosen pc \<noteq> Some (p, g)" for g
      proof
        assume "chosen pc = Some (p, g)"
        with fresh have "p \<notin> fst ` set (sy_files s)" by (cases g) (simp add: unused_name_def)
        with True show False by simp
      qed
      then have "note_name pc (sy_names s) p = sy_names s p" by (auto simp: note_name_def split: option.splits)
      with p(2) have "sy_names s p = Some (a, b)" by (simp add: t)
      with True n have "b \<le> edge s" unfolding names_ok_def by blast
      with l show ?thesis by (simp add: later_sys_def)
    next
      case False
      with files p show ?thesis by (simp add: t)
    qed
  qed
  moreover have "sy_pub t = sy_pub s" by (simp add: t)
  with inv pub_later [OF _ _ l] have "pub_ok t" by (simp add: seal_inv_def)
  ultimately show ?thesis using ok l by (simp add: seal_inv_def keeps_def)
qed

text \<open>Most transactions of a sealer touch neither rows nor queue nor table.\<close>

definition quiet_db :: "'r db \<Rightarrow> 'r db \<Rightarrow> bool" where
  "quiet_db d d' \<longleftrightarrow> db_rows d' = db_rows d \<and> db_seq d' = db_seq d \<and> db_extents d' = db_extents d \<and>
     db_extent_seq d' = db_extent_seq d \<and> db_meta d' = db_meta d"

lemma quiet_db_simps [simp]:
  "quiet_db d d" "quiet_db d (with_claims t d)" "quiet_db d (enqueue_deletions ps n d)" "quiet_db d (claim_seal a b p d)"
  by (simp_all add: quiet_db_def with_claims_def enqueue_deletions_def claim_seal_def)

lemma on_sw_db_simps [simp]:
  "sw_db (on_sw_db f w) = f (sw_db w)" "sw_table (on_sw_db f w) = sw_table w" "sw_disk (on_sw_db f w) = sw_disk w"
  by (simp_all add: on_sw_db_def)

lemma db_sealing_simps [simp]:
  "db_sealing (with_claims t d) = db_sealing d" "db_sealing (enqueue_deletions ps n d) = db_sealing d"
  "db_sealing (claim_seal a b p d) = [(a, b, p)]"
  by (simp_all add: with_claims_def enqueue_deletions_def claim_seal_def)

lemma note_name_le: "unused_name pc s \<Longrightarrow> sy_names s \<subseteq>\<^sub>m note_name pc (sy_names s)"
  by (auto simp: unused_name_def note_name_def map_le_def split: option.splits)

lemma quiet_view:
  assumes "queue_ok s" and "quiet_db (sy_db s) (sw_db w)" and "sw_table w = sy_files s"
    and "t = s\<lparr>sy_w := w, sy_pc := P, sy_filed := sy_filed s, sy_names := N\<rparr>"
  shows "same_view s t"
  using assms by (auto simp: same_view_def quiet_db_def seq_of_def unnamed_def ids_ok_def published_through_def
      get_meta_def queue_ok_def queue_inv_def queue_shape_def)

lemma inv_quiet:
  assumes inv: "seal_inv s" and fresh: "unused_name pc s"
    and t: "t = s\<lparr>sy_w := w, sy_pc := (sy_pc s)(i := pc), sy_filed := sy_filed s, sy_names := note_name pc (sy_names s)\<rparr>"
    and quiet: "quiet_db (sy_db s) (sw_db w)" "sw_table w = sy_files s"
    and disk: "\<And>p. writes_to (sy_pc s i) \<noteq> Some p \<Longrightarrow> sw_disk w p = sw_disk (sy_w s) p"
    and ok: "same_view s t \<Longrightarrow> later_sys s t \<Longrightarrow> pc_ok t pc"
    and writes: "\<And>p. writes_to pc = Some p \<Longrightarrow> writes_to (sy_pc s i) = Some p \<or> sy_names s p = None"
    and sealing: "\<And>a b p. (a, b, p) \<in> set (db_sealing (sw_db w)) \<Longrightarrow>
      (a, b, p) \<in> set (db_sealing (sy_db s)) \<or> sy_names s p = Some (a, b) \<and> sealable s a b"
  shows "keeps s t"
proof -
  have q: "queue_ok s" using inv by (simp add: seal_inv_def)
  have v: "same_view s t" by (rule quiet_view [OF q quiet t])
  have l: "later_sys s t" by (rule same_view_later [OF v]) (simp add: t note_name_le [OF fresh])
  show ?thesis
  proof (rule inv_sealer [OF inv fresh t l])
    show "log_ok t" "queue_ok t" "table_ok t"
      using inv v by (auto simp: seal_inv_def intro: same_view_log same_view_queue same_view_table)
    show "pc_ok t pc" by (rule ok [OF v l])
  qed (use writes disk sealing quiet in auto)
qed

text \<open>A quiet step to a place that needs no more than the place before.\<close>

lemma inv_quiet_plain:
  assumes inv: "seal_inv s"
    and t: "t = s\<lparr>sy_w := w, sy_pc := (sy_pc s)(i := pc), sy_filed := sy_filed s, sy_names := note_name pc (sy_names s)\<rparr>"
    and quiet: "quiet_db (sy_db s) (sw_db w)" "sw_table w = sy_files s" "sw_disk w = sw_disk (sy_w s)"
    and ok: "pc_ok s (sy_pc s i) \<Longrightarrow> pc_ok s pc" and chosen: "chosen pc = None"
    and writes: "\<And>p. writes_to pc = Some p \<Longrightarrow> writes_to (sy_pc s i) = Some p"
    and sealing: "\<And>a b p. (a, b, p) \<in> set (db_sealing (sw_db w)) \<Longrightarrow>
      (a, b, p) \<in> set (db_sealing (sy_db s)) \<or> sy_names s p = Some (a, b) \<and> sealable s a b"
  shows "keeps s t"
proof (rule inv_quiet [OF inv _ t quiet(1,2)])
  show "unused_name pc s" using chosen by (simp add: unused_name_def)
  have q: "queue_ok s" and "pc_ok s (sy_pc s i)" using inv by (simp_all add: seal_inv_def writers_ok_def)
  with ok have "pc_ok s pc" by blast
  then show "pc_ok t pc" if "same_view s t" "later_sys s t"
    by (rule seal_pc_later [OF q that(2)]) (simp add: t quiet(3))
qed (use quiet writes sealing in auto)

text \<open>Writing the file: it holds every row of its range that is still buffered.\<close>

lemma rows_written:
  assumes l: "log_ok s" and q: "queue_ok s" and arr: "\<And>rs. mset (arrange rs) = mset (rs :: (offset \<times> 'r) list)"
    and s: "sw_disk (sy_w s) p = Some (arrange (rows_between a b (sy_db s)))"
  shows "written s a b p (mark s)"
proof -
  have same: "set (arrange (rows_between a b (sy_db s))) = set (rows_between a b (sy_db s))"
    using mset_eq_setD [OF arr] .
  have "distinct (map fst (rows_between a b (sy_db s)))"
  proof -
    from q have "sorted_wrt (<) (map fst (db_rows (sy_db s)))"
      by (auto simp: queue_ok_def queue_inv_def queue_good_def)
    then have "distinct (map fst (db_rows (sy_db s)))" by (simp add: strict_sorted_iff)
    then show ?thesis by (simp add: rows_between_def distinct_map_filter)
  qed
  moreover have "mset (map fst (arrange (rows_between a b (sy_db s)))) = mset (map fst (rows_between a b (sy_db s)))"
    by (simp add: arr)
  ultimately have d: "distinct (map fst (arrange (rows_between a b (sy_db s))))"
    using mset_eq_imp_distinct_iff by blast
  show ?thesis
    unfolding written_def
  proof (intro allI impI)
    fix rows assume "sw_disk (sy_w s) p = Some rows"
    with s same d have rows: "set rows = set (rows_between a b (sy_db s))" "distinct (map fst rows)" by auto
    show "set rows \<subseteq> sy_log s \<and> distinct (map fst rows) \<and> (\<forall>i \<in> fst ` set rows. in_span a b i) \<and>
       (\<forall>i r. (i, r) \<in> sy_log s \<longrightarrow> in_span a b i \<longrightarrow> mark s < i \<longrightarrow> (i, r) \<in> set rows)"
      using l rows by (auto simp: rows_between_def log_ok_def in_span_def)
  qed
qed

text \<open>Registering: what is added lies apart from every file of the table, and the table then reaches
  the end of the range.\<close>

lemma registered:
  assumes l: "log_ok s" and q: "queue_ok s" and tb: "table_ok s" and ab: "sealable s a b"
    and w: "written s a b p k" and k: "k \<le> mark s"
    and reg: "register (sw_disk (sy_w s)) p b k (sy_files s) = Inr (True, fs)"
    and t: "t = s\<lparr>sy_w := (sy_w s)\<lparr>sw_table := fs\<rparr>, sy_pc := P, sy_filed := sy_filed s, sy_names := N\<rparr>"
    and N: "sy_names s \<subseteq>\<^sub>m N"
  shows "later_sys s t \<and> log_ok t \<and> queue_ok t \<and> table_ok t \<and> b \<le> edge t"
proof -
  from reg obtain rows where rows: "sw_disk (sy_w s) p = Some rows" "fs = sy_files s @ [(p, rows)]"
    and not: "\<not> covers (sy_files s) b" "k + 1 < b"
    by (auto simp: register_def split: if_splits option.splits)
  have files: "table_rows (sy_files t) = table_rows (sy_files s) @ rows" by (simp add: t rows(2))
  from w rows(1) have wr: "set rows \<subseteq> sy_log s" "distinct (map fst rows)" "\<forall>i \<in> fst ` set rows. in_span a b i"
    "\<forall>i r. (i, r) \<in> sy_log s \<longrightarrow> in_span a b i \<longrightarrow> k < i \<longrightarrow> (i, r) \<in> set rows"
    by (simp_all add: written_def)
  have R: "(a, b) \<in> set (ranges s)" using ab by (simp add: sealable_def)
  note bounds = range_bounds [OF q R]
  have m: "mark t = mark s" by (simp add: mark_def t)
  have r: "ranges t = ranges s" by (simp add: ranges_def t)
  have last: "b - 1 \<in> fst ` set rows"
  proof -
    from q R have "ends_on_row (sy_log s) (a, b)" unfolding queue_ok_def by blast
    then obtain x where "(b - 1, x) \<in> sy_log s" by (auto simp: ends_on_row_def)
    with wr(4) not(2) bounds have "(b - 1, x) \<in> set rows" by (simp add: in_span_def)
    then show ?thesis by (rule rev_image_eqI) simp
  qed
  have "edge s \<le> edge t" unfolding edge_def m by (rule reached_mono) (auto simp: files)
  moreover have "covers (sy_files t) b"
    unfolding covers_iff files by (rule bexI [of _ "b - 1"]) (use last in \<open>simp_all add: image_Un\<close>)
  then have b: "b \<le> edge t" by (simp add: edge_def le_reached)
  moreover have "edge t \<le> max (edge s) b"
  proof -
    have "edge t \<le> mark s + 1 \<or> covers (sy_files t) (edge t)" by (simp add: edge_def m flip: le_reached)
    moreover have "mark s + 1 \<le> edge s" by (simp add: edge_def le_reached)
    moreover have "x \<le> max (edge s) b" if "covers (sy_files t) x" for x
    proof -
      from that obtain i where i: "i \<in> fst ` set (table_rows (sy_files s)) \<or> i \<in> fst ` set rows" "x \<le> i + 1"
        unfolding covers_iff files by auto
      then show ?thesis
      proof (elim disjE)
        assume "i \<in> fst ` set (table_rows (sy_files s))"
        with i(2) have "covers (sy_files s) x" unfolding covers_iff by blast
        then show ?thesis by (simp add: edge_def le_reached le_max_iff_disj)
      next
        assume "i \<in> fst ` set rows"
        with wr(3) have "i < b" by (auto simp: in_span_def)
        with i(2) show ?thesis by simp
      qed
    qed
    ultimately show ?thesis by fastforce
  qed
  ultimately have e: "edge t = max (edge s) b" by simp
  have apart: "i \<notin> fst ` set (table_rows (sy_files s))" if "in_span a b i" for i
  proof
    assume "i \<in> fst ` set (table_rows (sy_files s))"
    then obtain x where "(i, x) \<in> set (table_rows (sy_files s))" by auto
    then obtain p' rs where f: "(p', rs) \<in> set (sy_files s)" "(i, x) \<in> set rs" by (auto simp: table_rows_def)
    from f(2) have ir: "i \<in> fst ` set rs" by (rule rev_image_eqI) simp
    from f(1) tb have "whole_groups (ranges s) rs" unfolding table_ok_def by blast
    with ir obtain c d where cd: "(c, d) \<in> set (ranges s)" "in_span c d i" "d - 1 \<in> fst ` set rs"
      unfolding whole_groups_def by blast
    from same_range [OF q R cd(1) that cd(2)] cd(3) have "b - 1 \<in> fst ` set rs" by simp
    with f(1) have "b - 1 \<in> fst ` set (table_rows (sy_files s))" by (force simp: table_rows_def)
    with not(1) show False unfolding covers_iff by force
  qed
  have "later_sys s t" unfolding later_sys_def r m e using N by (simp add: t)
  moreover have "log_ok t" using l unfolding log_ok_def m by (simp add: t)
  moreover have "queue_ok t" using q unfolding queue_ok_def r by (simp add: t)
  moreover have "table_ok t"
    unfolding table_ok_def r e files
  proof (intro conjI allI impI)
    show "set (table_rows (sy_files s) @ rows) \<subseteq> sy_log t" using tb wr(1) by (simp add: t table_ok_def)
    have "fst ` set (table_rows (sy_files s)) \<inter> fst ` set rows = {}" using apart wr(3) by blast
    then show "distinct (map fst (table_rows (sy_files s) @ rows))" using tb wr(2) by (simp add: table_ok_def)
    show "whole_groups (ranges s) rs" if "(p', rs) \<in> set (sy_files t)" for p' rs
    proof (cases "(p', rs) \<in> set (sy_files s)")
      case True
      with tb show ?thesis unfolding table_ok_def by blast
    next
      case False
      with that have "rs = rows" by (auto simp: t rows(2))
      with wr(3) R last show ?thesis unfolding whole_groups_def by blast
    qed
    show "i \<le> mark t \<or> (i, r) \<in> set (table_rows (sy_files s) @ rows)"
      if i: "(i, r) \<in> sy_log t" "i < max (edge s) b" for i r
    proof -
      have log: "(i, r) \<in> sy_log s" using i by (simp add: t)
      consider "i < edge s" | "a \<le> i" "i < b" "mark s < i" | "i \<le> mark s"
        using i(2) ab log unfolding sealable_def by fastforce
      then show ?thesis
      proof cases
        case 1
        with log tb have "i \<le> mark s \<or> (i, r) \<in> set (table_rows (sy_files s))" unfolding table_ok_def by blast
        then show ?thesis by (auto simp: m)
      next
        case 2
        with wr(4) log k show ?thesis by (auto simp: in_span_def)
      next
        case 3
        then show ?thesis by (simp add: m)
      qed
    qed
    show "b' \<le> max (edge s) b" if "(a', b') \<in> set (sy_filed t)" for a' b'
    proof -
      have "(a', b') \<in> set (sy_filed s)" using that by (simp add: t)
      with tb have "b' \<le> edge s" unfolding table_ok_def by blast
      then show ?thesis by simp
    qed
  qed
  ultimately show ?thesis using b by blast
qed

text \<open>Finishing: the groups it files are staged or published.\<close>

lemma finished:
  assumes l: "log_ok s" and q: "queue_ok s" and tb: "table_ok s" and b: "b \<le> edge s"
    and f: "finish_seal now b p (sy_db s) = Some (True, d)"
    and t: "t = s\<lparr>sy_w := (sy_w s)\<lparr>sw_db := d\<rparr>, sy_pc := P, sy_filed := sy_filed s @ filed_by b (sy_db s), sy_names := N\<rparr>"
    and N: "sy_names s \<subseteq>\<^sub>m N"
  shows "later_sys s t \<and> log_ok t \<and> queue_ok t \<and> table_ok t"
proof -
  note s = finish_simps [OF f]
  have meta: "db_meta d = db_meta (sy_db s)" using f by (auto simp: finish_seal_def Let_def split: if_splits)
  have m: "mark t = mark s" "published_through d = published_through (sy_db s)"
    using meta by (simp_all add: mark_def t published_through_def get_meta_def)
  have e: "edge t = edge s" unfolding edge_def m by (simp add: t)
  have sq: "seq_of d = seq_of (sy_db s)" using s by (simp add: seq_of_def)
  have r: "set (ranges t) = set (ranges s)"
    by (auto simp: ranges_def t filed_by_queued finish_queued [OF f])
  have "later_sys s t" unfolding later_sys_def r m e using N by (simp add: t sq)
  moreover have "log_ok t" using l unfolding log_ok_def m by (simp add: t m(2) sq s)
  moreover have "queue_ok t"
    using q inv_finish [OF _ f, of "sy_filed s"] unfolding queue_ok_def r
    by (simp add: t finish_queued [OF f] queue_sorted_filter)
  moreover have "table_ok t"
    unfolding table_ok_def e m(1)
  proof (intro conjI allI impI)
    show "whole_groups (ranges t) rs" if "(p', rs) \<in> set (sy_files t)" for p' rs
    proof (rule whole_groups_mono [of "ranges s"])
      have "(p', rs) \<in> set (sy_files s)" using that by (simp add: t)
      with tb show "whole_groups (ranges s) rs" unfolding table_ok_def by blast
    qed (simp add: r)
    show "b' \<le> edge s" if "(a', b') \<in> set (sy_filed t)" for a' b'
    proof -
      have "(a', b') \<in> set (sy_filed s) \<or> (a', b') \<in> set (filed_by b (sy_db s))" using that by (simp add: t)
      then show ?thesis
      proof
        assume "(a', b') \<in> set (sy_filed s)"
        with tb show ?thesis unfolding table_ok_def by blast
      next
        assume "(a', b') \<in> set (filed_by b (sy_db s))"
        then obtain x where "ends_at b x" "(a', b') = range_of x" by (auto simp: filed_by_def)
        with ends_at_queued [of b x] have "b' = b" by (metis snd_conv)
        with b show ?thesis by simp
      qed
    qed
  qed (use tb in \<open>auto simp: t table_ok_def\<close>)
  ultimately show ?thesis by blast
qed

lemma take_claim_simps:
  assumes "take_claim a b t granted w = (pc, w')"
  shows "(pc = Returned Nothing_sealed \<or> (\<exists>c. pc = granted c)) \<and> (\<exists>t'. w' = on_sw_db (with_claims t') w)"
  using assms by (auto simp: take_claim_def split: prod.splits if_splits)

lemma renew_claim_simps:
  assumes "renew_claim c t kept gone w = (pc, w')"
  shows "(pc = kept \<or> pc = gone) \<and> (\<exists>t'. w' = on_sw_db (with_claims t') w)"
  using assms by (auto simp: renew_claim_def split: prod.splits if_splits)

lemma files_now_other [simp]: "(\<And>c r b p. pc \<noteq> Finishing c r b p) \<Longrightarrow> files_now pc t d = []"
  by (cases pc) (auto simp: files_now_def)

text \<open>Steps that choose no path.\<close>

lemma inv_s_plain:
  assumes inv: "seal_inv s" and now: "files_now (sy_pc s i) t (sy_db s) = []"
    and quiet: "quiet_db (sy_db s) (sw_db w)" "sw_table w = sy_files s" "sw_disk w = sw_disk (sy_w s)"
    and ok: "pc_ok s (sy_pc s i) \<Longrightarrow> pc_ok s pc" and chosen: "chosen pc = None"
    and writes: "\<And>p. writes_to pc = Some p \<Longrightarrow> writes_to (sy_pc s i) = Some p"
    and sealing: "\<And>a b p. (a, b, p) \<in> set (db_sealing (sw_db w)) \<Longrightarrow>
      (a, b, p) \<in> set (db_sealing (sy_db s)) \<or> sy_names s p = Some (a, b) \<and> sealable s a b"
  shows "keeps s (s\<lparr>sy_w := w, sy_pc := (sy_pc s)(i := pc),
      sy_filed := sy_filed s @ files_now (sy_pc s i) t (sy_db s), sy_names := note_name pc (sy_names s)\<rparr>)"
  by (rule inv_quiet_plain [OF inv _ quiet ok chosen writes sealing]) (simp_all add: now)

text \<open>Steps that choose one.\<close>

lemma inv_s_chosen:
  assumes inv: "seal_inv (s :: 'r seal_sys)" and fresh: "unused_name pc s" and now: "files_now (sy_pc s i) t (sy_db s) = []"
    and quiet: "quiet_db (sy_db s) (sw_db w)" "sw_table w = sy_files s" "sw_disk w = sw_disk (sy_w s)"
      "db_sealing (sw_db w) = db_sealing (sy_db s)"
    and pc: "chosen pc = Some (p, a, b)" "\<And>u :: 'r seal_sys. pc_ok u pc \<longleftrightarrow> sealable u a b \<and> sy_names u p = Some (a, b)"
    and ab: "sealable s a b"
  shows "keeps s (s\<lparr>sy_w := w, sy_pc := (sy_pc s)(i := pc),
      sy_filed := sy_filed s @ files_now (sy_pc s i) t (sy_db s), sy_names := note_name pc (sy_names s)\<rparr>)"
    (is "keeps s ?t")
proof (rule inv_quiet [OF inv fresh _ quiet(1,2), where i = i])
  have q: "queue_ok s" using inv by (simp add: seal_inv_def)
  show "pc_ok ?t pc" if "later_sys s ?t"
    using sealable_later [OF q that ab] by (simp add: pc(2) note_name_def pc(1))
  show "writes_to (sy_pc s i) = Some p' \<or> sy_names s p' = None" if "writes_to pc = Some p'" for p'
    using that chosen_writes [OF pc(1)] fresh by (simp add: unused_name_def pc(1))
qed (use quiet now in auto)

lemma inv_s_seal:
  fixes s :: "'r seal_sys"
  assumes inv: "seal_inv s" and arr: "\<And>rs. mset (arrange rs) = mset (rs :: (offset \<times> 'r) list)"
    and next_pc: "seal_next l arrange t (sy_pc s i) (sy_w s) = (pc, w)" and fresh: "unused_name pc s"
  shows "keeps s (s\<lparr>sy_w := w, sy_pc := (sy_pc s)(i := pc),
      sy_filed := sy_filed s @ files_now (sy_pc s i) t (sy_db s), sy_names := note_name pc (sy_names s)\<rparr>)"
    (is "keeps s ?t")
proof -
  have lg: "log_ok s" and q: "queue_ok s" and tb: "table_ok s" and nm: "names_ok s" and ok: "pc_ok s (sy_pc s i)"
    using inv by (simp_all add: seal_inv_def writers_ok_def)
  note plain = inv_s_plain [OF inv, of i t w pc]
  have N: "sy_names s \<subseteq>\<^sub>m note_name pc (sy_names s)" by (rule note_name_le [OF fresh])
  show ?thesis
  proof (cases "sy_pc s i")
    case Ready
    then show ?thesis
      using next_pc head_sealable [OF lg q tb] by (intro plain) (auto split: option.splits)
  next
    case (Peeked a b)
    with next_pc have "take_claim a b t (\<lambda>c. Leased c a b) (sy_w s) = (pc, w)" by simp
    from take_claim_simps [OF this] Peeked show ?thesis by (intro plain) auto
  next
    case (Leased c a b)
    then show ?thesis using next_pc by (intro plain) (auto split: if_splits)
  next
    case (Headed c a b)
    with ok have ab: "sealable s a b" by simp
    show ?thesis
    proof (cases "pc = Recovering c (Sealed_to b)")
      case True
      with Headed next_pc show ?thesis by (intro plain) (auto split: option.splits if_splits)
    next
      case False
      with Headed next_pc have "pc = Naming c a b (seal_path l a b (tk_token t))" "w = sy_w s"
        by (auto split: option.splits if_splits)
      then show ?thesis using Headed ab by (intro inv_s_chosen [OF inv fresh]) auto
    qed
  next
    case (Naming c a b p)
    then show ?thesis using next_pc ok by (intro plain) auto
  next
    case (Renew_first c a b p)
    with next_pc have "renew_claim c t (Writing c (Sealed_to b) a b p) (Releasing c Seal_raised) (sy_w s) = (pc, w)"
      by simp
    from renew_claim_simps [OF this] Renew_first show ?thesis by (intro plain) auto
  next
    case Opening
    with next_pc have "take_claim 0 EVERYTHING t (\<lambda>c. Recovering c Nothing_sealed) (sy_w s) = (pc, w)" by simp
    from take_claim_simps [OF this] Opening show ?thesis by (intro plain) auto
  next
    case (Recovering c r)
    have "x \<in> set (db_sealing (sy_db s))" if "pending_seal (sy_db s) = Some x" for x
      using that by (auto simp: pending_seal_def split: list.splits)
    with nm have "sealable s a b \<and> sy_names s p = Some (a, b)" if "pending_seal (sy_db s) = Some (a, b, p)" for a b p
      using that unfolding names_ok_def by blast
    with Recovering show ?thesis using next_pc by (intro plain) (auto split: option.splits)
  next
    case (Resolving c r a b p)
    have "b \<le> edge s" if "p \<in> fst ` set (sy_files s)"
      using that nm ok Resolving unfolding names_ok_def by simp
    with Resolving show ?thesis using next_pc by (intro plain) (simp_all split: if_splits, auto)
  next
    case (Requeueing c r a b p)
    with next_pc have "pc = Renaming c r a b (seal_path l a b (tk_token t))"
      "w = on_sw_db (enqueue_deletions [p] (tk_seconds t)) (sy_w s)" by auto
    then show ?thesis using Requeueing ok by (intro inv_s_chosen [OF inv fresh]) auto
  next
    case (Renaming c r a b p)
    then show ?thesis using next_pc ok by (intro plain) auto
  next
    case (Writing c r a b p)
    let ?w = "(sy_w s)\<lparr>sw_disk := (sw_disk (sy_w s))(p \<mapsto> arrange (rows_between a b (sy_db s)))\<rparr>"
    from Writing next_pc have pc: "pc = Renew_second c r a b p" and w: "w = ?w" by auto
    show ?thesis
    proof (rule inv_quiet [OF inv fresh, where i = i and w = w])
      show "pc_ok ?t pc" if v: "same_view s ?t" "later_sys s ?t"
      proof -
        have "log_ok ?t" "queue_ok ?t" using v lg q by (auto intro: same_view_log same_view_queue)
        from rows_written [OF this arr] have "written ?t a b p (mark ?t)" using w by simp
        then show ?thesis
          using ok Writing sealable_later [OF q v(2)] names_later [OF v(2)] by (simp add: pc)
      qed
    qed (use Writing w pc in auto)
  next
    case (Renew_second c r a b p)
    with next_pc have "renew_claim c t (Committing c r a b p) (Lost c p) (sy_w s) = (pc, w)" by simp
    from renew_claim_simps [OF this] Renew_second show ?thesis by (intro plain) auto
  next
    case (Lost c p)
    then show ?thesis using next_pc by (intro plain) auto
  next
    case (Committing c r a b p)
    then show ?thesis using next_pc ok by (intro plain) (auto simp: mark_def split: option.splits)
  next
    case (Registering c r a b p k)
    with ok have ab: "sealable s a b" "sy_names s p = Some (a, b)" "written s a b p k" "k \<le> mark s" by simp_all
    show ?thesis
    proof (cases "register (sw_disk (sy_w s)) p b k (sy_files s)")
      case (Inl e)
      with Registering next_pc show ?thesis by (intro plain) auto
    next
      case (Inr res)
      obtain added fs where res: "res = (added, fs)" by fastforce
      show ?thesis
      proof (cases added)
        case True
        with Inr res have reg: "register (sw_disk (sy_w s)) p b k (sy_files s) = Inr (True, fs)" by simp
        with Registering next_pc have pc: "pc = Finishing c r b p" and w: "w = (sy_w s)\<lparr>sw_table := fs\<rparr>" by auto
        have t: "?t = s\<lparr>sy_w := (sy_w s)\<lparr>sw_table := fs\<rparr>, sy_pc := (sy_pc s)(i := pc), sy_filed := sy_filed s,
            sy_names := note_name pc (sy_names s)\<rparr>" using Registering w by simp
        note done_reg = registered [OF lg q tb ab(1,3,4) reg t N]
        have names: "note_name pc (sy_names s) = sy_names s" by (simp add: pc note_name_def)
        have files: "fst ` set fs = insert p (fst ` set (sy_files s))"
          using reg by (auto simp: register_def split: if_splits option.splits)
        show ?thesis
        proof (rule inv_sealer [OF inv fresh, where i = i and t = ?t and w = w and F = "sy_filed s"])
          show "b' \<le> edge ?t" if "p' \<in> fst ` set (sw_table w)" "p' \<notin> fst ` set (sy_files s)"
            "sy_names ?t p' = Some (a', b')" for p' a' b'
          proof -
            have "p' = p" using that(1,2) files by (auto simp: w)
            with that(3) ab(2) names have "b' = b" by simp
            with done_reg show ?thesis by simp
          qed
        qed (use done_reg Registering pc w in auto)
      next
        case False
        then have le: "b \<le> edge s" and fs: "fs = sy_files s"
          using Inr res ab(4) by (auto simp: register_def edge_def le_reached split: if_splits option.splits)
        with False Registering next_pc Inr res have "pc = Declined c r b p" "w = sy_w s" by auto
        with Registering le show ?thesis by (intro plain) auto
      qed
    qed
  next
    case (Declined c r b p)
    then show ?thesis using next_pc by (intro plain) auto
  next
    case (Finishing c r b p)
    with ok have b: "b \<le> edge s" by simp
    show ?thesis
    proof (cases "finish_seal (tk_seconds t) b p (sy_db s)")
      case None
      with Finishing next_pc show ?thesis by (intro plain) (auto simp: files_now_def)
    next
      case (Some res)
      obtain known d where res: "res = (known, d)" by fastforce
      from Some res Finishing next_pc have pc: "pc = Releasing c r" and w: "w = (sy_w s)\<lparr>sw_db := d\<rparr>" by auto
      show ?thesis
      proof (cases known)
        case True
        with Some res have f: "finish_seal (tk_seconds t) b p (sy_db s) = Some (True, d)" by simp
        have t: "?t = s\<lparr>sy_w := (sy_w s)\<lparr>sw_db := d\<rparr>, sy_pc := (sy_pc s)(i := pc),
            sy_filed := sy_filed s @ filed_by b (sy_db s), sy_names := note_name pc (sy_names s)\<rparr>"
          using Finishing w f by (simp add: files_now_def)
        have filed: "sy_filed ?t = sy_filed s @ filed_by b (sy_db s)" by (subst t) simp
        note done_fin = finished [OF lg q tb b f t N]
        have "set (db_sealing d) \<subseteq> set (db_sealing (sy_db s))"
          using f by (auto simp: finish_seal_def Let_def split: if_splits)
        then show ?thesis
          by (intro inv_sealer [OF inv fresh, where i = i and t = ?t and w = w and F = "sy_filed ?t"])
            (use done_fin pc w in auto)
      next
        case False
        with Some res have "finish_seal (tk_seconds t) b p (sy_db s) = Some (False, d)" by simp
        with finish_False [OF this] pc w Finishing show ?thesis by (intro plain) (auto simp: files_now_def)
      qed
    qed
  next
    case (Releasing c r)
    then show ?thesis using next_pc by (intro plain) auto
  next
    case (Returned r)
    with next_pc have "pc = Returned r" "w = sy_w s" by auto
    with Returned show ?thesis by (intro plain) auto
  qed
qed

subsection \<open>The machine keeps it\<close>

lemma seal_init_inv: "seal_init s \<Longrightarrow> seal_inv s"
proof -
  assume i: "seal_init s"
  then have "queue_inv (sy_db s, sy_filed s)" by (simp add: seal_init_def inv_init)
  moreover have "queued (sy_db s) = []"
    using i by (simp add: seal_init_def queue_init_def queued_def fresh_extent_def queued_extent_def)
  ultimately show "seal_inv s"
    using i by (auto simp: seal_init_def seal_inv_def log_ok_def pub_ok_def queue_ok_def table_ok_def names_ok_def
        writers_ok_def ranges_def queue_sorted_def mark_def queue_init_def)
qed

lemma seal_step_keeps:
  fixes s :: "'r seal_sys"
  assumes "seal_inv s" and "\<And>rs. mset (arrange rs) = mset (rs :: (offset \<times> 'r) list)" and "seal_step l arrange s t"
  shows "keeps s t"
  using assms(3)
proof cases
  case (s_seal t i pc w)
  then show ?thesis using inv_s_seal [OF assms(1,2)] by blast
next
  case (s_stop pc i)
  have q: "queue_ok s" and w: "writers_ok s" using assms(1) by (simp_all add: seal_inv_def)
  have pc: "pc_ok t pc" "writes_to pc = None" "chosen pc = None" using s_stop(2) by auto
  have t: "t = s\<lparr>sy_w := sy_w s, sy_pc := (sy_pc s)(i := pc), sy_filed := sy_filed s,
      sy_names := note_name pc (sy_names s)\<rparr>"
    using s_stop(1) pc by (simp add: note_name_def)
  show ?thesis
    by (rule inv_quiet [OF assms(1) _ t]) (use pc in \<open>auto simp: unused_name_def\<close>)
next
  case (s_append c sz rows res d)
  then show ?thesis using inv_s_append [OF assms(1)] by blast
next
  case (s_close ok d)
  then show ?thesis using inv_s_close [OF assms(1)] by blast
next
  case (s_reserve n sp d)
  then show ?thesis using inv_s_reserve [OF assms(1)] by blast
next
  case (s_register m k)
  then show ?thesis using inv_s_register [OF assms(1)] by blast
next
  case (s_confirm k d k')
  then show ?thesis using inv_s_confirm [OF assms(1)] by blast
next
  case (s_evict_rows a b n d k)
  then show ?thesis using inv_s_evict_rows [OF assms(1)] by blast
next
  case (s_evict_files k K)
  show ?thesis by (rule inv_s_evict_files [OF assms(1) s_evict_files(2,3,1)])
next
  case (s_merge p rows K)
  show ?thesis by (rule inv_s_merge [OF assms(1) s_merge(2,3,1)])
next
  case (s_drain p)
  have ok: "log_ok s" "queue_ok s" "table_ok s" using assms(1) by (simp_all add: seal_inv_def)
  have v: "same_view s t"
    using ok(2) by (auto simp: s_drain same_view_def queue_ok_def queue_inv_def queue_shape_def)
  show ?thesis
    by (rule inv_env [OF assms(1) same_view_later [OF v]])
      (use ok v in \<open>auto simp: s_drain intro: same_view_log same_view_queue same_view_table\<close>)
qed

lemma seal_step_inv:
  fixes s :: "'r seal_sys"
  assumes "seal_inv s" and "\<And>rs. mset (arrange rs) = mset (rs :: (offset \<times> 'r) list)" and "seal_step l arrange s t"
  shows "seal_inv t"
  using seal_step_keeps [OF assms] by (simp add: keeps_def)

text \<open>The sealing machine, for any way of sorting a file's rows.\<close>

lemma seal_machine:
  assumes "\<And>rs. mset (arrange rs) = mset (rs :: (offset \<times> 'r) list)"
  shows "invariant_machine seal_init (seal_step l arrange) (seal_inv :: 'r seal_sys \<Rightarrow> bool)"
  by unfold_locales (auto intro: seal_init_inv seal_step_inv [OF _ assms])

text \<open>C1. However many sealers run, wherever they stop, whatever their clocks say and whoever's claim has
  lapsed, with the machine's other operations in between (appends and cuts, reserved offsets, the two commits
  of a publish, evictions of the buffer and of the staging table, merges, drains; neither a bulk ingest nor a
  truncation): no row is ever in two files of the staging table or twice in one, every staged row was
  appended, and each appended row is in the published table when the watermark has passed it, else in the
  staging table when that table reaches past it, else in the buffer. And every row of a group whose
  seal has finished is staged or published. What a read makes of these tables is C3 and C4.\<close>

theorem seals_neither_lose_nor_duplicate:
  assumes "\<And>rs. mset (arrange rs) = mset (rs :: (offset \<times> 'r) list)"
    and "reach seal_init (seal_step l arrange) s"
  shows "\<exists>k. published_through (sw_db (sy_w s)) = Some k \<and>
    distinct (map fst (table_rows (sw_table (sy_w s)))) \<and>
    set (table_rows (sw_table (sy_w s))) \<subseteq> sy_log s \<and>
    (\<forall>i r. (i, r) \<in> sy_log s \<longrightarrow>
       (if i \<le> k then (i, r) \<in> sy_pub s
        else if covers (sw_table (sy_w s)) (i + 1) then (i, r) \<in> set (table_rows (sw_table (sy_w s)))
        else (i, r) \<in> set (db_rows (sw_db (sy_w s))))) \<and>
    (\<forall>a b i r. (a, b) \<in> set (sy_filed s) \<longrightarrow> (i, r) \<in> sy_log s \<longrightarrow> in_span a b i \<longrightarrow>
       (i, r) \<in> set (table_rows (sw_table (sy_w s))) \<or> (i, r) \<in> sy_pub s)"
proof -
  have inv: "seal_inv s" by (rule invariant_machine.inv_reach [OF seal_machine [OF assms(1)] assms(2)])
  then have l: "log_ok s" and tb: "table_ok s" by (simp_all add: seal_inv_def)
  from l obtain k where k: "published_through (sy_db s) = Some k" "mark s = k" by (auto simp: log_ok_def mark_def)
  have place: "if i \<le> k then (i, r) \<in> sy_pub s
      else if covers (sy_files s) (i + 1) then (i, r) \<in> set (table_rows (sy_files s))
      else (i, r) \<in> set (db_rows (sy_db s))" if row: "(i, r) \<in> sy_log s" for i r
  proof -
    have "(i, r) \<in> set (table_rows (sy_files s))" if "k < i" "covers (sy_files s) (i + 1)"
    proof -
      have "i < edge s" using that(2) by (simp add: edge_def le_reached less_iff_succ_less_eq)
      with tb row that(1) k(2) show ?thesis unfolding table_ok_def by force
    qed
    with l row show ?thesis by (auto simp: log_ok_def k(2))
  qed
  have filed: "(i, r) \<in> set (table_rows (sy_files s)) \<or> (i, r) \<in> sy_pub s"
    if "(a, b) \<in> set (sy_filed s)" "(i, r) \<in> sy_log s" "in_span a b i" for a b i r
  proof -
    have "b \<le> edge s" using tb that(1) unfolding table_ok_def by blast
    with that(3) have "i < edge s" by (simp add: in_span_def)
    with tb that(2) have "i \<le> mark s \<or> (i, r) \<in> set (table_rows (sy_files s))" unfolding table_ok_def by blast
    with l that(2) show ?thesis unfolding log_ok_def by blast
  qed
  have "distinct (map fst (table_rows (sy_files s)))" "set (table_rows (sy_files s)) \<subseteq> sy_log s"
    using tb by (simp_all add: table_ok_def)
  with k(1) place filed show ?thesis by blast
qed

end
