(* ===== verification/Read_System.thy ===== *)
theory Read_System
  imports Seal_System Read_Query
begin

text \<open>
  Reads among everything else: the sealing machine with a reader whose cached tail lives beside it, any
  step of the machine between any two of the reader's looks. The staging table's rows are contiguous
  above the watermark; below it a sealer that read the watermark before a publish and an eviction may
  still register its file under the old one, and the table then has rows below the watermark, without
  those between. \<open>holes\<close> is what such a table leaves out, and all that a read can miss.
\<close>

subsection \<open>The machine\<close>

abbreviation staged :: "'r seal_sys \<Rightarrow> (offset \<times> 'r) set" where "staged s \<equiv> set (table_rows (sy_files s))"

inductive read_step ::
  "layout \<Rightarrow> ((offset \<times> 'r) list \<Rightarrow> (offset \<times> 'r) list) \<Rightarrow> ('s \<Rightarrow> 'r \<Rightarrow> 'v) \<Rightarrow>
     'r seal_sys \<times> ('s, 'v) tail \<Rightarrow> 'r seal_sys \<times> ('s, 'v) tail \<Rightarrow> bool" for l arrange look where
  r_other: "seal_step l arrange s s' \<Longrightarrow> read_step l arrange look (s, t) (s', t)"
| r_read: "rows_from look sh start (sy_db s) t = (table, t') \<Longrightarrow> read_step l arrange look (s, t) (s, t')"
| r_drop: "read_step l arrange look (s, t) (s, drop_tail t)"

definition read_init :: "'r seal_sys \<times> ('s, 'v) tail \<Rightarrow> bool" where
  "read_init x \<longleftrightarrow> seal_init (fst x) \<and> snd x = empty_tail"

text \<open>Offsets at or below the watermark \<open>k\<close> that lie above the first row of the table without being in it.\<close>

definition holes :: "'r table_files \<Rightarrow> int \<Rightarrow> offset set" where
  "holes fs k = {i. i \<le> k \<and> (\<exists>j \<in> fst ` set (table_rows fs). j < i) \<and> i \<notin> fst ` set (table_rows fs)}"

subsection \<open>The invariant\<close>

definition tail_from_log :: "('s \<Rightarrow> 'r \<Rightarrow> 'v) \<Rightarrow> 'r seal_sys \<Rightarrow> ('s, 'v) tail \<Rightarrow> bool" where
  "tail_from_log look s t \<longleftrightarrow> (\<forall>rows sh i v. tl_rows t = Some rows \<longrightarrow> tl_shape t = Some sh \<longrightarrow> (i, v) \<in> set rows \<longrightarrow>
     (\<exists>r. (i, r) \<in> sy_log s \<and> v = look sh r))"

definition read_inv :: "('s \<Rightarrow> 'r \<Rightarrow> 'v) \<Rightarrow> 'r seal_sys \<times> ('s, 'v) tail \<Rightarrow> bool" where
  "read_inv look x \<longleftrightarrow> (case x of (s, t) \<Rightarrow>
     seal_inv s \<and> tail_ok look (mark s + 1) (sy_db s) t \<and> tail_from_log look s t)"

subsection \<open>The reader's tail\<close>

lemma rows_sorted: "queue_ok s \<Longrightarrow> sorted_wrt (<) (map fst (db_rows (sy_db s)))"
  by (auto simp: queue_ok_def queue_inv_def queue_good_def)

lemma inv_rows_ok:
  assumes "seal_inv s"
  shows "rows_ok (sy_db s)"
proof -
  from assms have "queue_ok s" "set (db_rows (sy_db s)) \<subseteq> sy_log s" "\<forall>i r. (i, r) \<in> sy_log s \<longrightarrow> i \<le> seq_of (sy_db s)"
    by (simp_all add: seal_inv_def log_ok_def)
  with rows_sorted show ?thesis unfolding rows_ok_def by blast
qed

lemma same_sorted_rows:
  assumes "sorted_wrt (<) (map fst xs)" and "sorted_wrt (<) (map fst ys)" and "set xs = set (ys :: (offset \<times> 'r) list)"
  shows "xs = ys"
proof (rule map_sorted_distinct_set_unique [of fst])
  show "inj_on fst (set xs \<union> set ys)"
    using assms(1,3) by (simp add: strict_sorted_iff distinct_map)
qed (use assms in \<open>simp_all add: strict_sorted_iff\<close>)

text \<open>Above the watermark the buffer holds exactly what was appended, in every state.\<close>

lemma rows_above:
  assumes inv: "seal_inv s" "seal_inv t" and l: "later_sys s t" and P: "\<And>i. P i \<Longrightarrow> i \<le> seq_of (sy_db s)"
  shows "filter (\<lambda>(i, r). mark t + 1 \<le> i \<and> P i) (db_rows (sy_db t)) =
    filter (\<lambda>(i, r). mark t + 1 \<le> i \<and> P i) (db_rows (sy_db s))"
proof (rule same_sorted_rows)
  have q: "queue_ok s" "queue_ok t" and lg: "log_ok s" "log_ok t" using inv by (simp_all add: seal_inv_def)
  show "sorted_wrt (<) (map fst (filter (\<lambda>(i, r). mark t + 1 \<le> i \<and> P i) (db_rows (sy_db t))))"
    "sorted_wrt (<) (map fst (filter (\<lambda>(i, r). mark t + 1 \<le> i \<and> P i) (db_rows (sy_db s))))"
    using rows_sorted [OF q(1)] rows_sorted [OF q(2)] by (simp_all add: sorted_filter_rows)
  have "(i, r) \<in> set (db_rows (sy_db t)) \<longleftrightarrow> (i, r) \<in> set (db_rows (sy_db s))" if "mark t + 1 \<le> i" "P i" for i r
  proof -
    have "mark s \<le> mark t" using l by (simp add: later_sys_def)
    with that lg have "(i, r) \<in> set (db_rows (sy_db t)) \<longleftrightarrow> (i, r) \<in> sy_log t"
      "(i, r) \<in> set (db_rows (sy_db s)) \<longleftrightarrow> (i, r) \<in> sy_log s"
      unfolding log_ok_def by auto
    moreover have "(i, r) \<in> sy_log t \<longleftrightarrow> (i, r) \<in> sy_log s"
      using l P [OF that(2)] unfolding later_sys_def by force
    ultimately show ?thesis by simp
  qed
  then show "set (filter (\<lambda>(i, r). mark t + 1 \<le> i \<and> P i) (db_rows (sy_db t))) =
      set (filter (\<lambda>(i, r). mark t + 1 \<le> i \<and> P i) (db_rows (sy_db s)))" by auto
qed

lemma tail_ok_later:
  assumes inv: "seal_inv s" "seal_inv t" and l: "later_sys s t" and ok: "tail_ok look (mark s + 1) (sy_db s) ca"
  shows "tail_ok look (mark t + 1) (sy_db t) ca"
proof (cases "tl_rows ca")
  case (Some rows)
  with ok obtain sh where t: "tl_shape ca = Some sh" "sorted_wrt (<) (map fst rows)"
    "\<forall>(i, v) \<in> set rows. tl_start ca \<le> i \<and> tl_from ca \<le> i \<and> i < tl_end ca"
    "rows = [] \<longrightarrow> tl_from ca = tl_end ca" "rows \<noteq> [] \<longrightarrow> tl_end ca \<le> seq_of (sy_db s) + 1"
    and eq: "filter (\<lambda>(i, v). mark s + 1 \<le> i) rows =
      view look sh (filter (\<lambda>(i, r). mark s + 1 \<le> i \<and> tl_from ca \<le> i \<and> i < tl_end ca) (db_rows (sy_db s)))"
    by (auto simp: tail_ok_def)
  have m: "mark s \<le> mark t" and sq: "seq_of (sy_db s) \<le> seq_of (sy_db t)" using l by (simp_all add: later_sys_def)
  have cut: "(\<lambda>(i, v). mark s + 1 \<le> i \<and> mark t + 1 \<le> i) = (\<lambda>(i, v). mark t + 1 \<le> i)" for v
    using m by (auto simp: fun_eq_iff)
  have "filter (\<lambda>(i, v). mark t + 1 \<le> i) rows = filter (\<lambda>(i, v). mark t + 1 \<le> i) (filter (\<lambda>(i, v). mark s + 1 \<le> i) rows)"
    unfolding filter_filter_pairs using m by (intro filter_cong) auto
  also have "\<dots> = view look sh (filter (\<lambda>(i, r). mark t + 1 \<le> i)
      (filter (\<lambda>(i, r). mark s + 1 \<le> i \<and> tl_from ca \<le> i \<and> i < tl_end ca) (db_rows (sy_db s))))"
    unfolding eq view_filter ..
  also have "\<dots> = view look sh (filter (\<lambda>(i, r). mark t + 1 \<le> i \<and> tl_from ca \<le> i \<and> i < tl_end ca) (db_rows (sy_db s)))"
    unfolding filter_filter_pairs using m by (intro arg_cong [of _ _ "view look sh"] filter_cong) auto
  also have "\<dots> = view look sh (filter (\<lambda>(i, r). mark t + 1 \<le> i \<and> tl_from ca \<le> i \<and> i < tl_end ca) (db_rows (sy_db t)))"
  proof (cases "rows = []")
    case True
    with t(4) show ?thesis by (simp add: case_prod_beta)
  next
    case False
    with t(5) have "i \<le> seq_of (sy_db s)" if "tl_from ca \<le> i \<and> i < tl_end ca" for i using that by simp
    from rows_above [OF inv l this] show ?thesis by simp
  qed
  finally have "filter (\<lambda>(i, v). mark t + 1 \<le> i) rows =
      view look sh (filter (\<lambda>(i, r). mark t + 1 \<le> i \<and> tl_from ca \<le> i \<and> i < tl_end ca) (db_rows (sy_db t)))" .
  with Some t sq show ?thesis by (auto simp: tail_ok_def)
qed (simp add: tail_ok_def)

text \<open>Every row a tail holds, or a read of it returns, was appended.\<close>

lemma reusable_subset: "reusable start t = Some rows \<Longrightarrow> \<exists>old. tl_rows t = Some old \<and> set rows \<subseteq> set old"
  using set_drop_subset
  by (fastforce simp: reusable_def Let_def split: option.splits if_splits list.splits)

lemma select_rows_in:
  "(i, v) \<in> set (select_rows look sh P d) \<Longrightarrow> \<exists>r. (i, r) \<in> set (db_rows d) \<and> v = look sh r \<and> P i"
  by (auto simp: select_rows_def)

lemma rows_from_log:
  assumes r: "rows_from look sh start (sy_db s) t = (table, t')" and ok: "tail_from_log look s t" and lg: "log_ok s"
  shows "tail_from_log look s t' \<and> (\<forall>i v. (i, v) \<in> set table \<longrightarrow> (\<exists>r. (i, r) \<in> sy_log s \<and> v = look sh r))"
proof -
  define t1 where "t1 = (if tl_shape t \<noteq> Some sh then (drop_tail t)\<lparr>tl_shape := Some sh\<rparr> else t)"
  define fl where "fl = (case start of None \<Rightarrow> 0 | Some x \<Rightarrow> x)"
  have ok1: "tail_from_log look s t1" "tl_shape t1 = Some sh"
    using ok by (auto simp: t1_def tail_from_log_def drop_tail_def)
  from r have table: "table = (case reusable fl t1 of None \<Rightarrow> select_rows look sh (\<lambda>i. fl \<le> i) (sy_db s)
      | Some cached \<Rightarrow> cached @ select_rows look sh (\<lambda>i. tl_end t1 \<le> i) (sy_db s))"
    and t': "t' = remember fl table t1"
    unfolding rows_from_def Let_def fl_def [symmetric] t1_def [symmetric] by auto
  have db: "\<exists>r. (i, r) \<in> sy_log s \<and> v = look sh r" if "(i, v) \<in> set (select_rows look sh P (sy_db s))" for i v P
    using select_rows_in [OF that] lg by (auto simp: log_ok_def)
  have all: "\<exists>r. (i, r) \<in> sy_log s \<and> v = look sh r" if v: "(i, v) \<in> set table" for i v
  proof (cases "reusable fl t1")
    case None
    with v db show ?thesis by (simp add: table)
  next
    case (Some cached)
    from reusable_subset [OF this] obtain old where "tl_rows t1 = Some old" "set cached \<subseteq> set old" by blast
    with ok1 have "(i, v) \<in> set cached \<Longrightarrow> ?thesis" unfolding tail_from_log_def by blast
    with Some v db show ?thesis by (auto simp: table)
  qed
  then have "tail_from_log look s t'" using ok1(2) by (auto simp: t' remember_def tail_from_log_def)
  with all show ?thesis by blast
qed

subsection \<open>The machine keeps it\<close>

lemma read_init_inv: "read_init x \<Longrightarrow> read_inv look x"
proof -
  assume i: "read_init x"
  obtain s t where x: "x = (s, t)" by fastforce
  with i have s: "seal_init s" and t: "t = empty_tail" by (simp_all add: read_init_def)
  show ?thesis using seal_init_inv [OF s]
    by (simp add: x t read_inv_def tail_ok_def tail_from_log_def empty_tail_def)
qed

lemma later_refl: "later_sys s s"
  by (simp add: later_sys_def)

lemma read_step_inv:
  fixes x :: "'r seal_sys \<times> ('s, 'v) tail"
  assumes inv: "read_inv look x" and arr: "\<And>rs. mset (arrange rs) = mset (rs :: (offset \<times> 'r) list)"
    and st: "read_step l arrange look x y"
  shows "read_inv look y \<and> later_sys (fst x) (fst y)"
  using st
proof cases
  case (r_other s s' t)
  with inv have i: "seal_inv s" "tail_ok look (mark s + 1) (sy_db s) t" "tail_from_log look s t" by (simp_all add: read_inv_def)
  from seal_step_keeps [OF i(1) arr r_other(3)] have k: "seal_inv s'" "later_sys s s'" by (simp_all add: keeps_def)
  have "sy_log s \<subseteq> sy_log s'" using k(2) unfolding later_sys_def by (elim conjE)
  then have "tail_from_log look s' t" using i(3) unfolding tail_from_log_def by blast
  with tail_ok_later [OF i(1) k i(2)] k show ?thesis by (simp add: r_other(1,2) read_inv_def)
next
  case (r_read sh start s t table t')
  with inv have i: "seal_inv s" "tail_ok look (mark s + 1) (sy_db s) t" "tail_from_log look s t" "log_ok s"
    by (simp_all add: read_inv_def seal_inv_def)
  from rows_from_correct [OF inv_rows_ok [OF i(1)] i(2) r_read(3) refl] rows_from_log [OF r_read(3) i(3,4)]
  show ?thesis using inv by (simp add: r_read(1,2) read_inv_def later_refl)
next
  case (r_drop s t)
  then show ?thesis using inv by (simp add: read_inv_def later_refl tail_ok_def tail_from_log_def drop_tail_def)
qed

lemma later_trans:
  assumes "later_sys s t" and "later_sys t u"
  shows "later_sys s u"
proof -
  have "seq_of (sy_db s) < i" if "(i, r) \<in> sy_log u" "(i, r) \<notin> sy_log s" for i r
  proof (cases "(i, r) \<in> sy_log t")
    case True
    with that assms(1) show ?thesis unfolding later_sys_def by blast
  next
    case False
    with that assms(2) have "seq_of (sy_db t) < i" unfolding later_sys_def by blast
    moreover have "seq_of (sy_db s) \<le> seq_of (sy_db t)" using assms(1) unfolding later_sys_def by blast
    ultimately show ?thesis by simp
  qed
  moreover have "sy_names s \<subseteq>\<^sub>m sy_names u"
    using assms unfolding later_sys_def by (blast intro: map_le_trans)
  ultimately show ?thesis
    using assms unfolding later_sys_def by (meson order_trans)
qed

lemma read_steps_later:
  assumes arr: "\<And>rs. mset (arrange rs) = mset (rs :: (offset \<times> 'r) list)"
    and "steps (read_step l arrange look) x y" and "read_inv look (x :: 'r seal_sys \<times> ('s, 'v) tail)"
  shows "read_inv look y \<and> later_sys (fst x) (fst y)"
  using assms(2,3)
proof induction
  case (steps_refl s)
  then show ?case by (simp add: later_refl)
next
  case (steps_step s t u)
  from steps_step.IH [OF steps_step.prems] read_step_inv [OF _ arr steps_step.hyps(2)] later_trans
  show ?case by blast
qed

lemma read_machine:
  assumes "\<And>rs. mset (arrange rs) = mset (rs :: (offset \<times> 'r) list)"
  shows "invariant_machine read_init (read_step l arrange look) (read_inv look :: 'r seal_sys \<times> ('s, 'v) tail \<Rightarrow> bool)"
  by unfold_locales (auto intro: read_init_inv dest: read_step_inv [OF _ assms])
subsection \<open>A read is a prefix of the log\<close>

lemma table_span_Some:
  assumes "table_span fs = Some (lo, hi)"
  shows "(\<forall>i r. (i, r) \<in> set (table_rows fs) \<longrightarrow> lo \<le> i \<and> i < hi) \<and> (\<exists>r. (lo, r) \<in> set (table_rows fs)) \<and>
    (\<exists>r. (hi - 1, r) \<in> set (table_rows fs))"
proof -
  let ?A = "fst ` set (table_rows fs)"
  from assms have ne: "table_rows fs \<noteq> []" and lo: "lo = Min ?A" and hi: "hi = Max ?A + 1"
    by (auto simp: table_span_cases split: if_splits)
  have fin: "finite ?A" "?A \<noteq> {}" using ne by auto
  have "lo \<in> ?A" "hi - 1 \<in> ?A" using Min_in [OF fin] Max_in [OF fin] by (simp_all add: lo hi)
  moreover have "lo \<le> i \<and> i < hi" if "(i, r) \<in> set (table_rows fs)" for i r
  proof -
    have "i \<in> ?A" using that by (rule rev_image_eqI) simp
    then show ?thesis using fin(1) by (simp add: lo hi add1_zle_eq [symmetric])
  qed
  ultimately show ?thesis by auto
qed

lemma table_span_None: "table_span fs = None \<longleftrightarrow> table_rows fs = []"
  by (simp add: table_span_cases)

lemma bound_edge: "read_bound (sy_files s) = Some b \<Longrightarrow> b \<le> edge s"
proof -
  assume "read_bound (sy_files s) = Some b"
  then obtain lo where "table_span (sy_files s) = Some (lo, b)" by (auto simp: read_bound_def)
  then have "covers (sy_files s) b" by (simp add: covers_def)
  then show ?thesis by (simp add: edge_def le_reached)
qed

text \<open>What the buffer's read returns: rows that were appended, each once, and every one above the
  watermark from its bound on.\<close>

lemma buffered_rows:
  assumes inv: "read_inv look (s, t)" and b: "rows_from look sh start (sy_db s) t = (buf, t')"
  shows "distinct (map fst buf) \<and> (\<forall>i v. (i, v) \<in> set buf \<longrightarrow> (\<exists>r. (i, r) \<in> sy_log s \<and> v = look sh r)) \<and>
    (\<forall>i r. (i, r) \<in> sy_log s \<longrightarrow> mark s < i \<longrightarrow> (\<forall>b. start = Some b \<longrightarrow> b \<le> i) \<longrightarrow> (i, look sh r) \<in> set buf)"
proof -
  from inv have i: "seal_inv s" "tail_ok look (mark s + 1) (sy_db s) t" "tail_from_log look s t" "log_ok s" "queue_ok s"
    by (simp_all add: read_inv_def seal_inv_def)
  let ?st = "case start of None \<Rightarrow> 0 | Some x \<Rightarrow> x"
  note c = rows_from_correct [OF inv_rows_ok [OF i(1)] i(2) b refl]
  have "tl_rows t' = Some buf" using b by (auto simp: rows_from_def remember_def Let_def)
  with c have "sorted_wrt (<) (map fst buf)" by (auto simp: tail_ok_def)
  moreover have "(i, look sh r) \<in> set buf"
    if row: "(i, r) \<in> sy_log s" "mark s < i" and st: "\<forall>b. start = Some b \<longrightarrow> b \<le> i" for i r
  proof -
    have db: "(i, r) \<in> set (db_rows (sy_db s))" using i(4) row unfolding log_ok_def by blast
    have "0 < i" using i(5) db by (auto simp: queue_ok_def queue_inv_def queue_good_def)
    with st have "?st \<le> i" by (auto split: option.splits)
    with db row(2) have "(i, look sh r) \<in> set (view look sh (filter (\<lambda>(i, r). mark s + 1 \<le> i \<and> ?st \<le> i) (db_rows (sy_db s))))"
      by (force simp: view_def)
    with c have "(i, look sh r) \<in> set (filter (\<lambda>(i, v). mark s + 1 \<le> i) buf)" by simp
    then show ?thesis by simp
  qed
  ultimately show ?thesis using rows_from_log [OF b i(3,4)] by (simp add: strict_sorted_iff)
qed

lemma view_in: "(i, v) \<in> set (view look sh xs) \<longleftrightarrow> (\<exists>r. (i, r) \<in> set xs \<and> v = look sh r)"
  by (auto simp: view_def)

text \<open>The rows of the log below an offset, as a query sees them.\<close>

definition rows_below :: "('s \<Rightarrow> 'r \<Rightarrow> 'v) \<Rightarrow> 's \<Rightarrow> 'r seal_sys \<Rightarrow> offset \<Rightarrow> (offset \<times> 'v) set" where
  "rows_below look sh s upper = {(i, v). \<exists>r. (i, r) \<in> sy_log s \<and> i < upper \<and> v = look sh r}"

lemma rows_below_split:
  "rows_below look sh s b \<union> {(i, v) \<in> rows_below look sh s a. b \<le> i} = rows_below look sh s (max a b)"
  by (auto simp: rows_below_def less_max_iff_disj)

lemma distinct_apart:
  "distinct xs \<Longrightarrow> distinct ys \<Longrightarrow> \<forall>i \<in> set xs. i < b \<Longrightarrow> \<forall>i \<in> set ys. (b :: int) \<le> i \<Longrightarrow> distinct (xs @ ys)"
  by force

text \<open>The states a query's four looks find, and what it is given of the buffer and the published table.\<close>

definition looks ::
  "('s \<Rightarrow> 'r \<Rightarrow> 'v) \<Rightarrow> 's \<Rightarrow> (offset \<times> 'v) list \<Rightarrow> 'r table_files \<Rightarrow>
     'r seal_sys \<Rightarrow> 'r seal_sys \<Rightarrow> 'r seal_sys \<Rightarrow> 'r seal_sys \<Rightarrow> bool" where
  "looks look sh buf published s1 s2 s3 s4 \<longleftrightarrow>
     (seal_inv s2 \<and> seal_inv s3 \<and> seal_inv s4) \<and>
     (later_sys s1 s2 \<and> later_sys s2 s3 \<and> later_sys s3 s4) \<and>
     distinct (map fst buf) \<and> (\<forall>i v. (i, v) \<in> set buf \<longrightarrow> (\<exists>r. (i, r) \<in> sy_log s2 \<and> v = look sh r)) \<and>
     (\<forall>i r. (i, r) \<in> sy_log s2 \<longrightarrow> mark s2 < i \<longrightarrow> edge s1 \<le> i \<longrightarrow> (i, look sh r) \<in> set buf) \<and>
     set (table_rows published) = sy_pub s4 \<and> distinct (map fst (table_rows published))"

lemma looksD:
  assumes "looks look sh buf published s1 s2 s3 s4"
  shows "seal_inv s2" and "seal_inv s3" and "seal_inv s4"
    and "later_sys s1 s2" and "later_sys s2 s3" and "later_sys s3 s4"
    and "distinct (map fst buf)" and "\<And>i v. (i, v) \<in> set buf \<Longrightarrow> \<exists>r. (i, r) \<in> sy_log s2 \<and> v = look sh r"
    and "\<And>i r. (i, r) \<in> sy_log s2 \<Longrightarrow> mark s2 < i \<Longrightarrow> edge s1 \<le> i \<Longrightarrow> (i, look sh r) \<in> set buf"
    and "set (table_rows published) = sy_pub s4" and "distinct (map fst (table_rows published))"
  using assms unfolding looks_def by simp_all

lemma orders:
  assumes R: "looks look sh buf published s1 s2 s3 s4"
  shows "sy_log s2 \<subseteq> sy_log s3" "sy_log s3 \<subseteq> sy_log s4" "mark s2 \<le> mark s3" "mark s3 \<le> mark s4"
  "edge s1 \<le> edge s3" "sy_pub s3 \<subseteq> sy_pub s4"
  using looksD(4) [OF R] looksD(5) [OF R] looksD(6) [OF R] unfolding later_sys_def by auto

lemma old_rows:
  assumes R: "looks look sh buf published s1 s2 s3 s4" and "(i, r) \<in> sy_log s4"
  shows "i \<le> seq_of (sy_db s2) \<Longrightarrow> (i, r) \<in> sy_log s2" and "i \<le> seq_of (sy_db s3) \<Longrightarrow> (i, r) \<in> sy_log s3"
proof -
  note L = looksD [OF R]
  have new: "seq_of (sy_db s3) < i" if "(i, r) \<notin> sy_log s3"
    using L(6) assms that unfolding later_sys_def by blast
  have "seq_of (sy_db s2) \<le> seq_of (sy_db s3)" using L(5) unfolding later_sys_def by blast
  then show "(i, r) \<in> sy_log s2" if "i \<le> seq_of (sy_db s2)"
    using that new L(5) unfolding later_sys_def by force
  show "(i, r) \<in> sy_log s3" if "i \<le> seq_of (sy_db s3)" using that new by force
qed

lemma seq_bound:
  assumes R: "looks look sh buf published s1 s2 s3 s4"
  shows "(i, r) \<in> sy_log s2 \<Longrightarrow> i \<le> seq_of (sy_db s2)"
  using looksD(1) [OF R] unfolding seal_inv_def log_ok_def by blast

text \<open>Above what the other legs hold, the buffer's leg has every row appended before it was read.\<close>

lemma buffer_has:
  assumes R: "looks look sh buf published s1 s2 s3 s4" and row: "(i, r) \<in> sy_log s4" "i \<le> seq_of (sy_db s2)"
    and i: "edge s3 \<le> i"
  shows "(i, look sh r) \<in> set buf"
proof (rule looksD(9) [OF R old_rows(1) [OF R row]])
  have "mark s3 < edge s3" by (simp add: edge_def less_iff_succ_less_eq le_reached)
  then show "mark s2 < i" "edge s1 \<le> i" using i orders(3-5) [OF R] by auto
qed

lemma buffer_below:
  assumes R: "looks look sh buf published s1 s2 s3 s4" and v: "(i, v) \<in> set buf" and u: "seq_of (sy_db s2) < upper"
  shows "(i, v) \<in> rows_below look sh s4 upper"
proof -
  from looksD(8) [OF R v] obtain r where "(i, r) \<in> sy_log s2" "v = look sh r" by blast
  with seq_bound [OF R, of i r] u orders(1,2) [OF R] show ?thesis by (auto simp: rows_below_def)
qed

subsection \<open>The union, with and without the tiers left out\<close>

text \<open>The published rows the union takes: those below the staging table.\<close>

definition far_rows :: "'r table_files \<Rightarrow> 'r table_files \<Rightarrow> (offset \<times> 'r) list" where
  "far_rows staging published =
     (case table_span staging of
        None \<Rightarrow> table_rows published
      | Some (lo, _) \<Rightarrow> filter (\<lambda>(i, r). i < lo) (table_rows published))"

lemma union_some:
  assumes "table_span staging = Some (lo, hi)"
  shows "union_rows look sh buf staging far local =
    (if far = None then [] else filter (\<lambda>(i, v). i < lo) (view look sh (table_rows (the far)))) @
    (if local then view look sh (table_rows staging) else []) @ filter (\<lambda>(i, v). hi \<le> i) buf"
  using assms by (cases far) (simp_all add: union_rows_def)

lemma union_none:
  assumes "table_span staging = None"
  shows "union_rows look sh buf staging (prepare_remote (Some published)) local =
    (case table_span published of None \<Rightarrow> buf
     | Some (_, past) \<Rightarrow> view look sh (table_rows published) @ filter (\<lambda>(i, v). past \<le> i) buf)"
    and "union_rows look sh buf staging None local = buf"
  using assms by (simp_all add: union_rows_def prepare_remote_def split: option.splits)

lemma remote_rows:
  "far = prepare_remote (Some published) \<Longrightarrow>
     (if far = None then [] else filter P (view look sh (table_rows (the far)))) = filter P (view look sh (table_rows published))"
  by (auto simp: prepare_remote_def table_span_None view_def)

text \<open>What leaving legs out may do: the buffer has no wanted row past the staged ones, the published
  table none below them, the staging table none.\<close>

definition drops ::
  "('s \<Rightarrow> 'r \<Rightarrow> 'v) \<Rightarrow> 's \<Rightarrow> (offset \<times> 'v \<Rightarrow> bool) \<Rightarrow> (offset \<times> 'v) list \<Rightarrow> 'r seal_sys \<Rightarrow> 'r table_files \<Rightarrow>
     (offset \<times> 'v) list \<Rightarrow> 'r table_files option \<Rightarrow> bool \<Rightarrow> bool" where
  "drops look sh P buf s3 published buf' far local \<longleftrightarrow>
     (buf' = buf \<or> buf' = [] \<and> (\<forall>(i, v) \<in> set buf. edge s3 \<le> i \<longrightarrow> \<not> P (i, v))) \<and>
     (far = prepare_remote (Some published) \<or>
       far = None \<and> (\<forall>x \<in> set (view look sh (far_rows (sy_files s3) published)). \<not> P x)) \<and>
     (local \<or> (\<forall>x \<in> set (view look sh (table_rows (sy_files s3))). \<not> P x))"

lemma union_staged:
  assumes R: "looks look sh buf published s1 s2 s3 s4" and sp: "table_span (sy_files s3) = Some (lo, hi)"
    and D: "drops look sh P buf s3 published buf' far local"
  defines "U \<equiv> union_rows look sh buf' (sy_files s3) far local" and "upper \<equiv> max (seq_of (sy_db s2) + 1) hi"
  shows "distinct (map fst U) \<and> set U \<subseteq> rows_below look sh s4 upper \<and>
    (\<forall>(i, v) \<in> rows_below look sh s4 upper. P (i, v) \<longrightarrow> i \<notin> holes (sy_files s3) (mark s3) \<longrightarrow> (i, v) \<in> set U)"
proof -
  note L = looksD [OF R]
  note orders = orders [OF R]
  from table_span_Some [OF sp] obtain y where ext: "\<And>i r. (i, r) \<in> staged s3 \<Longrightarrow> lo \<le> i \<and> i < hi" "(hi - 1, y) \<in> staged s3"
    and low: "lo \<in> fst ` staged s3" by (metis (no_types, lifting) fst_conv image_eqI)
  have tb: "table_ok s3" and lg: "log_ok s3" "log_ok s4" using L(2,3) by (simp_all add: seal_inv_def)
  define A where "A = (if far = None then [] else filter (\<lambda>(i, v). i < lo) (view look sh (table_rows (the far))))"
  define M where "M = (if local then view look sh (table_rows (sy_files s3)) else [])"
  define C where "C = filter (\<lambda>(i, v). hi \<le> i) buf'"
  have U: "U = A @ M @ C" unfolding U_def union_some [OF sp] A_def M_def C_def ..
  have buf': "set buf' \<subseteq> set buf" "distinct (map fst buf')" using D L(7) by (auto simp: drops_def)
  have A: "A = filter (\<lambda>(i, v). i < lo) (view look sh (table_rows published)) \<or>
      A = [] \<and> (\<forall>x \<in> set (view look sh (far_rows (sy_files s3) published)). \<not> P x)"
    using D remote_rows [of far published "\<lambda>(i, v). i < lo" look sh] unfolding drops_def A_def by auto
  have A_in: "\<exists>r. (i, r) \<in> sy_pub s4 \<and> v = look sh r \<and> i < lo" if "(i, v) \<in> set A" for i v
    using A that L(10) by (auto simp: view_in)
  have M_in: "\<exists>r. (i, r) \<in> staged s3 \<and> v = look sh r" if "(i, v) \<in> set M" for i v
    using that by (auto simp: M_def view_in split: if_splits)
  have "distinct (map fst A @ (map fst M @ map fst C))"
  proof (intro distinct_apart)
    show "distinct (map fst A)" using A L(11) by (elim disjE conjE) (simp_all add: distinct_map_filter)
    show "distinct (map fst M)" using tb by (simp add: M_def table_ok_def)
    show "distinct (map fst C)" using buf'(2) by (simp add: C_def distinct_map_filter)
    show "\<forall>i \<in> set (map fst A). i < lo" using A_in by force
    show "\<forall>i \<in> set (map fst C). hi \<le> i" by (auto simp: C_def)
    show "\<forall>i \<in> set (map fst M). i < hi" using M_in ext(1) by force
    show "\<forall>i \<in> set (map fst M @ map fst C). lo \<le> i" using M_in ext low by (force simp: C_def)
  qed
  moreover have "set U \<subseteq> rows_below look sh s4 upper"
  proof -
    have "sy_pub s4 \<subseteq> sy_log s4" "staged s3 \<subseteq> sy_log s4"
      using L(3) tb orders(2) by (auto simp: seal_inv_def pub_ok_def table_ok_def)
    moreover have "lo < hi" using ext(1) low by force
    ultimately have "set A \<subseteq> rows_below look sh s4 upper" "set M \<subseteq> rows_below look sh s4 upper"
      using A_in M_in ext(1) by (fastforce simp: rows_below_def upper_def)+
    moreover have "set C \<subseteq> rows_below look sh s4 upper"
      using buffer_below [OF R, of _ _ upper] buf'(1) by (auto simp: C_def upper_def)
    ultimately show ?thesis by (simp add: U)
  qed
  moreover have "(i, look sh r) \<in> set U"
    if row: "(i, r) \<in> sy_log s4" "i < upper" and P: "P (i, look sh r)" and no: "i \<notin> holes (sy_files s3) (mark s3)" for i r
  proof (cases "(i, r) \<in> staged s3")
    case True
    then have v: "(i, look sh r) \<in> set (view look sh (table_rows (sy_files s3)))" by (auto simp: view_in)
    with D P have "local" unfolding drops_def by blast
    with v have "(i, look sh r) \<in> set M" by (simp add: M_def)
    then show ?thesis by (simp add: U)
  next
    case False
    have one: "(i, q) \<in> staged s3 \<Longrightarrow> q = r" for q
      using tb orders(2) lg(2) row(1) unfolding table_ok_def log_ok_def by blast
    with False have out: "i \<notin> fst ` staged s3" by auto
    show ?thesis
    proof (cases "i < lo")
      case True
      have "hi - 1 \<le> seq_of (sy_db s3)" using ext(2) tb lg(1) unfolding table_ok_def log_ok_def by blast
      with True ext low have "i \<le> seq_of (sy_db s3)" by force
      from old_rows(2) [OF R row(1) this] have old: "(i, r) \<in> sy_log s3" .
      have "hi \<le> edge s3" by (simp add: edge_def reached_def sp)
      with True ext low have "i < edge s3" by force
      with tb old False have "i \<le> mark s3" unfolding table_ok_def by blast
      with row(1) lg(2) orders(4) have "(i, r) \<in> sy_pub s4" unfolding log_ok_def by auto
      then have in_far: "(i, look sh r) \<in> set (view look sh (far_rows (sy_files s3) published))"
        "(i, look sh r) \<in> set (filter (\<lambda>(i, v). i < lo) (view look sh (table_rows published)))"
        using True L(10) by (auto simp: far_rows_def sp view_in)
      with A P have "(i, look sh r) \<in> set A" by auto
      then show ?thesis by (simp add: U)
    next
      case ge: False
      with low out have "lo < i" by (metis linorder_neqE)
      with low out no have mk: "mark s3 < i" unfolding holes_def by auto
      have "hi \<le> i"
      proof (rule ccontr)
        assume lt: "\<not> hi \<le> i"
        have "hi - 1 \<le> seq_of (sy_db s3)" using ext(2) tb lg(1) unfolding table_ok_def log_ok_def by blast
        with lt have "i \<le> seq_of (sy_db s3)" by simp
        from old_rows(2) [OF R row(1) this] have "(i, r) \<in> sy_log s3" .
        moreover have "i < edge s3" using lt by (simp add: edge_def reached_def sp)
        ultimately show False using tb False mk unfolding table_ok_def by force
      qed
      with mk have e: "edge s3 \<le> i" by (simp add: edge_def reached_def sp)
      from \<open>hi \<le> i\<close> row(2) have "i \<le> seq_of (sy_db s2)" by (simp add: upper_def)
      from buffer_has [OF R row(1) this e] have b: "(i, look sh r) \<in> set buf" .
      with D P e have "buf' = buf" by (auto simp: drops_def)
      with b \<open>hi \<le> i\<close> have "(i, look sh r) \<in> set C" by (simp add: C_def)
      then show ?thesis by (simp add: U)
    qed
  qed
  ultimately show ?thesis by (auto simp: U rows_below_def)
qed

lemma union_unstaged:
  assumes R: "looks look sh buf published s1 s2 s3 s4" and sp: "table_span (sy_files s3) = None"
    and D: "drops look sh P buf s3 published buf' far local"
  defines "U \<equiv> union_rows look sh buf' (sy_files s3) far local"
  shows "\<exists>upper > seq_of (sy_db s2). distinct (map fst U) \<and> set U \<subseteq> rows_below look sh s4 upper \<and>
    (\<forall>(i, v) \<in> rows_below look sh s4 upper. P (i, v) \<longrightarrow> (i, v) \<in> set U)"
proof -
  note L = looksD [OF R]
  have e: "edge s3 = mark s3 + 1" by (simp add: edge_def reached_def sp)
  have pub: "sy_pub s4 \<subseteq> sy_log s4" and lg: "log_ok s4" and closed: "pub_ok s4"
    using L(3) by (simp_all add: seal_inv_def pub_ok_def)
  define past where "past = (case table_span published of None \<Rightarrow> 0 | Some (lo, past) \<Rightarrow> past)"
  define upper where "upper = (if sy_pub s4 = {} then seq_of (sy_db s2) + 1 else max (seq_of (sy_db s2) + 1) past)"
  have up: "seq_of (sy_db s2) < upper" by (auto simp: upper_def less_max_iff_disj)
  have in_pub: "i < past" if "(i, r) \<in> sy_pub s4" for i r
    using that L(10) table_span_Some [of published] by (fastforce simp: past_def table_span_None split: option.splits)
  have below: "(i, r) \<in> sy_pub s4" if "(i, r) \<in> sy_log s4" "i < past" "sy_pub s4 \<noteq> {}" for i r
  proof -
    have "table_rows published \<noteq> []" using that(3) L(10) by auto
    then obtain lo where "table_span published = Some (lo, past)"
      by (cases "table_span published") (auto simp: past_def table_span_None)
    from table_span_Some [OF this] L(10) obtain z where "(past - 1, z) \<in> sy_pub s4" by auto
    with closed that(1,2) show ?thesis unfolding pub_ok_def by (metis zle_diff1_eq)
  qed
  have none: "sy_pub s4 = {} \<longleftrightarrow> table_span published = None"
    unfolding L(10) [symmetric] table_span_None by simp
  have buf': "set buf' \<subseteq> set buf" "distinct (map fst buf')" using D L(7) by (auto simp: drops_def)
  have far: "far = prepare_remote (Some published) \<or> far = None \<and> (\<forall>x \<in> set (view look sh (table_rows published)). \<not> P x)"
    using D by (auto simp: drops_def far_rows_def sp)
  have U: "U = buf' \<and> (sy_pub s4 = {} \<or> (\<forall>x \<in> set (view look sh (table_rows published)). \<not> P x)) \<or>
      U = view look sh (table_rows published) @ filter (\<lambda>(i, v). past \<le> i) buf' \<and> sy_pub s4 \<noteq> {}"
    using far unfolding U_def
    by (elim disjE) (auto simp: union_none [OF sp] none past_def split: option.splits)
  have "distinct (map fst (table_rows published) @ map fst (filter (\<lambda>(i, v). past \<le> i) buf'))"
  proof (rule distinct_apart [of _ _ past])
    show "\<forall>i \<in> set (map fst (table_rows published)). i < past" using in_pub L(10) by auto
  qed (use L(11) buf'(2) in \<open>auto simp: distinct_map_filter\<close>)
  then have "distinct (map fst U)" using U buf'(2) by auto
  moreover have "set U \<subseteq> rows_below look sh s4 upper"
  proof -
    from up buf'(1) buffer_below [OF R] have "set buf' \<subseteq> rows_below look sh s4 upper" by auto
    moreover have "set (view look sh (table_rows published)) \<subseteq> rows_below look sh s4 upper"
      using in_pub pub L(10) by (fastforce simp: view_in rows_below_def upper_def)
    ultimately show ?thesis using U by auto
  qed
  moreover have "(i, look sh r) \<in> set U" if row: "(i, r) \<in> sy_log s4" "i < upper" and P: "P (i, look sh r)" for i r
  proof (cases "(i, r) \<in> sy_pub s4")
    case True
    then have "(i, look sh r) \<in> set (view look sh (table_rows published))" using L(10) by (auto simp: view_in)
    with U P True show ?thesis by auto
  next
    case False
    have mk: "mark s4 < i" using False row(1) lg linorder_not_le unfolding log_ok_def by blast
    have ge: "sy_pub s4 = {} \<or> past \<le> i" using below [OF row(1)] False linorder_not_le by blast
    then have seq: "i \<le> seq_of (sy_db s2)" using row(2) by (auto simp: upper_def split: if_splits)
    have ed: "edge s3 \<le> i" using mk e orders(4) [OF R] by simp
    from buffer_has [OF R row(1) seq ed] have b: "(i, look sh r) \<in> set buf" .
    with D P ed have "buf' = buf" by (auto simp: drops_def)
    with b U ge show ?thesis by auto
  qed
  ultimately have "distinct (map fst U) \<and> set U \<subseteq> rows_below look sh s4 upper \<and>
    (\<forall>(i, v) \<in> rows_below look sh s4 upper. P (i, v) \<longrightarrow> (i, v) \<in> set U)" by (auto simp: rows_below_def)
  with up show ?thesis by blast
qed

text \<open>The union holds every wanted row below an offset no lower than the log's end when the buffer was
  read, but for the holes of the staging table, each row once, and no row that was not appended.\<close>

lemma union_of_tiers:
  assumes R: "looks look sh buf published s1 s2 s3 s4" and D: "drops look sh P buf s3 published buf' far local"
  shows "\<exists>upper > seq_of (sy_db s2). distinct (map fst (union_rows look sh buf' (sy_files s3) far local)) \<and>
    set (union_rows look sh buf' (sy_files s3) far local) \<subseteq> rows_below look sh s4 upper \<and>
    (\<forall>(i, v) \<in> rows_below look sh s4 upper. P (i, v) \<longrightarrow> i \<notin> holes (sy_files s3) (mark s3) \<longrightarrow>
       (i, v) \<in> set (union_rows look sh buf' (sy_files s3) far local))"
proof (cases "table_span (sy_files s3)")
  case None
  from union_unstaged [OF R None D] show ?thesis by blast
next
  case (Some p)
  then obtain lo hi where "table_span (sy_files s3) = Some (lo, hi)" by (cases p) auto
  from union_staged [OF R this D] show ?thesis
    by (intro exI [of _ "max (seq_of (sy_db s2) + 1) hi"]) simp
qed

lemma drops_nothing: "drops look sh P buf s3 published buf (prepare_remote (Some published)) True"
  by (simp add: drops_def)

end
