(* ===== verification/Publishing_Contract.thy ===== *)
theory Publishing_Contract
  imports Publishing Read_System Published_Contract
begin

text \<open>
  Publishing may stop anywhere: after each of its transactions the published table still holds every row
  it held, each once, and each row the watermark promises; and the next publish that is asked for
  everything finishes what the last one began.
\<close>

subsection \<open>Steps and what holds between them\<close>

text \<open>\<open>P\<close> holds before, between and after the steps, and \<open>Q\<close> after them; with \<open>live\<close>, none of them raises.\<close>

fun flows :: "bool \<Rightarrow> ('r push_world \<Rightarrow> bool) \<Rightarrow> 'r push_step list \<Rightarrow> 'r push_world \<Rightarrow> ('r push_world \<Rightarrow> bool) \<Rightarrow> bool" where
  "flows live P [] w Q \<longleftrightarrow> P w \<and> Q w"
| "flows live P (s # ss) w Q \<longleftrightarrow>
     P w \<and> (live \<longrightarrow> s w \<noteq> None) \<and> (\<forall>w'. s w = Some w' \<longrightarrow> flows live P ss w' Q)"

lemma flows_weaken: "flows live P ss w Q \<Longrightarrow> (\<And>w'. P w' \<Longrightarrow> Q w' \<Longrightarrow> R w') \<Longrightarrow> flows live P ss w R"
  by (induction ss arbitrary: w) auto

lemma flows_append: "flows live P ss w (\<lambda>w'. flows live P ts w' Q) \<Longrightarrow> flows live P (ss @ ts) w Q"
  by (induction ss arbitrary: w) auto

lemma flows_prefix: "flows live P ss w Q \<Longrightarrow> run_push (take n ss) w = Some w' \<Longrightarrow> P w'"
proof (induction ss arbitrary: w n)
  case (Cons s ss)
  then show ?case by (cases n) (auto split: option.splits)
qed simp

lemma flows_start: "flows live P ss w Q \<Longrightarrow> P w"
  by (cases ss) auto

lemma flows_run: "flows live P ss w Q \<Longrightarrow> run_push ss w = Some w' \<Longrightarrow> P w' \<and> Q w'"
  by (induction ss arbitrary: w) (auto split: option.splits)

lemma flows_total: "flows True P ss w Q \<Longrightarrow> \<exists>w'. run_push ss w = Some w' \<and> P w' \<and> Q w'"
  by (induction ss arbitrary: w) fastforce+

lemma flows_and_then:
  assumes "flows live P ss w (\<lambda>w'. flows live P (f w') w' Q)"
  shows "flows live P (and_then ss f w) w Q"
proof (cases "run_push ss w")
  case None
  have "flows live P ss w Q" if "run_push ss w = None" "flows live P ss w R" for R
    using that by (induction ss arbitrary: w) (auto split: option.splits)
  with None assms show ?thesis by (simp add: and_then_def)
next
  case (Some w')
  have "flows live P ss w (\<lambda>v. v = w' \<and> flows live P (f w') w' Q)"
    using assms Some
  proof (induction ss arbitrary: w)
    case (Cons s ss)
    then show ?case by (auto split: option.splits)
  qed auto
  then have "flows live P ss w (\<lambda>v. flows live P (f w') v Q)" by (rule flows_weaken) simp
  then show ?thesis using Some by (simp add: and_then_def flows_append)
qed

subsection \<open>Files and their ranges\<close>

definition start_of :: "'r Seal_Pass.data_file \<Rightarrow> offset" where
  "start_of f = sf_start (described (\<lambda>_. 0) f)"

definition end_of :: "'r Seal_Pass.data_file \<Rightarrow> offset" where
  "end_of f = sf_end (described (\<lambda>_. 0) f)"

lemma described_simps [simp]: "sf_start (described b f) = start_of f" "sf_end (described b f) = end_of f"
  "sf_path (described b f) = fst f"
  by (simp_all add: start_of_def end_of_def described_def)

lemma file_range:
  assumes "snd f \<noteq> []"
  shows "(i, r) \<in> set (snd f) \<Longrightarrow> start_of f \<le> i \<and> i < end_of f"
    and "\<exists>r. (start_of f, r) \<in> set (snd f)" and "\<exists>r. (end_of f - 1, r) \<in> set (snd f)"
proof -
  let ?A = "fst ` set (snd f)"
  have ne: "map fst (snd f) \<noteq> []" and fin: "finite ?A" "?A \<noteq> {}" using assms by auto
  have lo: "start_of f = Min ?A" and hi: "end_of f = Max ?A + 1"
    using ne by (simp_all add: start_of_def end_of_def described_def list_min_Some list_max_Some)
  have "start_of f \<in> ?A" "end_of f - 1 \<in> ?A" using Min_in [OF fin] Max_in [OF fin] by (simp_all add: lo hi)
  then show "\<exists>r. (start_of f, r) \<in> set (snd f)" "\<exists>r. (end_of f - 1, r) \<in> set (snd f)" by auto
  assume "(i, r) \<in> set (snd f)"
  then have "i \<in> ?A" by (rule rev_image_eqI) simp
  then show "start_of f \<le> i \<and> i < end_of f" using fin(1) by (simp add: lo hi add1_zle_eq [symmetric])
qed

lemma start_before_end: "snd f \<noteq> [] \<Longrightarrow> start_of f < end_of f"
  using file_range(1,2) [of f] by blast

lemma in_table: "x \<in> set (table_rows fs) \<longleftrightarrow> (\<exists>f \<in> set fs. x \<in> set (snd f))"
  by (auto simp: table_rows_def)

lemma table_rows_filter: "set (table_rows (filter P fs)) \<subseteq> set (table_rows fs)"
  by (auto simp: table_rows_def)

text \<open>A table's files: named once, none empty, each over a range of its own.\<close>

definition table_good :: "'r Seal_Pass.data_file list \<Rightarrow> bool" where
  "table_good fs \<longleftrightarrow> distinct (map fst fs) \<and> (\<forall>f \<in> set fs. snd f \<noteq> [] \<and> distinct (map fst (snd f))) \<and>
     (\<forall>f \<in> set fs. \<forall>g \<in> set fs. f = g \<or> end_of f \<le> start_of g \<or> end_of g \<le> start_of f)"

lemma table_good_distinct:
  assumes "table_good fs"
  shows "distinct (map fst (table_rows fs))"
  using assms
proof (induction fs)
  case (Cons f fs)
  have "table_good fs" using Cons.prems by (simp add: table_good_def)
  moreover have "i \<notin> fst ` set (table_rows fs)" if "i \<in> fst ` set (snd f)" for i
  proof
    assume "i \<in> fst ` set (table_rows fs)"
    then obtain g r where g: "g \<in> set fs" "(i, r) \<in> set (snd g)" by (auto simp: in_table)
    from that obtain q where q: "(i, q) \<in> set (snd f)" by auto
    have "f \<noteq> g" using Cons.prems g(1) by (auto simp: table_good_def)
    then have "end_of f \<le> start_of g \<or> end_of g \<le> start_of f" using Cons.prems g(1) unfolding table_good_def by auto
    moreover have "snd f \<noteq> []" "snd g \<noteq> []" using q g(2) by auto
    ultimately show False using file_range(1) [of f, OF _ q] file_range(1) [of g, OF _ g(2)] by linarith
  qed
  ultimately show ?case using Cons by (auto simp: table_rows_def table_good_def)
qed (simp add: table_rows_def)

lemma floor_above: "(i, r) \<in> set (table_rows fs) \<Longrightarrow> i < published_floor fs"
  using table_span_Some [of fs] table_span_None [of fs] by (cases "table_span fs") (auto simp: published_floor_def)

lemma floor_row: "table_rows fs \<noteq> [] \<Longrightarrow> \<exists>r. (published_floor fs - 1, r) \<in> set (table_rows fs)"
  using table_span_Some [of fs] table_span_None [of fs] by (cases "table_span fs") (auto simp: published_floor_def)

lemma floor_end: "f \<in> set fs \<Longrightarrow> snd f \<noteq> [] \<Longrightarrow> end_of f \<le> published_floor fs"
  using file_range(3) [of f] floor_above [of "end_of f - 1" _ fs] by (force simp: in_table)

subsection \<open>What a push keeps\<close>

abbreviation staged_rows :: "'r push_world \<Rightarrow> (offset \<times> 'r) set" where
  "staged_rows w \<equiv> set (table_rows (pw_staging w))"

abbreviation pushed_rows :: "'r push_world \<Rightarrow> (offset \<times> 'r) set" where
  "pushed_rows w \<equiv> set (table_rows (pw_published w))"

text \<open>The log: one row an offset, from 1 on.\<close>

definition log_good :: "(offset \<times> 'r) set \<Rightarrow> bool" where
  "log_good L \<longleftrightarrow> (\<forall>i r r'. (i, r) \<in> L \<longrightarrow> (i, r') \<in> L \<longrightarrow> r = r') \<and> (\<forall>i r. (i, r) \<in> L \<longrightarrow> 0 < i)"

text \<open>The staging table holds every row of the log from its bottom to its top; what is below its bottom is
  published. Its copies have names of their own.\<close>

definition staged_good :: "'b pushing \<Rightarrow> (offset \<times> 'r) set \<Rightarrow> 'r push_world \<Rightarrow> bool" where
  "staged_good pu L w \<longleftrightarrow> table_good (pw_staging w) \<and> staged_rows w \<subseteq> L \<and>
     (\<forall>i r j q k s. (i, r) \<in> L \<longrightarrow> (j, q) \<in> staged_rows w \<longrightarrow> (k, s) \<in> staged_rows w \<longrightarrow> j \<le> i \<longrightarrow> i \<le> k \<longrightarrow>
        (i, r) \<in> staged_rows w) \<and>
     inj_on (\<lambda>f. copy_of pu (described (pu_size pu) f)) (set (pw_staging w))"

text \<open>The published table is the log up to its end. A copy in it, or uploaded, has its file's rows.\<close>

definition published_good :: "'b pushing \<Rightarrow> (offset \<times> 'r) set \<Rightarrow> 'r push_world \<Rightarrow> bool" where
  "published_good pu L w \<longleftrightarrow> table_good (pw_published w) \<and> pushed_rows w \<subseteq> L \<and>
     (\<forall>i r. (i, r) \<in> L \<longrightarrow> i < published_floor (pw_published w) \<longrightarrow> (i, r) \<in> pushed_rows w) \<and>
     (\<forall>i r j q. (i, r) \<in> L \<longrightarrow> (j, q) \<in> staged_rows w \<longrightarrow> (i, r) \<notin> staged_rows w \<longrightarrow> i < j \<longrightarrow> (i, r) \<in> pushed_rows w) \<and>
     (\<forall>f \<in> set (pw_staging w). \<forall>g \<in> set (pw_published w).
        fst g = copy_of pu (described (pu_size pu) f) \<longrightarrow> snd g = snd f) \<and>
     (\<forall>g \<in> set (pw_published w). pw_objects w (fst g) = Some (snd g))"

text \<open>The watermark \<open>k\<close> promises only what is published, and a published file it does not reach has an
  intent. No offset the published table holds, or says was issued, is issued again.\<close>

definition marks_good :: "(offset \<times> 'r) set \<Rightarrow> int \<Rightarrow> 'r push_world \<Rightarrow> bool" where
  "marks_good L k w \<longleftrightarrow> watermark (pw_db w) = Some k \<and> (\<forall>i r. (i, r) \<in> L \<longrightarrow> i \<le> k \<longrightarrow> (i, r) \<in> pushed_rows w) \<and>
     (\<forall>f \<in> set (pw_published w). end_of f \<le> k + 1 \<or> fst f \<in> fst ` set (db_intents (pw_db w))) \<and>
     (\<forall>i r. (i, r) \<in> L \<longrightarrow> i < next_offset (pw_db w)) \<and>
     (\<forall>i r. (i, r) \<in> pushed_rows w \<longrightarrow> (\<exists>n. pw_issued w = Some n \<and> i \<le> n))"

definition push_good :: "'b pushing \<Rightarrow> (offset \<times> 'r) set \<Rightarrow> 'r push_world \<Rightarrow> bool" where
  "push_good pu L w \<longleftrightarrow> log_good L \<and> staged_good pu L w \<and> published_good pu L w \<and> (\<exists>k. marks_good L k w)"

text \<open>Published files line up with the staged ones, as they do while compaction merges whole files.\<close>

definition aligned :: "'r push_world \<Rightarrow> bool" where
  "aligned w \<longleftrightarrow> (\<forall>f \<in> set (pw_staging w). \<forall>g \<in> set (pw_published w).
     start_of f < end_of g \<longrightarrow> start_of g < end_of f \<longrightarrow> start_of f \<le> start_of g \<and> end_of g \<le> end_of f)"

text \<open>A later state of the same push.\<close>

definition onward :: "'r push_world \<Rightarrow> 'r push_world \<Rightarrow> bool" where
  "onward w w' \<longleftrightarrow> pw_staging w' = pw_staging w \<and> pushed_rows w \<subseteq> pushed_rows w' \<and>
     (\<forall>k k'. watermark (pw_db w) = Some k \<longrightarrow> watermark (pw_db w') = Some k' \<longrightarrow> k \<le> k') \<and>
     (aligned w \<longrightarrow> aligned w')"

definition holds_on :: "'b pushing \<Rightarrow> (offset \<times> 'r) set \<Rightarrow> 'r push_world \<Rightarrow> 'r push_world \<Rightarrow> bool" where
  "holds_on pu L w0 w \<longleftrightarrow> push_good pu L w \<and> onward w0 w"

lemma onward_refl: "onward w w"
  by (auto simp: onward_def)

subsection \<open>Changes of the database alone\<close>

lemma watermark_meta: "db_meta d' = db_meta d \<Longrightarrow> watermark d' = watermark d"
  by (simp add: watermark_def)

text \<open>A change that keeps the watermark, or raises it to \<open>k'\<close>, and drops no intent that is needed.\<close>

lemma db_change:
  assumes h: "holds_on pu L w0 w" and k: "watermark (pw_db w) = Some k" and k': "watermark d = Some k'" "k \<le> k'"
    and seq: "next_offset d = next_offset (pw_db w)"
    and promise: "\<forall>i r. (i, r) \<in> L \<longrightarrow> i \<le> k' \<longrightarrow> (i, r) \<in> pushed_rows w"
    and ints: "\<forall>f \<in> set (pw_published w). end_of f \<le> k' + 1 \<or> fst f \<in> fst ` set (db_intents d)"
  shows "holds_on pu L w0 (w\<lparr>pw_db := d\<rparr>)"
proof -
  let ?w = "w\<lparr>pw_db := d\<rparr>"
  from h have g: "push_good pu L w" "onward w0 w" by (simp_all add: holds_on_def)
  have "marks_good L k' ?w" using g(1) k' seq promise ints k by (auto simp: push_good_def marks_good_def)
  moreover have "staged_good pu L ?w" "published_good pu L ?w"
    using g(1) by (simp_all add: push_good_def staged_good_def published_good_def)
  ultimately have "push_good pu L ?w" using g(1) by (auto simp: push_good_def)
  moreover have "onward w0 ?w" using g(2) k k' by (auto simp: onward_def aligned_def intro: order_trans)
  ultimately show ?thesis by (simp add: holds_on_def)
qed

lemma holds_mark: "holds_on pu L w0 w \<Longrightarrow> \<exists>k. marks_good L k w"
  by (simp add: holds_on_def push_good_def)

lemma same_meta:
  assumes h: "holds_on pu L w0 w" and m: "db_meta d = db_meta (pw_db w)" "db_seq d = db_seq (pw_db w)"
    and i: "fst ` set (db_intents (pw_db w)) \<subseteq> fst ` set (db_intents d)"
  shows "holds_on pu L w0 (w\<lparr>pw_db := d\<rparr>)"
proof -
  from holds_mark [OF h] obtain k where k: "marks_good L k w" ..
  then have wm: "watermark (pw_db w) = Some k" by (simp add: marks_good_def)
  show ?thesis
  proof (rule db_change [OF h wm _ order_refl])
    show "watermark d = Some k" using watermark_meta [OF m(1)] wm by simp
    show "next_offset d = next_offset (pw_db w)" using m(2) by (simp add: next_offset_def)
    show "\<forall>i r. (i, r) \<in> L \<longrightarrow> i \<le> k \<longrightarrow> (i, r) \<in> pushed_rows w"
      "\<forall>f \<in> set (pw_published w). end_of f \<le> k + 1 \<or> fst f \<in> fst ` set (db_intents d)"
      using k i unfolding marks_good_def by blast+
  qed
qed

lemma intend_keeps: "db_meta (intend_file u a b n d) = db_meta d" "db_seq (intend_file u a b n d) = db_seq d"
  "fst ` set (db_intents (intend_file u a b n d)) = insert u (fst ` set (db_intents d))"
  by (force simp: intend_file_def Let_def image_iff)+

lemma queue_keeps:
  "db_meta (enqueue_deletions ps t d) = db_meta d" "db_seq (enqueue_deletions ps t d) = db_seq d"
  "db_intents (enqueue_deletions ps t d) = db_intents d"
  "db_meta (restamp_deletions ps t d) = db_meta d" "db_seq (restamp_deletions ps t d) = db_seq d"
  "db_intents (restamp_deletions ps t d) = db_intents d"
  "db_meta (clear_swap p d) = db_meta d" "db_seq (clear_swap p d) = db_seq d" "db_intents (clear_swap p d) = db_intents d"
  by (simp_all add: enqueue_deletions_def restamp_deletions_def clear_swap_def)

lemma confirm_watermark:
  assumes "watermark d = Some k"
  shows "\<exists>d'. confirm_published through landed d = Some d' \<and> db_seq d' = db_seq d \<and>
    db_intents d' = filter (\<lambda>(p, t). p \<notin> set landed) (db_intents d) \<and>
    watermark d' = Some (if 0 \<le> max through k then max through k else k)"
proof -
  let ?d = "d\<lparr>db_meta := raised_meta (max through k) (db_meta d),
    db_intents := filter (\<lambda>(p, t). p \<notin> set landed) (db_intents d),
    db_extents := filter (\<lambda>e. \<not> covered_row (max through k + 1) e) (db_extents d)\<rparr>"
  have "watermark ?d = Some (if 0 \<le> max through k then max through k else k)"
  proof (cases "0 \<le> max through k")
    case True
    have "watermark ?d = Some (max (max through k) k)"
      by (rule watermark_after [OF assms _ True]) simp
    with True show ?thesis by simp
  qed (use assms in \<open>simp add: raised_meta_def watermark_def\<close>)
  with assms show ?thesis by (simp add: confirm_alt)
qed

text \<open>Confirming what is published.\<close>

lemma confirm_holds:
  assumes h: "holds_on pu L w0 w" and t: "\<forall>i r. (i, r) \<in> L \<longrightarrow> i \<le> through \<longrightarrow> (i, r) \<in> pushed_rows w"
    and l: "\<forall>f \<in> set (pw_published w). fst f \<in> set landed \<longrightarrow> end_of f \<le> through + 1"
  shows "\<exists>w'. confirm_step through landed w = Some w' \<and> holds_on pu L w0 w' \<and> w' = w\<lparr>pw_db := pw_db w'\<rparr> \<and>
    db_intents (pw_db w') = filter (\<lambda>(p, t). p \<notin> set landed) (db_intents (pw_db w)) \<and>
    (\<exists>k k'. watermark (pw_db w) = Some k \<and> watermark (pw_db w') = Some k' \<and> k \<le> k' \<and> (0 \<le> through \<longrightarrow> through \<le> k'))"
proof -
  from holds_mark [OF h] obtain k where k: "marks_good L k w" ..
  then have wm: "watermark (pw_db w) = Some k" by (simp add: marks_good_def)
  let ?k = "if 0 \<le> max through k then max through k else k"
  from confirm_watermark [OF wm, of through landed] obtain d where d:
    "confirm_published through landed (pw_db w) = Some d" "db_seq d = db_seq (pw_db w)"
    "db_intents d = filter (\<lambda>(p, t). p \<notin> set landed) (db_intents (pw_db w))" "watermark d = Some ?k" by blast
  have pos: "0 < i" if "(i, r) \<in> L" for i r
    using h that unfolding holds_on_def push_good_def log_good_def by blast
  have good: "\<forall>f \<in> set (pw_published w). snd f \<noteq> []" "pushed_rows w \<subseteq> L"
    using h by (auto simp: holds_on_def push_good_def published_good_def table_good_def)
  have "holds_on pu L w0 (w\<lparr>pw_db := d\<rparr>)"
  proof (rule db_change [OF h wm d(4)])
    show "k \<le> ?k" by auto
    show "next_offset d = next_offset (pw_db w)" using d(2) by (simp add: next_offset_def)
    show "\<forall>i r. (i, r) \<in> L \<longrightarrow> i \<le> ?k \<longrightarrow> (i, r) \<in> pushed_rows w"
      using t k by (auto simp: marks_good_def max_def split: if_splits)
    have "end_of f \<le> ?k + 1 \<or> fst f \<in> fst ` set (db_intents d)" if f: "f \<in> set (pw_published w)" for f
    proof (cases "fst f \<in> set landed")
      case True
      with l f have e: "end_of f \<le> through + 1" by blast
      from file_range(3) [of f] good(1) f obtain r where r: "(end_of f - 1, r) \<in> set (snd f)" by blast
      have "(end_of f - 1, r) \<in> pushed_rows w" using f r unfolding in_table by blast
      with good(2) have "(end_of f - 1, r) \<in> L" by blast
      from pos [OF this] e have "0 \<le> max through k" "end_of f \<le> max through k + 1" by arith+
      then show ?thesis by simp
    next
      case False
      moreover have "end_of f \<le> k + 1 \<or> fst f \<in> fst ` set (db_intents (pw_db w))"
        using k f by (simp add: marks_good_def)
      ultimately show ?thesis unfolding d(3) by (force simp: image_iff)
    qed
    then show "\<forall>f \<in> set (pw_published w). end_of f \<le> ?k + 1 \<or> fst f \<in> fst ` set (db_intents d)" by blast
  qed
  moreover have "k \<le> ?k \<and> (0 \<le> through \<longrightarrow> through \<le> ?k)" by auto
  ultimately show ?thesis using d wm
    by (intro exI [of _ "w\<lparr>pw_db := d\<rparr>"]) (simp add: confirm_step_def try_db_def)
qed

subsection \<open>Changes of the published table\<close>

lemma range_of_rows: "snd f = snd g \<Longrightarrow> start_of f = start_of g \<and> end_of f = end_of g"
  by (simp add: start_of_def end_of_def described_def)

lemma published_change:
  assumes h: "holds_on pu L w0 w" and good: "table_good fs" and sub: "set (table_rows fs) \<subseteq> L"
    and more: "pushed_rows w \<subseteq> set (table_rows fs)"
    and prefix: "\<And>i r. (i, r) \<in> L \<Longrightarrow> i < published_floor fs \<Longrightarrow> (i, r) \<in> set (table_rows fs)"
    and new: "\<And>g. g \<in> set fs \<Longrightarrow> g \<in> set (pw_published w) \<or> (\<exists>f \<in> set (pw_staging w).
      g = (copy_of pu (described (pu_size pu) f), snd f) \<and> pw_objects w (fst g) = Some (snd g) \<and>
      fst g \<in> fst ` set (db_intents (pw_db w)))"
  shows "holds_on pu L w0 (w\<lparr>pw_published := fs, pw_issued := issued_now w\<rparr>)"
proof -
  let ?w = "w\<lparr>pw_published := fs, pw_issued := issued_now w\<rparr>"
  let ?copy = "\<lambda>f. copy_of pu (described (pu_size pu) f)"
  from h obtain k where L: "log_good L" and s: "staged_good pu L w" and p: "published_good pu L w"
    and k: "marks_good L k w" and on: "onward w0 w" by (auto simp: holds_on_def push_good_def)
  have inj: "f = f'" if "f \<in> set (pw_staging w)" "f' \<in> set (pw_staging w)" "?copy f = ?copy f'" for f f'
    using s that by (auto simp: staged_good_def inj_on_def)
  have "published_good pu L ?w" unfolding published_good_def
  proof (intro conjI)
    have "snd g = snd f" if f: "f \<in> set (pw_staging w)" and g: "g \<in> set fs" "fst g = ?copy f" for f g
      using new [OF g(1)] p inj [OF f] g(2) f by (fastforce simp: published_good_def)
    then show "\<forall>f \<in> set (pw_staging ?w). \<forall>g \<in> set (pw_published ?w). fst g = ?copy f \<longrightarrow> snd g = snd f" by simp
    have "pw_objects w (fst g) = Some (snd g)" if "g \<in> set fs" for g
      using new [OF that] p by (auto simp: published_good_def)
    then show "\<forall>g \<in> set (pw_published ?w). pw_objects ?w (fst g) = Some (snd g)" by simp
    show "\<forall>i r j q. (i, r) \<in> L \<longrightarrow> (j, q) \<in> staged_rows ?w \<longrightarrow> (i, r) \<notin> staged_rows ?w \<longrightarrow> i < j \<longrightarrow> (i, r) \<in> pushed_rows ?w"
      using p more unfolding published_good_def by simp blast
  qed (use good sub prefix in auto)
  moreover have "marks_good L k ?w" unfolding marks_good_def
  proof (intro conjI)
    have "end_of g \<le> k + 1 \<or> fst g \<in> fst ` set (db_intents (pw_db w))" if "g \<in> set fs" for g
      using new [OF that] k by (auto simp: marks_good_def)
    then show "\<forall>f \<in> set (pw_published ?w). end_of f \<le> k + 1 \<or> fst f \<in> fst ` set (db_intents (pw_db ?w))" by simp
    show "\<forall>i r. (i, r) \<in> L \<longrightarrow> i \<le> k \<longrightarrow> (i, r) \<in> pushed_rows ?w"
      using k more unfolding marks_good_def by simp blast
    have "i \<le> next_offset (pw_db w) - 1" if "(i, r) \<in> L" for i r
      using k that unfolding marks_good_def by force
    then show "\<forall>i r. (i, r) \<in> pushed_rows ?w \<longrightarrow> (\<exists>n. pw_issued ?w = Some n \<and> i \<le> n)"
      using sub by (auto simp: issued_now_def)
  qed (use k in \<open>simp_all add: marks_good_def\<close>)
  moreover have "staged_good pu L ?w" using s by (simp add: staged_good_def)
  moreover have "aligned ?w" if "aligned w"
  proof -
    have "start_of f \<le> start_of g \<and> end_of g \<le> end_of f"
      if f: "f \<in> set (pw_staging w)" and g: "g \<in> set fs" "start_of f < end_of g" "start_of g < end_of f" for f g
    proof (cases "g \<in> set (pw_published w)")
      case True
      with \<open>aligned w\<close> f g show ?thesis by (auto simp: aligned_def)
    next
      case False
      with new [OF g(1)] obtain f' where f': "f' \<in> set (pw_staging w)" "g = (?copy f', snd f')" by blast
      then have r: "start_of g = start_of f'" "end_of g = end_of f'" using range_of_rows [of g f'] by simp_all
      have "f = f' \<or> end_of f \<le> start_of f' \<or> end_of f' \<le> start_of f"
        using s f f'(1) by (auto simp: staged_good_def table_good_def)
      with r g(2,3) show ?thesis by auto
    qed
    then show ?thesis by (auto simp: aligned_def)
  qed
  moreover have "pushed_rows w0 \<subseteq> pushed_rows w" using on by (simp add: onward_def)
  then have "pushed_rows w0 \<subseteq> pushed_rows ?w" using more by auto
  ultimately show ?thesis using L on by (auto simp: holds_on_def push_good_def onward_def)
qed

text \<open>An upload.\<close>

lemma put_holds:
  assumes h: "holds_on pu L w0 w" and f: "f \<in> set (pw_staging w)" and u: "u = copy_of pu (described (pu_size pu) f)"
  shows "put_step u (fst f) w = Some (w\<lparr>pw_objects := (pw_objects w)(u \<mapsto> snd f)\<rparr>) \<and>
    holds_on pu L w0 (w\<lparr>pw_objects := (pw_objects w)(u \<mapsto> snd f)\<rparr>)"
proof -
  let ?w = "w\<lparr>pw_objects := (pw_objects w)(u \<mapsto> snd f)\<rparr>"
  from h have g: "push_good pu L w" "onward w0 w" by (simp_all add: holds_on_def)
  have "distinct (map fst (pw_staging w))" using g(1) by (simp add: push_good_def staged_good_def table_good_def)
  then have "map_of (pw_staging w) (fst f) = Some (snd f)" using f by (simp add: map_of_eq_Some_iff)
  moreover have "published_good pu L ?w"
    using g(1) f by (auto simp: push_good_def published_good_def u)
  moreover have "staged_good pu L ?w" "\<And>k. marks_good L k w \<Longrightarrow> marks_good L k ?w"
    using g(1) by (simp_all add: push_good_def staged_good_def marks_good_def)
  moreover have "onward w0 ?w" using g(2) by (simp add: onward_def aligned_def)
  ultimately show ?thesis using g(1) by (auto simp: put_step_def holds_on_def push_good_def)
qed

text \<open>A staged file has every row of the log in its range.\<close>

lemma file_has_rows:
  assumes s: "staged_good pu L w" and f: "f \<in> set (pw_staging w)" and i: "(i, r) \<in> L" "start_of f \<le> i" "i < end_of f"
  shows "(i, r) \<in> set (snd f)"
proof -
  have tg: "table_good (pw_staging w)" using s by (simp add: staged_good_def)
  then have ne: "snd f \<noteq> []" using f by (auto simp: table_good_def)
  from file_range(2,3) [OF ne] obtain q q' where "(start_of f, q) \<in> staged_rows w" "(end_of f - 1, q') \<in> staged_rows w"
    using f by (auto simp: in_table)
  moreover have "i \<le> end_of f - 1" using i(3) by simp
  ultimately have "(i, r) \<in> staged_rows w" using s i unfolding staged_good_def by blast
  then obtain g where g: "g \<in> set (pw_staging w)" "(i, r) \<in> set (snd g)" by (auto simp: in_table)
  then have "start_of g \<le> i \<and> i < end_of g" by (intro file_range(1)) auto
  then have "g = f" using tg f g(1) i(2,3) unfolding table_good_def by fastforce
  with g(2) show ?thesis by simp
qed

text \<open>Every file of a good table lies above offset 0.\<close>

lemma good_start:
  assumes "log_good L" and "set (table_rows fs) \<subseteq> L" and "f \<in> set fs" and "snd f \<noteq> []"
  shows "0 < start_of f"
proof -
  from file_range(2) [OF assms(4)] obtain r where "(start_of f, r) \<in> set (snd f)" by blast
  with assms(3) have "(start_of f, r) \<in> set (table_rows fs)" unfolding in_table by blast
  with assms(2) have "(start_of f, r) \<in> L" by blast
  then show ?thesis using assms(1) unfolding log_good_def by blast
qed

lemma holdsD:
  assumes "holds_on pu L w0 w"
  shows "log_good L" and "staged_good pu L w" and "published_good pu L w" and "onward w0 w"
    and "table_good (pw_staging w)" and "table_good (pw_published w)" and "staged_rows w \<subseteq> L" and "pushed_rows w \<subseteq> L"
    and "\<And>f. f \<in> set (pw_staging w) \<Longrightarrow> snd f \<noteq> []" and "\<And>f. f \<in> set (pw_published w) \<Longrightarrow> snd f \<noteq> []"
    and "\<And>i r. (i, r) \<in> L \<Longrightarrow> i < published_floor (pw_published w) \<Longrightarrow> (i, r) \<in> pushed_rows w"
    and "\<And>f g. f \<in> set (pw_staging w) \<Longrightarrow> g \<in> set (pw_published w) \<Longrightarrow>
      fst g = copy_of pu (described (pu_size pu) f) \<Longrightarrow> snd g = snd f"
    and "\<And>f g. f \<in> set (pw_staging w) \<Longrightarrow> g \<in> set (pw_staging w) \<Longrightarrow>
      copy_of pu (described (pu_size pu) f) = copy_of pu (described (pu_size pu) g) \<Longrightarrow> f = g"
proof -
  show h: "log_good L" "staged_good pu L w" "published_good pu L w" "onward w0 w"
    using assms by (simp_all add: holds_on_def push_good_def)
  then show good: "table_good (pw_staging w)" "table_good (pw_published w)" "staged_rows w \<subseteq> L" "pushed_rows w \<subseteq> L"
    by (simp_all add: staged_good_def published_good_def)
  then show "\<And>f. f \<in> set (pw_staging w) \<Longrightarrow> snd f \<noteq> []" "\<And>f. f \<in> set (pw_published w) \<Longrightarrow> snd f \<noteq> []"
    by (simp_all add: table_good_def)
  show "\<And>i r. (i, r) \<in> L \<Longrightarrow> i < published_floor (pw_published w) \<Longrightarrow> (i, r) \<in> pushed_rows w"
    "\<And>f g. f \<in> set (pw_staging w) \<Longrightarrow> g \<in> set (pw_published w) \<Longrightarrow>
      fst g = copy_of pu (described (pu_size pu) f) \<Longrightarrow> snd g = snd f"
    using h(3) unfolding published_good_def by blast+
  show "\<And>f g. f \<in> set (pw_staging w) \<Longrightarrow> g \<in> set (pw_staging w) \<Longrightarrow>
      copy_of pu (described (pu_size pu) f) = copy_of pu (described (pu_size pu) g) \<Longrightarrow> f = g"
    using h(2) unfolding staged_good_def inj_on_def by blast
qed

lemma straddles_span_iff: "straddles_span b fs \<longleftrightarrow> table_rows fs \<noteq> [] \<and> b < published_floor fs"
  using table_span_None [of fs] by (auto simp: straddles_span_def published_floor_def split: option.splits)

lemma covers_floor: "covers fs b \<Longrightarrow> b \<le> published_floor fs"
  by (auto simp: covers_def published_floor_def split: option.splits)

lemma register_holds:
  assumes h: "holds_on pu L w0 w" and fs: "fs \<noteq> []" "set fs \<subseteq> set (pw_staging w)" "distinct fs"
    and us: "us = map (\<lambda>f. copy_of pu (described (pu_size pu) f)) fs"
    and up: "\<forall>f \<in> set fs. pw_objects w (copy_of pu (described (pu_size pu) f)) = Some (snd f) \<and>
      copy_of pu (described (pu_size pu) f) \<in> fst ` set (db_intents (pw_db w))"
    and order: "\<forall>f \<in> set fs. start_of (hd fs) \<le> start_of f \<and> end_of f \<le> end_of (last fs)"
    and floor: "published_floor (pw_published w) < end_of (last fs)"
    and filled: "\<forall>i r. (i, r) \<in> L \<longrightarrow> published_floor (pw_published w) \<le> i \<longrightarrow> i < end_of (last fs) \<longrightarrow>
      (i, r) \<in> set (table_rows fs)"
  shows "\<not> declined (end_of (last fs)) (pw_published w)"
    and "published_floor (pw_published w) \<le> start_of (hd fs) \<Longrightarrow> register_step (start_of (hd fs)) (end_of (last fs)) us w \<noteq> None"
    and "register_step (start_of (hd fs)) (end_of (last fs)) us w = Some w' \<Longrightarrow> holds_on pu L w0 w' \<and>
      published_floor (pw_published w') = end_of (last fs) \<and> set (table_rows fs) \<subseteq> pushed_rows w' \<and> pw_db w' = pw_db w"
proof -
  note up = up [rule_format] and order = order [rule_format] and filled = filled [rule_format]
  let ?copy = "\<lambda>f. copy_of pu (described (pu_size pu) f)"
  let ?new = "map (\<lambda>f. (?copy f, snd f)) fs"
  let ?fs = "pw_published w @ ?new"
  let ?past = "end_of (last fs)"
  note D = holdsD [OF h]
  have last: "last fs \<in> set (pw_staging w)" using fs(1,2) by auto
  have "0 < start_of (last fs)" by (rule good_start [OF D(1,7) last D(9) [OF last]])
  then have "1 < ?past" using start_before_end [OF D(9) [OF last]] by simp
  then show nd: "\<not> declined ?past (pw_published w)" using covers_floor floor by (fastforce simp: declined_def)
  have inj: "inj_on ?copy (set fs)" by (rule inj_onI) (use fs(2) D(13) in blast)
  have fresh: "?copy f \<notin> fst ` set (pw_published w)"
    if f: "f \<in> set fs" and low: "published_floor (pw_published w) \<le> start_of (hd fs)" for f
  proof
    assume "?copy f \<in> fst ` set (pw_published w)"
    then obtain g where g: "g \<in> set (pw_published w)" "fst g = ?copy f" by auto
    have fw: "f \<in> set (pw_staging w)" using f fs(2) by blast
    from D(12) [OF fw g] range_of_rows [of g f] have "end_of g = end_of f" by blast
    moreover have "end_of g \<le> published_floor (pw_published w)" by (rule floor_end [OF g(1) D(10) [OF g(1)]])
    moreover have "start_of f < end_of f" by (rule start_before_end [OF D(9) [OF fw]])
    ultimately show False using order [OF f] low by simp
  qed
  have added: "add_files (pw_objects w) us (pw_published w) = Some ?fs"
    if "published_floor (pw_published w) \<le> start_of (hd fs)"
    using fresh [OF _ that] up fs(3) inj by (auto simp: add_files_def us distinct_map)
  show "register_step (start_of (hd fs)) ?past us w \<noteq> None" if low: "published_floor (pw_published w) \<le> start_of (hd fs)"
    using nd low added [OF low] by (auto simp: register_step_def straddles_span_iff)
  show "holds_on pu L w0 w' \<and> published_floor (pw_published w') = ?past \<and> set (table_rows fs) \<subseteq> pushed_rows w' \<and>
      pw_db w' = pw_db w"
    if reg: "register_step (start_of (hd fs)) ?past us w = Some w'"
  proof -
    have low: "published_floor (pw_published w) \<le> start_of (hd fs)"
    proof (cases "table_rows (pw_published w) = []")
      case True
      then have "published_floor (pw_published w) = 0" by (simp add: published_floor_def table_span_None [symmetric])
      moreover have "0 < start_of (hd fs)" using good_start [OF D(1,7) _ D(9)] fs(1,2) hd_in_set by blast
      ultimately show ?thesis by simp
    next
      case False
      with reg nd show ?thesis by (auto simp: register_step_def straddles_span_iff split: if_splits)
    qed
    have w': "w' = w\<lparr>pw_published := ?fs, pw_issued := issued_now w\<rparr>"
      using reg nd added [OF low] by (auto simp: register_step_def split: if_splits)
    have rows: "set (table_rows ?fs) = pushed_rows w \<union> set (table_rows fs)"
      by (auto simp: table_rows_def)
    have new_in: "\<exists>f \<in> set fs. g = (?copy f, snd f) \<and> start_of g = start_of f \<and> end_of g = end_of f" if "g \<in> set ?new" for g
      using that range_of_rows [of g] by fastforce
    have sub: "set (table_rows fs) \<subseteq> staged_rows w" using fs(2) by (auto simp: table_rows_def)
    have top: "published_floor ?fs = ?past"
    proof (rule antisym)
      have "table_rows ?fs \<noteq> []" using last fs(1) D(9) [OF last] by (auto simp: table_rows_def)
      from floor_row [OF this] obtain r where "(published_floor ?fs - 1, r) \<in> set (table_rows ?fs)" ..
      then have "(published_floor ?fs - 1, r) \<in> pushed_rows w \<or> (published_floor ?fs - 1, r) \<in> set (table_rows fs)"
        using rows by blast
      then show "published_floor ?fs \<le> ?past"
      proof
        assume "(published_floor ?fs - 1, r) \<in> pushed_rows w"
        from floor_above [OF this] floor show ?thesis by simp
      next
        assume "(published_floor ?fs - 1, r) \<in> set (table_rows fs)"
        then obtain f where f: "f \<in> set fs" "(published_floor ?fs - 1, r) \<in> set (snd f)" by (auto simp: in_table)
        then have "published_floor ?fs - 1 < end_of f" by (intro file_range(1) [THEN conjunct2]) auto
        with order [OF f(1)] show ?thesis by simp
      qed
    next
      have "(?copy (last fs), snd (last fs)) \<in> set ?fs" using fs(1) by auto
      from floor_end [OF this] show "?past \<le> published_floor ?fs"
        using D(9) [OF last] range_of_rows [of "(?copy (last fs), snd (last fs))" "last fs"] by simp
    qed
    have "holds_on pu L w0 w'" unfolding w'
    proof (rule published_change [OF h])
      show "table_good ?fs" unfolding table_good_def
      proof (intro conjI ballI)
        have "distinct (map ?copy fs)" using fs(3) inj by (simp add: distinct_map)
        moreover have "distinct (map fst (pw_published w))" using D(6) by (simp add: table_good_def)
        moreover have "fst ` set (pw_published w) \<inter> ?copy ` set fs = {}"
          using fresh [OF _ low] by (metis (no_types, lifting) disjoint_iff imageE)
        ultimately show "distinct (map fst ?fs)" by (simp add: comp_def)
        fix f assume f: "f \<in> set ?fs"
        have "snd f \<noteq> [] \<and> distinct (map fst (snd f))"
        proof (cases "f \<in> set (pw_published w)")
          case True
          with D(6) show ?thesis by (simp add: table_good_def)
        next
          case False
          with f new_in obtain x where "x \<in> set fs" "snd f = snd x" by fastforce
          with D(5) fs(2) show ?thesis unfolding table_good_def by auto
        qed
        then show "snd f \<noteq> []" "distinct (map fst (snd f))" by simp_all
        fix g assume g: "g \<in> set ?fs"
        have old: "end_of x \<le> start_of y" if x: "x \<in> set (pw_published w)" and y: "y \<in> set ?new" for x y
        proof -
          from new_in [OF y] obtain f where "f \<in> set fs" "start_of y = start_of f" by blast
          with order low floor_end [OF x D(10) [OF x]] show ?thesis by fastforce
        qed
        have both: "x = y \<or> end_of x \<le> start_of y \<or> end_of y \<le> start_of x" if "x \<in> set ?new" "y \<in> set ?new" for x y
        proof -
          from new_in [OF that(1)] obtain a where a: "a \<in> set fs" "x = (?copy a, snd a)"
            "start_of x = start_of a" "end_of x = end_of a" by blast
          from new_in [OF that(2)] obtain b where b: "b \<in> set fs" "y = (?copy b, snd b)"
            "start_of y = start_of b" "end_of y = end_of b" by blast
          from a(1) b(1) fs(2) D(5) have "a = b \<or> end_of a \<le> start_of b \<or> end_of b \<le> start_of a"
            unfolding table_good_def by blast
          with a b show ?thesis by auto
        qed
        show "f = g \<or> end_of f \<le> start_of g \<or> end_of g \<le> start_of f"
          using f g old both D(6) unfolding table_good_def set_append by blast
      qed
      show "set (table_rows ?fs) \<subseteq> L" "pushed_rows w \<subseteq> set (table_rows ?fs)" using rows D(7,8) sub by auto
      show "(i, r) \<in> set (table_rows ?fs)" if "(i, r) \<in> L" "i < published_floor ?fs" for i r
        using that top rows filled D(11) by (cases "i < published_floor (pw_published w)") auto
      show "g \<in> set (pw_published w) \<or> (\<exists>f \<in> set (pw_staging w). g = (?copy f, snd f) \<and>
          pw_objects w (fst g) = Some (snd g) \<and> fst g \<in> fst ` set (db_intents (pw_db w)))" if g: "g \<in> set ?fs" for g
      proof (cases "g \<in> set (pw_published w)")
        case False
        with g obtain f where "f \<in> set fs" "g = (?copy f, snd f)" by auto
        with up fs(2) show ?thesis by auto
      qed simp
    qed
    moreover have "pushed_rows w' = pushed_rows w \<union> set (table_rows fs)" using rows by (simp add: w')
    ultimately show ?thesis using top by (simp add: w')
  qed
qed

subsection \<open>One swap's commit\<close>

definition meets :: "'r Seal_Pass.data_file \<Rightarrow> 'r Seal_Pass.data_file \<Rightarrow> bool" where
  "meets f g \<longleftrightarrow> start_of f < end_of g \<and> start_of g < end_of f"

lemma rows_out_cases:
  assumes "snd g \<noteq> []"
  shows "\<not> meets f g \<Longrightarrow> rows_out rw (start_of f) (end_of f) g = [g]"
    and "start_of f \<le> start_of g \<Longrightarrow> end_of g \<le> end_of f \<Longrightarrow> rows_out rw (start_of f) (end_of f) g = []"
proof -
  note r = file_range(1) [OF assms]
  show "rows_out rw (start_of f) (end_of f) g = [g]" if "\<not> meets f g"
  proof -
    have "filter (\<lambda>(i, r). \<not> in_span (start_of f) (end_of f) i) (snd g) = snd g"
      using that r by (fastforce simp: filter_id_conv in_span_def meets_def)
    then show ?thesis by (simp add: rows_out_def)
  qed
  show "rows_out rw (start_of f) (end_of f) g = []" if "start_of f \<le> start_of g" "end_of g \<le> end_of f"
  proof -
    have "filter (\<lambda>(i, r). \<not> in_span (start_of f) (end_of f) i) (snd g) = []"
      using that r by (fastforce simp: filter_empty_conv in_span_def)
    then show ?thesis using assms by (simp add: rows_out_def)
  qed
qed

lemma rows_out_all:
  assumes "\<forall>g \<in> set fs. snd g \<noteq> []" and "\<forall>g \<in> set fs. meets f g \<longrightarrow> start_of f \<le> start_of g \<and> end_of g \<le> end_of f"
  shows "concat (map (rows_out rw (start_of f) (end_of f)) fs) = filter (\<lambda>g. \<not> meets f g) fs"
  using assms by (induction fs) (auto simp: rows_out_cases)

lemma floor_append:
  assumes "\<forall>g \<in> set fs. snd g \<noteq> []" and "snd h \<noteq> []" and "\<forall>g \<in> set fs. end_of g \<le> end_of h"
  shows "published_floor (fs @ [h]) = end_of h"
proof (rule antisym)
  have "table_rows (fs @ [h]) \<noteq> []" using assms(2) by (auto simp: table_rows_def)
  from floor_row [OF this] obtain r where "(published_floor (fs @ [h]) - 1, r) \<in> set (table_rows (fs @ [h]))" ..
  then obtain g where g: "g \<in> set (fs @ [h])" "(published_floor (fs @ [h]) - 1, r) \<in> set (snd g)" unfolding in_table by blast
  then have "published_floor (fs @ [h]) - 1 < end_of g" by (intro file_range(1) [THEN conjunct2]) auto
  moreover have "end_of g \<le> end_of h" using g(1) assms(3) by auto
  ultimately show "published_floor (fs @ [h]) \<le> end_of h" by simp
  show "end_of h \<le> published_floor (fs @ [h])" by (rule floor_end) (simp_all add: assms(2))
qed

lemma replace_holds:
  assumes h: "holds_on pu L w0 w" and f: "f \<in> set (pw_staging w)" and u: "u = copy_of pu (described (pu_size pu) f)"
    and up: "pw_objects w u = Some (snd f)" "u \<in> fst ` set (db_intents (pw_db w))"
    and low: "start_of f < published_floor (pw_published w)"
    and lines: "\<forall>g \<in> set (pw_published w). meets f g \<longrightarrow> start_of f \<le> start_of g \<and> end_of g \<le> end_of f"
  shows "\<exists>w'. replace_step rw (start_of f) (end_of f) u w = Some w' \<and> holds_on pu L w0 w' \<and>
    pw_published w' = filter (\<lambda>g. \<not> meets f g) (pw_published w) @ [(u, snd f)] \<and>
    published_floor (pw_published w') = max (published_floor (pw_published w)) (end_of f) \<and> pw_db w' = pw_db w"
proof -
  note D = holdsD [OF h]
  let ?kept = "filter (\<lambda>g. \<not> meets f g) (pw_published w)"
  let ?fs = "?kept @ [(u, snd f)]"
  let ?F = "published_floor (pw_published w)"
  have ne: "snd f \<noteq> []" by (rule D(9) [OF f])
  have rf: "start_of (u, snd f) = start_of f" "end_of (u, snd f) = end_of f" using range_of_rows [of "(u, snd f)" f] by simp_all
  have se: "start_of f < end_of f" by (rule start_before_end [OF ne])
  have fresh: "u \<notin> fst ` set ?kept"
  proof
    assume "u \<in> fst ` set ?kept"
    then obtain g where g: "g \<in> set (pw_published w)" "\<not> meets f g" "fst g = u" by auto
    from D(12) [OF f g(1)] g(3) u range_of_rows [of g f] have "start_of g = start_of f" "end_of g = end_of f" by simp_all
    with g(2) se show False by (simp add: meets_def)
  qed
  have split: "concat (map (rows_out rw (start_of f) (end_of f)) (pw_published w)) = ?kept"
    by (rule rows_out_all) (use lines D(10) in auto)
  have step: "replace_step rw (start_of f) (end_of f) u w = Some (w\<lparr>pw_published := ?fs, pw_issued := issued_now w\<rparr>)"
    using fresh up(1) by (simp add: replace_step_def split add_files_def)
  have rows: "set (table_rows ?fs) = set (table_rows ?kept) \<union> set (snd f)" by (simp add: table_rows_def)
  have more: "pushed_rows w \<subseteq> set (table_rows ?fs)"
  proof
    fix x assume x: "x \<in> pushed_rows w"
    then obtain g where g: "g \<in> set (pw_published w)" "x \<in> set (snd g)" unfolding in_table by blast
    obtain i r where ir: "x = (i, r)" by fastforce
    show "x \<in> set (table_rows ?fs)"
    proof (cases "meets f g")
      case True
      with lines g(1) have "start_of f \<le> start_of g" "end_of g \<le> end_of f" by blast+
      moreover have "start_of g \<le> i \<and> i < end_of g" by (rule file_range(1)) (use g ir in auto)
      ultimately have "start_of f \<le> i" "i < end_of f" by linarith+
      with file_has_rows [OF D(2) f] x D(8) ir have "x \<in> set (snd f)" by blast
      with rows show ?thesis by blast
    next
      case False
      with g(1) have "g \<in> set ?kept" by simp
      with g(2) have "x \<in> set (table_rows ?kept)" unfolding in_table by blast
      with rows show ?thesis by blast
    qed
  qed
  have top: "published_floor ?fs = max ?F (end_of f)"
  proof (cases "end_of f \<le> ?F")
    case True
    have "table_rows (pw_published w) \<noteq> []"
    proof
      assume "table_rows (pw_published w) = []"
      then have "?F = 0" by (simp add: published_floor_def table_span_None [symmetric])
      with low good_start [OF D(1,7) f ne] show False by simp
    qed
    from floor_row [OF this] obtain r where r: "(?F - 1, r) \<in> pushed_rows w" ..
    have "table_rows ?fs \<noteq> []" using ne by (auto simp: table_rows_def)
    from floor_row [OF this] obtain r' where r': "(published_floor ?fs - 1, r') \<in> set (table_rows ?fs)" ..
    have "published_floor ?fs - 1 < ?F"
    proof (cases "(published_floor ?fs - 1, r') \<in> set (snd f)")
      case True
      from file_range(1) [OF ne this] \<open>end_of f \<le> ?F\<close> show ?thesis by linarith
    next
      case False
      with r' rows have "(published_floor ?fs - 1, r') \<in> set (table_rows ?kept)" by blast
      then have "(published_floor ?fs - 1, r') \<in> pushed_rows w" using table_rows_filter by blast
      from floor_above [OF this] show ?thesis .
    qed
    moreover have "?F - 1 < published_floor ?fs" by (rule floor_above) (use r more in blast)
    ultimately show ?thesis using True by simp
  next
    case False
    have "published_floor ?fs = end_of (u, snd f)"
    proof (rule floor_append)
      show "\<forall>g \<in> set ?kept. end_of g \<le> end_of (u, snd f)"
        using floor_end [OF _ D(10)] False by (fastforce simp: rf)
    qed (use ne D(10) in auto)
    with False show ?thesis by (simp add: rf)
  qed
  have "holds_on pu L w0 (w\<lparr>pw_published := ?fs, pw_issued := issued_now w\<rparr>)"
  proof (rule published_change [OF h _ _ more])
    show "table_good ?fs" unfolding table_good_def
    proof (intro conjI ballI)
      show "distinct (map fst ?fs)" using fresh D(6) by (simp add: table_good_def distinct_map_filter)
      fix x assume x: "x \<in> set ?fs"
      have sok: "snd f \<noteq> [] \<and> distinct (map fst (snd f))" using f D(5) by (simp add: table_good_def)
      have "snd x \<noteq> [] \<and> distinct (map fst (snd x))" using x D(6) sok by (auto simp: table_good_def)
      then show "snd x \<noteq> []" "distinct (map fst (snd x))" by simp_all
      fix y assume y: "y \<in> set ?fs"
      have apart: "end_of g \<le> start_of f \<or> end_of f \<le> start_of g" if "g \<in> set ?kept" for g
        using that by (auto simp: meets_def)
      have old: "x = y \<or> end_of x \<le> start_of y \<or> end_of y \<le> start_of x" if "x \<in> set ?kept" "y \<in> set ?kept"
        using that D(6) by (simp add: table_good_def)
      from x y consider "x \<in> set ?kept" "y \<in> set ?kept" | "x \<in> set ?kept" "y = (u, snd f)"
        | "x = (u, snd f)" "y \<in> set ?kept" | "x = (u, snd f)" "y = (u, snd f)" by fastforce
      then show "x = y \<or> end_of x \<le> start_of y \<or> end_of y \<le> start_of x"
      proof cases
        case 1
        then show ?thesis by (rule old)
      next
        case 2
        with apart [OF 2(1)] show ?thesis by (simp add: rf)
      next
        case 3
        with apart [OF 3(2)] show ?thesis by (auto simp: rf)
      qed simp
    qed
    have "set (snd f) \<subseteq> staged_rows w" using f unfolding in_table subset_iff by blast
    moreover have "set (table_rows ?kept) \<subseteq> pushed_rows w" by (rule table_rows_filter)
    ultimately show "set (table_rows ?fs) \<subseteq> L" using rows D(7,8) by blast
    show "(i, r) \<in> set (table_rows ?fs)" if i: "(i, r) \<in> L" "i < published_floor ?fs" for i r
    proof (cases "i < ?F")
      case True
      with D(11) i(1) more show ?thesis by blast
    next
      case False
      with i(2) top low have "start_of f \<le> i" "i < end_of f" by auto
      with file_has_rows [OF D(2) f i(1)] rows show ?thesis by blast
    qed
    show "g \<in> set (pw_published w) \<or> (\<exists>f \<in> set (pw_staging w). g = (copy_of pu (described (pu_size pu) f), snd f) \<and>
        pw_objects w (fst g) = Some (snd g) \<and> fst g \<in> fst ` set (db_intents (pw_db w)))" if g: "g \<in> set ?fs" for g
    proof (cases "g \<in> set (pw_published w)")
      case False
      with g have "g = (u, snd f)" by simp
      with f u up show ?thesis by (intro disjI2 bexI [of _ f]) simp_all
    qed simp
  qed
  with step top show ?thesis by auto
qed

subsection \<open>One candidate\<close>

lemma flows_step: "P w \<Longrightarrow> s w = Some w1 \<Longrightarrow> flows live P ss w1 Q \<Longrightarrow> flows live P (s # ss) w Q"
  by simp

text \<open>The watermark reaches the floor and no intent of this table is open.\<close>

definition at_floor :: "'b pushing \<Rightarrow> offset \<Rightarrow> 'r push_world \<Rightarrow> bool" where
  "at_floor pu b w \<longleftrightarrow> published_floor (pw_published w) = b \<and>
     (\<forall>p \<in> fst ` set (db_intents (pw_db w)). \<not> under (boundary (pu_home pu)) p) \<and>
     (0 < b \<longrightarrow> (\<exists>k. watermark (pw_db w) = Some k \<and> b \<le> k + 1))"

lemma no_intents: "intents home d = [] \<longleftrightarrow> (\<forall>p \<in> fst ` set (db_intents d). \<not> under (boundary home) p)"
  by (force simp: intents_def filter_empty_conv)

lemma copy_under: "under (boundary (pu_home pu)) (copy_of pu f)"
  by (simp add: under_def copy_of_def file_uri_def)

lemma copy_described: "copy_of pu (described b f) = copy_of pu (described c f)"
  by (simp add: copy_of_def file_rel_def)

lemma in_data_files: "x \<in> set (data_files b fs) \<longleftrightarrow> (\<exists>f \<in> set fs. x = described b f)"
  by (auto simp: data_files_def)

lemma replaced_files:
  "set (replaced_by (data_files b pub) (described b f)) = described b ` {g \<in> set pub. meets f g}"
  by (auto simp: replaced_by_def in_data_files meets_def)

text \<open>What a candidate meets in the published table is what it met there when the loop began.\<close>

definition as_before :: "'r Seal_Pass.data_file list \<Rightarrow> 'r Seal_Pass.data_file \<Rightarrow> 'r push_world \<Rightarrow> bool" where
  "as_before pub f w \<longleftrightarrow> (\<forall>g. meets f g \<longrightarrow> (g \<in> set pub \<longleftrightarrow> g \<in> set (pw_published w)))"

lemma swaps_in_lines:
  assumes "swaps_in pu (data_files (pu_size pu) pub) (described (pu_size pu) f)"
  shows "\<exists>g \<in> set pub. meets f g" and "\<forall>g \<in> set pub. meets f g \<longrightarrow> start_of f \<le> start_of g \<and> end_of g \<le> end_of f"
proof -
  have l: "lines_up (described (pu_size pu) f) (replaced_by (data_files (pu_size pu) pub) (described (pu_size pu) f))"
    using assms by (simp add: swaps_in_def)
  then have "set (replaced_by (data_files (pu_size pu) pub) (described (pu_size pu) f)) \<noteq> {}" by (simp add: lines_up_def)
  then show "\<exists>g \<in> set pub. meets f g" unfolding replaced_files by blast
  show "\<forall>g \<in> set pub. meets f g \<longrightarrow> start_of f \<le> start_of g \<and> end_of g \<le> end_of f"
    using l unfolding lines_up_def replaced_files by fastforce
qed

lemma confirm_settles:
  assumes h: "holds_on pu L w0 w" and b: "published_floor (pw_published w) = b" and t: "through < b"
    and l: "\<forall>f \<in> set (pw_published w). fst f \<in> set landed \<longrightarrow> end_of f \<le> through + 1"
    and i: "\<forall>p \<in> fst ` set (db_intents (pw_db w)). under (boundary (pu_home pu)) p \<longrightarrow> p \<in> set landed"
    and k: "0 < b \<Longrightarrow> b \<le> through + 1 \<or> (\<exists>k. watermark (pw_db w) = Some k \<and> b \<le> k + 1)"
  shows "\<exists>w'. confirm_step through landed w = Some w' \<and> holds_on pu L w0 w' \<and> w' = w\<lparr>pw_db := pw_db w'\<rparr> \<and> at_floor pu b w'"
proof -
  have "\<forall>i r. (i, r) \<in> L \<longrightarrow> i \<le> through \<longrightarrow> (i, r) \<in> pushed_rows w"
    using holdsD(11) [OF h] b t by force
  from confirm_holds [OF h this l] obtain w' where w': "confirm_step through landed w = Some w'" "holds_on pu L w0 w'"
    "w' = w\<lparr>pw_db := pw_db w'\<rparr>" "db_intents (pw_db w') = filter (\<lambda>(p, t). p \<notin> set landed) (db_intents (pw_db w))"
    "\<exists>k k'. watermark (pw_db w) = Some k \<and> watermark (pw_db w') = Some k' \<and> k \<le> k' \<and> (0 \<le> through \<longrightarrow> through \<le> k')" by blast
  have "pw_published w' = pw_published w" by (subst w'(3)) simp
  moreover have "\<forall>p \<in> fst ` set (db_intents (pw_db w')). \<not> under (boundary (pu_home pu)) p"
    using i unfolding w'(4) by force
  moreover have "\<exists>k. watermark (pw_db w') = Some k \<and> b \<le> k + 1" if "0 < b"
    using k [OF that] w'(5) that by force
  ultimately have "at_floor pu b w'" using b by (simp add: at_floor_def)
  with w'(1-3) show ?thesis by blast
qed

lemma swap_flows:
  assumes h: "holds_on pu L w0 w" and f: "f \<in> set (pw_staging w)" and s: "at_floor pu b w" and o: "as_before pub f w"
  shows "flows live (holds_on pu L w0) (swap_steps pu known (data_files (pu_size pu) pub) (described (pu_size pu) f)) w
    (\<lambda>w'. at_floor pu (if swaps_in pu (data_files (pu_size pu) pub) (described (pu_size pu) f) then max b (end_of f) else b) w' \<and>
       pw_published w' = (if swaps_in pu (data_files (pu_size pu) pub) (described (pu_size pu) f)
         then filter (\<lambda>g. \<not> meets f g) (pw_published w) @ [(copy_of pu (described (pu_size pu) f), snd f)] else pw_published w))"
proof -
  let ?sf = "described (pu_size pu) f" and ?old = "data_files (pu_size pu) pub"
  let ?u = "copy_of pu ?sf" and ?P = "holds_on pu L w0"
  let ?gone = "map sf_path (replaced_by ?old ?sf)"
  have clear: "?P w1 \<Longrightarrow> at_floor pu c w1 \<Longrightarrow>
      do_db (clear_swap p) w1 = Some (w1\<lparr>pw_db := clear_swap p (pw_db w1)\<rparr>) \<and>
      ?P (w1\<lparr>pw_db := clear_swap p (pw_db w1)\<rparr>) \<and> at_floor pu c (w1\<lparr>pw_db := clear_swap p (pw_db w1)\<rparr>)" for w1 p c
    using same_meta [of pu L w0 w1 "clear_swap p (pw_db w1)"]
    by (simp add: do_db_def queue_keeps at_floor_def watermark_meta [of "clear_swap p (pw_db w1)" "pw_db w1"])
  show ?thesis
  proof (cases "swaps_in pu ?old ?sf")
    case False
    then show ?thesis using h clear [OF h s] by (simp add: swap_steps_def Let_def)
  next
    case True
    note D = holdsD [OF h]
    have meets: "g \<in> set pub \<longleftrightarrow> g \<in> set (pw_published w)" if "meets f g" for g
      using o that unfolding as_before_def by blast
    from swaps_in_lines [OF True] meets have lines:
      "\<forall>g \<in> set (pw_published w). meets f g \<longrightarrow> start_of f \<le> start_of g \<and> end_of g \<le> end_of f"
      and "\<exists>g \<in> set (pw_published w). meets f g" by blast+
    then obtain g where g: "g \<in> set (pw_published w)" "meets f g" by blast
    have b: "published_floor (pw_published w) = b" using s by (simp add: at_floor_def)
    have low: "start_of f < published_floor (pw_published w)"
      using g floor_end [OF g(1) D(10) [OF g(1)]] by (simp add: meets_def)
    define w1 where "w1 = w\<lparr>pw_db := intend_file ?u (start_of f) (end_of f) (memory_of known ?sf) (pw_db w)\<rparr>"
    define w2 where "w2 = w1\<lparr>pw_objects := (pw_objects w1)(?u \<mapsto> snd f)\<rparr>"
    define w3 where "w3 = w2\<lparr>pw_db := enqueue_deletions ?gone (seconds (se_now (pu_seen pu))) (pw_db w2)\<rparr>"
    have P1: "?P w1" unfolding w1_def by (rule same_meta [OF h]) (auto simp: intend_keeps)
    have P2: "put_step ?u (fst f) w1 = Some w2" "?P w2"
      using put_holds [OF P1 _ refl, of f] f by (simp_all add: w2_def) (simp add: w1_def)+
    have P3: "?P w3" unfolding w3_def by (rule same_meta [OF P2(2)]) (auto simp: queue_keeps)
    have same: "pw_published w3 = pw_published w" "pw_staging w3 = pw_staging w" by (simp_all add: w3_def w2_def w1_def)
    have i3: "fst ` set (db_intents (pw_db w3)) = insert ?u (fst ` set (db_intents (pw_db w)))"
      by (simp add: w3_def w2_def w1_def queue_keeps intend_keeps)
    have m3: "watermark (pw_db w3) = watermark (pw_db w)"
      by (rule watermark_meta) (simp add: w3_def w2_def w1_def queue_keeps intend_keeps)
    have "\<exists>w4. replace_step (pu_rewritten pu) (start_of f) (end_of f) ?u w3 = Some w4 \<and> ?P w4 \<and>
      pw_published w4 = filter (\<lambda>g. \<not> meets f g) (pw_published w3) @ [(?u, snd f)] \<and>
      published_floor (pw_published w4) = max (published_floor (pw_published w3)) (end_of f) \<and> pw_db w4 = pw_db w3"
      by (rule replace_holds [OF P3]) (use f low lines i3 same in \<open>auto simp: w3_def w2_def\<close>)
    then obtain w4 where w4: "replace_step (pu_rewritten pu) (start_of f) (end_of f) ?u w3 = Some w4" "?P w4"
      "pw_published w4 = filter (\<lambda>g. \<not> meets f g) (pw_published w) @ [(?u, snd f)]"
      "published_floor (pw_published w4) = max b (end_of f)" "pw_db w4 = pw_db w3" using same b by auto
    define w5 where "w5 = w4\<lparr>pw_db := restamp_deletions ?gone (seconds (se_commit (pu_seen pu))) (pw_db w4)\<rparr>"
    have P5: "?P w5" unfolding w5_def by (rule same_meta [OF w4(2)]) (auto simp: queue_keeps)
    have u_end: "end_of x \<le> end_of f - 1 + 1" if "x \<in> set (pw_published w5)" "fst x \<in> set [?u]" for x
    proof -
      have "snd x = snd f" using holdsD(12) [OF w4(2), of f x] that f D(4) holdsD(4) [OF w4(2)]
        by (simp add: w5_def onward_def)
      then show ?thesis using range_of_rows [of x f] by simp
    qed
    have "\<exists>w6. confirm_step (end_of f - 1) [?u] w5 = Some w6 \<and> ?P w6 \<and> w6 = w5\<lparr>pw_db := pw_db w6\<rparr> \<and> at_floor pu (max b (end_of f)) w6"
    proof (rule confirm_settles [OF P5])
      show "published_floor (pw_published w5) = max b (end_of f)" using w4(4) by (simp add: w5_def)
      show "\<forall>x \<in> set (pw_published w5). fst x \<in> set [?u] \<longrightarrow> end_of x \<le> end_of f - 1 + 1" using u_end by blast
      show "\<forall>p \<in> fst ` set (db_intents (pw_db w5)). under (boundary (pu_home pu)) p \<longrightarrow> p \<in> set [?u]"
        using s i3 w4(5) by (auto simp: w5_def queue_keeps at_floor_def)
      have "watermark (pw_db w5) = watermark (pw_db w)" using m3 w4(5) watermark_meta
        by (simp add: w5_def queue_keeps watermark_meta [of "restamp_deletions ?gone (seconds (se_commit (pu_seen pu))) (pw_db w3)" "pw_db w3"])
      then show "max b (end_of f) \<le> end_of f - 1 + 1 \<or> (\<exists>k. watermark (pw_db w5) = Some k \<and> max b (end_of f) \<le> k + 1)"
        if "0 < max b (end_of f)" using s that by (auto simp: at_floor_def max_def)
    qed simp
    then obtain w6 where w6: "confirm_step (end_of f - 1) [?u] w5 = Some w6" "?P w6" "w6 = w5\<lparr>pw_db := pw_db w6\<rparr>"
      "at_floor pu (max b (end_of f)) w6" by blast
    have "pw_published w6 = pw_published w4" by (subst w6(3)) (simp add: w5_def)
    with clear [OF w6(2,4)] w4(3) show ?thesis
      by (simp add: swap_steps_def Let_def True do_db_def h P1 P2 P3 w4(1,2) P5 w6(1,2)
          w1_def [symmetric] w3_def [symmetric] w5_def [symmetric])
  qed
qed

subsection \<open>The loop over the candidates\<close>

lemma as_before_swap:
  assumes h: "holds_on pu L w0 w" and f: "f \<in> set (pw_staging w)" and f': "f' \<in> set (pw_staging w)" "f' \<noteq> f"
    and o: "as_before pub f w" "as_before pub f' w"
    and lines: "\<forall>g \<in> set pub. meets f g \<longrightarrow> start_of f \<le> start_of g \<and> end_of g \<le> end_of f"
    and w': "pw_published w' = filter (\<lambda>g. \<not> meets f g) (pw_published w) @ [(u, snd f)]"
  shows "as_before pub f' w'"
proof -
  from holdsD(5) [OF h] f f' have apart: "end_of f \<le> start_of f' \<or> end_of f' \<le> start_of f"
    by (auto simp: table_good_def)
  have new: "\<not> meets f' (u, snd f)"
    using apart range_of_rows [of "(u, snd f)" f] by (auto simp: meets_def)
  have old: "\<not> meets f g" if "g \<in> set pub" "meets f' g" for g
    using lines that apart by (auto simp: meets_def)
  show ?thesis unfolding as_before_def w'
  proof (intro allI impI)
    fix g assume m: "meets f' g"
    then have "g \<noteq> (u, snd f)" using new by blast
    then show "g \<in> set pub \<longleftrightarrow> g \<in> set (filter (\<lambda>g. \<not> meets f g) (pw_published w) @ [(u, snd f)])"
      using o(2) [unfolded as_before_def, rule_format, OF m] old [OF _ m] by auto
  qed
qed

lemma swap_floor_Cons:
  "swap_floor pu old (f # fs) b = swap_floor pu old fs (if swaps_in pu old f then max b (sf_end f) else b)"
  by (simp add: swap_floor_def)

lemma holds_staging: "holds_on pu L w0 w \<Longrightarrow> pw_staging w = pw_staging w0"
  by (simp add: holds_on_def onward_def)

lemma swaps_flow:
  assumes "holds_on pu L w0 w" and "at_floor pu b w" and "distinct fs" and "set fs \<subseteq> set (pw_staging w0)"
    and "\<forall>f \<in> set fs. as_before pub f w"
  shows "flows live (holds_on pu L w0) (concat (map (swap_steps pu known (data_files (pu_size pu) pub)) (map (described (pu_size pu)) fs))) w
    (at_floor pu (swap_floor pu (data_files (pu_size pu) pub) (map (described (pu_size pu)) fs) b))"
  using assms
proof (induction fs arbitrary: w b)
  case Nil
  then show ?case by (simp add: swap_floor_def)
next
  case (Cons f fs)
  let ?old = "data_files (pu_size pu) pub" and ?sf = "described (pu_size pu) f"
  let ?b = "if swaps_in pu ?old ?sf then max b (end_of f) else b"
  have f: "f \<in> set (pw_staging w)" using Cons.prems holds_staging by fastforce
  have "flows live (holds_on pu L w0) (swap_steps pu known ?old ?sf) w
    (\<lambda>w'. flows live (holds_on pu L w0) (concat (map (swap_steps pu known ?old) (map (described (pu_size pu)) fs))) w'
       (at_floor pu (swap_floor pu ?old (map (described (pu_size pu)) fs) ?b)))"
  proof (rule flows_weaken [OF swap_flows [OF Cons.prems(1) f Cons.prems(2), of pub]])
    show "as_before pub f w" using Cons.prems(5) by simp
    fix w' assume P: "holds_on pu L w0 w'" and q: "at_floor pu ?b w' \<and>
       pw_published w' = (if swaps_in pu ?old ?sf
         then filter (\<lambda>g. \<not> meets f g) (pw_published w) @ [(copy_of pu ?sf, snd f)] else pw_published w)"
    have "as_before pub f' w'" if f': "f' \<in> set fs" for f'
    proof (cases "swaps_in pu ?old ?sf")
      case True
      have "f' \<in> set (pw_staging w)" "f' \<noteq> f" using Cons.prems f' holds_staging by fastforce+
      then show ?thesis
        by (rule as_before_swap [OF Cons.prems(1) f _ _ _ _ swaps_in_lines(2) [OF True]])
          (use Cons.prems(5) f' q True in auto)
    next
      case False
      with q Cons.prems(5) f' show ?thesis by (simp add: as_before_def)
    qed
    with Cons.prems q P show "flows live (holds_on pu L w0) (concat (map (swap_steps pu known ?old) (map (described (pu_size pu)) fs))) w'
       (at_floor pu (swap_floor pu ?old (map (described (pu_size pu)) fs) ?b))"
      by (intro Cons.IH) auto
  qed
  then show ?case unfolding list.map concat.simps swap_floor_Cons described_simps by (rule flows_append)
qed

text \<open>The candidates, as files of the staging table in the order of their offsets.\<close>

definition by_offset :: "'r push_world \<Rightarrow> 'r Seal_Pass.data_file list" where
  "by_offset w = sort_key start_of (pw_staging w)"

lemma data_files_sorted: "data_files b fs = map (described b) (sort_key start_of fs)"
  by (simp add: data_files_def sort_key_map_list comp_def)

lemma staging_by_offset: "staging_files pu w = map (described (pu_size pu)) (by_offset w)"
  by (simp add: staging_files_def data_files_sorted by_offset_def)

lemma by_offset_set: "set (by_offset w) = set (pw_staging w)"
  by (simp add: by_offset_def)

lemma by_offset_distinct: "table_good (pw_staging w) \<Longrightarrow> distinct (by_offset w)"
  by (simp add: by_offset_def table_good_def distinct_map)

lemma candidates_files:
  assumes "table_good (pw_staging w)"
  shows "\<exists>fs. swap_candidates pu b w = map (described (pu_size pu)) fs \<and> distinct fs \<and> set fs \<subseteq> set (pw_staging w)"
proof -
  let ?D = "described (pu_size pu)"
  have pick: "\<exists>fs. map snd (filter P (enumerate n (map ?D xs))) = map ?D fs \<and> distinct fs \<and> set fs \<subseteq> set xs"
    if "distinct xs" for P n xs
    using that
  proof (induction xs arbitrary: n)
    case (Cons x xs)
    then obtain fs where "map snd (filter P (enumerate (Suc n) (map ?D xs))) = map ?D fs" "distinct fs" "set fs \<subseteq> set xs"
      by fastforce
    with Cons.prems show ?case
      by (intro exI [of _ "if P (n, ?D x) then x # fs else fs"]) auto
  qed simp
  from pick [OF by_offset_distinct [OF assms]] show ?thesis
    unfolding swap_candidates_def Let_def staging_by_offset by_offset_set by blast
qed

subsection \<open>No file is left across the floor\<close>

lemma swap_floor_cases:
  "(\<forall>f \<in> set fs. swaps_in pu old f \<longrightarrow> sf_end f \<le> swap_floor pu old fs b) \<and> b \<le> swap_floor pu old fs b \<and>
   (swap_floor pu old fs b = b \<or> (\<exists>f \<in> set fs. swaps_in pu old f \<and> swap_floor pu old fs b = sf_end f))"
proof (induction fs arbitrary: b)
  case (Cons f fs)
  show ?case using Cons.IH [of "if swaps_in pu old f then max b (sf_end f) else b"]
    by (simp only: swap_floor_Cons) (auto simp: max_def split: if_splits)
qed (simp add: swap_floor_def)

lemma straddler_swaps_in:
  assumes h: "holds_on pu L w0 w" and al: "aligned w" and f: "f \<in> set (pw_staging w)"
    and s: "start_of f < published_floor (pw_published w)" "published_floor (pw_published w) < end_of f"
  shows "swaps_in pu (data_files (pu_size pu) (pw_published w)) (described (pu_size pu) f)"
proof -
  note D = holdsD [OF h]
  have "table_rows (pw_published w) \<noteq> []"
  proof
    assume "table_rows (pw_published w) = []"
    then have "published_floor (pw_published w) = 0" by (simp add: published_floor_def table_span_None [symmetric])
    with s(1) good_start [OF D(1,7) f D(9) [OF f]] show False by simp
  qed
  from floor_row [OF this] obtain r g where g: "g \<in> set (pw_published w)"
    "(published_floor (pw_published w) - 1, r) \<in> set (snd g)" unfolding in_table by blast
  then have "start_of g \<le> published_floor (pw_published w) - 1 \<and> published_floor (pw_published w) - 1 < end_of g"
    by (intro file_range(1)) auto
  with s have "meets f g" by (simp add: meets_def)
  with g(1) have ne: "replaced_by (data_files (pu_size pu) (pw_published w)) (described (pu_size pu) f) \<noteq> []"
    using replaced_files [of "pu_size pu" "pw_published w" f] by fastforce
  have "copy_of pu (described (pu_size pu) f) \<noteq> fst x" if "x \<in> set (pw_published w)" for x
  proof
    assume "copy_of pu (described (pu_size pu) f) = fst x"
    with D(12) [OF f that] range_of_rows [of x f] have "end_of x = end_of f" by simp
    with floor_end [OF that D(10) [OF that]] s(2) show False by simp
  qed
  then have "copy_of pu (described (pu_size pu) f) \<notin> sf_path `
      set (replaced_by (data_files (pu_size pu) (pw_published w)) (described (pu_size pu) f))"
    unfolding replaced_files image_image described_simps by (auto simp only: image_iff mem_Collect_eq)
  moreover have "\<forall>x \<in> set (replaced_by (data_files (pu_size pu) (pw_published w)) (described (pu_size pu) f)).
      start_of f \<le> sf_start x \<and> sf_end x \<le> end_of f"
    using al f unfolding replaced_files aligned_def meets_def by auto
  then have "lines_up (described (pu_size pu) f) (replaced_by (data_files (pu_size pu) (pw_published w)) (described (pu_size pu) f))"
    using ne by (auto simp: lines_up_def not_less)
  ultimately show ?thesis by (simp add: swaps_in_def)
qed

lemma nothing_straddles:
  assumes h: "holds_on pu L w0 w" and al: "aligned w" and fl: "pu_flush pu" and f: "f \<in> set (pw_staging w)"
    and c: "c = swap_floor pu (data_files (pu_size pu) (pw_published w))
      (swap_candidates pu (published_floor (pw_published w)) w) (published_floor (pw_published w))"
    and s: "start_of f < c"
  shows "end_of f \<le> c"
proof (rule ccontr)
  assume no: "\<not> end_of f \<le> c"
  let ?b = "published_floor (pw_published w)" and ?D = "described (pu_size pu)"
  note cases = swap_floor_cases [of "swap_candidates pu ?b w" pu "data_files (pu_size pu) (pw_published w)" ?b, folded c]
  from candidates_files [OF holdsD(5) [OF h]] obtain fs where fs: "swap_candidates pu ?b w = map ?D fs"
    "set fs \<subseteq> set (pw_staging w)" by blast
  from cases have "c = ?b \<or> (\<exists>f' \<in> set fs. c = end_of f')" unfolding fs(1) by auto
  then show False
  proof
    assume "c = ?b"
    with s no have st: "start_of f < ?b" "?b < end_of f" by simp_all
    have "?D f \<in> set (swap_candidates pu ?b w)"
    proof -
      have "?D f \<in> set (staging_files pu w)" using f by (simp add: staging_by_offset by_offset_set)
      then obtain n where "(n, ?D f) \<in> set (enumerate 0 (staging_files pu w))"
        unfolding in_set_conv_nth [of _ "staging_files pu w"] by (auto simp: in_set_enumerate_eq)
      with fl st show ?thesis by (force simp: swap_candidates_def Let_def straddles_def)
    qed
    with cases straddler_swaps_in [OF h al f st] have "end_of f \<le> c" by fastforce
    with no show False by simp
  next
    assume "\<exists>f' \<in> set fs. c = end_of f'"
    then obtain f' where f': "f' \<in> set (pw_staging w)" "c = end_of f'" using fs(2) by blast
    from holdsD(5) [OF h] f f'(1) have "f = f' \<or> end_of f \<le> start_of f' \<or> end_of f' \<le> start_of f"
      by (simp add: table_good_def)
    with f'(2) s no start_before_end [OF holdsD(9) [OF h f'(1)]] show False by auto
  qed
qed

subsection \<open>Pushing what is above the floor\<close>

lemma uploads_flow:
  assumes "holds_on pu L w0 w" and "set fs \<subseteq> set (pw_staging w0)" and "distinct fs"
  shows "flows live (holds_on pu L w0) (concat (map (upload_steps pu known) (map (described (pu_size pu)) fs))) w
    (\<lambda>w'. pw_published w' = pw_published w \<and> watermark (pw_db w') = watermark (pw_db w) \<and>
       fst ` set (db_intents (pw_db w')) = fst ` set (db_intents (pw_db w)) \<union> (\<lambda>f. copy_of pu (described (pu_size pu) f)) ` set fs \<and>
       (\<forall>p. p \<notin> (\<lambda>f. copy_of pu (described (pu_size pu) f)) ` set fs \<longrightarrow> pw_objects w' p = pw_objects w p) \<and>
       (\<forall>f \<in> set fs. pw_objects w' (copy_of pu (described (pu_size pu) f)) = Some (snd f)))"
  using assms
proof (induction fs arbitrary: w)
  case (Cons f fs)
  let ?copy = "\<lambda>f. copy_of pu (described (pu_size pu) f)"
  let ?P = "holds_on pu L w0"
  define w1 where "w1 = w\<lparr>pw_db := intend_file (?copy f) (start_of f) (end_of f) (memory_of known (described (pu_size pu) f)) (pw_db w)\<rparr>"
  define w2 where "w2 = w1\<lparr>pw_objects := (pw_objects w1)(?copy f \<mapsto> snd f)\<rparr>"
  have P1: "?P w1" unfolding w1_def by (rule same_meta [OF Cons.prems(1)]) (auto simp: intend_keeps)
  have f: "f \<in> set (pw_staging w1)" using holds_staging [OF P1] Cons.prems(2) by auto
  have P2: "put_step (?copy f) (fst f) w1 = Some w2" "?P w2"
    using put_holds [OF P1 f refl] by (simp_all add: w2_def)
  have steps: "upload_steps pu known (described (pu_size pu) f) =
      [do_db (intend_file (?copy f) (start_of f) (end_of f) (memory_of known (described (pu_size pu) f))), put_step (?copy f) (fst f)]"
    by (simp add: upload_steps_def)
  have keep: "?copy f \<notin> ?copy ` set fs"
  proof
    assume "?copy f \<in> ?copy ` set fs"
    then obtain g where g: "g \<in> set fs" "?copy f = ?copy g" by blast
    have "g \<in> set (pw_staging w1)" using g(1) Cons.prems(2) holds_staging [OF P1] by auto
    from holdsD(13) [OF P1 f this g(2)] have "f = g" .
    with g(1) Cons.prems(3) show False by simp
  qed
  have same: "pw_published w2 = pw_published w" "watermark (pw_db w2) = watermark (pw_db w)"
    "fst ` set (db_intents (pw_db w2)) = insert (?copy f) (fst ` set (db_intents (pw_db w)))"
    "pw_objects w2 = (pw_objects w)(?copy f \<mapsto> snd f)"
    by (simp_all add: w2_def w1_def intend_keeps watermark_meta [OF intend_keeps(1)])
  have "flows live ?P (concat (map (upload_steps pu known) (map (described (pu_size pu)) fs))) w2
    (\<lambda>w'. pw_published w' = pw_published w2 \<and> watermark (pw_db w') = watermark (pw_db w2) \<and>
       fst ` set (db_intents (pw_db w')) = fst ` set (db_intents (pw_db w2)) \<union> ?copy ` set fs \<and>
       (\<forall>p. p \<notin> ?copy ` set fs \<longrightarrow> pw_objects w' p = pw_objects w2 p) \<and>
       (\<forall>f \<in> set fs. pw_objects w' (?copy f) = Some (snd f)))"
    using Cons.prems by (intro Cons.IH [OF P2(2)]) auto
  then have "flows live ?P (concat (map (upload_steps pu known) (map (described (pu_size pu)) fs))) w2
    (\<lambda>w'. pw_published w' = pw_published w \<and> watermark (pw_db w') = watermark (pw_db w) \<and>
       fst ` set (db_intents (pw_db w')) = fst ` set (db_intents (pw_db w)) \<union> ?copy ` set (f # fs) \<and>
       (\<forall>p. p \<notin> ?copy ` set (f # fs) \<longrightarrow> pw_objects w' p = pw_objects w p) \<and>
       (\<forall>g \<in> set (f # fs). pw_objects w' (?copy g) = Some (snd g)))"
    by (rule flows_weaken) (use keep in \<open>auto simp: same\<close>)
  then show ?case using Cons.prems(1) P1 P2
    by (simp add: steps do_db_def w1_def [symmetric])
qed (simp add: holds_on_def)

text \<open>Every file of the staging table lies within the bound of a push.\<close>

definition within_bound :: "'b pushing \<Rightarrow> 'r push_world \<Rightarrow> bool" where
  "within_bound pu w \<longleftrightarrow> (\<forall>past. pu_bound pu = Some past \<longrightarrow> (\<forall>f \<in> set (pw_staging w). end_of f \<le> past))"

text \<open>The files to push: the first of those above the floor, in the order of their offsets.\<close>

lemma to_push_files:
  "\<exists>n. to_push pu b w = map (described (pu_size pu)) (take n (filter (\<lambda>f. b < end_of f) (by_offset w))) \<and>
     (pu_flush pu \<longrightarrow> within_bound pu w \<longrightarrow> length (filter (\<lambda>f. b < end_of f) (by_offset w)) \<le> n)"
proof -
  let ?W = "filter (\<lambda>f. b < end_of f) (by_offset w)" and ?D = "described (pu_size pu)"
  have todo: "above_floor pu b w = map ?D ?W"
    by (simp add: above_floor_def staging_by_offset filter_map comp_def)
  let ?n = "settled_count pu (above_floor pu b w) w"
  have taken: "take ?n (above_floor pu b w) = map ?D (take ?n ?W)" by (simp only: todo take_map)
  show ?thesis
  proof (cases "pu_bound pu")
    case None
    have "pu_flush pu \<longrightarrow> length ?W \<le> ?n" by (simp add: settled_count_def todo)
    with None taken show ?thesis by (intro exI [of _ ?n]) (simp add: to_push_def)
  next
    case (Some past)
    let ?m = "length (takeWhile (\<lambda>f. sf_end f \<le> past) (take ?n (above_floor pu b w)))"
    have "to_push pu b w = takeWhile (\<lambda>f. sf_end f \<le> past) (take ?n (above_floor pu b w))"
      by (simp add: to_push_def Some Let_def)
    also have "\<dots> = take ?m (take ?n (above_floor pu b w))" by (rule takeWhile_eq_take)
    also have "\<dots> = map ?D (take (min ?m ?n) ?W)" unfolding todo take_take take_map ..
    finally have eq: "to_push pu b w = map ?D (take (min ?m ?n) ?W)" .
    have "length ?W \<le> min ?m ?n" if "pu_flush pu" "within_bound pu w"
    proof -
      have n: "length ?W \<le> ?n" using that(1) by (simp add: settled_count_def todo)
      then have all: "take ?n (above_floor pu b w) = map ?D ?W" by (simp add: todo)
      have "\<forall>f \<in> set ?W. end_of f \<le> past" using that(2) Some by (auto simp: within_bound_def by_offset_set)
      then have "takeWhile (\<lambda>f. sf_end f \<le> past) (map ?D ?W) = map ?D ?W" by (simp add: takeWhile_eq_all_conv)
      with n show ?thesis unfolding all by (simp only: length_map min_def if_splits simp_thms order_refl)
    qed
    with eq show ?thesis by blast
  qed
qed

lemma sorted_apart:
  assumes "table_good (pw_staging w)" and "sorted_wrt (\<lambda>f g. start_of f \<le> start_of g) fs" and "distinct fs"
    and "set fs \<subseteq> set (pw_staging w)"
  shows "sorted_wrt (\<lambda>f g. end_of f \<le> start_of g) fs"
  using assms(2-4)
proof (induction fs)
  case (Cons f fs)
  have "end_of f \<le> start_of g" if "g \<in> set fs" for g
  proof -
    have g: "g \<in> set (pw_staging w)" "f \<in> set (pw_staging w)" "f \<noteq> g" "start_of f \<le> start_of g" using Cons.prems that by auto
    then have "end_of f \<le> start_of g \<or> end_of g \<le> start_of f" "snd g \<noteq> []"
      using assms(1) by (auto simp: table_good_def)
    with start_before_end [of g] g(4) show ?thesis by auto
  qed
  with Cons show ?case by simp
qed simp

lemma by_offset_apart:
  assumes "table_good (pw_staging w)"
  shows "sorted_wrt (\<lambda>f g. end_of f \<le> start_of g) (by_offset w)"
proof (rule sorted_apart [OF assms])
  show "sorted_wrt (\<lambda>f g. start_of f \<le> start_of g) (by_offset w)"
    using sorted_sort_key [of start_of "pw_staging w"] by (simp add: by_offset_def sorted_map)
qed (simp_all add: by_offset_distinct assms by_offset_set)

lemma push_flows:
  assumes h: "holds_on pu L w0 w" and s: "at_floor pu b w"
    and live: "live \<Longrightarrow> \<forall>f \<in> set (pw_staging w). start_of f < b \<longrightarrow> end_of f \<le> b"
  shows "flows live (holds_on pu L w0) (push_files pu known b w) w
    (\<lambda>w'. (\<exists>c \<ge> b. at_floor pu c w' \<and> (pu_flush pu \<longrightarrow> within_bound pu w \<longrightarrow> (\<forall>f \<in> set (pw_staging w'). end_of f \<le> c))))"
    (is "flows live ?P _ w ?Q")
proof -
  let ?D = "described (pu_size pu)" and ?W = "filter (\<lambda>f. b < end_of f) (by_offset w)"
  let ?copy = "\<lambda>f. copy_of pu (described (pu_size pu) f)"
  note D = holdsD [OF h]
  from to_push_files [of pu b w] obtain n where "to_push pu b w = map ?D (take n ?W) \<and>
    (pu_flush pu \<longrightarrow> within_bound pu w \<longrightarrow> length ?W \<le> n)" ..
  then have n: "to_push pu b w = map ?D (take n ?W)" "pu_flush pu \<Longrightarrow> within_bound pu w \<Longrightarrow> length ?W \<le> n" by simp_all
  define F where "F = take n ?W"
  have W: "set ?W \<subseteq> set (pw_staging w)" "distinct ?W" "sorted_wrt (\<lambda>f g. end_of f \<le> start_of g) ?W"
  proof -
    show "set ?W \<subseteq> set (pw_staging w)" using filter_is_subset [of _ "by_offset w"] unfolding by_offset_set .
    show "distinct ?W" by (rule distinct_filter [OF by_offset_distinct [OF D(5)]])
    show "sorted_wrt (\<lambda>f g. end_of f \<le> start_of g) ?W" by (rule sorted_wrt_filter [OF by_offset_apart [OF D(5)]])
  qed
  have F: "set F \<subseteq> set (pw_staging w)" "distinct F" "sorted_wrt (\<lambda>f g. end_of f \<le> start_of g) F"
    unfolding F_def using order_trans [OF set_take_subset W(1)] distinct_take [OF W(2)] sorted_wrt_take [OF W(3)]
    by blast+
  have all: "\<forall>f \<in> set (pw_staging w). end_of f \<le> b \<or> f \<in> set F" if "pu_flush pu" "within_bound pu w"
    using n(2) that by (auto simp: F_def by_offset_set)
  have floor: "published_floor (pw_published w) = b" using s by (simp add: at_floor_def)
  show ?thesis
  proof (cases "F = []")
    case True
    then have "to_push pu b w = []" using n(1) by (simp only: F_def list.map)
    then have "push_files pu known b w = []" by (simp add: push_files_def)
    with h s all True show ?thesis by (auto intro!: exI [of _ b])
  next
    case False
    then obtain f fs where Fc: "F = f # fs" by (cases F) auto
    have ends: "snd g \<noteq> []" "start_of g < end_of g" if "g \<in> set F" for g
      using D(9) start_before_end F(1) that by blast+
    have order: "start_of (hd F) \<le> start_of g \<and> end_of g \<le> end_of (last F)" if "g \<in> set F" for g
    proof
      show "start_of (hd F) \<le> start_of g"
        using that F(3) ends unfolding Fc by fastforce
      have "F = butlast F @ [last F]" using False by simp
      then have "\<forall>x \<in> set (butlast F). end_of x \<le> start_of (last F)"
        using F(3) by (metis sorted_wrt_append list.set_intros(1))
      moreover have "set (butlast F @ [last F]) = insert (last F) (set (butlast F))" by (simp del: append_butlast_last_id)
      then have "g = last F \<or> g \<in> set (butlast F)" using that append_butlast_last_id [OF False] by auto
      ultimately show "end_of g \<le> end_of (last F)" using ends(2) [of "last F"] False by fastforce
    qed
    have lastF: "last F \<in> set F" using False by simp
    have past: "b < end_of (last F)"
      using lastF unfolding F_def by (auto dest: in_set_takeD)
    have filled: "(i, r) \<in> set (table_rows F)"
      if i: "(i, r) \<in> L" "published_floor (pw_published w) \<le> i" "i < end_of (last F)" for i r
    proof -
      have not: "(i, r) \<notin> pushed_rows w" using floor_above i(2) by fastforce
      have lw: "last F \<in> set (pw_staging w)" using lastF F(1) by blast
      from file_range(3) [OF D(9) [OF lw]] obtain q where q: "(end_of (last F) - 1, q) \<in> staged_rows w"
        using lw unfolding in_table by blast
      have "(i, r) \<in> staged_rows w"
      proof (rule ccontr)
        assume no: "(i, r) \<notin> staged_rows w"
        have "i \<noteq> end_of (last F) - 1" using no q i(1) D(1,7) unfolding log_good_def by blast
        then have "i < end_of (last F) - 1" using i(3) by simp
        with D(3) i(1) q no have "(i, r) \<in> pushed_rows w" unfolding published_good_def by blast
        with not show False by simp
      qed
      then obtain g where g: "g \<in> set (pw_staging w)" "(i, r) \<in> set (snd g)" unfolding in_table by blast
      then have gr: "start_of g \<le> i" "i < end_of g" using file_range(1) [OF D(9) [OF g(1)]] by blast+
      have gW: "g \<in> set ?W" using g(1) gr(2) i(2) floor by (simp add: by_offset_set)
      have "g \<in> set F"
      proof (rule ccontr)
        assume "g \<notin> set F"
        then have "g \<in> set (drop n ?W)" using gW by (metis F_def Un_iff append_take_drop_id set_append)
        then have "end_of (last F) \<le> start_of g"
          using W(3) lastF unfolding F_def by (metis append_take_drop_id sorted_wrt_append)
        with gr(1) i(3) show False by simp
      qed
      with g(2) show ?thesis unfolding in_table by blast
    qed
    let ?us = "map ?copy F" and ?past = "end_of (last F)"
    have steps: "push_files pu known b w = concat (map (upload_steps pu known) (map ?D F)) @
        [register_step (start_of (hd F)) ?past ?us] @
        (if declined ?past (pw_published w) then [] else [confirm_step (?past - 1) ?us])"
      using n(1) unfolding push_files_def F_def [symmetric] Fc
      by (simp add: last_map comp_def Let_def)
    have F0: "set F \<subseteq> set (pw_staging w0)" using F(1) holds_staging [OF h] by simp
    show ?thesis unfolding steps
    proof (rule flows_append, rule flows_weaken [OF uploads_flow [OF h F0 F(2)]])
      fix w1 assume P1: "?P w1" and q: "pw_published w1 = pw_published w \<and> watermark (pw_db w1) = watermark (pw_db w) \<and>
        fst ` set (db_intents (pw_db w1)) = fst ` set (db_intents (pw_db w)) \<union> ?copy ` set F \<and>
        (\<forall>p. p \<notin> ?copy ` set F \<longrightarrow> pw_objects w1 p = pw_objects w p) \<and>
        (\<forall>f \<in> set F. pw_objects w1 (?copy f) = Some (snd f))"
      have F1: "set F \<subseteq> set (pw_staging w1)" using F0 holds_staging [OF P1] by simp
      have fl: "published_floor (pw_published w1) < ?past" using q floor past by simp
      have up: "\<forall>g \<in> set F. pw_objects w1 (?copy g) = Some (snd g) \<and> ?copy g \<in> fst ` set (db_intents (pw_db w1))"
        using q by simp
      have fill1: "\<forall>i r. (i, r) \<in> L \<longrightarrow> published_floor (pw_published w1) \<le> i \<longrightarrow> i < ?past \<longrightarrow> (i, r) \<in> set (table_rows F)"
        using filled q by simp
      have ord1: "\<forall>g \<in> set F. start_of (hd F) \<le> start_of g \<and> end_of g \<le> ?past" using order by blast
      note reg = register_holds [OF P1 False F1 F(2) refl up ord1 fl fill1]
      have nd: "\<not> declined ?past (pw_published w)" using reg(1) q by simp
      have ok: "register_step (start_of (hd F)) ?past ?us w1 \<noteq> None" if live
      proof (rule reg(2))
        have hF: "hd F \<in> set F" using False by simp
        then have "hd F \<in> set ?W" unfolding F_def by (rule in_set_takeD)
        then have "hd F \<in> set (pw_staging w)" "b < end_of (hd F)" using W(1) by auto
        with live [OF that] show "published_floor (pw_published w1) \<le> start_of (hd F)" using q floor by force
      qed
      have conf: "flows live ?P [confirm_step (?past - 1) ?us] w2 ?Q"
        if "register_step (start_of (hd F)) ?past ?us w1 = Some w2" for w2
      proof -
        from reg(3) [OF that] have w2: "?P w2" "published_floor (pw_published w2) = ?past" "pw_db w2 = pw_db w1" by blast+
        have "\<exists>w3. confirm_step (?past - 1) ?us w2 = Some w3 \<and> ?P w3 \<and> w3 = w2\<lparr>pw_db := pw_db w3\<rparr> \<and> at_floor pu ?past w3"
        proof (rule confirm_settles [OF w2(1,2)])
          show "\<forall>g \<in> set (pw_published w2). fst g \<in> set ?us \<longrightarrow> end_of g \<le> ?past - 1 + 1"
          proof (intro ballI impI)
            fix g assume g: "g \<in> set (pw_published w2)" "fst g \<in> set ?us"
            from g(2) obtain x where x: "x \<in> set F" "fst g = ?copy x" by auto
            have "x \<in> set (pw_staging w2)" using x(1) F0 holds_staging [OF w2(1)] by auto
            from holdsD(12) [OF w2(1) this g(1) x(2)] range_of_rows [of g x] order [OF x(1)]
            show "end_of g \<le> ?past - 1 + 1" by simp
          qed
          show "\<forall>p \<in> fst ` set (db_intents (pw_db w2)). under (boundary (pu_home pu)) p \<longrightarrow> p \<in> set ?us"
            using s q w2(3) by (auto simp: at_floor_def)
        qed simp_all
        then obtain w3 where w3: "confirm_step (?past - 1) ?us w2 = Some w3" "?P w3" "at_floor pu ?past w3" by blast
        have "\<forall>g \<in> set (pw_staging w3). end_of g \<le> ?past" if "pu_flush pu" "within_bound pu w"
          using all [OF that] order past holds_staging [OF w3(2)] holds_staging [OF h] by fastforce
        then have "?Q w3" using w3(3) past by (intro exI [of _ ?past]) simp
        with w2(1) w3(1,2) show ?thesis by simp
      qed
      with nd P1 ok show "flows live ?P ([register_step (start_of (hd F)) ?past ?us] @
          (if declined ?past (pw_published w) then [] else [confirm_step (?past - 1) ?us])) w1 ?Q" by simp
    qed
  qed
qed

subsection \<open>Reconciling\<close>

lemma forget_keeps: "watermark (forget_intent p d) = watermark d" "next_offset (forget_intent p d) = next_offset d"
  by (simp_all add: forget_intent_def watermark_meta [of "_\<lparr>db_intents := _\<rparr>"] next_offset_def)

lemma covered_forever:
  assumes h: "holds_on pu L w0 w" and c: "\<forall>f \<in> set (pw_published w). \<exists>k. watermark (pw_db w) = Some k \<and> end_of f \<le> k + 1"
  shows "flows live (holds_on pu L w0) (map (\<lambda>p. do_db (forget_intent p)) ps) w
    (\<lambda>w'. pw_published w' = pw_published w \<and> watermark (pw_db w') = watermark (pw_db w) \<and>
       fst ` set (db_intents (pw_db w')) = fst ` set (db_intents (pw_db w)) - set ps)"
  using assms
proof (induction ps arbitrary: w)
  case (Cons p ps)
  define w1 where "w1 = w\<lparr>pw_db := forget_intent p (pw_db w)\<rparr>"
  have wm: "watermark (pw_db w1) = watermark (pw_db w)" by (simp add: w1_def forget_keeps)
  have ints: "fst ` set (db_intents (pw_db w1)) = fst ` set (db_intents (pw_db w)) - {p}"
    by (force simp: w1_def forget_intent_def)
  have P1: "holds_on pu L w0 w1"
  proof -
    from holds_mark [OF Cons.prems(1)] obtain k where k: "marks_good L k w" ..
    then have kw: "watermark (pw_db w) = Some k" by (simp add: marks_good_def)
    show ?thesis unfolding w1_def
    proof (rule db_change [OF Cons.prems(1) kw _ order_refl])
      show "watermark (forget_intent p (pw_db w)) = Some k" using wm kw by (simp add: w1_def)
      show "next_offset (forget_intent p (pw_db w)) = next_offset (pw_db w)" by (rule forget_keeps)
      show "\<forall>i r. (i, r) \<in> L \<longrightarrow> i \<le> k \<longrightarrow> (i, r) \<in> pushed_rows w" using k unfolding marks_good_def by blast
      show "\<forall>f \<in> set (pw_published w). end_of f \<le> k + 1 \<or> fst f \<in> fst ` set (db_intents (forget_intent p (pw_db w)))"
        using Cons.prems(2) kw by auto
    qed
  qed
  have "flows live (holds_on pu L w0) (map (\<lambda>p. do_db (forget_intent p)) ps) w1
    (\<lambda>w'. pw_published w' = pw_published w1 \<and> watermark (pw_db w') = watermark (pw_db w1) \<and>
       fst ` set (db_intents (pw_db w')) = fst ` set (db_intents (pw_db w1)) - set ps)"
    by (rule Cons.IH [OF P1]) (use Cons.prems(2) wm in \<open>simp add: w1_def\<close>)
  then have "flows live (holds_on pu L w0) (map (\<lambda>p. do_db (forget_intent p)) ps) w1
    (\<lambda>w'. pw_published w' = pw_published w \<and> watermark (pw_db w') = watermark (pw_db w) \<and>
       fst ` set (db_intents (pw_db w')) = fst ` set (db_intents (pw_db w)) - set (p # ps))"
    by (rule flows_weaken) (auto simp: wm ints, auto simp: w1_def)
  moreover have "do_db (forget_intent p) w = Some w1" by (simp add: do_db_def w1_def)
  ultimately show ?case using Cons.prems(1) by simp
qed simp

lemma reconcile_flows:
  assumes h: "holds_on pu L w0 w"
  shows "flows live (holds_on pu L w0) (reconcile_steps pu w) w
    (\<lambda>w'. pw_published w' = pw_published w \<and> at_floor pu (published_floor (pw_published w)) w')"
proof -
  let ?P = "holds_on pu L w0" and ?b = "published_floor (pw_published w)"
  obtain held where steps: "reconcile_steps pu w =
      confirm_step (?b - 1) (filter (\<lambda>p. p \<in> held) (map fst (intents (pu_home pu) (pw_db w)))) #
      map (\<lambda>p. do_db (forget_intent p)) (filter (\<lambda>p. p \<notin> held) (map fst (intents (pu_home pu) (pw_db w))))"
    unfolding reconcile_steps_def Let_def by blast
  let ?all = "map fst (intents (pu_home pu) (pw_db w))"
  let ?landed = "filter (\<lambda>p. p \<in> held) ?all" and ?dead = "filter (\<lambda>p. p \<notin> held) ?all"
  note D = holdsD [OF h]
  have ends: "end_of f \<le> ?b - 1 + 1" if "f \<in> set (pw_published w)" for f using floor_end [OF that D(10) [OF that]] by simp
  have "\<forall>i r. (i, r) \<in> L \<longrightarrow> i \<le> ?b - 1 \<longrightarrow> (i, r) \<in> pushed_rows w" using D(11) by force
  from confirm_holds [OF h this, of ?landed] ends obtain w1 where
    w1: "confirm_step (?b - 1) ?landed w = Some w1" "?P w1" "w1 = w\<lparr>pw_db := pw_db w1\<rparr>"
      "db_intents (pw_db w1) = filter (\<lambda>(p, t). p \<notin> set ?landed) (db_intents (pw_db w))"
    and "\<exists>k k'. watermark (pw_db w) = Some k \<and> watermark (pw_db w1) = Some k' \<and> k \<le> k' \<and> (0 \<le> ?b - 1 \<longrightarrow> ?b - 1 \<le> k')"
    by blast
  then obtain k where k: "watermark (pw_db w1) = Some k" "0 < ?b \<Longrightarrow> ?b \<le> k + 1" by fastforce
  have pub: "pw_published w1 = pw_published w" by (subst w1(3)) simp
  have cover: "\<forall>f \<in> set (pw_published w1). \<exists>k. watermark (pw_db w1) = Some k \<and> end_of f \<le> k + 1"
  proof
    fix f assume f: "f \<in> set (pw_published w1)"
    then have fw: "f \<in> set (pw_published w)" by (simp add: pub)
    have "0 < start_of f" by (rule good_start [OF D(1,8) fw D(10) [OF fw]])
    with ends [OF fw] start_before_end [OF D(10) [OF fw]] have "0 < ?b" by simp
    with k ends [OF fw] show "\<exists>k. watermark (pw_db w1) = Some k \<and> end_of f \<le> k + 1" by fastforce
  qed
  have here: "p \<in> set ?all \<longleftrightarrow> p \<in> fst ` set (db_intents (pw_db w)) \<and> under (boundary (pu_home pu)) p" for p
    by (force simp: intents_def)
  have "flows live ?P (map (\<lambda>p. do_db (forget_intent p)) ?dead) w1
    (\<lambda>w'. pw_published w' = pw_published w \<and> at_floor pu ?b w')"
  proof (rule flows_weaken [OF covered_forever [OF w1(2) cover]])
    fix w' assume "?P w'" and q: "pw_published w' = pw_published w1 \<and> watermark (pw_db w') = watermark (pw_db w1) \<and>
       fst ` set (db_intents (pw_db w')) = fst ` set (db_intents (pw_db w1)) - set ?dead"
    have "\<not> under (boundary (pu_home pu)) p" if "p \<in> fst ` set (db_intents (pw_db w'))" for p
    proof
      assume u: "under (boundary (pu_home pu)) p"
      from that q have p: "p \<in> fst ` set (db_intents (pw_db w1))" "p \<notin> set ?dead" by blast+
      have w: "p \<in> fst ` set (db_intents (pw_db w))" and l: "p \<notin> set ?landed" using p(1) unfolding w1(4) by force+
      have a: "p \<in> set ?all" using here u w by blast
      show False
      proof (cases "p \<in> held")
        case True
        with a have "p \<in> set ?landed" unfolding set_filter by blast
        with l show False ..
      next
        case False
        with a have "p \<in> set ?dead" unfolding set_filter by blast
        with p(2) show False ..
      qed
    qed
    then show "pw_published w' = pw_published w \<and> at_floor pu ?b w'" using q pub k by (auto simp: at_floor_def)
  qed
  with h w1(1) show ?thesis by (simp add: steps)
qed

subsection \<open>The tier row\<close>

lemma row_keeps:
  assumes "replace_published schema st d = Some d'"
  shows "watermark d' = watermark d \<and> db_seq d' = db_seq d \<and> db_intents d' = db_intents d"
proof -
  from assms obtain j where d': "d' = bump_tiers (put_tier PUBLISHED (offsets_of st) j (drop_legacy_tier PUBLISHED d))"
    by (auto simp: replace_published_def update_tier_def Let_def split: option.splits)
  then have "db_seq d' = db_seq d" "db_intents d' = db_intents d" "\<exists>v. db_meta d' = (db_meta d)(TIER_GENERATION \<mapsto> v)"
    by (auto simp: bump_tiers_def put_tier_def drop_legacy_tier_def split: option.splits)
  moreover have "watermark d' = watermark d" if "db_meta d' = (db_meta d)(TIER_GENERATION \<mapsto> v)" for v
    using that by (simp add: watermark_def meta_value_def TIER_GENERATION_def PUBLISHED_THROUGH_KEY_def LEGACY_META_def
        split: option.splits)
  ultimately show ?thesis by blast
qed

lemma record_row_flows:
  assumes h: "holds_on pu L w0 w"
  shows "flows False (holds_on pu L w0) [record_row pu] w (\<lambda>w'. True)"
proof -
  have "holds_on pu L w0 (w\<lparr>pw_db := d\<rparr>)" if "replace_published schema st (pw_db w) = Some d" for schema st d
  proof -
    note k = row_keeps [OF that]
    from holds_mark [OF h] obtain m where m: "marks_good L m w" ..
    then have "watermark (pw_db w) = Some m" by (simp add: marks_good_def)
    from db_change [OF h this _ order_refl] show ?thesis
      using k m unfolding marks_good_def next_offset_def by simp
  qed
  with h show ?thesis by (auto simp: record_row_def try_db_def Let_def)
qed

subsection \<open>The whole push\<close>

lemma as_before_refl: "as_before (pw_published w) f w"
  by (simp add: as_before_def)

lemma swap_and_push:
  assumes h: "holds_on pu L w0 w" and f: "at_floor pu b w"
    and live: "live \<Longrightarrow> pu_flush pu \<and> aligned w"
  shows "flows live (holds_on pu L w0)
    (let b = published_floor (pw_published w);
          known = memory (se_layout (pu_seen pu)) (pw_db w);
          old = data_files (pu_size pu) (pw_published w);
          fs = swap_candidates pu b w
      in and_then (concat (map (swap_steps pu known old) fs)) (push_files pu known (swap_floor pu old fs b)) w) w
    (\<lambda>w'. \<exists>c. at_floor pu c w' \<and> (pu_flush pu \<longrightarrow> within_bound pu w \<longrightarrow> (\<forall>f \<in> set (pw_staging w'). end_of f \<le> c)))"
proof -
  let ?P = "holds_on pu L w0"
  have b: "published_floor (pw_published w) = b" using f by (simp add: at_floor_def)
  let ?old = "data_files (pu_size pu) (pw_published w)" and ?known = "memory (se_layout (pu_seen pu)) (pw_db w)"
  let ?fs = "swap_candidates pu b w" and ?c = "swap_floor pu (data_files (pu_size pu) (pw_published w)) (swap_candidates pu b w) b"
  from candidates_files [OF holdsD(5) [OF h]] obtain fs where fs: "?fs = map (described (pu_size pu)) fs" "distinct fs"
    "set fs \<subseteq> set (pw_staging w)" by blast
  have fs0: "set fs \<subseteq> set (pw_staging w0)" using fs(3) holds_staging [OF h] by simp
  have "flows live ?P (concat (map (swap_steps pu ?known ?old) ?fs)) w (at_floor pu ?c)"
    unfolding fs(1) by (rule swaps_flow [OF h f fs(2) fs0]) (simp add: as_before_refl)
  then have "flows live ?P (concat (map (swap_steps pu ?known ?old) ?fs)) w
    (\<lambda>w1. flows live ?P (push_files pu ?known ?c w1) w1
      (\<lambda>w'. \<exists>c. at_floor pu c w' \<and> (pu_flush pu \<longrightarrow> within_bound pu w \<longrightarrow> (\<forall>f \<in> set (pw_staging w'). end_of f \<le> c))))"
  proof (rule flows_weaken)
    fix w1 assume w1: "?P w1" "at_floor pu ?c w1"
    have same: "within_bound pu w1 \<longleftrightarrow> within_bound pu w"
      using holds_staging [OF w1(1)] holds_staging [OF h] by (simp add: within_bound_def)
    have free: "\<forall>f \<in> set (pw_staging w1). start_of f < ?c \<longrightarrow> end_of f \<le> ?c" if live
      using nothing_straddles [OF h _ _ _ _ ] live [OF that] holds_staging [OF w1(1)] holds_staging [OF h] b by metis
    show "flows live ?P (push_files pu ?known ?c w1) w1
      (\<lambda>w'. \<exists>c. at_floor pu c w' \<and> (pu_flush pu \<longrightarrow> within_bound pu w \<longrightarrow> (\<forall>f \<in> set (pw_staging w'). end_of f \<le> c)))"
      proof (rule flows_weaken [OF push_flows [OF w1 free]])
      show live if live by (rule that)
    qed (unfold same, elim exE conjE, intro exI conjI, assumption+)
  qed
  then show ?thesis unfolding Let_def b by (rule flows_and_then)
qed

lemma push_flow:
  assumes h: "holds_on pu L w0 w"
    and live: "live \<Longrightarrow> pu_flush pu \<and> aligned w0 \<and> has_row (pw_db w) \<and> within_bound pu w0"
  shows "flows live (holds_on pu L w0) (push pu w) w
    (\<lambda>w'. live \<longrightarrow> (\<exists>c. at_floor pu c w' \<and> (\<forall>f \<in> set (pw_staging w'). end_of f \<le> c)))"
proof (cases "\<not> has_row (pw_db w) \<and> pu_bound pu \<noteq> None")
  case True
  then have "\<not> live" using live by blast
  with h True show ?thesis by (simp add: push_def)
next
  case False
  let ?P = "holds_on pu L w0"
  let ?Q = "\<lambda>w'. live \<longrightarrow> (\<exists>c. at_floor pu c w' \<and> (\<forall>f \<in> set (pw_staging w'). end_of f \<le> c))"
  let ?rest = "\<lambda>w2. let b = published_floor (pw_published w2);
              known = memory (se_layout (pu_seen pu)) (pw_db w2);
              old = data_files (pu_size pu) (pw_published w2);
              fs = swap_candidates pu b w2
          in and_then (concat (map (swap_steps pu known old) fs))
               (push_files pu known (swap_floor pu old fs b)) w2"
  have rest: "flows live ?P (?rest w2) w2 ?Q" if w2: "?P w2" "at_floor pu b w2" for w2 b
  proof (rule flows_weaken [OF swap_and_push [OF w2]])
    show "pu_flush pu \<and> aligned w2" if live
      using live [OF that] w2(1) by (simp add: holds_on_def onward_def)
    show "?Q w'" if "\<exists>c. at_floor pu c w' \<and> (pu_flush pu \<longrightarrow> within_bound pu w2 \<longrightarrow> (\<forall>f \<in> set (pw_staging w'). end_of f \<le> c))"
      for w'
    proof
      assume live
      moreover have "within_bound pu w2 \<longleftrightarrow> within_bound pu w0" using holds_staging [OF w2(1)] by (simp add: within_bound_def)
      ultimately show "\<exists>c. at_floor pu c w' \<and> (\<forall>f \<in> set (pw_staging w'). end_of f \<le> c)" using live that by blast
    qed
  qed
  have mid: "flows live ?P (and_then (reconcile_steps pu w1) ?rest w1) w1 ?Q" if w1: "?P w1" for w1
  proof (rule flows_and_then, rule flows_weaken [OF reconcile_flows [OF w1]])
    fix w' assume "?P w'" and "pw_published w' = pw_published w1 \<and> at_floor pu (published_floor (pw_published w1)) w'"
    then show "flows live ?P (?rest w') w' ?Q" using rest by blast
  qed
  have "flows live ?P (if has_row (pw_db w) then [] else [record_row pu]) w
    (\<lambda>w1. flows live ?P (and_then (reconcile_steps pu w1) ?rest w1) w1 ?Q)"
  proof (cases "has_row (pw_db w)")
    case True
    with h mid show ?thesis by simp
  next
    case no: False
    then have "live = False" using live by blast
    with no flows_weaken [OF record_row_flows [OF h]] mid show ?thesis by simp
  qed
  then have "flows live ?P (and_then (if has_row (pw_db w) then [] else [record_row pu])
      (\<lambda>w1. and_then (reconcile_steps pu w1) ?rest w1) w) w ?Q" by (rule flows_and_then)
  moreover have "push pu w = and_then (if has_row (pw_db w) then [] else [record_row pu])
      (\<lambda>w1. and_then (reconcile_steps pu w1) ?rest w1) w"
    using False unfolding push_def by (simp only: if_False)
  ultimately show ?thesis by simp
qed

subsection \<open>A publish\<close>

text \<open>The names a push gives do not depend on how far it goes.\<close>

lemma push_good_same:
  "push_good (pu\<lparr>pu_flush := x, pu_finish := y, pu_bound := z\<rparr>) L w = push_good pu L w"
  "push_good (pu\<lparr>pu_bound := z\<rparr>) L w = push_good pu L w"
  by (simp_all add: push_good_def staged_good_def published_good_def copy_of_def file_rel_def)

text \<open>The bound a flushed publish claims takes every staged file in.\<close>

lemma claim_takes_all:
  assumes "publish_claim pu opens w = (claimed, bound)" and "pu_flush pu" and "table_good (pw_staging w)"
  shows "within_bound (pu\<lparr>pu_bound := bound\<rparr>) w"
proof (cases "\<not> has_row (pw_db w) \<or> \<not> opens")
  case True
  with assms(1) have "bound = None" by (auto simp: publish_claim_def)
  then show ?thesis by (simp add: within_bound_def)
next
  case False
  let ?D = "described (pu_size pu)" and ?b = "published_floor (pw_published w)"
  let ?W = "filter (\<lambda>f. ?b < end_of f) (by_offset w)"
  have todo: "above_floor pu ?b w = map ?D ?W"
    by (simp add: above_floor_def staging_by_offset filter_map comp_def)
  define e0 where "e0 = (if ?W = [] then ?b + 1 else end_of (last ?W))"
  define e where "e = fold (\<lambda>f. max (sf_end f)) (filter (\<lambda>f. sf_start f < ?b) (map ?D ?W)) e0"
  have n: "settled_count pu (map ?D ?W) w = length ?W" using assms(2) by (simp add: settled_count_def)
  have "map ?D ?W ! (length ?W - 1) = ?D (last ?W)" if "?W \<noteq> []" using that by (simp add: last_conv_nth)
  then have bound: "bound = Some e"
    using assms(1) False by (auto simp: publish_claim_def Let_def todo n e_def e0_def)
  have grows: "e0 \<le> fold (\<lambda>f. max (sf_end f)) gs e0" for gs
    by (induction gs rule: rev_induct) auto
  have "end_of f \<le> e" if f: "f \<in> set (pw_staging w)" for f
  proof (cases "?b < end_of f")
    case True
    then have W: "f \<in> set ?W" using f by (simp add: by_offset_set)
    have apart: "sorted_wrt (\<lambda>f g. end_of f \<le> start_of g) ?W"
      by (rule sorted_wrt_filter [OF by_offset_apart [OF assms(3)]])
    have "end_of f \<le> end_of (last ?W)"
    proof (cases "f = last ?W")
      case False
      from W obtain us vs where split: "?W = us @ f # vs" by (meson split_list)
      with False have "vs \<noteq> []" by auto
      then have "last ?W \<in> set vs" by (simp add: split)
      with apart have apart': "end_of f \<le> start_of (last ?W)" unfolding split by (auto simp: sorted_wrt_append)
      have sub: "set ?W \<subseteq> set (pw_staging w)" using filter_is_subset [of _ "by_offset w"] unfolding by_offset_set .
      have "?W \<noteq> []" using length_pos_if_in_set [OF W] by (simp only: length_greater_0_conv not_False_eq_True)
      then have "last ?W \<in> set ?W" by (rule last_in_set)
      with sub have "last ?W \<in> set (pw_staging w)" by (rule subsetD)
      then have "start_of (last ?W) < end_of (last ?W)"
        using assms(3) by (intro start_before_end) (simp add: table_good_def)
      with apart' show ?thesis by simp
    qed simp
    moreover have "?W \<noteq> []" using length_pos_if_in_set [OF W] by (simp only: length_greater_0_conv not_False_eq_True)
    ultimately have "end_of f \<le> e0" unfolding e0_def by (simp only: if_False)
    then show ?thesis unfolding e_def by (rule order_trans [OF _ grows])
  next
    case False
    have "?b \<le> e0"
    proof (cases "?W = []")
      case ne: False
      then have "?b < end_of (last ?W)" using last_in_set [OF ne] by simp
      then show ?thesis by (simp add: e0_def ne)
    qed (simp add: e0_def)
    with False grows [of "filter (\<lambda>f. sf_start f < ?b) (map ?D ?W)"] show ?thesis by (simp add: e_def)
  qed
  then show ?thesis by (simp add: within_bound_def bound)
qed

text \<open>C11. A push stopped anywhere leaves nothing wrong. Take a log whose published table holds the log up to its
  own end. Whatever the push is asked for, and after whichever of its steps (the exact tier row, reconciling, the
  swaps, the uploads, the one register, the confirmation) a crash, a lost claim or an error ends it: the
  published table has lost no row, holds no row twice and only rows of the log, all of them below its end; the
  watermark has not moved back and every row at or below it is published; each published file the watermark
  does not reach still has its intent, so compaction goes on counting it; and the log is one a push may
  start from again.\<close>

theorem stopped_push_is_safe:
  assumes "push_good pu L w" and "run_push (take n (push pu w)) w = Some w'"
  shows "pushed_rows w \<subseteq> pushed_rows w' \<and> pushed_rows w' \<subseteq> L \<and> distinct (map fst (table_rows (pw_published w'))) \<and>
    {(i, r). (i, r) \<in> L \<and> i < published_floor (pw_published w')} \<subseteq> pushed_rows w' \<and>
    (\<exists>k k'. watermark (pw_db w) = Some k \<and> watermark (pw_db w') = Some k' \<and> k \<le> k' \<and>
       {(i, r). (i, r) \<in> L \<and> i \<le> k'} \<subseteq> pushed_rows w' \<and>
       {p. \<exists>rows. (p, rows) \<in> set (pw_published w') \<and> k' + 1 < end_of (p, rows)} \<subseteq> fst ` set (db_intents (pw_db w'))) \<and>
    push_good pu L w'"
proof -
  have "holds_on pu L w w" using assms(1) by (simp add: holds_on_def onward_refl)
  from flows_prefix [OF push_flow [where live = False, OF this] assms(2)] have h: "holds_on pu L w w'" by blast
  note D = holdsD [OF h]
  obtain k where k: "marks_good L k w" using assms(1) by (auto simp: push_good_def)
  obtain k' where k': "marks_good L k' w'" using holds_mark [OF h] ..
  have wk: "watermark (pw_db w) = Some k" "watermark (pw_db w') = Some k'" using k k' by (simp_all add: marks_good_def)
  with D(4) have up: "pushed_rows w \<subseteq> pushed_rows w'" "k \<le> k'" by (simp_all add: onward_def)
  have promise: "{(i, r). (i, r) \<in> L \<and> i \<le> k'} \<subseteq> pushed_rows w'" using k' unfolding marks_good_def by blast
  have open_intents: "{p. \<exists>rows. (p, rows) \<in> set (pw_published w') \<and> k' + 1 < end_of (p, rows)} \<subseteq> fst ` set (db_intents (pw_db w'))"
  proof
    fix p assume "p \<in> {p. \<exists>rows. (p, rows) \<in> set (pw_published w') \<and> k' + 1 < end_of (p, rows)}"
    then obtain rows where f: "(p, rows) \<in> set (pw_published w')" "k' + 1 < end_of (p, rows)" by blast
    have "end_of (p, rows) \<le> k' + 1 \<or> fst (p, rows) \<in> fst ` set (db_intents (pw_db w'))"
      using k' f(1) unfolding marks_good_def by blast
    with f(2) show "p \<in> fst ` set (db_intents (pw_db w'))" by (simp only: not_le [symmetric] fst_conv) blast
  qed
  have whole: "{(i, r). (i, r) \<in> L \<and> i < published_floor (pw_published w')} \<subseteq> pushed_rows w'" using D(11) by blast
  have good: "push_good pu L w'" using h by (simp add: holds_on_def)
  show ?thesis by (intro exI conjI) (fact up D(8) table_good_distinct [OF D(6)] wk promise open_intents whole good)+
qed

text \<open>C12. A flushed publish completes, after a crash too. Take the same log with its published files lined up with
  the staged ones, let any push of it stop anywhere, and then publish with \<open>flush\<close>, the tier row in place: the
  publish raises nowhere, and after it every row that was staged is published, the watermark has reached
  them all, no intent of the published table is left open, and every promise of the watermark holds.\<close>

theorem flushed_publish_completes:
  assumes "push_good pu L w" and "aligned w"
    and "run_push (take n (push (pu\<lparr>pu_flush := x, pu_finish := y, pu_bound := z\<rparr>) w)) w = Some w1"
    and "has_row (pw_db w1)" and "publish_claim pu opens w1 = (claimed, bound)" and "pu_flush pu"
  shows "\<exists>w2. run_push (push (pu\<lparr>pu_bound := bound\<rparr>) w1) w1 = Some w2 \<and> staged_rows w \<subseteq> pushed_rows w2 \<and>
    (\<exists>k. watermark (pw_db w2) = Some k \<and> fst ` staged_rows w \<subseteq> {..k}) \<and>
    intents (pu_home pu) (pw_db w2) = [] \<and> push_good pu L w2"
proof -
  have "holds_on (pu\<lparr>pu_flush := x, pu_finish := y, pu_bound := z\<rparr>) L w w"
    using assms(1) onward_refl unfolding holds_on_def push_good_same(1) by blast
  from flows_prefix [OF push_flow [where live = False, OF this] assms(3)]
  have h1: "push_good pu L w1" "onward w w1" unfolding holds_on_def push_good_same(1) by blast+
  then have h: "holds_on (pu\<lparr>pu_bound := bound\<rparr>) L w1 w1" by (simp add: holds_on_def onward_refl push_good_same)
  have "table_good (pw_staging w1)" using h1(1) by (simp add: push_good_def staged_good_def)
  from claim_takes_all [OF assms(5,6) this] have "within_bound (pu\<lparr>pu_bound := bound\<rparr>) w1" .
  moreover have "aligned w1" using h1(2) assms(2) by (simp add: onward_def)
  ultimately have "flows True (holds_on (pu\<lparr>pu_bound := bound\<rparr>) L w1) (push (pu\<lparr>pu_bound := bound\<rparr>) w1) w1
      (\<lambda>w'. True \<longrightarrow> (\<exists>c. at_floor (pu\<lparr>pu_bound := bound\<rparr>) c w' \<and> (\<forall>f \<in> set (pw_staging w'). end_of f \<le> c)))"
    using assms(4,6) by (intro push_flow [OF h]) simp
  from flows_total [OF this] obtain w2 c where w2: "run_push (push (pu\<lparr>pu_bound := bound\<rparr>) w1) w1 = Some w2"
    "holds_on (pu\<lparr>pu_bound := bound\<rparr>) L w1 w2" "at_floor (pu\<lparr>pu_bound := bound\<rparr>) c w2"
    "\<forall>f \<in> set (pw_staging w2). end_of f \<le> c" by blast
  note D = holdsD [OF w2(2)]
  have same: "pw_staging w2 = pw_staging w" using holds_staging [OF w2(2)] h1(2) by (simp add: onward_def)
  have below: "i < c" if "(i, r) \<in> staged_rows w" for i r
  proof -
    from that obtain f where f: "f \<in> set (pw_staging w2)" "(i, r) \<in> set (snd f)" by (auto simp: same in_table)
    with file_range(1) [of f i r] D(9) [OF f(1)] w2(4) show ?thesis by fastforce
  qed
  have rows: "staged_rows w \<subseteq> pushed_rows w2"
  proof
    fix x assume x: "x \<in> staged_rows w"
    obtain i r where ir: "x = (i, r)" by (cases x)
    have "x \<in> L" using x D(7) by (auto simp: same)
    with D(11) below w2(3) x show "x \<in> pushed_rows w2" unfolding ir at_floor_def by blast
  qed
  have "\<exists>k. watermark (pw_db w2) = Some k \<and> fst ` staged_rows w \<subseteq> {..k}"
  proof -
    obtain k where k: "watermark (pw_db w2) = Some k" "0 < c \<Longrightarrow> c \<le> k + 1"
      using w2(3) holds_mark [OF w2(2)] by (auto simp: at_floor_def marks_good_def)
    have "i \<le> k" if "(i, r) \<in> staged_rows w" for i r
    proof -
      have "(i, r) \<in> L" using that D(7) by (auto simp: same)
      then have "0 < i" using D(1) by (auto simp: log_good_def)
      with below [OF that] k(2) show ?thesis by simp
    qed
    with k(1) show ?thesis by auto
  qed
  moreover have "intents (pu_home pu) (pw_db w2) = []" using w2(3) by (simp add: no_intents at_floor_def)
  moreover have "push_good pu L w2" using w2(2) by (simp add: holds_on_def push_good_same)
  ultimately show ?thesis using w2(1) rows by blast
qed

subsection \<open>Two rows published\<close>

definition sample_world :: "int push_world" where
  "sample_world = \<lparr>pw_db = empty_db\<lparr>db_seq := Some 2, db_tier_offsets := [PUBLISHED \<mapsto> (0, 0)],
       db_tier_stats := [PUBLISHED \<mapsto> (JObj [], None)]\<rparr>,
     pw_staging = [(''/d/staging/a'', [(1, 4), (2, 7)])], pw_published = [], pw_objects = Map.empty, pw_issued = None\<rparr>"

definition sample_pushing :: "unit pushing" where
  "sample_pushing = \<lparr>pu_seen = \<lparr>se_config = defaults, se_layout = \<lparr>ly_root = [''d''], ly_name = ''log''\<rparr>, se_now = 0,
       se_commit = 0, se_snapshots = Map.empty, se_schema = [], se_ice = [], se_live = []\<rparr>,
     pu_bounds = \<lambda>_ _. PNone, pu_home = ''s3://b/log'', pu_size = \<lambda>_. 100, pu_rewritten = id,
     pu_flush = True, pu_finish = False, pu_bound = None\<rparr>"

lemma sample_push_good: "push_good sample_pushing {(1, 4), (2, 7)} sample_world" "aligned sample_world"
  "has_row (pw_db sample_world)"
proof -
  have "watermark (pw_db sample_world) = Some (- 1)" "next_offset (pw_db sample_world) = 3"
    by (simp_all add: sample_world_def watermark_def next_offset_def empty_db_def meta_value_def LEGACY_META_def)
  then show "push_good sample_pushing {(1, 4), (2, 7)} sample_world"
    by (auto simp: push_good_def log_good_def staged_good_def published_good_def marks_good_def table_good_def
        sample_world_def table_rows_def published_floor_def table_span_def)
  show "aligned sample_world" by (simp add: aligned_def sample_world_def)
  show "has_row (pw_db sample_world)"
    by (simp add: has_row_def load_published_def load_tiers_def decode_tiers_def decode_def sample_world_def empty_db_def
        tiers_def joined_row_def PUBLISHED_def CURRENT_TIER_def Let_def split: option.splits)
qed

lemma stopped_push_is_safe_witness:
  "\<exists>w'. run_push (take (length (push sample_pushing sample_world)) (push sample_pushing sample_world)) sample_world = Some w' \<and>
     pushed_rows w' \<subseteq> {(1, 4), (2, 7)} \<and> push_good sample_pushing {(1, 4), (2, 7)} w'"
proof -
  have "holds_on sample_pushing {(1, 4), (2, 7)} sample_world sample_world"
    using sample_push_good(1) by (simp add: holds_on_def onward_refl)
  from push_flow [where live = True, OF this] have "flows True (holds_on sample_pushing {(1, 4), (2, 7)} sample_world)
      (push sample_pushing sample_world) sample_world (\<lambda>w'. True \<longrightarrow> (\<exists>c. at_floor sample_pushing c w' \<and>
        (\<forall>f \<in> set (pw_staging w'). end_of f \<le> c)))"
    using sample_push_good(2,3) by (simp add: within_bound_def sample_pushing_def)
  from flows_total [OF this] obtain w' where "run_push (push sample_pushing sample_world) sample_world = Some w'" by blast
  then have run: "run_push (take (length (push sample_pushing sample_world)) (push sample_pushing sample_world)) sample_world = Some w'"
    by simp
  note safe = stopped_push_is_safe [OF sample_push_good(1) run]
  from safe have "pushed_rows w' \<subseteq> {(1, 4), (2, 7)}" by (elim conjE)
  moreover from safe have "push_good sample_pushing {(1, 4), (2, 7)} w'" by (elim conjE)
  ultimately show ?thesis by (intro exI [of _ w'] conjI run)
qed

lemma flushed_publish_completes_witness:
  "\<exists>bound w2. run_push (push (sample_pushing\<lparr>pu_bound := bound\<rparr>) sample_world) sample_world = Some w2 \<and>
     {(1, 4), (2, 7)} \<subseteq> pushed_rows w2 \<and> (\<exists>k \<ge> 2. watermark (pw_db w2) = Some k)"
proof -
  obtain claimed bound where claim: "publish_claim sample_pushing True sample_world = (claimed, bound)" by fastforce
  have "run_push (take 0 (push (sample_pushing\<lparr>pu_flush := True, pu_finish := False, pu_bound := None\<rparr>) sample_world)) sample_world =
      Some sample_world" by simp
  from flushed_publish_completes [OF sample_push_good(1,2) this sample_push_good(3) claim]
  obtain w2 where "run_push (push (sample_pushing\<lparr>pu_bound := bound\<rparr>) sample_world) sample_world = Some w2"
    "staged_rows sample_world \<subseteq> pushed_rows w2" "\<exists>k. watermark (pw_db w2) = Some k \<and> fst ` staged_rows sample_world \<subseteq> {..k}"
    by (auto simp: sample_pushing_def)
  moreover have "staged_rows sample_world = {(1, 4), (2, 7)}" by (auto simp: sample_world_def table_rows_def)
  ultimately show ?thesis by auto
qed

end
