(* ===== verification/Seal_Progress.thy ===== *)
theory Seal_Progress
  imports Seal_System
begin

text \<open>
  Progress of sealing: an attempt always ends, within \<open>SEAL_TICKS\<close> transactions; and where no other claim
  is live, each attempt files the group at the head of the queue, whatever an earlier attempt left
  behind, so \<open>_seal_due\<close> ends with the queue empty. The attempt is a run of the machine of
  \<open>Seal_System\<close>, with a proof outline (\<open>track\<close>): what holds before each of its transactions.
\<close>

subsection \<open>An attempt ends\<close>

fun rank :: "seal_pc \<Rightarrow> nat" where
  "rank Ready = 15"
| "rank (Peeked a b) = 14"
| "rank (Leased c a b) = 13"
| "rank (Headed c a b) = 12"
| "rank Opening = 12"
| "rank (Recovering c r) = 11"
| "rank (Resolving c r a b p) = 10"
| "rank (Requeueing c r a b p) = 9"
| "rank (Naming c a b p) = 9"
| "rank (Renaming c r a b p) = 8"
| "rank (Renew_first c a b p) = 8"
| "rank (Writing c r a b p) = 7"
| "rank (Renew_second c r a b p) = 6"
| "rank (Committing c r a b p) = 5"
| "rank (Registering c r a b p k) = 4"
| "rank (Declined c r b p) = 3"
| "rank (Lost c p) = 2"
| "rank (Finishing c r b p) = 2"
| "rank (Releasing c r) = 1"
| "rank (Returned r) = 0"

lemma rank_0: "rank pc = 0 \<longleftrightarrow> (\<exists>r. pc = Returned r)"
  by (cases pc) auto

lemma rank_decreases:
  assumes "seal_next l arrange t pc w = (pc', w')" and "rank pc \<noteq> 0"
  shows "rank pc' < rank pc"
  using assms
  by (cases pc)
    (auto simp: take_claim_def renew_claim_def Let_def split: option.splits prod.splits if_splits sum.splits)

lemma returned_stays: "run_sealer l arrange ts (Returned r) w = (Returned r, w)"
  by (induction ts) auto

lemma run_ends: "rank pc \<le> length ts \<Longrightarrow> \<exists>r w'. run_sealer l arrange ts pc w = (Returned r, w')"
proof (induction ts arbitrary: pc w)
  case Nil
  then show ?case using rank_0 [of pc] by auto
next
  case (Cons t ts)
  obtain pc' w' where step: "seal_next l arrange t pc w = (pc', w')" by fastforce
  show ?case
  proof (cases "rank pc = 0")
    case True
    then obtain r where "pc = Returned r" using rank_0 by blast
    then show ?thesis using returned_stays by (metis run_sealer.simps(2) case_prod_conv seal_next_simps(20))
  next
    case False
    from rank_decreases [OF step False] Cons.prems have "rank pc' \<le> length ts" by simp
    from Cons.IH [OF this] step show ?thesis by simp
  qed
qed

subsection \<open>The claim of an attempt\<close>

text \<open>The attempt holds its claim's row, and every other row was there before it.\<close>

definition owns :: "claim_row set \<Rightarrow> claim \<Rightarrow> claim_table \<Rightarrow> bool" where
  "owns old c t \<longleftrightarrow> ids_fresh t \<and> (\<exists>i. cl_row_id c = Some i \<and> length (filter (mine c i) (claim_rows t)) = 1 \<and>
     (\<forall>r \<in> set (claim_rows t). \<not> mine c i r \<longrightarrow> r \<in> old))"

lemma acquire_owns:
  assumes "\<forall>r \<in> set (claim_rows t). cr_expires_at r \<le> now" and "ids_fresh t" and "set (claim_rows t) \<subseteq> old"
  shows "\<exists>c' t'. acquire now Committed cleaned c t = (Some True, c', t') \<and> owns old c' t'"
proof -
  have no: "\<not> (\<exists>r \<in> set (claim_rows t). clashes now c r)" using assms(1) by (auto simp: clashes_def)
  let ?i = "Suc (claim_seq t)"
  let ?kept = "filter (\<lambda>r. \<not> lapsed_overlap now c r) (claim_rows t)"
  have other: "filter (mine (c\<lparr>cl_row_id := Some ?i\<rparr>) ?i) ?kept = []"
    using assms(2) by (auto simp: filter_empty_conv mine_def ids_fresh_def)
  have "owns old (c\<lparr>cl_row_id := Some ?i\<rparr>) \<lparr>claim_rows = ?kept @ [new_row now c ?i], claim_seq = ?i\<rparr>"
    unfolding owns_def
  proof (intro conjI exI [of _ ?i])
    show "ids_fresh \<lparr>claim_rows = ?kept @ [new_row now c ?i], claim_seq = ?i\<rparr>"
      using ids_fresh_body [OF assms(2), of now c True] no by (auto simp: acquire_body_def Let_def)
    show "length (filter (mine (c\<lparr>cl_row_id := Some ?i\<rparr>) ?i)
        (claim_rows \<lparr>claim_rows = ?kept @ [new_row now c ?i], claim_seq = ?i\<rparr>)) = 1"
      using other by (simp add: mine_def new_row_def)
  qed (use assms(3) in \<open>auto simp: mine_def new_row_def\<close>)
  with no show ?thesis by (auto simp: acquire_def acquire_body_def Let_def)
qed

lemma mine_touched: "mine c i (if P then r\<lparr>cr_expires_at := n\<rparr> else r) \<longleftrightarrow> mine c i r"
  by (simp add: mine_def)

lemma renew_owns:
  assumes "owns old c t"
  shows "\<exists>t'. renew now c t = (True, t') \<and> owns old c t'"
proof -
  from assms obtain i where i: "ids_fresh t" "cl_row_id c = Some i" "length (filter (mine c i) (claim_rows t)) = 1"
    "\<forall>r \<in> set (claim_rows t). \<not> mine c i r \<longrightarrow> r \<in> old" by (auto simp: owns_def)
  let ?f = "\<lambda>r. if mine c i r then r\<lparr>cr_expires_at := now + cl_ttl_ms c\<rparr> else r"
  let ?t = "t\<lparr>claim_rows := map ?f (claim_rows t)\<rparr>"
  have "length (filter (mine c i) (map ?f (claim_rows t))) = 1"
    using i(3) by (simp add: filter_map comp_def mine_touched)
  moreover have "ids_fresh ?t" using i(1) by (auto simp: ids_fresh_def comp_def if_distrib cong: if_cong)
  moreover have "\<forall>r \<in> set (claim_rows ?t). \<not> mine c i r \<longrightarrow> r \<in> old" using i(4) by (auto simp: mine_def)
  ultimately have "owns old c ?t" using i(2) by (auto simp: owns_def)
  with i show ?thesis by (auto simp: renew_def)
qed

lemma release_owns:
  assumes "owns old c t"
  shows "set (claim_rows (snd (release c t))) \<subseteq> old \<and> ids_fresh (snd (release c t))"
proof -
  from assms obtain i where i: "ids_fresh t" "cl_row_id c = Some i"
    "\<forall>r \<in> set (claim_rows t). \<not> mine c i r \<longrightarrow> r \<in> old" by (auto simp: owns_def)
  then show ?thesis by (auto simp: release_def ids_fresh_filter)
qed

subsection \<open>The proof outline\<close>

text \<open>What one attempt is given: the claims that have lapsed by its clock, the paths its tokens can
  make, the head of the queue and the groups behind it.\<close>

record seal_call =
  ca_old :: "claim_row set"
  ca_paths :: "path set"
  ca_head :: extent
  ca_rest :: "extent list"

definition ca_start :: "seal_call \<Rightarrow> offset" where "ca_start k = fst (range_of (ca_head k))"
definition ca_end :: "seal_call \<Rightarrow> offset" where "ca_end k = snd (range_of (ca_head k))"

definition extent_paths :: "'r db \<Rightarrow> path set" where
  "extent_paths d = {p. Some p \<in> ex_path ` set (db_extents d)}"

definition sealing_paths :: "'r db \<Rightarrow> path set" where
  "sealing_paths d = (\<lambda>(a, b, p). p) ` set (db_sealing d)"

definition table_paths :: "'r seal_sys \<Rightarrow> path set" where
  "table_paths s = fst ` set (sy_files s)"

text \<open>Nothing in \<open>sealing\<close> names an extent yet.\<close>

definition names_free :: "'r db \<Rightarrow> bool" where
  "names_free d \<longleftrightarrow> sealing_paths d \<inter> extent_paths d = {}"

definition waiting :: "seal_call \<Rightarrow> 'r seal_sys \<Rightarrow> bool" where
  "waiting k s \<longleftrightarrow> queued (sy_db s) = ca_head k # ca_rest k \<and> names_free (sy_db s) \<and>
     ca_paths k \<inter> (table_paths s \<union> extent_paths (sy_db s)) = {}"

definition unchosen :: "seal_call \<Rightarrow> 'r seal_sys \<Rightarrow> bool" where
  "unchosen k s \<longleftrightarrow> ca_paths k \<inter> dom (sy_names s) = {}"

definition holding :: "seal_call \<Rightarrow> claim \<Rightarrow> 'r seal_sys \<Rightarrow> bool" where
  "holding k c s \<longleftrightarrow> owns (ca_old k) c (db_claims (sy_db s))"

definition let_go :: "seal_call \<Rightarrow> 'r seal_sys \<Rightarrow> bool" where
  "let_go k s \<longleftrightarrow> set (claim_rows (db_claims (sy_db s))) \<subseteq> ca_old k \<and> ids_fresh (db_claims (sy_db s))"

definition recorded :: "seal_call \<Rightarrow> path \<Rightarrow> 'r seal_sys \<Rightarrow> bool" where
  "recorded k p s \<longleftrightarrow> p \<in> ca_paths k \<and> p \<in> sealing_paths (sy_db s)"

definition filed_head :: "seal_call \<Rightarrow> 'r seal_sys \<Rightarrow> bool" where
  "filed_head k s \<longleftrightarrow> queued (sy_db s) = ca_rest k \<and> range_of (ca_head k) \<in> set (sy_filed s) \<and>
     names_free (sy_db s)"

fun track :: "seal_call \<Rightarrow> 'r seal_sys \<Rightarrow> seal_pc \<Rightarrow> bool" where
  "track k s Ready = (waiting k s \<and> unchosen k s \<and> let_go k s)"
| "track k s (Peeked a b) = (waiting k s \<and> unchosen k s \<and> let_go k s \<and> (a, b) = (ca_start k, ca_end k))"
| "track k s (Leased c a b) = (waiting k s \<and> unchosen k s \<and> holding k c s \<and> (a, b) = (ca_start k, ca_end k))"
| "track k s (Headed c a b) = (waiting k s \<and> unchosen k s \<and> holding k c s \<and> (a, b) = (ca_start k, ca_end k))"
| "track k s (Naming c a b p) = (waiting k s \<and> holding k c s \<and> b = ca_end k \<and> p \<in> ca_paths k)"
| "track k s (Renew_first c a b p) = (waiting k s \<and> holding k c s \<and> b = ca_end k \<and> recorded k p s)"
| "track k s (Recovering c r) = (waiting k s \<and> unchosen k s \<and> holding k c s \<and> r = Sealed_to (ca_end k) \<and>
     (\<exists>a p. pending_seal (sy_db s) = Some (a, ca_end k, p)))"
| "track k s (Resolving c r a b p) = (waiting k s \<and> unchosen k s \<and> holding k c s \<and> r = Sealed_to (ca_end k) \<and>
     b = ca_end k \<and> p \<in> sealing_paths (sy_db s))"
| "track k s (Requeueing c r a b p) = (waiting k s \<and> unchosen k s \<and> holding k c s \<and> r = Sealed_to (ca_end k) \<and>
     b = ca_end k)"
| "track k s (Renaming c r a b p) = (waiting k s \<and> holding k c s \<and> r = Sealed_to (ca_end k) \<and>
     b = ca_end k \<and> p \<in> ca_paths k)"
| "track k s (Writing c r a b p) = (waiting k s \<and> holding k c s \<and> r = Sealed_to (ca_end k) \<and>
     b = ca_end k \<and> recorded k p s)"
| "track k s (Renew_second c r a b p) = (waiting k s \<and> holding k c s \<and> r = Sealed_to (ca_end k) \<and>
     b = ca_end k \<and> recorded k p s \<and> sw_disk (sy_w s) p \<noteq> None)"
| "track k s (Committing c r a b p) = (waiting k s \<and> holding k c s \<and> r = Sealed_to (ca_end k) \<and>
     b = ca_end k \<and> recorded k p s \<and> sw_disk (sy_w s) p \<noteq> None)"
| "track k s (Registering c r a b p th) = (waiting k s \<and> holding k c s \<and> r = Sealed_to (ca_end k) \<and>
     b = ca_end k \<and> recorded k p s \<and> sw_disk (sy_w s) p \<noteq> None)"
| "track k s (Declined c r b p) = (queued (sy_db s) = ca_head k # ca_rest k \<and> names_free (sy_db s) \<and>
     holding k c s \<and> r = Sealed_to (ca_end k) \<and> b = ca_end k \<and> p \<in> sealing_paths (sy_db s))"
| "track k s (Finishing c r b p) = (queued (sy_db s) = ca_head k # ca_rest k \<and> names_free (sy_db s) \<and>
     holding k c s \<and> r = Sealed_to (ca_end k) \<and> b = ca_end k \<and> p \<in> sealing_paths (sy_db s))"
| "track k s (Releasing c r) = (filed_head k s \<and> holding k c s \<and> r = Sealed_to (ca_end k))"
| "track k s (Returned r) = (filed_head k s \<and> let_go k s \<and> r = Sealed_to (ca_end k))"
| "track k s _ = False"

text \<open>What an attempt leaves as it was, and what it may add to.\<close>

definition kept :: "path set \<Rightarrow> 'r seal_sys \<Rightarrow> 'r seal_sys \<Rightarrow> bool" where
  "kept P s t \<longleftrightarrow> sy_log t = sy_log s \<and> sy_pub t = sy_pub s \<and> set (sy_filed s) \<subseteq> set (sy_filed t) \<and>
     dom (sy_names t) \<subseteq> dom (sy_names s) \<union> P \<and> table_paths t \<subseteq> table_paths s \<union> P \<and>
     extent_paths (sy_db t) \<subseteq> extent_paths (sy_db s) \<union> dom (sy_names s) \<union> P"

lemma kept_refl: "kept P s s"
  by (auto simp: kept_def)

lemma kept_sets: "A \<subseteq> B \<union> N \<union> P \<Longrightarrow> N \<subseteq> M \<union> P \<Longrightarrow> B \<subseteq> C \<union> M \<union> P \<Longrightarrow> A \<subseteq> C \<union> M \<union> P"
  by blast

lemma kept_trans:
  assumes "kept P s t" and "kept P t u"
  shows "kept P s u"
proof -
  have "extent_paths (sy_db u) \<subseteq> extent_paths (sy_db s) \<union> dom (sy_names s) \<union> P"
    by (rule kept_sets [where B = "extent_paths (sy_db t)" and N = "dom (sy_names t)"])
      (use assms in \<open>simp_all only: kept_def\<close>)
  moreover have "A \<subseteq> B \<union> P \<Longrightarrow> C \<subseteq> A \<union> P \<Longrightarrow> C \<subseteq> B \<union> P" for A B C :: "path set" by blast
  ultimately show ?thesis using assms unfolding kept_def by (metis order_trans)
qed

text \<open>The machine's successor when sealer \<open>i\<close> takes its next step.\<close>

definition sealed_on ::
  "layout \<Rightarrow> ((offset \<times> 'r) list \<Rightarrow> (offset \<times> 'r) list) \<Rightarrow> nat \<Rightarrow> tick \<Rightarrow> 'r seal_sys \<Rightarrow> 'r seal_sys" where
  "sealed_on l arrange i t s =
     (case seal_next l arrange t (sy_pc s i) (sy_w s) of (pc, w) \<Rightarrow>
        s\<lparr>sy_w := w, sy_pc := (sy_pc s)(i := pc), sy_filed := sy_filed s @ files_now (sy_pc s i) t (sy_db s),
          sy_names := note_name pc (sy_names s)\<rparr>)"

lemma sealed_on_step:
  "unused_name (fst (seal_next l arrange t (sy_pc s i) (sy_w s))) s \<Longrightarrow>
     seal_step l arrange s (sealed_on l arrange i t s)"
  unfolding sealed_on_def by (cases "seal_next l arrange t (sy_pc s i) (sy_w s)") (auto intro: s_seal)

text \<open>The tick is one of the call's: its clock is past every old claim, its token makes the call's paths.\<close>

definition tick_of :: "layout \<Rightarrow> seal_call \<Rightarrow> tick \<Rightarrow> bool" where
  "tick_of l k t \<longleftrightarrow> (\<forall>r \<in> ca_old k. cr_expires_at r \<le> tk_ms t) \<and>
     (\<forall>a b. seal_path l a b (tk_token t) \<in> ca_paths k)"

definition goes_on :: "seal_call \<Rightarrow> 'r seal_sys \<Rightarrow> 'r seal_sys \<Rightarrow> nat \<Rightarrow> bool" where
  "goes_on k s t i \<longleftrightarrow> unused_name (sy_pc t i) s \<and> track k t (sy_pc t i) \<and> kept (ca_paths k) s t"

lemma db_claims_simps [simp]:
  "db_claims (with_claims t d) = t" "db_claims (enqueue_deletions ps n d) = db_claims d"
  "db_claims (claim_seal a b p d) = db_claims d"
  "db_extents (with_claims t d) = db_extents d" "db_extents (enqueue_deletions ps n d) = db_extents d"
  "db_extents (claim_seal a b p d) = db_extents d"
  by (simp_all add: with_claims_def enqueue_deletions_def claim_seal_def)

lemma queued_simps [simp]:
  "queued (with_claims t d) = queued d" "queued (enqueue_deletions ps n d) = queued d"
  "queued (claim_seal a b p d) = queued d"
  "extent_paths (with_claims t d) = extent_paths d" "extent_paths (enqueue_deletions ps n d) = extent_paths d"
  "extent_paths (claim_seal a b p d) = extent_paths d"
  "sealing_paths (with_claims t d) = sealing_paths d" "sealing_paths (enqueue_deletions ps n d) = sealing_paths d"
  "sealing_paths (claim_seal a b p d) = {p}"
  "names_free (with_claims t d) = names_free d" "names_free (enqueue_deletions ps n d) = names_free d"
  by (simp_all add: queued_def extent_paths_def sealing_paths_def names_free_def)

lemma pending_head: "queued d = x # C \<Longrightarrow> pending_group d = Some (range_of x)"
  by (cases "pending_group d") (auto simp: pending_group_None elim: pending_group_head)

lemma pending_sealing: "pending_seal d = Some (a, b, p) \<Longrightarrow> p \<in> sealing_paths d"
  by (force simp: pending_seal_def sealing_paths_def split: list.splits)

lemma finish_files:
  assumes inv: "seal_inv s" and c: "queued (sy_db s) = h # C" and free: "names_free (sy_db s)"
    and p: "p \<in> sealing_paths (sy_db s)" and b: "b = snd (range_of h)"
  shows "\<exists>d. finish_seal now b p (sy_db s) = Some (True, d) \<and> queued d = C \<and>
    range_of h \<in> set (filed_by b (sy_db s)) \<and> names_free d \<and> db_claims d = db_claims (sy_db s) \<and>
    extent_paths d \<subseteq> extent_paths (sy_db s) \<union> {p}"
proof -
  let ?d = "sy_db s"
  from inv obtain D e where sh: "queue_shape ?d D e"
    and g: "queue_good (db_rows ?d) (seq_of ?d) (sy_filed s @ map range_of D) (ex_start e)"
    by (auto simp: seal_inv_def queue_ok_def queue_inv_def)
  have one: "length (filter (ends_at b) (db_extents ?d)) \<le> 1" by (rule ends_at_one [OF sh g])
  have "filter (ends_at b) (queued ?d) = filter (ends_at b) (db_extents ?d)"
    unfolding queued_def filter_filter by (rule filter_cong) (auto dest: ends_at_queued)
  moreover have h: "ends_at b h"
  proof -
    have "h \<in> set (queued ?d)" by (simp add: c)
    then have "queued_extent h" by (simp add: queued_def)
    then show ?thesis by (auto simp: b ends_at_def queued_extent_def range_of_def)
  qed
  ultimately have "length (filter (ends_at b) (h # C)) \<le> 1" using one c by metis
  with h have rest: "filter (ends_at b) C = []" by simp
  then have C: "filter (\<lambda>x. \<not> ends_at b x) (queued ?d) = C"
    using c h by (simp add: filter_id_conv filter_empty_conv)
  let ?kept = "filter (\<lambda>(_, _, q). q \<noteq> p) (db_sealing ?d)"
  from p have "\<exists>x \<in> set (db_sealing ?d). \<not> (case x of (_, _, q) \<Rightarrow> q \<noteq> p)" by (force simp: sealing_paths_def)
  then have len: "length ?kept \<noteq> length (db_sealing ?d)"
    by (metis (mono_tags, lifting) filter_id_conv length_filter_less nat_neq_iff)
  have "Some p \<notin> ex_path ` set (db_extents ?d)" using free p by (auto simp: names_free_def extent_paths_def)
  with one len have f: "finish_seal now b p ?d = Some (True, ?d\<lparr>db_sealing := ?kept,
      db_extents := map (\<lambda>e. if ends_at b e then e\<lparr>ex_path := Some p, ex_named := Some now\<rparr> else e) (db_extents ?d)\<rparr>)"
    (is "_ = Some (True, ?d')") by (simp add: finish_seal_def Let_def)
  have "extent_paths ?d' \<subseteq> extent_paths ?d \<union> {p}" by (force simp: extent_paths_def)
  moreover have "sealing_paths ?d' = sealing_paths ?d - {p}" by (force simp: sealing_paths_def)
  ultimately have "names_free ?d'" using free by (auto simp: names_free_def)
  moreover have "range_of h \<in> set (filed_by b ?d)" by (simp add: filed_by_queued c h)
  ultimately show ?thesis
    using f finish_queued [OF f] C \<open>extent_paths ?d' \<subseteq> _\<close> by auto
qed

lemma goes_plain:
  assumes "seal_next l arrange t (sy_pc s i) (sy_w s) = (pc, w)" and "files_now (sy_pc s i) t (sy_db s) = []"
    and "sw_table w = sy_files s" and "extent_paths (sw_db w) = extent_paths (sy_db s)" and "chosen pc = None"
    and "track k (s\<lparr>sy_w := w, sy_pc := (sy_pc s)(i := pc)\<rparr>) pc"
  shows "goes_on k s (sealed_on l arrange i t s) i"
  using assms by (auto simp: goes_on_def sealed_on_def kept_def unused_name_def note_name_def table_paths_def)

lemma goes_chosen:
  assumes "seal_next l arrange t (sy_pc s i) (sy_w s) = (pc, w)" and "files_now (sy_pc s i) t (sy_db s) = []"
    and "sw_table w = sy_files s" and "extent_paths (sw_db w) = extent_paths (sy_db s)"
    and "chosen pc = Some (p, g)" and "p \<in> ca_paths k" and "unchosen k s" and "waiting k s"
    and "track k (s\<lparr>sy_w := w, sy_pc := (sy_pc s)(i := pc), sy_names := (sy_names s)(p \<mapsto> g)\<rparr>) pc"
  shows "goes_on k s (sealed_on l arrange i t s) i"
proof -
  have "sy_names s p = None" "p \<notin> fst ` set (sy_files s)"
    using assms(6-8) by (auto simp: unchosen_def waiting_def table_paths_def)
  then show ?thesis
    using assms by (auto simp: goes_on_def sealed_on_def kept_def unused_name_def note_name_def table_paths_def)
qed

lemmas track_defs = waiting_def unchosen_def holding_def let_go_def recorded_def table_paths_def

text \<open>Each step of an attempt under way leads to the next place of the outline.\<close>

lemma track_step:
  assumes inv: "seal_inv s" and tr: "track k s (sy_pc s i)" and t: "tick_of l k t"
  shows "goes_on k s (sealed_on l arrange i t s) i"
proof (cases "sy_pc s i")
  case Ready
  with tr have "pending_group (sy_db s) = Some (ca_start k, ca_end k)"
    by (simp add: waiting_def pending_head ca_start_def ca_end_def)
  with Ready tr show ?thesis
    by (intro goes_plain [where pc = "Peeked (ca_start k) (ca_end k)" and w = "sy_w s"]) (auto simp: track_defs)
next
  case (Peeked a b)
  let ?d = "sy_db s"
  from tr Peeked have go: "let_go k s" by simp
  with t have "\<forall>r \<in> set (claim_rows (db_claims ?d)). cr_expires_at r \<le> tk_ms t"
    by (auto simp: let_go_def tick_of_def)
  with go acquire_owns obtain c t' where c: "acquire (tk_ms t) Committed True
      (make_claim SEAL_ROLE a b (tk_owner t) None DEFAULT_TTL_MS) (db_claims ?d) = (Some True, c, t')"
    "owns (ca_old k) c t'" unfolding let_go_def by blast
  with Peeked tr show ?thesis
    by (intro goes_plain [where pc = "Leased c a b" and w = "on_sw_db (with_claims t') (sy_w s)"])
      (auto simp: take_claim_def track_defs)
next
  case (Leased c a b)
  with tr have "pending_group (sy_db s) = Some (a, b)"
    by (simp add: waiting_def pending_head ca_start_def ca_end_def)
  with Leased tr show ?thesis
    by (intro goes_plain [where pc = "Headed c a b" and w = "sy_w s"]) (auto simp: track_defs)
next
  case (Headed c a b)
  show ?thesis
  proof (cases "\<exists>u p. pending_seal (sy_db s) = Some (u, b, p)")
    case True
    with Headed tr show ?thesis
      by (intro goes_plain [where pc = "Recovering c (Sealed_to b)" and w = "sy_w s"]) (auto simp: track_defs)
  next
    case False
    let ?p = "seal_path l a b (tk_token t)"
    have "seal_next l arrange t (sy_pc s i) (sy_w s) = (Naming c a b ?p, sy_w s)"
      using False Headed by (auto split: option.splits)
    with Headed tr t show ?thesis
      by (intro goes_chosen [where pc = "Naming c a b ?p" and w = "sy_w s" and p = ?p])
        (auto simp: track_defs tick_of_def)
  qed
next
  case (Naming c a b p)
  with tr show ?thesis
    by (intro goes_plain [where pc = "Renew_first c a b p" and w = "on_sw_db (claim_seal a b p) (sy_w s)"])
      (auto simp: track_defs names_free_def)
next
  case (Renew_first c a b p)
  with tr have "owns (ca_old k) c (db_claims (sy_db s))" by (simp add: holding_def)
  from renew_owns [OF this] obtain t' where "renew (tk_ms t) c (db_claims (sy_db s)) = (True, t')" "owns (ca_old k) c t'"
    by blast
  with Renew_first tr show ?thesis
    by (intro goes_plain [where pc = "Writing c (Sealed_to b) a b p" and w = "on_sw_db (with_claims t') (sy_w s)"])
      (auto simp: renew_claim_def track_defs)
next
  case (Recovering c r)
  with tr obtain a p where p: "pending_seal (sy_db s) = Some (a, ca_end k, p)" by auto
  with Recovering tr show ?thesis
    by (intro goes_plain [where pc = "Resolving c r a (ca_end k) p" and w = "sy_w s"])
      (auto simp: track_defs intro: pending_sealing)
next
  case (Resolving c r a b p)
  with tr show ?thesis
    by (intro goes_plain [where pc = "if p \<in> fst ` set (sy_files s) then Finishing c r b p else Requeueing c r a b p"
          and w = "sy_w s"]) (auto simp: track_defs)
next
  case (Requeueing c r a b p)
  let ?p = "seal_path l a b (tk_token t)"
  from Requeueing tr t show ?thesis
    by (intro goes_chosen [where pc = "Renaming c r a b ?p" and p = ?p
          and w = "on_sw_db (enqueue_deletions [p] (tk_seconds t)) (sy_w s)"]) (auto simp: track_defs tick_of_def)
next
  case (Renaming c r a b p)
  with tr show ?thesis
    by (intro goes_plain [where pc = "Writing c r a b p" and w = "on_sw_db (claim_seal a b p) (sy_w s)"])
      (auto simp: track_defs names_free_def)
next
  case (Writing c r a b p)
  with tr show ?thesis
    by (intro goes_plain [where pc = "Renew_second c r a b p" and
          w = "(sy_w s)\<lparr>sw_disk := (sw_disk (sy_w s))(p \<mapsto> arrange (rows_between a b (sy_db s)))\<rparr>"])
      (auto simp: track_defs)
next
  case (Renew_second c r a b p)
  with tr have "owns (ca_old k) c (db_claims (sy_db s))" by (simp add: holding_def)
  from renew_owns [OF this] obtain t' where "renew (tk_ms t) c (db_claims (sy_db s)) = (True, t')" "owns (ca_old k) c t'"
    by blast
  with Renew_second tr show ?thesis
    by (intro goes_plain [where pc = "Committing c r a b p" and w = "on_sw_db (with_claims t') (sy_w s)"])
      (auto simp: renew_claim_def track_defs)
next
  case (Committing c r a b p)
  from inv obtain m where "published_through (sy_db s) = Some m" by (auto simp: seal_inv_def log_ok_def)
  with Committing tr show ?thesis
    by (intro goes_plain [where pc = "Registering c r a b p m" and w = "sy_w s"]) (auto simp: track_defs)
next
  case (Registering c r a b p m)
  with tr have wt: "waiting k s" and p: "recorded k p s" and disk: "sw_disk (sy_w s) p \<noteq> None" by simp_all
  then have np: "p \<notin> fst ` set (sy_files s)" by (auto simp: waiting_def recorded_def table_paths_def)
  let ?pc = "\<lambda>added. if added then Finishing c r b p else Declined c r b p"
  from disk np obtain added fs where reg: "register (sw_disk (sy_w s)) p b m (sy_files s) = Inr (added, fs)"
    and fs: "fst ` set fs \<subseteq> insert p (fst ` set (sy_files s))"
    by (cases "covers (sy_files s) b \<or> b \<le> m + 1") (auto simp: register_def split: option.splits)
  with Registering have nx: "seal_next l arrange t (sy_pc s i) (sy_w s) = (?pc added, (sy_w s)\<lparr>sw_table := fs\<rparr>)" by simp
  have "track k (s\<lparr>sy_w := (sy_w s)\<lparr>sw_table := fs\<rparr>, sy_pc := (sy_pc s)(i := ?pc added)\<rparr>) (?pc added)"
    using tr Registering p by (auto simp: waiting_def holding_def recorded_def)
  with nx fs p Registering show ?thesis
    by (auto simp: goes_on_def sealed_on_def kept_def unused_name_def note_name_def table_paths_def recorded_def)
next
  case (Declined c r b p)
  with tr show ?thesis
    by (intro goes_plain [where pc = "Finishing c r b p"
          and w = "on_sw_db (enqueue_deletions [p] (tk_seconds t)) (sy_w s)"]) (auto simp: track_defs)
next
  case (Finishing c r b p)
  with tr have q: "queued (sy_db s) = ca_head k # ca_rest k" "names_free (sy_db s)" "p \<in> sealing_paths (sy_db s)"
    "b = snd (range_of (ca_head k))" by (simp_all add: ca_end_def)
  from finish_files [OF inv q] obtain d where f: "finish_seal (tk_seconds t) b p (sy_db s) = Some (True, d)"
    and d: "queued d = ca_rest k" "range_of (ca_head k) \<in> set (filed_by b (sy_db s))" "names_free d"
      "db_claims d = db_claims (sy_db s)" "extent_paths d \<subseteq> extent_paths (sy_db s) \<union> {p}" by blast
  have "names_ok s" using inv by (simp add: seal_inv_def)
  with q(3) have "p \<in> dom (sy_names s)" by (force simp: names_ok_def sealing_paths_def)
  with f d tr Finishing show ?thesis
    by (auto simp: goes_on_def sealed_on_def kept_def unused_name_def note_name_def table_paths_def files_now_def
        filed_head_def holding_def)
next
  case (Releasing c r)
  let ?t = "snd (release c (db_claims (sy_db s)))"
  from Releasing tr have "owns (ca_old k) c (db_claims (sy_db s))" by (simp add: holding_def)
  note release_owns [OF this]
  with Releasing tr show ?thesis
    by (intro goes_plain [where pc = "Returned r" and w = "on_sw_db (\<lambda>d. with_claims ?t d) (sy_w s)"])
      (auto simp: filed_head_def let_go_def on_sw_db_def)
next
  case (Returned r)
  with tr show ?thesis
    by (intro goes_plain [where pc = "Returned r" and w = "sy_w s"]) (auto simp: filed_head_def let_go_def)
qed (use tr in simp_all)

subsection \<open>An attempt files the head of the queue\<close>

lemma sealed_on_run:
  "run_sealer l arrange (t # ts) (sy_pc s i) (sy_w s) =
     run_sealer l arrange ts (sy_pc (sealed_on l arrange i t s) i) (sy_w (sealed_on l arrange i t s))"
  by (simp add: sealed_on_def split: prod.splits)

lemma run_track:
  fixes s :: "'r seal_sys"
  assumes arr: "\<And>rs. mset (arrange rs) = mset (rs :: (offset \<times> 'r) list)"
    and "seal_inv s" and "track k s (sy_pc s i)" and "\<forall>t \<in> set ts. tick_of l k t"
  shows "\<exists>s'. steps (seal_step l arrange) s s' \<and> seal_inv s' \<and> kept (ca_paths k) s s' \<and> track k s' (sy_pc s' i) \<and>
    run_sealer l arrange ts (sy_pc s i) (sy_w s) = (sy_pc s' i, sy_w s')"
  using assms(2-)
proof (induction ts arbitrary: s)
  case Nil
  then show ?case by (intro exI [of _ s]) (simp add: steps_refl kept_refl)
next
  case (Cons t ts)
  let ?u = "sealed_on l arrange i t s"
  from Cons.prems have "goes_on k s ?u i" by (intro track_step) simp_all
  then have u: "track k ?u (sy_pc ?u i)" "kept (ca_paths k) s ?u" "unused_name (sy_pc ?u i) s"
    by (simp_all add: goes_on_def)
  have "sy_pc ?u i = fst (seal_next l arrange t (sy_pc s i) (sy_w s))"
    by (simp add: sealed_on_def split: prod.splits)
  with u(3) have step: "seal_step l arrange s ?u" by (intro sealed_on_step) simp
  from Cons.IH [OF seal_step_inv [OF Cons.prems(1) arr step] u(1)] Cons.prems(3) obtain s' where
    s': "steps (seal_step l arrange) ?u s'" "seal_inv s'" "kept (ca_paths k) ?u s'" "track k s' (sy_pc s' i)"
    "run_sealer l arrange ts (sy_pc ?u i) (sy_w ?u) = (sy_pc s' i, sy_w s')" by auto
  have "run_sealer l arrange (t # ts) (sy_pc s i) (sy_w s) = (sy_pc s' i, sy_w s')"
    unfolding sealed_on_run by (rule s'(5))
  with steps_first [OF step s'(1)] s' kept_trans [OF u(2) s'(3)] show ?case by blast
qed

text \<open>What \<open>_seal_queued\<close> needs to go through: no claim is live by the clocks of the attempt, and the
  paths its tokens make are nobody's.\<close>

definition call_paths :: "layout \<Rightarrow> (nat \<Rightarrow> tick) \<Rightarrow> path set" where
  "call_paths l ticks = {seal_path l a b (tk_token (ticks j)) | a b j. True}"

definition used_paths :: "'r seal_sys \<Rightarrow> path set" where
  "used_paths s = dom (sy_names s) \<union> table_paths s \<union> extent_paths (sy_db s)"

definition claims_lapsed :: "(nat \<Rightarrow> tick) \<Rightarrow> 'r db \<Rightarrow> bool" where
  "claims_lapsed ticks d \<longleftrightarrow> (\<forall>r \<in> set (claim_rows (db_claims d)). \<forall>j. cr_expires_at r \<le> tk_ms (ticks j))"

definition alone :: "'r db \<Rightarrow> bool" where
  "alone d \<longleftrightarrow> ids_fresh (db_claims d) \<and> names_free d"

lemma seal_call_files_head:
  fixes s :: "'r seal_sys"
  assumes arr: "\<And>rs. mset (arrange rs) = mset (rs :: (offset \<times> 'r) list)"
    and inv: "seal_inv s" and head: "queued (sy_db s) = x # C" and al: "alone (sy_db s)"
    and lapsed: "claims_lapsed ticks (sy_db s)" and fresh: "call_paths l ticks \<inter> used_paths s = {}"
  shows "\<exists>s'. steps (seal_step l arrange) s s' \<and> seal_inv s' \<and> kept (call_paths l ticks) s s' \<and> alone (sy_db s') \<and>
    seal_queued l arrange ticks (sy_w s) = (Sealed_to (snd (range_of x)), sy_w s') \<and>
    queued (sy_db s') = C \<and> range_of x \<in> set (sy_filed s') \<and>
    set (claim_rows (db_claims (sy_db s'))) \<subseteq> set (claim_rows (db_claims (sy_db s)))"
proof -
  let ?k = "\<lparr>ca_old = set (claim_rows (db_claims (sy_db s))), ca_paths = call_paths l ticks, ca_head = x, ca_rest = C\<rparr>"
  let ?r = "s\<lparr>sy_pc := (sy_pc s)(0 := Ready)\<rparr>"
  let ?ts = "map ticks [0..<SEAL_TICKS]"
  have step: "seal_step l arrange s ?r" by (rule s_stop) simp
  have t: "\<forall>t \<in> set ?ts. tick_of l ?k t"
    using lapsed by (auto simp: tick_of_def claims_lapsed_def call_paths_def)
  have start: "track ?k ?r (sy_pc ?r 0)"
    using head al fresh
    by (auto simp: waiting_def unchosen_def let_go_def alone_def used_paths_def table_paths_def)
  from run_track [OF arr seal_step_inv [OF inv arr step] start t] obtain s' where
    s': "steps (seal_step l arrange) ?r s'" "seal_inv s'" "kept (ca_paths ?k) ?r s'" "track ?k s' (sy_pc s' 0)"
      "run_sealer l arrange ?ts (sy_pc ?r 0) (sy_w ?r) = (sy_pc s' 0, sy_w s')" by blast
  have "rank (sy_pc ?r 0) \<le> length ?ts" by (simp add: SEAL_TICKS_def)
  from run_ends [OF this, of l arrange "sy_w ?r"] obtain r where r: "sy_pc s' 0 = Returned r" unfolding s'(5) by blast
  with s'(4) have end_state: "filed_head ?k s'" "let_go ?k s'" "r = Sealed_to (snd (range_of x))"
    by (simp_all add: ca_end_def)
  have "seal_queued l arrange ticks (sy_w s) = (r, sy_w s')"
    using s'(5) r by (simp add: seal_queued_def)
  with end_state s'(3) steps_first [OF step s'(1)] s'(2) show ?thesis
    by (intro exI [of _ s']) (auto simp: filed_head_def let_go_def alone_def kept_def table_paths_def)
qed

subsection \<open>Draining the queue\<close>

definition last_end :: "extent list \<Rightarrow> offset option \<Rightarrow> offset option" where
  "last_end C before = (if C = [] then before else Some (snd (range_of (last C))))"

lemma seal_due_loop:
  fixes s :: "'r seal_sys"
  assumes arr: "\<And>rs. mset (arrange rs) = mset (rs :: (offset \<times> 'r) list)"
    and apart: "\<And>k k'. k \<noteq> k' \<Longrightarrow> call_paths l (ticks k) \<inter> call_paths l (ticks k') = {}"
    and "seal_inv s" and "queued (sy_db s) = C" and "alone (sy_db s)"
    and "\<And>j. claims_lapsed (ticks j) (sy_db s)"
    and "\<And>k'. k \<le> k' \<Longrightarrow> call_paths l (ticks k') \<inter> used_paths s = {}"
  shows "\<exists>s'. steps (seal_step l arrange) s s' \<and>
    seal_due l arrange ticks k sofar (sy_w s) = Some (Inr (last_end C sofar), sy_w s') \<and>
    queued (sy_db s') = [] \<and> set (map range_of C) \<subseteq> set (sy_filed s') \<and> sy_log s' = sy_log s"
  using assms(3-)
proof (induction C arbitrary: s k sofar)
  case Nil
  then show ?case
    by (intro exI [of _ s]) (subst seal_due.simps, simp add: steps_refl last_end_def pending_group_None)
next
  case (Cons x C)
  from seal_call_files_head [OF arr Cons.prems(1-4) Cons.prems(5) [OF order_refl]] obtain u where
    u: "steps (seal_step l arrange) s u" "seal_inv u" "kept (call_paths l (ticks k)) s u" "alone (sy_db u)"
      "seal_queued l arrange (ticks k) (sy_w s) = (Sealed_to (snd (range_of x)), sy_w u)"
      "queued (sy_db u) = C" "range_of x \<in> set (sy_filed u)"
      "set (claim_rows (db_claims (sy_db u))) \<subseteq> set (claim_rows (db_claims (sy_db s)))" by blast
  have lapsed: "claims_lapsed (ticks j) (sy_db u)" for j
    using Cons.prems(4) [of j] u(8) by (auto simp: claims_lapsed_def)
  have free: "call_paths l (ticks k') \<inter> used_paths u = {}" if "Suc k \<le> k'" for k'
  proof -
    have "used_paths u \<subseteq> used_paths s \<union> call_paths l (ticks k)"
      using u(3) by (auto simp: kept_def used_paths_def)
    with Cons.prems(5) [of k'] apart [of k' k] that show ?thesis by force
  qed
  from Cons.IH [OF u(2,6,4) lapsed free, where sofar = "Some (snd (range_of x))"] obtain s' where
    s': "steps (seal_step l arrange) u s'"
      "seal_due l arrange ticks (Suc k) (Some (snd (range_of x))) (sy_w u) =
         Some (Inr (last_end C (Some (snd (range_of x)))), sy_w s')"
      "queued (sy_db s') = []" "set (map range_of C) \<subseteq> set (sy_filed s')" "sy_log s' = sy_log u" by blast
  have "set (sy_filed u) \<subseteq> set (sy_filed s')"
    using s'(1)
  proof (induction rule: steps.induct)
    case (steps_step a b)
    then show ?case by (auto elim!: seal_step.cases)
  qed simp
  with u(7) s'(4) have "set (map range_of (x # C)) \<subseteq> set (sy_filed s')" by auto
  moreover have "pending_group (sy_db s) \<noteq> None" using Cons.prems(2) by (simp add: pending_group_None)
  then have "seal_due l arrange ticks k sofar (sy_w s) = Some (Inr (last_end (x # C) sofar), sy_w s')"
    using u(5) s'(2) by (subst seal_due.simps) (auto simp: last_end_def)
  moreover have "sy_log s' = sy_log s" using s'(5) u(3) by (simp add: kept_def)
  ultimately show ?case using steps_trans [OF s'(1) u(1)] s'(3) by blast
qed

text \<open>C2. Sealing makes progress: in any state the log can reach, whatever stopped attempts left in
  \<open>sealing\<close>, in the table or on disk, \<open>seal()\<close> ends, returns the end of the last queued group, leaves no group
  queued, and every row of the groups that were is in the staging table or published. The conditions: every
  claim on record has lapsed by this sealer's clock (a live claim over a queued group leaves that group
  queued, which is what \<open>seal()\<close> promises then), no other operation runs while it does, claim ids are not
  issued twice, no path in \<open>sealing\<close> names an extent yet, and the random tokens are new.\<close>

theorem seal_due_drains_the_queue:
  assumes "\<And>rs. mset (arrange rs) = mset (rs :: (offset \<times> 'r) list)"
    and "reach seal_init (seal_step l arrange) s"
    and "\<And>k k'. k \<noteq> k' \<Longrightarrow> call_paths l (ticks k) \<inter> call_paths l (ticks k') = {}"
    and "\<And>k. claims_lapsed (ticks k) (sw_db (sy_w s)) \<and> call_paths l (ticks k) \<inter> used_paths s = {}"
    and "alone (sw_db (sy_w s))"
  shows "\<exists>s'. steps (seal_step l arrange) s s' \<and>
    seal_due l arrange ticks 0 None (sy_w s) = Some (Inr (last_end (queued (sw_db (sy_w s))) None), sy_w s') \<and>
    pending_group (sw_db (sy_w s')) = None \<and>
    (\<forall>i r. (i, r) \<in> sy_log s \<longrightarrow> (\<exists>(a, b) \<in> set (map range_of (queued (sw_db (sy_w s)))). in_span a b i) \<longrightarrow>
       (i, r) \<in> set (table_rows (sw_table (sy_w s'))) \<or> (i, r) \<in> sy_pub s')"
proof -
  note m = seal_machine [OF assms(1), of l]
  have "seal_inv s" by (rule invariant_machine.inv_reach [OF m assms(2)])
  then have "\<exists>s'. steps (seal_step l arrange) s s' \<and>
    seal_due l arrange ticks 0 None (sy_w s) = Some (Inr (last_end (queued (sy_db s)) None), sy_w s') \<and>
    queued (sy_db s') = [] \<and> set (map range_of (queued (sy_db s))) \<subseteq> set (sy_filed s') \<and> sy_log s' = sy_log s"
    by (intro seal_due_loop [OF assms(1)]) (use assms(3-5) in auto)
  then obtain s' where
    s': "steps (seal_step l arrange) s s'"
      "seal_due l arrange ticks 0 None (sy_w s) = Some (Inr (last_end (queued (sy_db s)) None), sy_w s')"
      "queued (sy_db s') = []" "set (map range_of (queued (sy_db s))) \<subseteq> set (sy_filed s')" "sy_log s' = sy_log s"
    by blast
  have "seal_inv s'" by (rule invariant_machine.inv_steps [OF m s'(1)]) (rule \<open>seal_inv s\<close>)
  then have tb: "table_ok s'" and lg: "log_ok s'" by (simp_all add: seal_inv_def)
  have "(i, r) \<in> set (table_rows (sy_files s')) \<or> (i, r) \<in> sy_pub s'"
    if i: "(i, r) \<in> sy_log s" "\<exists>(a, b) \<in> set (map range_of (queued (sy_db s))). in_span a b i" for i r
  proof -
    from i(2) s'(4) obtain a b where ab: "(a, b) \<in> set (sy_filed s')" "in_span a b i" by blast
    with tb have "b \<le> edge s'" unfolding table_ok_def by blast
    with ab(2) have "i < edge s'" by (simp add: in_span_def)
    with tb i(1) s'(5) have "i \<le> mark s' \<or> (i, r) \<in> set (table_rows (sy_files s'))" unfolding table_ok_def by blast
    with lg i(1) s'(5) show ?thesis unfolding log_ok_def by blast
  qed
  with s' show ?thesis by (auto simp: pending_group_None)
qed

subsection \<open>A log with one queued group\<close>

definition sample_place :: layout where
  "sample_place = \<lparr>ly_root = [''srv'', ''logs''], ly_name = ''ticks''\<rparr>"

definition sample_new :: "int seal_sys" where
  "sample_new = \<lparr>sy_w = \<lparr>sw_db = sample_log, sw_disk = Map.empty, sw_table = []\<rparr>, sy_pc = (\<lambda>i. Returned Nothing_sealed),
     sy_log = {}, sy_pub = {}, sy_filed = [], sy_names = Map.empty\<rparr>"

definition sample_queued :: "int seal_sys" where
  "sample_queued = sample_new\<lparr>sy_w := (sy_w sample_new)\<lparr>sw_db := sample_two\<rparr>, sy_log := set (db_rows sample_two)\<rparr>"

definition sample_ticks :: "nat \<Rightarrow> nat \<Rightarrow> tick" where
  "sample_ticks k j = \<lparr>tk_ms = 0, tk_seconds = 0, tk_owner = ''me'', tk_token = replicate k CHR ''a''\<rparr>"

lemma sample_queued_reach: "reach seal_init (seal_step sample_place id) sample_queued"
proof (rule reach_step)
  show "reach seal_init (seal_step sample_place id) sample_new"
    by (rule reach_init) (simp add: seal_init_def sample_new_def queue_init_def sample_log_def fresh_extent_def
        empty_db_def seq_of_def published_through_def get_meta_def meta_value_def LEGACY_META_def)
  have "append_rows sample_limits id [Inr 4, Inr 7, Inr 1 :: (bool \<times> string) + int] (sy_db sample_new) =
      (Inr [1, 2, 3], sample_two)" using sample_append by (simp add: sample_new_def)
  from s_append [OF this] show "seal_step sample_place id sample_new sample_queued"
    by (simp add: sample_queued_def) (simp add: sample_new_def)
qed

lemma token_of_path:
  assumes "seal_path l a b u = seal_path l a' b' v" and "CHR ''-'' \<notin> set u" and "CHR ''-'' \<notin> set v"
  shows "u = v"
proof -
  have last: "after_last CHR ''-'' (xs @ CHR ''-'' # ys) = ys" if "CHR ''-'' \<notin> set ys" for xs ys
  proof -
    have "takeWhile (\<lambda>x. x \<noteq> CHR ''-'') (rev ys @ CHR ''-'' # rev xs) =
        rev ys @ takeWhile (\<lambda>x. x \<noteq> CHR ''-'') (CHR ''-'' # rev xs)"
      by (rule takeWhile_append2) (use that in auto)
    then show ?thesis by (simp add: after_last_def)
  qed
  have "after_last CHR ''-'' (seal_path l a b w) = w @ ''.parquet''" if "CHR ''-'' \<notin> set w" for a b w
    using last [of "w @ ''.parquet''" "ly_name l @ ''/data/'' @ SEALED @ ''/'' @ int_text a @ ''-'' @ int_text b"] that
    by (simp add: seal_path_def)
  from this [OF assms(2), of a b] this [OF assms(3), of a' b'] assms(1) show ?thesis by simp
qed

lemma sample_paths_apart:
  "k \<noteq> k' \<Longrightarrow> call_paths sample_place (sample_ticks k) \<inter> call_paths sample_place (sample_ticks k') = {}"
proof -
  assume k: "k \<noteq> k'"
  have "p \<notin> call_paths sample_place (sample_ticks k')" if "p \<in> call_paths sample_place (sample_ticks k)" for p
  proof
    assume "p \<in> call_paths sample_place (sample_ticks k')"
    with that obtain a b a' b' where "seal_path sample_place a b (replicate k CHR ''a'') =
        seal_path sample_place a' b' (replicate k' CHR ''a'')" by (auto simp: call_paths_def sample_ticks_def)
    then have "replicate k CHR ''a'' = replicate k' CHR ''a''" by (rule token_of_path) simp_all
    then have "length (replicate k CHR ''a'') = length (replicate k' CHR ''a'')" by (rule arg_cong)
    with k show False by simp
  qed
  then show ?thesis by blast
qed

lemma sample_queue: "queued (sy_db sample_queued) =
    [\<lparr>ex_id = 1, ex_start = Some 1, ex_end = Some 3, ex_bytes = 11, ex_path = None, ex_named = None\<rparr>]"
  by (simp add: sample_queued_def queued_def sample_rows queued_extent_def)

lemma sample_alone: "alone (sy_db sample_queued)" "claims_lapsed (sample_ticks k) (sy_db sample_queued)"
  "used_paths sample_queued = {}"
proof -
  have c: "db_claims sample_two = empty_claims" by (simp add: sample_two_def sample_defs)
  show "alone (sy_db sample_queued)" "claims_lapsed (sample_ticks k) (sy_db sample_queued)"
    by (simp_all add: sample_queued_def alone_def claims_lapsed_def c empty_claims_def ids_fresh_def names_free_def
        sealing_paths_def sample_rows)
  show "used_paths sample_queued = {}"
    by (simp add: used_paths_def table_paths_def extent_paths_def sample_queued_def sample_rows) (simp add: sample_new_def)
qed

lemma sample_group_filed:
  "\<exists>s. reach seal_init (seal_step sample_place id) s \<and> (1, 3) \<in> set (sy_filed s) \<and> (1, 4 :: int) \<in> sy_log s"
proof -
  have inv: "seal_inv sample_queued"
    by (rule invariant_machine.inv_reach [OF seal_machine sample_queued_reach]) simp
  have "\<exists>s'. steps (seal_step sample_place id) sample_queued s' \<and>
    seal_due sample_place id sample_ticks 0 None (sy_w sample_queued) = Some (Inr (last_end (queued (sy_db sample_queued)) None), sy_w s') \<and>
    queued (sy_db s') = [] \<and> set (map range_of (queued (sy_db sample_queued))) \<subseteq> set (sy_filed s') \<and>
    sy_log s' = sy_log sample_queued"
    by (rule seal_due_loop) (use inv sample_paths_apart sample_alone in auto)
  then obtain s' where s': "steps (seal_step sample_place id) sample_queued s'" "(1, 3) \<in> set (sy_filed s')"
    "sy_log s' = sy_log sample_queued" by (auto simp: sample_queue range_of_def)
  have "reach seal_init (seal_step sample_place id) s'"
    by (rule invariant_machine.reach_steps [OF seal_machine sample_queued_reach s'(1)]) simp
  moreover have "(1, 4) \<in> sy_log s'" by (simp add: s'(3) sample_queued_def sample_rows)
  ultimately show ?thesis using s'(2) by blast
qed

lemma seals_neither_lose_nor_duplicate_witness:
  "\<exists>s. reach seal_init (seal_step sample_place id) s \<and>
     (1, 4 :: int) \<in> set (table_rows (sw_table (sy_w s))) \<union> sy_pub s"
proof -
  from sample_group_filed obtain s where s: "reach seal_init (seal_step sample_place id) s"
    "(1, 3) \<in> set (sy_filed s)" "(1, 4 :: int) \<in> sy_log s" by blast
  from seals_neither_lose_nor_duplicate [OF _ s(1)] s(2,3) have "(1, 4) \<in> set (table_rows (sw_table (sy_w s))) \<union> sy_pub s"
    by (fastforce simp: in_span_def)
  with s(1) show ?thesis by blast
qed

lemma seal_due_drains_the_queue_witness:
  "\<exists>s' :: int seal_sys. seal_due sample_place id sample_ticks 0 None (sy_w sample_queued) = Some (Inr (Some 3), sy_w s') \<and>
    pending_group (sw_db (sy_w s')) = None \<and> (1, 4) \<in> set (table_rows (sw_table (sy_w s'))) \<union> sy_pub s'"
proof -
  have "\<exists>s'. steps (seal_step sample_place id) sample_queued s' \<and>
    seal_due sample_place id sample_ticks 0 None (sy_w sample_queued) =
      Some (Inr (last_end (queued (sw_db (sy_w sample_queued))) None), sy_w s') \<and>
    pending_group (sw_db (sy_w s')) = None \<and>
    (\<forall>i r. (i, r) \<in> sy_log sample_queued \<longrightarrow>
       (\<exists>(a, b) \<in> set (map range_of (queued (sw_db (sy_w sample_queued)))). in_span a b i) \<longrightarrow>
       (i, r) \<in> set (table_rows (sw_table (sy_w s'))) \<or> (i, r) \<in> sy_pub s')"
    by (rule seal_due_drains_the_queue) (use sample_queued_reach sample_paths_apart sample_alone in auto)
  then obtain s' :: "int seal_sys" where
    "seal_due sample_place id sample_ticks 0 None (sy_w sample_queued) =
      Some (Inr (last_end (queued (sw_db (sy_w sample_queued))) None), sy_w s')"
    "pending_group (sw_db (sy_w s')) = None"
    "\<forall>i r. (i, r) \<in> sy_log sample_queued \<longrightarrow>
       (\<exists>(a, b) \<in> set (map range_of (queued (sw_db (sy_w sample_queued)))). in_span a b i) \<longrightarrow>
       (i, r) \<in> set (table_rows (sw_table (sy_w s'))) \<or> (i, r) \<in> sy_pub s'" by blast
  moreover have "(1, 4) \<in> sy_log sample_queued" by (simp add: sample_queued_def sample_rows)
  ultimately show ?thesis
    by (intro exI [of _ s']) (simp add: sample_queue last_end_def range_of_def in_span_def)
qed

end
