(* ===== verification/Read_Contract.thy ===== *)
theory Read_Contract
  imports Read_System Seal_Progress
begin

text \<open>
  What a query returns: the union of the three tiers is a prefix of the log, but for the holes a late
  registration can leave in the staging table, whatever runs between its looks.
\<close>

subsection \<open>The union of the tiers\<close>

lemma looks_between:
  assumes i: "read_inv look (s2, t2)" "read_inv look (s3, t3)" "read_inv look (s4, t4)"
    and l: "later_sys s1 s2" "later_sys s2 s3" "later_sys s3 s4"
    and b: "rows_from look sh (read_bound (sy_files s1)) (sy_db s2) t2 = (buf, t2')"
    and p: "set (table_rows published) = sy_pub s4" "distinct (map fst (table_rows published))"
  shows "looks look sh buf published s1 s2 s3 s4"
proof -
  note rows = buffered_rows [OF i(1) b]
  have "(i, look sh r) \<in> set buf" if "(i, r) \<in> sy_log s2" "mark s2 < i" "edge s1 \<le> i" for i r
  proof -
    have "\<forall>b. read_bound (sy_files s1) = Some b \<longrightarrow> b \<le> i" using bound_edge that(3) order_trans by blast
    with rows that(1,2) show ?thesis by blast
  qed
  with rows i l p show ?thesis unfolding looks_def by (simp add: read_inv_def)
qed

lemma run_looks:
  assumes arr: "\<And>rs. mset (arrange rs) = mset (rs :: (offset \<times> 'r) list)"
    and r: "reach read_init (read_step l arrange look) (s1, t1)"
    and st: "steps (read_step l arrange look) (s1, t1) (s2, t2)"
      "steps (read_step l arrange look) (s2, t2') (s3, t3)" "steps (read_step l arrange look) (s3, t3) (s4, t4)"
    and b: "rows_from look sh (read_bound (sy_files s1)) (sy_db s2) t2 = (buf, t2')"
    and p: "set (table_rows published) = sy_pub s4" "distinct (map fst (table_rows published))"
  shows "looks look sh buf published s1 s2 s3 s4"
proof -
  note later = read_steps_later [OF arr]
  have i1: "read_inv look (s1, t1)" by (rule invariant_machine.inv_reach [OF read_machine [OF arr] r])
  from later [OF st(1) i1] have i2: "read_inv look (s2, t2)" and l2: "later_sys s1 s2" by simp_all
  have "read_step l arrange look (s2, t2) (s2, t2')" by (rule r_read [OF b])
  from read_step_inv [OF i2 arr this] have i2': "read_inv look (s2, t2')" by simp
  from later [OF st(2) i2'] have i3: "read_inv look (s3, t3)" and l3: "later_sys s2 s3" by simp_all
  from later [OF st(3) i3] have i4: "read_inv look (s4, t4)" and l4: "later_sys s3 s4" by simp_all
  show ?thesis by (rule looks_between [OF i2 i3 i4 l2 l3 l4 b p])
qed

text \<open>C4. What a read returns. With any number of sealers and every other operation of the machine between any
  two of a query's looks, a publish that has registered but not yet moved its watermark and a sealer
  stalled since before a publish and an eviction among them, and whatever its cached tail held before: the union
  of the published table below the staging table, the staging table, and the buffer above it holds no row twice and
  only rows of the log, below some offset that lies above every row appended before the buffer was read; and
  of the rows of the log below that offset it can miss only a hole of the staging table it read: a row at or below the
  watermark that lies above the table's first row without being in it. So where the table has no hole the
  read is a prefix of the log.\<close>

theorem read_is_a_prefix:
  assumes "\<And>rs. mset (arrange rs) = mset (rs :: (offset \<times> 'r) list)"
    and "reach read_init (read_step l arrange look) (s1, t1)"
    and "steps (read_step l arrange look) (s1, t1) (s2, t2)"
    and "rows_from look sh (read_bound (sw_table (sy_w s1))) (sw_db (sy_w s2)) t2 = (buf, t2')"
    and "steps (read_step l arrange look) (s2, t2') (s3, t3)"
    and "steps (read_step l arrange look) (s3, t3) (s4, t4)"
    and "published_through (sw_db (sy_w s3)) = Some k"
    and "set (table_rows published) = sy_pub s4" and "distinct (map fst (table_rows published))"
    and "got = union_rows look sh buf (sw_table (sy_w s3)) (prepare_remote (Some published)) True"
  shows "\<exists>upper > seq_of (sw_db (sy_w s2)). distinct (map fst got) \<and>
    set got \<subseteq> {(i, v). \<exists>r. (i, r) \<in> sy_log s4 \<and> i < upper \<and> v = look sh r} \<and>
    {(i, v). \<exists>r. (i, r) \<in> sy_log s4 \<and> i < upper \<and> v = look sh r \<and> i \<notin> holes (sw_table (sy_w s3)) k} \<subseteq> set got"
proof -
  have k: "mark s3 = k" using assms(7) by (simp add: mark_def)
  from union_of_tiers [where P = "\<lambda>_. True", OF run_looks [OF assms(1-3,5,6,4,8,9)] drops_nothing] obtain upper where
    "upper > seq_of (sy_db s2)" "distinct (map fst got)" "set got \<subseteq> rows_below look sh s4 upper"
    "\<forall>(i, v) \<in> rows_below look sh s4 upper. i \<notin> holes (sy_files s3) k \<longrightarrow> (i, v) \<in> set got"
    unfolding assms(10) [symmetric] k by auto
  then show ?thesis by (intro exI [of _ upper]) (auto simp: rows_below_def)
qed

subsection \<open>A read of three rows in the buffer\<close>

lemma sample_read_reach:
  fixes look :: "'s \<Rightarrow> int \<Rightarrow> 'v"
  shows "reach read_init (read_step sample_place id look) (sample_queued, empty_tail)"
proof -
  have start: "seal_init sample_new"
    by (simp add: seal_init_def sample_new_def queue_init_def sample_log_def fresh_extent_def
        empty_db_def seq_of_def published_through_def get_meta_def meta_value_def LEGACY_META_def)
  have "append_rows sample_limits id [Inr 4, Inr 7, Inr 1 :: (bool \<times> string) + int] (sy_db sample_new) =
      (Inr [1, 2, 3], sample_two)" using sample_append by (simp add: sample_new_def)
  from s_append [OF this] have one: "seal_step sample_place id sample_new sample_queued"
    by (simp add: sample_queued_def) (simp add: sample_new_def)
  then have "read_step sample_place id look (sample_new, empty_tail) (sample_queued, empty_tail)" by (rule r_other)
  with start show ?thesis
    by (intro reach_step [OF reach_init]) (simp_all add: read_init_def)
qed

lemma sample_queued_facts: "sw_table (sy_w sample_queued) = []" "sy_pub sample_queued = {}"
  "db_rows (sy_db sample_queued) = [(1, 4), (2, 7), (3, 1)]" "sy_log sample_queued = {(1, 4), (2, 7), (3, 1)}"
  "seq_of (sw_db (sy_w sample_queued)) = 3"
proof -
  show "db_rows (sy_db sample_queued) = [(1, 4), (2, 7), (3, 1)]" "sy_log sample_queued = {(1, 4), (2, 7), (3, 1)}"
    by (simp_all add: sample_queued_def sample_rows)
  show "seq_of (sw_db (sy_w sample_queued)) = 3"
    by (simp add: seq_of_def sample_queued_def) (simp add: sample_two_def sample_defs)
  show "sw_table (sy_w sample_queued) = []" "sy_pub sample_queued = {}"
    by (simp_all add: sample_queued_def) (simp_all add: sample_new_def)
qed

text \<open>The first two rows sealed into a file, and registered in the published table while the watermark still
  says nothing is published.\<close>

lemma sample_sealed_world:
  "case seal_queued sample_place id (sample_ticks 0) (sy_w sample_queued) of (r, w) \<Rightarrow>
     map snd (sw_table w) = [[(1, 4), (2, 7)]] \<and> db_rows (sw_db w) = [(1, 4), (2, 7), (3, 1)] \<and>
     db_seq (sw_db w) = Some 3 \<and> published_through (sw_db w) = Some 0"
  by code_simp

lemma reads_follow:
  "steps (seal_step l arrange) s t \<Longrightarrow> steps (read_step l arrange look) (s, ca) (t, ca)"
  by (induction rule: steps.induct) (auto intro: steps_refl steps_step r_other)

definition sample_registered :: "int seal_sys \<Rightarrow> bool" where
  "sample_registered s \<longleftrightarrow>
     map snd (sw_table (sy_w s)) = [[(1, 4), (2, 7)]] \<and> db_rows (sw_db (sy_w s)) = [(1, 4), (2, 7), (3, 1)] \<and>
     seq_of (sw_db (sy_w s)) = 3 \<and> published_through (sw_db (sy_w s)) = Some 0 \<and>
     sy_log s = {(1, 4), (2, 7), (3, 1)} \<and> sy_pub s = {(1, 4), (2, 7)}"

lemma sample_published:
  fixes look :: "'s \<Rightarrow> int \<Rightarrow> 'v"
  shows "\<exists>s. reach read_init (read_step sample_place id look) (s, empty_tail) \<and> sample_registered s"
proof -
  have arr: "mset (id rs) = mset (rs :: (offset \<times> int) list)" for rs by simp
  note m = read_machine [OF arr, of sample_place look]
  have inv: "seal_inv sample_queued"
    by (rule invariant_machine.inv_reach [OF seal_machine sample_queued_reach]) simp
  have "call_paths sample_place (sample_ticks 0) \<inter> used_paths sample_queued = {}" by (simp add: sample_alone(3))
  from seal_call_files_head [where arrange = id, OF arr inv sample_queue sample_alone(1) sample_alone(2) [of 0] this]
  obtain s e where s: "steps (seal_step sample_place id) sample_queued s"
      "seal_queued sample_place id (sample_ticks 0) (sy_w sample_queued) = (e, sy_w s)"
      "kept (call_paths sample_place (sample_ticks 0)) sample_queued s" by blast
  have facts: "map snd (sw_table (sy_w s)) = [[(1, 4), (2, 7)]]" "db_rows (sy_db s) = [(1, 4), (2, 7), (3, 1)]"
    "db_seq (sy_db s) = Some 3" "published_through (sy_db s) = Some 0"
    using sample_sealed_world by (simp_all add: s(2))
  have rows: "table_rows (sw_table (sy_w s)) = [(1, 4), (2, 7)]" by (simp add: table_rows_def facts(1))
  let ?s = "s\<lparr>sy_pub := sy_pub s \<union> {(i, r) \<in> set (table_rows (sy_files s)). i \<le> 2}\<rparr>"
  have "2 < reached (sy_files s) 0" by (simp add: reached_def table_span_def rows list_min_Cons list_max_Cons)
  from s_register [OF facts(4) this] have "read_step sample_place id look (s, empty_tail) (?s, empty_tail)"
    by (rule r_other)
  from steps_step [OF reads_follow [OF s(1)] this]
  have "reach read_init (read_step sample_place id look) (?s, empty_tail)"
    by (rule invariant_machine.reach_steps [OF m sample_read_reach])
  moreover have "sy_log s = {(1, 4), (2, 7), (3, 1)}" "sy_pub s = {}"
    using s(3) sample_queued_facts by (auto simp: kept_def)
  ultimately show ?thesis using facts
    by (intro exI [of _ ?s]) (auto simp: sample_registered_def rows seq_of_def)
qed

lemma read_is_a_prefix_witness:
  "\<exists>s :: int seal_sys. sy_pub s = {(1, 4), (2, 7)} \<and> published_through (sw_db (sy_w s)) = Some 0 \<and>
    (3, 1) \<in> set (union_rows (\<lambda>_ r. r) () [(3, 1)] (sw_table (sy_w s)) (prepare_remote (Some [(''p'', [(1, 4), (2, 7)])])) True)"
proof -
  let ?look = "\<lambda>(_ :: unit) (r :: int). r"
  from sample_published [of ?look] obtain s where r: "reach read_init (read_step sample_place id ?look) (s, empty_tail)"
    and "sample_registered s" by blast
  then have s: "sample_registered s" "map snd (sw_table (sy_w s)) = [[(1, 4), (2, 7)]]"
      "db_rows (sw_db (sy_w s)) = [(1, 4), (2, 7), (3, 1)]"
      "seq_of (sw_db (sy_w s)) = 3" "published_through (sw_db (sy_w s)) = Some 0"
      "sy_log s = {(1, 4), (2, 7), (3, 1)}" "sy_pub s = {(1, 4), (2, 7)}" by (simp_all add: sample_registered_def)
  have rows: "table_rows (sw_table (sy_w s)) = [(1, 4), (2, 7)]" by (simp add: table_rows_def s(2))
  have tail: "rows_from ?look () (read_bound (sw_table (sy_w s))) (sw_db (sy_w s)) empty_tail =
      ([(3, 1)], \<lparr>tl_shape = Some (), tl_rows = Some [(3, 1)], tl_start = 3, tl_end = 4, tl_from = 3\<rparr>)"
    by (simp add: rows_from_def s(3) read_bound_def table_span_def rows drop_tail_def empty_tail_def
        reusable_def select_rows_def remember_def Let_def list_min_Cons list_max_Cons)
  have none: "3 \<notin> holes (sw_table (sy_w s)) 0" by (simp add: holes_def)
  from read_is_a_prefix [OF _ r steps_refl tail steps_refl steps_refl s(5) _ _ refl, of "[(''p'', [(1, 4), (2, 7)])]"]
  obtain upper where "seq_of (sw_db (sy_w s)) < upper"
    "{(i, v). \<exists>r. (i, r) \<in> sy_log s \<and> i < upper \<and> v = ?look () r \<and> i \<notin> holes (sw_table (sy_w s)) 0} \<subseteq>
      set (union_rows ?look () [(3, 1)] (sw_table (sy_w s)) (prepare_remote (Some [(''p'', [(1, 4), (2, 7)])])) True)"
    by (auto simp: s(7) table_rows_def)
  with s(4,6) none have "(3, 1) \<in> set (union_rows ?look () [(3, 1)] (sw_table (sy_w s)) (prepare_remote (Some [(''p'', [(1, 4), (2, 7)])])) True)"
    by auto
  with s(5,7) show ?thesis by blast
qed

end
