(* ===== verification/Query_Contract.thy ===== *)
theory Query_Contract
  imports Read_Contract
begin

text \<open>
  What a query answers. Leaving tiers out by the query's terms, the stored statistics and the buffer's
  lowest offset takes away no row the query's WHERE is true on.
\<close>

subsection \<open>The rows a term lets through\<close>

text \<open>The row a query sees: the offset is a column of it.\<close>

definition read_row :: "offset \<times> row \<Rightarrow> row" where
  "read_row x = (snd x)(OFFSET := PInt (fst x))"

text \<open>A row the query's terms let through, as far as they name columns of the log.\<close>

definition passes :: "pa_schema \<Rightarrow> prune_term list \<Rightarrow> row \<Rightarrow> bool" where
  "passes schema found r \<longleftrightarrow>
     (\<forall>c operator v. (c, operator, v) \<in> set found \<longrightarrow>
        selects TRUE_ELSEWHERE (c, operator, v) r \<or> c \<notin> fst ` set schema)"

lemma terms_pass:
  assumes "reach (\<lambda>c. c = []) (cache_step dk) cache" and "terms dk sql schema cache = (Some found, cache')"
    and "where_laws dk sql schema holds bound" and "\<not> renames_columns dk sql"
    and "\<And>c operator v. (c, operator, v) \<in> set found \<Longrightarrow> types_of schema c \<noteq> Some (Pa_float 32)"
    and "\<And>w quals. query_where dk sql = Some (w, quals) \<Longrightarrow> holds w r"
  shows "passes schema found r"
  unfolding passes_def
proof (intro allI impI)
  fix c operator v assume t: "(c, operator, v) \<in> set found"
  have "selects TRUE_ELSEWHERE (c, operator, v) r" if c: "c \<in> fst ` set schema"
    by (rule terms_hold [OF assms(1-4) _ _ t c]) (erule assms(5), erule assms(6))
  then show "selects TRUE_ELSEWHERE (c, operator, v) r \<or> c \<notin> fst ` set schema" by blast
qed

lemma build_kinds:
  assumes "\<forall>e \<in> set entries. en_schema e = schema"
  shows "fst ` set (mf_kinds (build entries)) \<subseteq> fst ` set schema"
proof -
  have add: "fst ` set (add_column fld found) \<subseteq> insert (fst fld) (fst ` set found)" for fld found
    by (cases fld) (auto simp: add_column_def)
  have all: "fst ` set (fold add_column flds found) \<subseteq> fst ` set flds \<union> fst ` set found" for flds found
  proof (induction flds arbitrary: found)
    case (Cons f flds)
    from Cons.IH [of "add_column f found"] add [of f found] show ?case by auto
  qed simp
  have "set (concat (map en_schema entries)) \<subseteq> set schema" using assms by auto
  then have "fst ` set (concat (map en_schema entries)) \<subseteq> fst ` set schema" by (rule image_mono)
  with all [of "concat (map en_schema entries)" "[]"] show ?thesis
    unfolding build_def Let_def columns_def manifest.simps by simp
qed

text \<open>A tier that is left out has no row the query wants.\<close>

lemma pruned_tier:
  assumes e: "\<forall>e \<in> set entries. en_schema e = schema" and m: "manifest_true (build entries) contents"
    and off: "OFFSET \<in> fst ` set schema" and n: "name \<in> set names" and r: "r \<in> set (contents name)"
    and p: "passes schema found r"
  shows "name \<in> set (prune (Some (build entries)) names found)"
proof (rule prune_sound_known [OF m n r])
  fix c operator v assume "(c, operator, v) \<in> set found"
  with p have "selects TRUE_ELSEWHERE (c, operator, v) r \<or> c \<notin> fst ` set schema" by (auto simp: passes_def)
  then show "selects TRUE_ELSEWHERE (c, operator, v) r \<or> c \<noteq> OFFSET \<and> map_of (mf_kinds (build entries)) c = None"
    using build_kinds [OF e] off by (auto simp: map_of_eq_None_iff)
qed

lemma entry_schemas:
  "e \<in> set (published_entry schema known @ staging_entry schema found extent stats) \<Longrightarrow> en_schema e = schema"
  by (auto simp: published_entry_def staging_entry_def tier_entry_def split: option.splits if_splits)

lemma tiers_kept:
  assumes m: "manifest_true (build (published_entry schema known @
      staging_entry schema found extent (staging_statistics known location own))) contents"
    and off: "OFFSET \<in> fst ` set schema" and n: "tiers_needed schema known found location extent own = (local, needed)"
    and p: "passes schema found r"
  shows "r \<in> set (contents STAGING) \<Longrightarrow> local" and "r \<in> set (contents PUBLISHED) \<Longrightarrow> needed"
proof -
  let ?es = "published_entry schema known @ staging_entry schema found extent (staging_statistics known location own)"
  have t: "set TIERS = {STAGING, PUBLISHED}" by (simp add: TIERS_def)
  have "name \<in> set (prune (if ?es = [] then None else Some (build ?es)) TIERS found)"
    if "r \<in> set (contents name)" "name \<in> set TIERS" for name
    using pruned_tier [OF _ m off that(2,1) p] that(2) entry_schemas by (auto simp: prune_def simp del: append_is_Nil_conv)
  with n t show "r \<in> set (contents STAGING) \<Longrightarrow> local" "r \<in> set (contents PUBLISHED) \<Longrightarrow> needed"
    unfolding tiers_needed_def Let_def by auto
qed

subsection \<open>The buffer's leg\<close>

lemma buffer_kept:
  assumes off: "OFFSET \<in> fst ` set schema" and p: "passes schema found r" and i: "r OFFSET = PInt i"
    and closed: "\<And>gone. known BUFFER = Some gone \<Longrightarrow> r \<in> set (contents BUFFER) \<and>
      manifest_true (build [tier_entry BUFFER (fst (so_offsets gone), Some (snd (so_offsets gone))) schema (so_statistics gone)]) contents"
    and seen: "\<And>b. seen = Some b \<Longrightarrow> b \<le> i" and low: "\<And>b. lowest = Some b \<Longrightarrow> b \<le> i"
  shows "buffer_could_match schema known found seen lowest"
proof (cases "known BUFFER")
  case (Some gone)
  from closed [OF this] have "BUFFER \<in> set (prune (Some (build [tier_entry BUFFER
      (fst (so_offsets gone), Some (snd (so_offsets gone))) schema (so_statistics gone)])) [BUFFER] found)"
    by (intro pruned_tier [OF _ _ off _ _ p]) (auto simp: tier_entry_def)
  with Some show ?thesis by (simp add: buffer_could_match_def)
next
  case None
  have "BUFFER \<in> set (prune (Some (build [tier_entry BUFFER (bottom, None) schema UNKNOWN])) [BUFFER] found)" if "bottom \<le> i" for bottom
  proof (rule pruned_tier [OF _ _ off _ _ p, where contents = "\<lambda>_. [r]"])
    show "manifest_true (build [tier_entry BUFFER (bottom, None) schema UNKNOWN]) (\<lambda>_. [r])"
      using that i by (auto simp: manifest_true_def build_def Let_def row_true_def build_row_def tier_entry_def UNKNOWN_def
        split: option.splits)
  qed (simp_all add: tier_entry_def)
  with None seen low show ?thesis by (auto simp: buffer_could_match_def Let_def split: option.splits)
qed

lemma lowest_offset_Some:
  assumes "lowest_offset d = Some b"
  shows "b \<in> fst ` set (db_rows d) \<and> (\<forall>i \<in> fst ` set (db_rows d). b \<le> i)"
proof -
  have ne: "map fst (db_rows d) \<noteq> []" using assms by (auto simp: lowest_offset_def)
  then have "b = Min (fst ` set (db_rows d))" using assms by (simp add: lowest_offset_def list_min_Some)
  with ne show ?thesis using Min_in [of "fst ` set (db_rows d)"] by simp
qed

lemma lowest_offset_below:
  assumes "later_sys s t" and "seal_inv s" and "(i, r) \<in> sy_log t" and "mark s < i" and "lowest_offset (sy_db s) = Some b"
  shows "b \<le> i"
proof (cases "(i, r) \<in> sy_log s")
  case True
  with assms(2,4) have "(i, r) \<in> set (db_rows (sy_db s))" unfolding seal_inv_def log_ok_def by blast
  then have "i \<in> fst ` set (db_rows (sy_db s))" by (rule rev_image_eqI) simp
  with lowest_offset_Some [OF assms(5)] show ?thesis by blast
next
  case False
  with assms(1,3) have "seq_of (sy_db s) < i" unfolding later_sys_def by blast
  moreover obtain r' where "(b, r') \<in> set (db_rows (sy_db s))" using lowest_offset_Some [OF assms(5)] by auto
  then have "b \<le> seq_of (sy_db s)" using assms(2) unfolding seal_inv_def log_ok_def by blast
  ultimately show ?thesis by simp
qed

lemma no_rows_empty:
  assumes "seal_inv s" and "seq_of (sy_db s) \<le> NO_ROW_LIMIT"
  shows "no_rows look sh (sy_db s) = []"
proof -
  have "\<forall>(i, r) \<in> set (db_rows (sy_db s)). i \<le> NO_ROW_LIMIT"
    using assms unfolding seal_inv_def log_ok_def by fastforce
  then have "filter (\<lambda>(i, r). NO_ROW_LIMIT < i) (db_rows (sy_db s)) = []" by (force simp: filter_empty_conv)
  then show ?thesis by (simp add: no_rows_def select_rows_def)
qed

subsection \<open>The answer\<close>

text \<open>The rows a query's WHERE is true on, as its terms read it; without one that can be read, all.\<close>

definition wanted :: "duckdb \<Rightarrow> string \<Rightarrow> (json \<Rightarrow> row \<Rightarrow> bool) \<Rightarrow> row \<Rightarrow> bool" where
  "wanted dk sql holds r \<longleftrightarrow> (case query_where dk sql of None \<Rightarrow> True | Some (w, quals) \<Rightarrow> holds w r)"

text \<open>The tail a query leaves cached.\<close>

definition query_tail ::
  "('s \<Rightarrow> 'r \<Rightarrow> 'v) \<Rightarrow> 's \<Rightarrow> pa_schema \<Rightarrow> prune_term list \<Rightarrow> ('s, 'v, 'r) sightings \<Rightarrow> ('s, 'v) tail" where
  "query_tail look sh schema found q =
     (let seen = read_bound (at_first q);
          could = buffer_could_match schema (at_stored q) found seen (lowest_offset (at_lowest q))
      in snd (read_tail look sh could seen (at_buffer q) (at_tail q)))"

text \<open>The manifest rows a query prunes by tell the truth about the rows \<open>known\<close> of each tier, which
  are at least those it would take from that tier.\<close>

definition tiers_true ::
  "('s \<Rightarrow> 'r \<Rightarrow> row) \<Rightarrow> 's \<Rightarrow> pa_schema \<Rightarrow> prune_term list \<Rightarrow> ('s, row, 'r) sightings \<Rightarrow> 'r table_files
     \<Rightarrow> (string \<Rightarrow> row list) \<Rightarrow> bool" where
  "tiers_true look sh schema found q published known \<longleftrightarrow>
     manifest_true (build (published_entry schema (at_tiers q) @ staging_entry schema found (table_span (at_staging q))
       (staging_statistics (at_tiers q) (at_location q) (at_own q)))) known \<and>
     read_row ` set (view look sh (table_rows (at_staging q))) \<subseteq> set (known STAGING) \<and>
     read_row ` set (view look sh (far_rows (at_staging q) published)) \<subseteq> set (known PUBLISHED)"

definition closed_true ::
  "('s \<Rightarrow> 'r \<Rightarrow> row) \<Rightarrow> 's \<Rightarrow> pa_schema \<Rightarrow> ('s, row, 'r) sightings \<Rightarrow> 'r seal_sys \<Rightarrow> (string \<Rightarrow> row list) \<Rightarrow> bool" where
  "closed_true look sh schema q s known \<longleftrightarrow> (\<forall>gone. at_stored q BUFFER = Some gone \<longrightarrow>
     manifest_true (build [tier_entry BUFFER (fst (so_offsets gone), Some (snd (so_offsets gone))) schema (so_statistics gone)]) known \<and>
     (\<forall>i r. (i, r) \<in> sy_log s \<longrightarrow> edge s \<le> i \<longrightarrow> read_row (i, look sh r) \<in> set (known BUFFER)))"

text \<open>A query takes what the union of the tiers would give it, but for tiers with no row it wants.\<close>

lemma query_drops:
  assumes R: "looks look sh buf published s1 s3 s4 s5" and inv: "seal_inv s2" "later_sys s1 s2" "later_sys s2 s3"
    and buf: "rows_from look sh (read_bound (sy_files s1)) (sy_db s3) t = (buf, t')"
    and q: "at_first q = sy_files s1" "at_lowest q = sy_db s2" "at_buffer q = sy_db s3" "at_tail q = t"
      "at_staging q = sy_files s4" "at_published q = Some published"
    and off: "OFFSET \<in> fst ` set schema" and lim: "seq_of (sy_db s3) \<le> NO_ROW_LIMIT"
    and known: "tiers_true look sh schema found q published known" "closed_true look sh schema q s4 known"
    and P: "\<And>x. P x \<Longrightarrow> passes schema found (read_row x)"
  shows "\<exists>buf' far local. query_rows look sh schema found True q = union_rows look sh buf' (sy_files s4) far local \<and>
    drops look sh P buf s4 published buf' far local"
proof -
  obtain local needed where n: "tiers_needed schema (at_tiers q) found (at_location q) (table_span (sy_files s4)) (at_own q) = (local, needed)"
    by fastforce
  let ?could = "buffer_could_match schema (at_stored q) found (read_bound (sy_files s1)) (lowest_offset (sy_db s2))"
  let ?buf = "query_buffered look sh schema found q"
  let ?far = "if needed then prepare_remote (Some published) else None"
  have rows: "query_rows look sh schema found True q = union_rows look sh ?buf (sy_files s4) ?far local"
    by (simp add: query_rows_def q n)
  have b: "?buf = (if ?could then buf else [])"
    using buf by (simp add: query_buffered_def read_tail_def q no_rows_empty [OF looksD(1) [OF R] lim])
  have could: ?could if x: "(i, v) \<in> set buf" "edge s4 \<le> i" "P (i, v)" for i v
  proof (rule buffer_kept [OF off P [OF x(3)], where contents = known])
    from looksD(8) [OF R x(1)] obtain r where r: "(i, r) \<in> sy_log s3" "v = look sh r" by blast
    show "read_row (i, v) OFFSET = PInt i" by (simp add: read_row_def)
    show "c \<le> i" if "read_bound (sy_files s1) = Some c" for c
      using bound_edge [OF that] orders(5) [OF R] x(2) by simp
    have "mark s2 < i"
    proof -
      have "mark s2 \<le> mark s3" using inv(3) unfolding later_sys_def by blast
      moreover have "mark s4 < edge s4" by (simp add: edge_def less_iff_succ_less_eq le_reached)
      ultimately show ?thesis using orders(3) [OF R] x(2) by simp
    qed
    then show "c \<le> i" if "lowest_offset (sy_db s2) = Some c" for c
      using lowest_offset_below [OF inv(3,1) r(1) _ that] by blast
    show "read_row (i, v) \<in> set (known BUFFER) \<and> manifest_true (build [tier_entry BUFFER
        (fst (so_offsets gone), Some (snd (so_offsets gone))) schema (so_statistics gone)]) known"
      if "at_stored q BUFFER = Some gone" for gone
      using known(2) that r orders(1) [OF R] x(2) unfolding closed_true_def by blast
  qed
  from known(1) have m: "manifest_true (build (published_entry schema (at_tiers q) @ staging_entry schema found
      (table_span (sy_files s4)) (staging_statistics (at_tiers q) (at_location q) (at_own q)))) known"
    by (simp add: tiers_true_def q)
  note kept = tiers_kept [OF m off n P]
  have "local \<or> (\<forall>x \<in> set (view look sh (table_rows (sy_files s4))). \<not> P x)"
    using known(1) kept(1) unfolding tiers_true_def q by blast
  moreover have "needed \<or> (\<forall>x \<in> set (view look sh (far_rows (sy_files s4) published)). \<not> P x)"
    using known(1) kept(2) unfolding tiers_true_def q by blast
  moreover have "?buf = buf \<or> ?buf = [] \<and> (\<forall>(i, v) \<in> set buf. edge s4 \<le> i \<longrightarrow> \<not> P (i, v))"
    using could b by auto
  ultimately have "drops look sh P buf s4 published ?buf ?far local" unfolding drops_def by auto
  with rows show ?thesis by blast
qed

text \<open>C3. A query's answer. Whatever the query's text, the statistics stored of the tiers and the buffer that let
  it leave tiers out, and whatever steps of the machine come between its looks: its answer holds no row
  twice, only rows of the log its WHERE is true on, below an offset that lies above every row appended before
  the buffer was read, and of those it can miss only a hole of the staging table, as a read of every tier
  can; a tier left out takes no row from it. The conditions: DuckDB keeps its laws for WHERE, the query's FROM
  gives the columns no other names and its terms name no FLOAT column, the manifest rows the query prunes by
  are true of their tiers, and the log has not reached offset \<open>2 ^ 62\<close>.\<close>

theorem query_answers_its_where:
  assumes "\<And>rs. mset (arrange rs) = mset (rs :: (offset \<times> 'r) list)"
    and "reach read_init (read_step l arrange look) (s1, t1)"
    and "steps (read_step l arrange look) (s1, t1) (s2, t2)"
    and "steps (read_step l arrange look) (s2, t2) (s3, t3)"
    and "steps (read_step l arrange look) (s3, query_tail look sh schema found q) (s4, t4)"
    and "steps (read_step l arrange look) (s4, t4) (s5, t5)"
    and "at_first q = sw_table (sy_w s1)" and "at_lowest q = sw_db (sy_w s2)" and "at_buffer q = sw_db (sy_w s3)"
    and "at_tail q = t3" and "at_staging q = sw_table (sy_w s4)" and "at_published q = Some published"
    and "published_through (sw_db (sy_w s4)) = Some k"
    and "set (table_rows published) = sy_pub s5" and "distinct (map fst (table_rows published))"
    and "reach (\<lambda>c. c = []) (cache_step dk) cache" and "terms dk sql schema cache = (Some found, cache')"
    and "where_laws dk sql schema holds bound" and "\<not> renames_columns dk sql"
    and "\<And>c operator v. (c, operator, v) \<in> set found \<Longrightarrow> types_of schema c \<noteq> Some (Pa_float 32)"
    and "OFFSET \<in> fst ` set schema" and "seq_of (sw_db (sy_w s3)) \<le> NO_ROW_LIMIT"
    and "tiers_true look sh schema found q published known" and "closed_true look sh schema q s4 known"
    and "answer = filter (\<lambda>x. wanted dk sql holds (read_row x)) (query_rows look sh schema found True q)"
  shows "\<exists>upper > seq_of (sw_db (sy_w s3)). distinct (map fst answer) \<and>
    set answer \<subseteq> {(i, v). \<exists>r. (i, r) \<in> sy_log s5 \<and> i < upper \<and> v = look sh r \<and> wanted dk sql holds (read_row (i, v))} \<and>
    {(i, v). \<exists>r. (i, r) \<in> sy_log s5 \<and> i < upper \<and> v = look sh r \<and> wanted dk sql holds (read_row (i, v)) \<and>
      i \<notin> holes (sw_table (sy_w s4)) k} \<subseteq> set answer"
proof -
  note later = read_steps_later [OF assms(1)]
  have i1: "read_inv look (s1, t1)" by (rule invariant_machine.inv_reach [OF read_machine [OF assms(1)] assms(2)])
  from later [OF assms(3) i1] have i2: "read_inv look (s2, t2)" "later_sys s1 s2" by simp_all
  from later [OF assms(4) i2(1)] have i3: "read_inv look (s3, t3)" "later_sys s2 s3" by simp_all
  obtain buf t' where buf: "rows_from look sh (read_bound (sy_files s1)) (sy_db s3) t3 = (buf, t')" by fastforce
  have "query_tail look sh schema found q = t' \<or> query_tail look sh schema found q = t3"
    using buf by (simp add: query_tail_def read_tail_def assms(7-10) Let_def)
  then have "read_inv look (s3, query_tail look sh schema found q)"
    using read_step_inv [OF i3(1) assms(1) r_read [OF buf]] i3(1) by auto
  from later [OF assms(5) this] have i4: "read_inv look (s4, t4)" "later_sys s3 s4" by simp_all
  from later [OF assms(6) i4(1)] have i5: "read_inv look (s5, t5)" "later_sys s4 s5" by simp_all
  from later [OF steps_trans [OF assms(4,3)] i1] have "later_sys s1 s3" by simp
  from looks_between [OF i3(1) i4(1) i5(1) this i4(2) i5(2) buf assms(14,15)]
  have R: "looks look sh buf published s1 s3 s4 s5" .
  let ?P = "\<lambda>x. wanted dk sql holds (read_row x)"
  have P: "passes schema found (read_row x)" if "?P x" for x
    by (rule terms_pass [OF assms(16-20)]) (use that in \<open>auto simp: wanted_def\<close>)
  have inv: "seal_inv s2" using i2(1) by (simp add: read_inv_def)
  from query_drops [where P = ?P, OF R inv i2(2) i3(2) buf assms(7-12,21-24) P] obtain buf' far local where
    rows: "query_rows look sh schema found True q = union_rows look sh buf' (sy_files s4) far local"
    and D: "drops look sh ?P buf s4 published buf' far local" by blast
  have k: "mark s4 = k" using assms(13) by (simp add: mark_def)
  from union_of_tiers [OF R D] obtain upper where up: "seq_of (sy_db s3) < upper"
    "distinct (map fst (query_rows look sh schema found True q))"
    "set (query_rows look sh schema found True q) \<subseteq> rows_below look sh s5 upper"
    "\<forall>(i, v) \<in> rows_below look sh s5 upper. ?P (i, v) \<longrightarrow> i \<notin> holes (sy_files s4) k \<longrightarrow>
       (i, v) \<in> set (query_rows look sh schema found True q)"
    unfolding rows k by blast
  have "distinct (map fst answer)" using up(2) by (simp add: assms(25) distinct_map_filter)
  with up show ?thesis by (intro exI [of _ upper]) (auto simp: assms(25) rows_below_def)
qed

subsection \<open>A query that leaves two tables out\<close>

text \<open>\<open>WHERE X = 1\<close>, with the first two rows (4 and 7) staged and published, the third (1) in the buffer: the stored
  statistics of both tables say their \<open>x\<close> lies between 4 and 7.\<close>

definition sample_read :: "unit \<Rightarrow> int \<Rightarrow> row" where
  "sample_read sh v = (\<lambda>c. if c = ''x'' then PInt v else PNone)"

definition sample_known :: "row list" where
  "sample_known = [read_row (1, sample_read () 4), read_row (2, sample_read () 7)]"

definition sample_tier :: "string option \<Rightarrow> stored" where
  "sample_tier version = \<lparr>so_offsets = (1, 3), so_statistics = from_rows [(''x'', LongType)] sample_known, so_version = version\<rparr>"

definition sample_far :: "int table_files" where
  "sample_far = [(''p'', [(1, 4), (2, 7)])]"

definition sample_sightings :: "int seal_sys \<Rightarrow> (unit, row, int) sightings" where
  "sample_sightings s = \<lparr>at_first = sw_table (sy_w s), at_stored = Map.empty, at_lowest = sw_db (sy_w s),
     at_buffer = sw_db (sy_w s), at_tail = empty_tail, at_staging = sw_table (sy_w s), at_location = ''v'', at_own = None,
     at_tiers = [PUBLISHED \<mapsto> sample_tier None, STAGING \<mapsto> sample_tier (Some ''v'')], at_published = Some sample_far\<rparr>"

abbreviation sample_terms_found :: "prune_term list" where
  "sample_terms_found \<equiv> [(''x'', ''=='', PInt 1)]"

lemma sample_entry_true:
  "entry_true (tier_entry name (1, Some 3) sample_schema (from_rows [(''x'', LongType)] sample_known)) sample_known"
  unfolding entry_true_def tier_entry_def
  by (auto intro!: from_rows_describes simp: sample_known_def read_row_def sample_read_def OFFSET_def column_value_def is_nan_def)

lemma sample_entries:
  assumes "map snd (sw_table (sy_w s)) = [[(1, 4), (2, 7)]]"
  shows "table_rows (sw_table (sy_w s)) = [(1, 4), (2, 7)]"
    and "published_entry sample_schema (at_tiers (sample_sightings s)) @ staging_entry sample_schema sample_terms_found
      (table_span (sw_table (sy_w s))) (staging_statistics (at_tiers (sample_sightings s)) ''v'' None) =
      [tier_entry PUBLISHED (1, Some 3) sample_schema (from_rows [(''x'', LongType)] sample_known),
       tier_entry STAGING (1, Some 3) sample_schema (from_rows [(''x'', LongType)] sample_known)]"
proof -
  show rows: "table_rows (sw_table (sy_w s)) = [(1, 4), (2, 7)]" by (simp add: table_rows_def assms)
  have names: "STAGING \<noteq> PUBLISHED" by (simp add: STAGING_def PUBLISHED_def)
  have sp: "table_span (sw_table (sy_w s)) = Some (1, 3)" by (simp add: table_span_def rows list_min_Cons list_max_Cons)
  show "published_entry sample_schema (at_tiers (sample_sightings s)) @ staging_entry sample_schema sample_terms_found
      (table_span (sw_table (sy_w s))) (staging_statistics (at_tiers (sample_sightings s)) ''v'' None) =
      [tier_entry PUBLISHED (1, Some 3) sample_schema (from_rows [(''x'', LongType)] sample_known),
       tier_entry STAGING (1, Some 3) sample_schema (from_rows [(''x'', LongType)] sample_known)]"
    using names by (simp add: sample_sightings_def sp published_entry_def staging_entry_def staging_statistics_def sample_tier_def)
qed

lemma sample_true:
  assumes "map snd (sw_table (sy_w s)) = [[(1, 4), (2, 7)]]"
  shows "tiers_true sample_read () sample_schema sample_terms_found (sample_sightings s) sample_far (\<lambda>_. sample_known)"
    and "closed_true sample_read () sample_schema (sample_sightings s) u (\<lambda>_. sample_known)"
proof -
  note e = sample_entries [OF assms]
  have q: "at_staging (sample_sightings s) = sw_table (sy_w s)" "at_location (sample_sightings s) = ''v''"
    "at_own (sample_sightings s) = None" by (simp_all add: sample_sightings_def)
  have "manifest_true (build [tier_entry PUBLISHED (1, Some 3) sample_schema (from_rows [(''x'', LongType)] sample_known),
       tier_entry STAGING (1, Some 3) sample_schema (from_rows [(''x'', LongType)] sample_known)]) (\<lambda>_. sample_known)"
    by (rule build_true) (use sample_entry_true in auto)
  moreover have "set (far_rows (sw_table (sy_w s)) sample_far) \<subseteq> {(1, 4), (2, 7)}"
    by (auto simp: far_rows_def sample_far_def table_rows_def split: option.splits)
  then have "read_row ` set (view sample_read () (far_rows (sw_table (sy_w s)) sample_far)) \<subseteq> set sample_known"
    by (auto simp: view_def sample_known_def)
  ultimately show "tiers_true sample_read () sample_schema sample_terms_found (sample_sightings s) sample_far (\<lambda>_. sample_known)"
    by (simp add: tiers_true_def q e view_def sample_known_def)
  show "closed_true sample_read () sample_schema (sample_sightings s) u (\<lambda>_. sample_known)"
    by (simp add: closed_true_def sample_sightings_def)
qed

definition sample_tiers :: "entry list" where
  "sample_tiers = [tier_entry PUBLISHED (1, Some 3) sample_schema (from_rows [(''x'', LongType)] sample_known),
     tier_entry STAGING (1, Some 3) sample_schema (from_rows [(''x'', LongType)] sample_known)]"

lemma sample_rows_out:
  assumes "name = STAGING \<or> name = PUBLISHED"
  shows "\<not> (case row_of (build sample_tiers) name of None \<Rightarrow> True
     | Some row \<Rightarrow> mr_record_count row \<noteq> Some 0 \<and>
         (\<forall>t \<in> set sample_terms_found. term_may_match (mf_kinds (build sample_tiers)) row t))"
  using assms by (elim disjE; hypsubst) code_simp+

lemma sample_pruned:
  assumes "map snd (sw_table (sy_w s)) = [[(1, 4), (2, 7)]]"
  shows "tiers_needed sample_schema (at_tiers (sample_sightings s)) sample_terms_found ''v'' (table_span (sw_table (sy_w s))) None =
    (False, False)"
proof -
  have "tiers_needed sample_schema (at_tiers (sample_sightings s)) sample_terms_found ''v''
      (table_span (sw_table (sy_w s))) None = (STAGING \<in> set (prune (Some (build sample_tiers)) TIERS sample_terms_found),
        PUBLISHED \<in> set (prune (Some (build sample_tiers)) TIERS sample_terms_found))"
    unfolding tiers_needed_def sample_entries(2) [OF assms] sample_tiers_def by (simp add: Let_def)
  moreover have "prune (Some (build sample_tiers)) TIERS sample_terms_found = []"
    unfolding prune_def TIERS_def using sample_rows_out by simp
  ultimately show ?thesis by simp
qed

lemma query_answers_its_where_witness:
  "\<exists>s. tiers_needed sample_schema (at_tiers (sample_sightings s)) sample_terms_found ''v'' (table_span (sw_table (sy_w s))) None =
      (False, False) \<and>
    (3, sample_read () 1) \<in> set (filter (\<lambda>x. wanted sample_duck ''Q'' sample_holds (read_row x))
      (query_rows sample_read () sample_schema sample_terms_found True (sample_sightings s)))"
proof -
  from sample_published [of sample_read] obtain s where r: "reach read_init (read_step sample_place id sample_read) (s, empty_tail)"
    and "sample_registered s" by blast
  then have s: "map snd (sw_table (sy_w s)) = [[(1, 4), (2, 7)]]"
      "seq_of (sw_db (sy_w s)) = 3" "published_through (sw_db (sy_w s)) = Some 0"
      "sy_log s = {(1, 4), (2, 7), (3, 1)}" "sy_pub s = {(1, 4), (2, 7)}"
      "db_rows (sw_db (sy_w s)) = [(1, 4), (2, 7), (3, 1)]" by (simp_all add: sample_registered_def)
  let ?q = "sample_sightings s"
  let ?answer = "filter (\<lambda>x. wanted sample_duck ''Q'' sample_holds (read_row x))
     (query_rows sample_read () sample_schema sample_terms_found True ?q)"
  from sample_terms obtain cache where t: "terms sample_duck ''Q'' sample_schema [] = (Some sample_terms_found, cache)" ..
  have q: "at_first ?q = sw_table (sy_w s)" "at_lowest ?q = sw_db (sy_w s)" "at_buffer ?q = sw_db (sy_w s)"
    "at_tail ?q = empty_tail" "at_staging ?q = sw_table (sy_w s)" "at_published ?q = Some sample_far"
    by (simp_all add: sample_sightings_def)
  have far: "set (table_rows sample_far) = sy_pub s" "distinct (map fst (table_rows sample_far))"
    by (simp_all add: sample_far_def table_rows_def s(5))
  have lim: "OFFSET \<in> fst ` set sample_schema" "seq_of (sw_db (sy_w s)) \<le> NO_ROW_LIMIT"
    by (simp_all add: s(2) NO_ROW_LIMIT_def sample_schema_def)
  let ?t = "query_tail sample_read () sample_schema sample_terms_found ?q"
  note all = query_answers_its_where [where arrange = id and answer = ?answer,
      OF _ r steps_refl steps_refl steps_refl steps_refl q s(3) far reach_init t sample_where_laws sample_plain
      _ lim sample_true [OF s(1)] refl]
  obtain upper where up: "3 < upper" and all: "{(i, v). \<exists>r. (i, r) \<in> sy_log s \<and> i < upper \<and> v = sample_read () r \<and>
      wanted sample_duck ''Q'' sample_holds (read_row (i, v)) \<and> i \<notin> holes (sw_table (sy_w s)) 0} \<subseteq> set ?answer"
    using all s(2) sample_x by auto
  have "wanted sample_duck ''Q'' sample_holds (read_row (3, sample_read () 1))"
    by (simp add: wanted_def sample_query sample_holds_def read_row_def sample_read_def OFFSET_def)
  then have "(3, sample_read () 1) \<in> {(i, v). \<exists>r. (i, r) \<in> sy_log s \<and> i < upper \<and> v = sample_read () r \<and>
      wanted sample_duck ''Q'' sample_holds (read_row (i, v)) \<and> i \<notin> holes (sw_table (sy_w s)) 0}"
    using up by (simp add: s(4) holes_def)
  with all have "(3, sample_read () 1) \<in> set ?answer" by (rule subsetD)
  with sample_pruned [OF s(1)] show ?thesis by blast
qed

end
