(* ===== verification/Spec2Isabelle.thy ===== *)
theory Spec2Isabelle
  imports Claims Lease_System Manifest Tiers Stored_Tiers Published_Contract Tail_Cache Row_Contract Eviction_Contract Row_Groups_Contract Publishing_Contract Seal_Progress Prune_Terms Query_Contract
begin

text \<open>
  A verification development of litelink.
\<close>

end
